(* ===== verification/Prelude.thy ===== *)
theory Prelude
  imports Main "HOL-Library.Word" "HOL-Library.Multiset"
begin

text \<open>
  Shared vocabulary of the development: the Rust integer types and the library operations
  the sources call (\<open>saturating_add\<close>, \<open>checked_add\<close>, \<open>next_multiple_of\<close>,
  \<open>partition_point\<close>, \<open>as_chunks\<close>, \<open>to_le_bytes\<close>), results with an error, the interface
  of a fixed-width wire record, and the interface of a machine whose operations keep an
  invariant.

  Wire fields keep their width as words. Sample positions and clock readings, which the
  sources hold in \<open>u64\<close>, are natural numbers with the saturation of the source written
  out against \<open>u64_max\<close>.
\<close>

unbundle bit_operations_syntax

named_theorems inv_intros \<open>preservation of the component invariants\<close>

section \<open>Integers\<close>

type_synonym u8 = "8 word"
type_synonym u16 = "16 word"
type_synonym i16 = "16 word"
type_synonym u32 = "32 word"
type_synonym u64 = "64 word"
type_synonym byte = u8

text \<open>A \<open>u64\<close> read as a natural number is at most this.\<close>

definition u64_max :: nat where
  "u64_max = 18446744073709551615"

definition sat_add :: "nat \<Rightarrow> nat \<Rightarrow> nat" where
  "sat_add a b = min (a + b) u64_max"

definition sat_mul :: "nat \<Rightarrow> nat \<Rightarrow> nat" where
  "sat_mul a b = min (a * b) u64_max"

definition checked_add :: "nat \<Rightarrow> nat \<Rightarrow> nat option" where
  "checked_add a b = (if a + b \<le> u64_max then Some (a + b) else None)"

definition checked_sub :: "nat \<Rightarrow> nat \<Rightarrow> nat option" where
  "checked_sub a b = (if b \<le> a then Some (a - b) else None)"

definition round_down_to :: "nat \<Rightarrow> nat \<Rightarrow> nat" where
  "round_down_to grid x = x - x mod grid"

definition div_ceil :: "nat \<Rightarrow> nat \<Rightarrow> nat" where
  "div_ceil a b = (if a mod b = 0 then a div b else a div b + 1)"

definition next_multiple_of :: "nat \<Rightarrow> nat \<Rightarrow> nat" where
  "next_multiple_of x m = (if x mod m = 0 then x else x + (m - x mod m))"

lemma sat_add_le [simp]: "sat_add a b \<le> u64_max"
  by (simp add: sat_add_def)

lemma sat_add_mono: "a \<le> a' \<Longrightarrow> b \<le> b' \<Longrightarrow> sat_add a b \<le> sat_add a' b'"
  by (auto simp: sat_add_def min_def)

lemma sat_add_assoc: "sat_add (sat_add a b) c = sat_add a (sat_add b c)"
  by (simp add: sat_add_def)

lemma sat_mul_add: "sat_add (sat_mul a k) (sat_mul b k) = sat_mul (a + b) k"
  by (auto simp: sat_add_def sat_mul_def min_def algebra_simps)

lemma sat_mul_0 [simp]: "sat_mul 0 k = 0"
  by (simp add: sat_mul_def)

lemma sat_add_0 [simp]: "a \<le> u64_max \<Longrightarrow> sat_add a 0 = a"
  by (simp add: sat_add_def)

lemma sat_add_eq: "a + b \<le> u64_max \<Longrightarrow> sat_add a b = a + b"
  by (simp add: sat_add_def)

lemma round_down_to_le: "round_down_to grid x \<le> x"
  by (simp add: round_down_to_def)

lemma round_down_to_dvd: "grid dvd round_down_to grid x"
  by (simp add: round_down_to_def minus_mod_eq_mult_div)

lemma round_down_to_gap: "0 < grid \<Longrightarrow> x < round_down_to grid x + grid"
proof -
  assume "0 < grid"
  then have "x mod grid < grid" and "x mod grid \<le> x" by simp_all
  then show ?thesis unfolding round_down_to_def by linarith
qed

lemma round_down_to_id: "grid dvd x \<Longrightarrow> round_down_to grid x = x"
  by (simp add: round_down_to_def)

lemma next_multiple_of_ge: "x \<le> next_multiple_of x m"
  by (simp add: next_multiple_of_def)

lemma next_multiple_of_dvd: "0 < m \<Longrightarrow> m dvd next_multiple_of x m"
proof (cases "x mod m = 0")
  case False
  assume "0 < m"
  then have "x + (m - x mod m) = (x div m + 1) * m"
    by (metis add.commute add_diff_inverse_nat add_mult_distrib div_mult_mod_eq
        group_cancel.add1 less_imp_not_less mod_less_divisor mult_1)
  with False show ?thesis by (simp add: next_multiple_of_def)
qed (auto simp: next_multiple_of_def)

lemma unat_u8_less: "unat (w :: u8) < 256"
  using unsigned_less [of w, where 'a = nat] by simp

lemma unat_u16_less: "unat (w :: u16) < 65536"
  using unsigned_less [of w, where 'a = nat] by simp

lemma unat_u32_less: "unat (w :: u32) < 4294967296"
  using unsigned_less [of w, where 'a = nat] by simp

lemma unat_u64_less: "unat (w :: u64) < 18446744073709551616"
  using unsigned_less [of w, where 'a = nat] by simp

lemma u64_word_le: "unat (w :: u64) \<le> u64_max"
  using unat_u64_less [of w] by (simp add: u64_max_def)

section \<open>Results\<close>

text \<open>\<open>Result<T, E>\<close> is \<open>'e + 'a\<close>, with the error on the left; \<open>?\<close> is \<open>rbind\<close>.\<close>

type_synonym ('e, 'a) result = "'e + 'a"

definition rbind :: "('e, 'a) result \<Rightarrow> ('a \<Rightarrow> ('e, 'b) result) \<Rightarrow> ('e, 'b) result" where
  "rbind r f = (case r of Inl e \<Rightarrow> Inl e | Inr a \<Rightarrow> f a)"

lemma rbind_simps [simp]:
  "rbind (Inl e) f = Inl e"
  "rbind (Inr a) f = f a"
  by (simp_all add: rbind_def)

lemma rbind_Inr_iff: "rbind r f = Inr b \<longleftrightarrow> (\<exists>a. r = Inr a \<and> f a = Inr b)"
  by (cases r) simp_all

lemma rbind_Inl_iff:
  "rbind r f = Inl e \<longleftrightarrow> r = Inl e \<or> (\<exists>a. r = Inr a \<and> f a = Inl e)"
  by (cases r) simp_all

definition ok_or :: "'e \<Rightarrow> 'a option \<Rightarrow> ('e, 'a) result" where
  "ok_or e x = (case x of None \<Rightarrow> Inl e | Some a \<Rightarrow> Inr a)"

lemma ok_or_Inr_iff [simp]: "ok_or e x = Inr a \<longleftrightarrow> x = Some a"
  by (cases x) (simp_all add: ok_or_def)

section \<open>Lists\<close>

text \<open>The index \<open>partition_point\<close> returns: how many leading elements satisfy the predicate.\<close>

definition partition_point :: "('a \<Rightarrow> bool) \<Rightarrow> 'a list \<Rightarrow> nat" where
  "partition_point P xs = length (takeWhile P xs)"

text \<open>
  The element \<open>iter().filter(P).max_by_key(k)\<close> selects, by index: the last of the maximal ones.
\<close>

fun last_max :: "('a \<Rightarrow> bool) \<Rightarrow> ('a \<Rightarrow> nat) \<Rightarrow> 'a list \<Rightarrow> nat option" where
  "last_max P key [] = None"
| "last_max P key (x # xs) =
     (case last_max P key xs of
        Some i \<Rightarrow> if P x \<and> key (xs ! i) < key x then Some 0 else Some (Suc i)
      | None \<Rightarrow> if P x then Some 0 else None)"

lemma last_max_None: "last_max P key xs = None \<longleftrightarrow> (\<forall>x \<in> set xs. \<not> P x)"
  by (induction xs) (auto split: option.splits)

lemma last_max_Some:
  "last_max P key xs = Some i \<Longrightarrow>
     i < length xs \<and> P (xs ! i) \<and> (\<forall>x \<in> set xs. P x \<longrightarrow> key x \<le> key (xs ! i))"
proof (induction xs arbitrary: i)
  case (Cons x xs)
  show ?case
  proof (cases "last_max P key xs")
    case None
    then have "\<forall>y \<in> set xs. \<not> P y" by (simp add: last_max_None)
    then show ?thesis using Cons.prems None by (auto split: if_splits)
  next
    case (Some j)
    with Cons.IH have "j < length xs" "P (xs ! j)" "\<forall>y \<in> set xs. P y \<longrightarrow> key y \<le> key (xs ! j)" by auto
    then show ?thesis using Cons.prems Some by (auto split: if_splits intro: order.trans less_imp_le)
  qed
qed simp

text \<open>\<open>Iterator::position\<close>, the index of the first element that satisfies the predicate, and \<open>Vec::remove\<close>.\<close>

fun position :: "('a \<Rightarrow> bool) \<Rightarrow> 'a list \<Rightarrow> nat option" where
  "position P [] = None"
| "position P (x # xs) = (if P x then Some 0 else map_option Suc (position P xs))"

definition remove_nth :: "nat \<Rightarrow> 'a list \<Rightarrow> 'a list" where
  "remove_nth i xs = take i xs @ drop (Suc i) xs"

lemma position_less: "position P xs = Some i \<Longrightarrow> i < length xs \<and> P (xs ! i)"
  by (induction xs arbitrary: i) (auto split: if_splits)

lemma position_None: "position P xs = None \<longleftrightarrow> (\<forall>x \<in> set xs. \<not> P x)"
  by (induction xs) auto

lemma find_position: "find P xs = map_option ((!) xs) (position P xs)"
  by (induction xs) (auto simp: option.map_comp comp_def)

lemma position_update: "position P xs = Some i \<Longrightarrow> P x \<Longrightarrow> position P (xs[i := x]) = Some i"
  by (induction xs arbitrary: i) (auto split: if_splits nat.split)

lemma length_remove_nth: "i < length xs \<Longrightarrow> length (remove_nth i xs) = length xs - 1"
  by (auto simp: remove_nth_def)

lemma remove_nth_update: "remove_nth i (xs[i := x]) = remove_nth i xs"
  by (simp add: remove_nth_def)

lemma list_all_remove_nth: "list_all P xs \<Longrightarrow> list_all P (remove_nth i xs)"
  by (auto simp: remove_nth_def list_all_iff dest: in_set_takeD in_set_dropD)

lemma mset_remove_nth: "i < length xs \<Longrightarrow> mset (f (xs ! i) # map f (remove_nth i xs)) = mset (map f xs)"
proof -
  assume i: "i < length xs"
  have "xs = take i xs @ xs ! i # drop (Suc i) xs" using i by (rule id_take_nth_drop)
  then have "map f xs = map f (take i xs) @ f (xs ! i) # map f (drop (Suc i) xs)" by (metis map_append list.simps(9))
  then show ?thesis by (simp add: remove_nth_def)
qed

lemma position_distinct:
  assumes "distinct (map f xs)" "i < length xs"
  shows "position (\<lambda>x. f x = f (xs ! i)) xs = Some i"
  using assms
proof (induction xs arbitrary: i)
  case (Cons x xs)
  then show ?case by (cases i) auto
qed simp

text \<open>In a list whose elements have distinct keys, replacing or removing one leaves the others with other keys.\<close>

lemma update_others:
  assumes "distinct (map f xs)" "i < length xs" "y \<in> set (xs[i := x])"
  shows "y = x \<or> (y \<in> set xs \<and> f y \<noteq> f (xs ! i))"
proof -
  obtain j where j: "j < length xs" "y = xs[i := x] ! j" using assms(3) by (auto simp: in_set_conv_nth)
  show ?thesis
  proof (cases "j = i")
    case False
    then show ?thesis using j assms nth_eq_iff_index_eq [OF assms(1), of j i] by simp
  qed (use j in simp)
qed

lemma remove_others:
  assumes "distinct (map f xs)" "i < length xs" "y \<in> set (remove_nth i xs)"
  shows "y \<in> set xs \<and> f y \<noteq> f (xs ! i)"
proof -
  have "xs = take i xs @ xs ! i # drop (Suc i) xs" using assms(2) by (rule id_take_nth_drop)
  then have "distinct (map f (take i xs @ xs ! i # drop (Suc i) xs))" using assms(1) by simp
  moreover have "y \<in> set (take i xs) \<union> set (drop (Suc i) xs)" using assms(3) by (simp add: remove_nth_def)
  ultimately show ?thesis
    by (auto dest: in_set_takeD in_set_dropD) (metis imageI)+
qed

lemma distinct_remove_nth: "distinct (map f xs) \<Longrightarrow> distinct (map f (remove_nth i xs))"
proof -
  assume d: "distinct (map f xs)"
  have "map f (remove_nth i xs) = take i (map f xs) @ drop (Suc i) (map f xs)"
    by (simp add: remove_nth_def take_map drop_map)
  moreover have "set (take i (map f xs)) \<inter> set (drop (Suc i) (map f xs)) = {}"
    using set_take_disj_set_drop_if_distinct [OF d, of i "Suc i"] by simp
  ultimately show ?thesis using d by (simp add: distinct_take distinct_drop)
qed

text \<open>\<open>as_chunks::<N>().0\<close>: the whole chunks; a shorter tail is left out.\<close>

fun as_chunks :: "nat \<Rightarrow> 'a list \<Rightarrow> 'a list list" where
  "as_chunks n xs =
     (if n = 0 \<or> length xs < n then [] else take n xs # as_chunks n (drop n xs))"

declare as_chunks.simps [simp del]

lemma as_chunks_Nil [simp]: "as_chunks n [] = []"
  by (subst as_chunks.simps) auto

lemma as_chunks_append:
  "0 < n \<Longrightarrow> length xs = n \<Longrightarrow> as_chunks n (xs @ ys) = xs # as_chunks n ys"
  by (subst as_chunks.simps) auto

lemma as_chunks_concat:
  assumes "0 < n" and "\<forall>x \<in> set xss. length x = n"
  shows "as_chunks n (concat xss) = xss"
  using assms(2) by (induction xss) (simp_all add: as_chunks_append assms(1))

lemma as_chunks_length: "c \<in> set (as_chunks n xs) \<Longrightarrow> length c = n"
proof (induction n xs rule: as_chunks.induct)
  case (1 n xs)
  then show ?case by (subst (asm) as_chunks.simps) (auto split: if_splits)
qed

lemma concat_as_chunks: "n dvd length xs \<Longrightarrow> 0 < n \<Longrightarrow> concat (as_chunks n xs) = xs"
proof (induction n xs rule: as_chunks.induct)
  case (1 n xs)
  show ?case
  proof (cases "length xs < n")
    case True
    with "1.prems" have "xs = []" by (auto dest: nat_dvd_not_less)
    then show ?thesis by simp
  next
    case False
    then have "n dvd length (drop n xs)"
      using "1.prems"(1) by (simp add: dvd_diff_nat)
    with "1.IH" "1.prems"(2) False have "concat (as_chunks n (drop n xs)) = drop n xs"
      by simp
    with False "1.prems"(2) show ?thesis by (subst as_chunks.simps) simp
  qed
qed

lemma length_as_chunks: "0 < n \<Longrightarrow> length (as_chunks n xs) = length xs div n"
proof (induction n xs rule: as_chunks.induct)
  case (1 n xs)
  show ?case
  proof (cases "length xs < n")
    case False
    with 1 have "length (as_chunks n (drop n xs)) = (length xs - n) div n" by simp
    with False "1.prems" show ?thesis
      by (subst as_chunks.simps) (simp add: le_div_geq)
  qed (subst as_chunks.simps, simp)
qed

section \<open>Little-endian fields\<close>

fun le_bytes :: "nat \<Rightarrow> nat \<Rightarrow> byte list" where
  "le_bytes 0 x = []"
| "le_bytes (Suc n) x = word_of_nat (x mod 256) # le_bytes n (x div 256)"

fun of_le_bytes :: "byte list \<Rightarrow> nat" where
  "of_le_bytes [] = 0"
| "of_le_bytes (b # bs) = unat b + 256 * of_le_bytes bs"

lemma length_le_bytes [simp]: "length (le_bytes n x) = n"
  by (induction n arbitrary: x) simp_all

lemma le_bytes_2: "le_bytes 2 x = [word_of_nat (x mod 256), word_of_nat (x div 256 mod 256)]"
  by (simp add: numeral_2_eq_2)

lemma of_le_bytes_bound: "of_le_bytes bs < 256 ^ length bs"
proof (induction bs)
  case (Cons b bs)
  have "unat b < 256" by (rule unat_u8_less)
  with Cons show ?case by simp
qed simp

lemma of_le_le_bytes: "x < 256 ^ n \<Longrightarrow> of_le_bytes (le_bytes n x) = x"
proof (induction n arbitrary: x)
  case (Suc n)
  have "x div 256 < 256 ^ n" using Suc.prems by (simp add: less_mult_imp_div_less)
  then have "of_le_bytes (le_bytes n (x div 256)) = x div 256" by (rule Suc.IH)
  then show ?case by (simp add: unat_of_nat)
qed simp

lemma le_of_le_bytes: "le_bytes (length bs) (of_le_bytes bs) = bs"
proof (induction bs)
  case (Cons b bs)
  have b: "unat b < 256" by (rule unat_u8_less)
  then have "(unat b + 256 * of_le_bytes bs) mod 256 = unat b"
    and "(unat b + 256 * of_le_bytes bs) div 256 = of_le_bytes bs" by simp_all
  with Cons show ?case by simp
qed simp

definition u64_le :: "u64 \<Rightarrow> byte list" where
  "u64_le w = le_bytes 8 (unat w)"

definition u32_le :: "u32 \<Rightarrow> byte list" where
  "u32_le w = le_bytes 4 (unat w)"

definition u16_le :: "u16 \<Rightarrow> byte list" where
  "u16_le w = le_bytes 2 (unat w)"

definition u64_of_le :: "byte list \<Rightarrow> u64" where
  "u64_of_le bs = word_of_nat (of_le_bytes bs)"

definition u32_of_le :: "byte list \<Rightarrow> u32" where
  "u32_of_le bs = word_of_nat (of_le_bytes bs)"

definition u16_of_le :: "byte list \<Rightarrow> u16" where
  "u16_of_le bs = word_of_nat (of_le_bytes bs)"

lemma le_length [simp]:
  "length (u64_le a) = 8" "length (u32_le b) = 4" "length (u16_le c) = 2"
  by (simp_all add: u64_le_def u32_le_def u16_le_def)

lemma u64_of_le_u64_le [simp]: "u64_of_le (u64_le w) = w"
  using unat_u64_less [of w] by (simp add: u64_of_le_def u64_le_def of_le_le_bytes)

lemma u32_of_le_u32_le [simp]: "u32_of_le (u32_le w) = w"
  using unat_u32_less [of w] by (simp add: u32_of_le_def u32_le_def of_le_le_bytes)

lemma u16_of_le_u16_le [simp]: "u16_of_le (u16_le w) = w"
  using unat_u16_less [of w] by (simp add: u16_of_le_def u16_le_def of_le_le_bytes)

lemma u64_le_of_le: "length bs = 8 \<Longrightarrow> u64_le (u64_of_le bs) = bs"
  using of_le_bytes_bound [of bs] le_of_le_bytes [of bs]
  by (simp add: u64_of_le_def u64_le_def unat_of_nat)

lemma u32_le_of_le: "length bs = 4 \<Longrightarrow> u32_le (u32_of_le bs) = bs"
  using of_le_bytes_bound [of bs] le_of_le_bytes [of bs]
  by (simp add: u32_of_le_def u32_le_def unat_of_nat)

lemma u16_le_of_le: "length bs = 2 \<Longrightarrow> u16_le (u16_of_le bs) = bs"
  using of_le_bytes_bound [of bs] le_of_le_bytes [of bs]
  by (simp add: u16_of_le_def u16_le_def unat_of_nat)

lemmas le_roundtrips = u64_le_of_le u32_le_of_le u16_le_of_le

section \<open>Interfaces\<close>

text \<open>
  A wire record of a fixed width whose encoding is one to one: what the payload readers of
  the audio codec rely on. A payload is the concatenation of its records' encodings.
\<close>

locale wire_record =
  fixes width :: nat
    and to_bytes :: "'r \<Rightarrow> byte list"
    and from_bytes :: "byte list \<Rightarrow> 'r"
  assumes width_pos: "0 < width"
    and to_width: "length (to_bytes r) = width"
    and from_to: "from_bytes (to_bytes r) = r"
    and to_from: "length bs = width \<Longrightarrow> to_bytes (from_bytes bs) = bs"
begin

lemma decode_encoded: "map from_bytes (as_chunks width (concat (map to_bytes rs))) = rs"
proof -
  have "as_chunks width (concat (map to_bytes rs)) = map to_bytes rs"
    by (rule as_chunks_concat) (auto simp: width_pos to_width)
  then show ?thesis by (simp add: from_to o_def)
qed

lemma encode_decoded:
  assumes "width dvd length bs"
  shows "concat (map to_bytes (map from_bytes (as_chunks width bs))) = bs"
proof -
  have "map (\<lambda>c. to_bytes (from_bytes c)) (as_chunks width bs) = as_chunks width bs"
    by (rule map_idI) (simp add: to_from as_chunks_length)
  then show ?thesis using assms width_pos by (simp add: o_def concat_as_chunks)
qed

lemma decoded_count: "length (map from_bytes (as_chunks width bs)) = length bs div width"
  using width_pos by (simp add: length_as_chunks)

lemma encoded_length: "length (concat (map to_bytes rs)) = width * length rs"
  by (induction rs) (simp_all add: to_width)

end

text \<open>
  A machine whose every operation keeps an invariant: whatever sequence of operations is
  run from a state that satisfies it, the invariant holds at the end.
\<close>

locale invariant_machine =
  fixes step :: "'op \<Rightarrow> 's \<Rightarrow> 's"
    and inv :: "'s \<Rightarrow> bool"
  assumes step_inv: "inv s \<Longrightarrow> inv (step op s)"
begin

lemma run_inv: "inv s \<Longrightarrow> inv (fold step ops s)"
  by (induction ops arbitrary: s) (simp_all add: step_inv)

end

text \<open>
  A machine whose operations may fail: a run stops at the first operation that does. Where no
  operation fails on a state that satisfies the invariant, every run returns and keeps it.
\<close>

fun run_steps :: "('op \<Rightarrow> 's \<Rightarrow> 's option) \<Rightarrow> 'op list \<Rightarrow> 's \<Rightarrow> 's option" where
  "run_steps step [] s = Some s"
| "run_steps step (op # ops) s = (case step op s of None \<Rightarrow> None | Some s' \<Rightarrow> run_steps step ops s')"

locale total_machine =
  fixes step :: "'op \<Rightarrow> 's \<Rightarrow> 's option"
    and inv :: "'s \<Rightarrow> bool"
  assumes step_total: "inv s \<Longrightarrow> \<exists>s'. step op s = Some s' \<and> inv s'"
begin

lemma run_total: "inv s \<Longrightarrow> \<exists>s'. run_steps step ops s = Some s' \<and> inv s'"
proof (induction ops arbitrary: s)
  case (Cons op ops)
  then show ?case using step_total [OF Cons.prems, of op] by auto
qed simp

lemma run_keeps: "inv s \<Longrightarrow> run_steps step ops s = Some s' \<Longrightarrow> inv s'"
  using run_total [of s ops] by auto

lemma run_mono:
  assumes "\<And>s op s'. inv s \<Longrightarrow> step op s = Some s' \<Longrightarrow> R s s'"
    and "\<And>s. R s s" "\<And>a b c. R a b \<Longrightarrow> R b c \<Longrightarrow> R a c"
  shows "inv s \<Longrightarrow> run_steps step ops s = Some s' \<Longrightarrow> R s s'"
proof (induction ops arbitrary: s)
  case (Cons op ops)
  then obtain s1 where s1: "step op s = Some s1" "run_steps step ops s1 = Some s'" by (auto split: option.splits)
  have "inv s1" using step_total [OF Cons.prems(1), of op] s1(1) by simp
  then show ?case using Cons.IH s1 assms(1) [OF Cons.prems(1)] assms(3) by blast
qed (simp add: assms(2))

end

end
