(* ===== verification/Capabilities.thy ===== *)
theory Capabilities
  imports Prelude
begin

text \<open>
  The capabilities a device's hello announces (\<open>Capability\<close> and \<open>Capabilities\<close> in
  \<open>crates/protocol/src/vocab.rs\<close>): the known names with their wire spellings, how a list of
  announced names is sorted into known and unknown ones, and the eight a device must announce
  to be admitted.
\<close>

datatype capability =
    CapAudioTimeline | CapUplinkSubscriptions | CapDeviceWake | CapRenderReference |
    CapRenderProgress | CapFocusLeases | CapAlertCache | CapTurnProtocol | CapLeds |
    CapLedAnim | CapButtons | CapButtonHold | CapAmbientLight | CapAlertPrefetch |
    CapLocalWakeChime | CapNoInputChime | CapAnnouncementChime | CapOpenRules |
    CapNearMiss | CapAfeMetadata | CapWifiControl | CapBleProxy | CapPrivacyMute |
    CapScreenWake | CapScreenOverlay | CapTurnView | CapTimerView | CapKioskPlugin

fun capability_str :: "capability \<Rightarrow> string" where
  "capability_str CapAudioTimeline = ''audio_timeline_v1''"
| "capability_str CapUplinkSubscriptions = ''uplink_leases_v1''"
| "capability_str CapDeviceWake = ''device_wake_v1''"
| "capability_str CapRenderReference = ''render_reference_v1''"
| "capability_str CapRenderProgress = ''render_progress_v1''"
| "capability_str CapFocusLeases = ''focus_leases_v1''"
| "capability_str CapAlertCache = ''alert_cache_v1''"
| "capability_str CapTurnProtocol = ''turn_protocol_v1''"
| "capability_str CapLeds = ''leds''"
| "capability_str CapLedAnim = ''led_anim''"
| "capability_str CapButtons = ''buttons''"
| "capability_str CapButtonHold = ''button_hold''"
| "capability_str CapAmbientLight = ''ambient_light''"
| "capability_str CapAlertPrefetch = ''alert_prefetch''"
| "capability_str CapLocalWakeChime = ''local_wake_chime''"
| "capability_str CapNoInputChime = ''no_input_chime''"
| "capability_str CapAnnouncementChime = ''announcement_chime''"
| "capability_str CapOpenRules = ''open_rules_v1''"
| "capability_str CapNearMiss = ''near_miss_v1''"
| "capability_str CapAfeMetadata = ''afe_metadata_v1''"
| "capability_str CapWifiControl = ''wifi_control''"
| "capability_str CapBleProxy = ''ble_proxy''"
| "capability_str CapPrivacyMute = ''privacy_mute''"
| "capability_str CapScreenWake = ''screen_wake''"
| "capability_str CapScreenOverlay = ''screen_overlay''"
| "capability_str CapTurnView = ''turn_view_v1''"
| "capability_str CapTimerView = ''timer_view_v1''"
| "capability_str CapKioskPlugin = ''kiosk_plugin''"

definition ALL_CAPABILITIES :: "capability list" where
  "ALL_CAPABILITIES =
     [CapAudioTimeline, CapUplinkSubscriptions, CapDeviceWake, CapRenderReference,
      CapRenderProgress, CapFocusLeases, CapAlertCache, CapTurnProtocol, CapLeds,
      CapLedAnim, CapButtons, CapButtonHold, CapAmbientLight, CapAlertPrefetch,
      CapLocalWakeChime, CapNoInputChime, CapAnnouncementChime, CapOpenRules, CapNearMiss,
      CapAfeMetadata, CapWifiControl, CapBleProxy, CapPrivacyMute, CapScreenWake,
      CapScreenOverlay, CapTurnView, CapTimerView, CapKioskPlugin]"

text \<open>\<open>from_wire\<close> of the \<open>wire_enum!\<close> macro: the variant with exactly this spelling.\<close>

definition capability_from_wire :: "string \<Rightarrow> capability option" where
  "capability_from_wire text = find (\<lambda>c. capability_str c = text) ALL_CAPABILITIES"

definition REQUIRED_CAPABILITIES :: "capability list" where
  "REQUIRED_CAPABILITIES =
     [CapAudioTimeline, CapUplinkSubscriptions, CapDeviceWake, CapRenderReference,
      CapRenderProgress, CapFocusLeases, CapAlertCache, CapTurnProtocol]"

record capabilities =
  cap_known :: "capability set"
  cap_unknown :: "string set"

definition capabilities_default :: capabilities where
  "capabilities_default = \<lparr>cap_known = {}, cap_unknown = {}\<rparr>"

fun announce :: "string \<Rightarrow> capabilities \<Rightarrow> capabilities" where
  "announce name out =
     (case capability_from_wire name of
        Some c \<Rightarrow> out\<lparr>cap_known := insert c (cap_known out)\<rparr>
      | None \<Rightarrow> out\<lparr>cap_unknown := insert name (cap_unknown out)\<rparr>)"

definition capabilities_from_names :: "string list \<Rightarrow> capabilities" where
  "capabilities_from_names names = fold announce names capabilities_default"

definition capabilities_contains :: "capability \<Rightarrow> capabilities \<Rightarrow> bool" where
  "capabilities_contains c caps \<longleftrightarrow> c \<in> cap_known caps"

definition missing_required :: "capabilities \<Rightarrow> capability list" where
  "missing_required caps = filter (\<lambda>c. \<not> capabilities_contains c caps) REQUIRED_CAPABILITIES"

section \<open>Lemmas\<close>

lemma capability_wire: "capability_from_wire (capability_str c) = Some c"
  by (cases c) (simp_all add: capability_from_wire_def ALL_CAPABILITIES_def)

lemma capability_from_wire_Some: "capability_from_wire text = Some c \<longleftrightarrow> text = capability_str c"
proof
  assume "capability_from_wire text = Some c"
  then show "text = capability_str c" by (auto simp: capability_from_wire_def find_Some_iff)
qed (simp add: capability_wire)

lemma capability_str_inj [simp]: "capability_str c = capability_str d \<longleftrightarrow> c = d"
  by (metis capability_wire option.inject)

lemma fold_announce:
  "cap_known (fold announce names caps) = cap_known caps \<union> {c. capability_str c \<in> set names}"
  "cap_unknown (fold announce names caps) =
     cap_unknown caps \<union> {n \<in> set names. capability_from_wire n = None}"
  by (induction names arbitrary: caps)
    (auto simp: capability_from_wire_Some capability_wire split: option.splits)

section \<open>Properties\<close>

text \<open>The capabilities read from a hello are exactly those it names: a capability is known exactly
  when its wire spelling was announced, every other announced name is kept as unknown, and the
  required capabilities reported missing are exactly those not announced, in order.\<close>

theorem capabilities_read_exactly:
  "cap_known (capabilities_from_names names) = {c. capability_str c \<in> set names}
   \<and> cap_unknown (capabilities_from_names names) = set names - range capability_str
   \<and> missing_required (capabilities_from_names names)
       = filter (\<lambda>c. capability_str c \<notin> set names) REQUIRED_CAPABILITIES"
proof -
  have known: "cap_known (capabilities_from_names names) = {c. capability_str c \<in> set names}"
    by (simp add: capabilities_from_names_def capabilities_default_def fold_announce)
  have "capability_from_wire n = None \<longleftrightarrow> n \<notin> range capability_str" for n
    using capability_from_wire_Some [of n] by (cases "capability_from_wire n") auto
  then have "cap_unknown (capabilities_from_names names) = set names - range capability_str"
    by (auto simp: capabilities_from_names_def capabilities_default_def fold_announce)
  then show ?thesis using known by (simp add: missing_required_def capabilities_contains_def)
qed

end
