(* ===== verification/Ema.thy ===== *)
theory Ema
  imports Prelude
begin

text \<open>
  The EMA1 audio frame codec (\<open>crates/protocol/src/ema.rs\<close>) and the uplink stream names
  (\<open>crates/protocol/src/vocab.rs\<close>): a 64-byte little-endian header and PCM16 samples, cell
  records or AFE records. Wire fields are words of their width; lengths and the derived
  end sample, which the code computes in \<open>u64\<close> with checked addition, are natural numbers.
  A frame is the list of its bytes.
\<close>

section \<open>Constants and kinds\<close>

definition HEADER_BYTES :: nat where "HEADER_BYTES = 64"
definition MAGIC :: "byte list" where "MAGIC = [0x45, 0x4D, 0x41, 0x31]"
definition UNCERTAINTY_UNKNOWN :: u32 where "UNCERTAINTY_UNKNOWN = 0xFFFFFFFF"
definition CAPTURE_RATE :: u32 where "CAPTURE_RATE = 16000"
definition RENDER_RATE :: u32 where "RENDER_RATE = 48000"
definition CELL_SAMPLES :: nat where "CELL_SAMPLES = 512"
definition AFE_PERIOD_SAMPLES :: nat where "AFE_PERIOD_SAMPLES = 1280"
definition CELL_RECORD_BYTES :: nat where "CELL_RECORD_BYTES = 4"
definition AFE_RECORD_BYTES :: nat where "AFE_RECORD_BYTES = 14"

datatype kind = Kind_Mic | Kind_Reference | Kind_Render | Kind_Cells | Kind_Afe

text \<open>\<open>kind as u8\<close>, the discriminants of the source's \<open>repr(u8)\<close>.\<close>

fun kind_u8 :: "kind \<Rightarrow> u8" where
  "kind_u8 Kind_Mic = 1"
| "kind_u8 Kind_Reference = 2"
| "kind_u8 Kind_Render = 3"
| "kind_u8 Kind_Cells = 4"
| "kind_u8 Kind_Afe = 5"

definition kind_from_u8 :: "u8 \<Rightarrow> kind option" where
  "kind_from_u8 value =
     (if value = 1 then Some Kind_Mic
      else if value = 2 then Some Kind_Reference
      else if value = 3 then Some Kind_Render
      else if value = 4 then Some Kind_Cells
      else if value = 5 then Some Kind_Afe
      else None)"

datatype format = Pcm16 | CellV1 | AfeV1

fun format_u8 :: "format \<Rightarrow> u8" where
  "format_u8 Pcm16 = 1"
| "format_u8 CellV1 = 2"
| "format_u8 AfeV1 = 3"

fun kind_format :: "kind \<Rightarrow> format" where
  "kind_format Kind_Cells = CellV1"
| "kind_format Kind_Afe = AfeV1"
| "kind_format _ = Pcm16"

fun sample_rate :: "kind \<Rightarrow> u32" where
  "sample_rate Kind_Render = RENDER_RATE"
| "sample_rate _ = CAPTURE_RATE"

fun max_frames :: "kind \<Rightarrow> u32" where
  "max_frames Kind_Mic = 1280"
| "max_frames Kind_Reference = 1280"
| "max_frames Kind_Render = 3840"
| "max_frames Kind_Cells = 320"
| "max_frames Kind_Afe = 125"

fun samples_per_frame :: "kind \<Rightarrow> nat" where
  "samples_per_frame Kind_Cells = CELL_SAMPLES"
| "samples_per_frame Kind_Afe = AFE_PERIOD_SAMPLES"
| "samples_per_frame _ = 1"

section \<open>Flag bytes\<close>

text \<open>\<open>contains\<close> of every flag type: each flag of \<open>other\<close> is set.\<close>

definition contains_flags :: "u8 \<Rightarrow> u8 \<Rightarrow> bool" where
  "contains_flags self other \<longleftrightarrow> self AND other = other"

definition DISCONTINUITY :: u8 where "DISCONTINUITY = 1"
definition MUTED :: u8 where "MUTED = 2"
definition UNDERRUN :: u8 where "UNDERRUN = 4"
definition ESTIMATED :: u8 where "ESTIMATED = 8"
definition DIGITAL_SILENCE :: u8 where "DIGITAL_SILENCE = 16"
definition FLAGS_KNOWN :: u8 where "FLAGS_KNOWN = 0x1F"

definition flags_from_bits :: "u8 \<Rightarrow> u8 option" where
  "flags_from_bits bits = (if bits AND NOT FLAGS_KNOWN = 0 then Some bits else None)"

definition SOURCES_KNOWN :: u32 where "SOURCES_KNOWN = 0xF"

definition source_mask_from_bits :: "u32 \<Rightarrow> u8 option" where
  "source_mask_from_bits bits =
     (if bits AND NOT SOURCES_KNOWN = 0 then Some (ucast bits) else None)"

definition CELL_GAP :: u8 where "CELL_GAP = 1"
definition CELL_MUTED :: u8 where "CELL_MUTED = 2"
definition CELL_FLAGS_KNOWN :: u8 where "CELL_FLAGS_KNOWN = 0x3"

definition cell_flags_from_bits :: "u8 \<Rightarrow> u8 option" where
  "cell_flags_from_bits bits = (if bits AND NOT CELL_FLAGS_KNOWN = 0 then Some bits else None)"

definition AFE_FLAGS_KNOWN :: u8 where "AFE_FLAGS_KNOWN = 0x3F"

definition afe_flags_from_bits :: "u8 \<Rightarrow> u8 option" where
  "afe_flags_from_bits bits = (if bits AND NOT AFE_FLAGS_KNOWN = 0 then Some bits else None)"

fun kind_payload_bytes :: "kind \<Rightarrow> u8 \<Rightarrow> u32 \<Rightarrow> nat" where
  "kind_payload_bytes Kind_Cells flags frames = unat frames * CELL_RECORD_BYTES"
| "kind_payload_bytes Kind_Afe flags frames = unat frames * AFE_RECORD_BYTES"
| "kind_payload_bytes _ flags frames =
     (if contains_flags flags DIGITAL_SILENCE then 0 else unat frames * 2)"

section \<open>Records and errors\<close>

record cell =
  e_centi :: i16
  cell_flags :: u8
  cell_mask :: u8

definition E_MIN :: int where "E_MIN = -12000"
definition E_MAX :: int where "E_MAX = 0"

datatype cell_error =
    Loudness i16
  | CellUndefinedFlags u8
  | UndefinedSources u8
  | GapLoudness i16

record afe_record =
  afe_frames :: u8
  afe_flags :: u8
  afe_playback :: u8
  afe_erle_max :: u8
  afe_erle_mean :: u8
  afe_erle_frames :: u8
  afe_dtd_max :: u8
  afe_dtd_frames :: u8
  afe_rms_max :: u8
  afe_rms_mean :: u8
  afe_vad_max :: u8
  afe_vad_frames :: u8
  afe_volume :: u8
  afe_lost :: u8

definition AFE_MAX_FRAMES :: u8 where "AFE_MAX_FRAMES = 10"
definition AFE_DTD_MAX :: u8 where "AFE_DTD_MAX = 31"
definition AFE_VAD_MAX :: u8 where "AFE_VAD_MAX = 3"
definition AFE_VOLUME_MAX :: u8 where "AFE_VOLUME_MAX = 127"

datatype afe_error =
    ReservedFlags u8
  | OutOfRange string u8 u8

datatype frame_error =
    Short nat
  | Magic "byte list"
  | BadKind u8
  | UndefinedFlags u8
  | DigitalSilenceOutsideReference kind
  | Channels u8
  | BadFormat kind u8
  | ZeroEpoch
  | SampleRate kind u32
  | FrameCount kind u32
  | BadGeneration kind u32
  | BadSourceMask kind u32
  | CellAlignment u64
  | AfeAlignment u64
  | PayloadBytes nat u32
  | FrameLength u32 nat
  | SampleOverflow
  | CellRecord nat cell_error
  | AfeRecordError nat afe_error
  | UncertaintySentinel
  | PayloadTooLong nat

definition cell_from_bytes :: "byte list \<Rightarrow> cell" where
  "cell_from_bytes raw =
     \<lparr>e_centi = u16_of_le [raw ! 0, raw ! 1], cell_flags = raw ! 2, cell_mask = raw ! 3\<rparr>"

definition cell_to_bytes :: "cell \<Rightarrow> byte list" where
  "cell_to_bytes c = u16_le (e_centi c) @ [cell_flags c, cell_mask c]"

definition cell_parse :: "byte list \<Rightarrow> (cell_error, cell) result" where
  "cell_parse raw =
     (let c = cell_from_bytes raw in
      if \<not> (E_MIN \<le> sint (e_centi c) \<and> sint (e_centi c) \<le> E_MAX) then Inl (Loudness (e_centi c))
      else if cell_flags_from_bits (raw ! 2) = None then Inl (CellUndefinedFlags (raw ! 2))
      else if source_mask_from_bits (ucast (raw ! 3)) = None then Inl (UndefinedSources (raw ! 3))
      else if contains_flags (cell_flags c) CELL_GAP \<and> sint (e_centi c) \<noteq> E_MIN
        then Inl (GapLoudness (e_centi c))
      else Inr c)"

definition afe_from_bytes :: "byte list \<Rightarrow> afe_record" where
  "afe_from_bytes b =
     \<lparr>afe_frames = b ! 0, afe_flags = b ! 1, afe_playback = b ! 2, afe_erle_max = b ! 3,
      afe_erle_mean = b ! 4, afe_erle_frames = b ! 5, afe_dtd_max = b ! 6, afe_dtd_frames = b ! 7,
      afe_rms_max = b ! 8, afe_rms_mean = b ! 9, afe_vad_max = b ! 10, afe_vad_frames = b ! 11,
      afe_volume = b ! 12, afe_lost = b ! 13\<rparr>"

definition afe_to_bytes :: "afe_record \<Rightarrow> byte list" where
  "afe_to_bytes r =
     [afe_frames r, afe_flags r, afe_playback r, afe_erle_max r, afe_erle_mean r,
      afe_erle_frames r, afe_dtd_max r, afe_dtd_frames r, afe_rms_max r, afe_rms_mean r,
      afe_vad_max r, afe_vad_frames r, afe_volume r, afe_lost r]"

text \<open>The field bounds of \<open>AfeRecord::parse\<close>, in the order the code checks them.\<close>

definition afe_bounds :: "afe_record \<Rightarrow> (string \<times> u8 \<times> u8) list" where
  "afe_bounds r =
     [(''frames'', afe_frames r, AFE_MAX_FRAMES),
      (''playback'', afe_playback r, afe_frames r),
      (''erle_frames'', afe_erle_frames r, afe_frames r),
      (''dtd_frames'', afe_dtd_frames r, afe_frames r),
      (''vad_frames'', afe_vad_frames r, afe_frames r),
      (''dtd_max'', afe_dtd_max r, AFE_DTD_MAX),
      (''vad_max'', afe_vad_max r, AFE_VAD_MAX),
      (''volume'', afe_volume r, AFE_VOLUME_MAX)]"

definition afe_parse :: "byte list \<Rightarrow> (afe_error, afe_record) result" where
  "afe_parse raw =
     (if afe_flags_from_bits (raw ! 1) = None then Inl (ReservedFlags (raw ! 1))
      else let r = afe_from_bytes raw in
        case find (\<lambda>(_, value, bound). value > bound) (afe_bounds r) of
          Some (field, value, bound) \<Rightarrow> Inl (OutOfRange field value bound)
        | None \<Rightarrow> Inr r)"

section \<open>Headers\<close>

record header =
  h_kind :: kind
  h_flags :: u8
  h_epoch :: u64
  h_sequence :: u64
  h_first_sample :: u64
  h_mono_ns :: u64
  h_uncertainty_us :: "u32 option"
  h_frame_count :: u32
  h_generation :: u32
  h_source_mask :: u8

definition header_payload_bytes :: "header \<Rightarrow> nat" where
  "header_payload_bytes h = kind_payload_bytes (h_kind h) (h_flags h) (h_frame_count h)"

definition header_end_sample :: "header \<Rightarrow> nat option" where
  "header_end_sample h =
     checked_add (unat (h_first_sample h))
       (unat (h_frame_count h) * samples_per_frame (h_kind h))"

record raw_header =
  rh_kind :: kind
  rh_flags :: u8
  rh_channels :: u8
  rh_format :: u8
  rh_epoch :: u64
  rh_first_sample :: u64
  rh_sample_rate :: u32
  rh_frame_count :: u32
  rh_generation :: u32
  rh_source_mask :: u32
  rh_payload_bytes :: u32

definition raw_check :: "raw_header \<Rightarrow> (frame_error, unit) result" where
  "raw_check r =
     (let kind = rh_kind r in
      case flags_from_bits (rh_flags r) of
        None \<Rightarrow> Inl (UndefinedFlags (rh_flags r))
      | Some flags \<Rightarrow>
        if contains_flags flags DIGITAL_SILENCE \<and> kind \<noteq> Kind_Reference
          then Inl (DigitalSilenceOutsideReference kind)
        else if rh_channels r \<noteq> 1 then Inl (Channels (rh_channels r))
        else if rh_format r \<noteq> format_u8 (kind_format kind) then Inl (BadFormat kind (rh_format r))
        else if rh_epoch r = 0 then Inl ZeroEpoch
        else if rh_sample_rate r \<noteq> sample_rate kind then Inl (SampleRate kind (rh_sample_rate r))
        else if rh_frame_count r = 0 \<or> rh_frame_count r > max_frames kind
          then Inl (FrameCount kind (rh_frame_count r))
        else if kind \<noteq> Kind_Render \<and> rh_generation r \<noteq> 0
          then Inl (BadGeneration kind (rh_generation r))
        else if kind \<noteq> Kind_Reference \<and> rh_source_mask r \<noteq> 0
            \<or> source_mask_from_bits (rh_source_mask r) = None
          then Inl (BadSourceMask kind (rh_source_mask r))
        else if kind = Kind_Cells \<and> \<not> CELL_SAMPLES dvd unat (rh_first_sample r)
          then Inl (CellAlignment (rh_first_sample r))
        else if kind = Kind_Afe \<and> \<not> AFE_PERIOD_SAMPLES dvd unat (rh_first_sample r)
          then Inl (AfeAlignment (rh_first_sample r))
        else let expected = kind_payload_bytes kind flags (rh_frame_count r) in
          if unat (rh_payload_bytes r) \<noteq> expected
            then Inl (PayloadBytes expected (rh_payload_bytes r))
          else Inr ())"

text \<open>The raw header \<open>Header::check\<close> builds: format, rate and channels follow from the kind.\<close>

definition header_raw :: "header \<Rightarrow> u32 \<Rightarrow> raw_header" where
  "header_raw h payload_bytes =
     \<lparr>rh_kind = h_kind h, rh_flags = h_flags h, rh_channels = 1,
      rh_format = format_u8 (kind_format (h_kind h)), rh_epoch = h_epoch h,
      rh_first_sample = h_first_sample h, rh_sample_rate = sample_rate (h_kind h),
      rh_frame_count = h_frame_count h, rh_generation = h_generation h,
      rh_source_mask = ucast (h_source_mask h), rh_payload_bytes = payload_bytes\<rparr>"

definition header_check :: "header \<Rightarrow> u32 \<Rightarrow> (frame_error, unit) result" where
  "header_check h payload_bytes =
     (if h_uncertainty_us h = Some UNCERTAINTY_UNKNOWN then Inl UncertaintySentinel
      else raw_check (header_raw h payload_bytes))"

definition header_write :: "header \<Rightarrow> u32 \<Rightarrow> byte list" where
  "header_write h payload_bytes =
     MAGIC
     @ [kind_u8 (h_kind h), h_flags h, 1, format_u8 (kind_format (h_kind h))]
     @ u64_le (h_epoch h) @ u64_le (h_sequence h) @ u64_le (h_first_sample h)
     @ u64_le (h_mono_ns h)
     @ u32_le (case h_uncertainty_us h of None \<Rightarrow> UNCERTAINTY_UNKNOWN | Some u \<Rightarrow> u)
     @ u32_le (sample_rate (h_kind h)) @ u32_le (h_frame_count h) @ u32_le (h_generation h)
     @ u32_le (ucast (h_source_mask h)) @ u32_le payload_bytes"

definition u64_at :: "byte list \<Rightarrow> nat \<Rightarrow> u64" where
  "u64_at head at = u64_of_le (take 8 (drop at head))"

definition u32_at :: "byte list \<Rightarrow> nat \<Rightarrow> u32" where
  "u32_at head at = u32_of_le (take 4 (drop at head))"

definition decode_raw :: "byte list \<Rightarrow> (frame_error, header \<times> u32) result" where
  "decode_raw head =
     (if take 4 head \<noteq> MAGIC then Inl (Magic (take 4 head))
      else case kind_from_u8 (head ! 4) of
        None \<Rightarrow> Inl (BadKind (head ! 4))
      | Some kind \<Rightarrow>
        (let raw = \<lparr>rh_kind = kind, rh_flags = head ! 5, rh_channels = head ! 6,
               rh_format = head ! 7, rh_epoch = u64_at head 8, rh_first_sample = u64_at head 24,
               rh_sample_rate = u32_at head 44, rh_frame_count = u32_at head 48,
               rh_generation = u32_at head 52, rh_source_mask = u32_at head 56,
               rh_payload_bytes = u32_at head 60\<rparr>
         in rbind (raw_check raw) (\<lambda>_.
            let uncertainty = u32_at head 40 in
            Inr (\<lparr>h_kind = kind, h_flags = rh_flags raw, h_epoch = rh_epoch raw,
                   h_sequence = u64_at head 16, h_first_sample = rh_first_sample raw,
                   h_mono_ns = u64_at head 32,
                   h_uncertainty_us =
                     (if uncertainty \<noteq> UNCERTAINTY_UNKNOWN then Some uncertainty else None),
                   h_frame_count = rh_frame_count raw, h_generation = rh_generation raw,
                   h_source_mask = ucast (rh_source_mask raw)\<rparr>,
                 rh_payload_bytes raw))))"

definition decode_header :: "byte list \<Rightarrow> (frame_error, header) result" where
  "decode_header bytes =
     (if length bytes < HEADER_BYTES then Inl (Short (length bytes))
      else rbind (decode_raw (take HEADER_BYTES bytes)) (\<lambda>(h, _). Inr h))"

section \<open>Packets\<close>

text \<open>The first record that fails, with its position, as the enumerating loops report it.\<close>

fun check_cells :: "nat \<Rightarrow> byte list list \<Rightarrow> (frame_error, unit) result" where
  "check_cells index [] = Inr ()"
| "check_cells index (raw # rest) =
     (case cell_parse raw of Inl e \<Rightarrow> Inl (CellRecord index e) | Inr _ \<Rightarrow> check_cells (Suc index) rest)"

fun check_afe :: "nat \<Rightarrow> byte list list \<Rightarrow> (frame_error, unit) result" where
  "check_afe index [] = Inr ()"
| "check_afe index (raw # rest) =
     (case afe_parse raw of Inl e \<Rightarrow> Inl (AfeRecordError index e) | Inr _ \<Rightarrow> check_afe (Suc index) rest)"

fun check_records :: "kind \<Rightarrow> byte list \<Rightarrow> (frame_error, unit) result" where
  "check_records Kind_Cells payload = check_cells 0 (as_chunks CELL_RECORD_BYTES payload)"
| "check_records Kind_Afe payload = check_afe 0 (as_chunks AFE_RECORD_BYTES payload)"
| "check_records _ payload = Inr ()"

record packet =
  p_header :: header
  p_end_sample :: nat
  p_payload :: "byte list"

definition packet_parse :: "byte list \<Rightarrow> (frame_error, packet) result" where
  "packet_parse frame =
     (if length frame < HEADER_BYTES then Inl (Short (length frame))
      else rbind (decode_raw (take HEADER_BYTES frame)) (\<lambda>(header, payload_bytes).
        let actual = length frame - HEADER_BYTES in
        if actual \<noteq> unat payload_bytes then Inl (FrameLength payload_bytes actual)
        else rbind (ok_or SampleOverflow (header_end_sample header)) (\<lambda>end_sample.
          let payload = drop HEADER_BYTES frame in
          rbind (check_records (h_kind header) payload) (\<lambda>_.
            Inr \<lparr>p_header = header, p_end_sample = end_sample, p_payload = payload\<rparr>))))"

datatype content =
    Pcm "i16 list"
  | DigitalSilence u32
  | Cells "cell list"
  | Afe "afe_record list"

definition packet_content :: "packet \<Rightarrow> content" where
  "packet_content p =
     (let h = p_header p; payload = p_payload p in
      case h_kind h of
        Kind_Cells \<Rightarrow> Cells (map cell_from_bytes (as_chunks CELL_RECORD_BYTES payload))
      | Kind_Afe \<Rightarrow> Afe (map afe_from_bytes (as_chunks AFE_RECORD_BYTES payload))
      | _ \<Rightarrow> if contains_flags (h_flags h) DIGITAL_SILENCE then DigitalSilence (h_frame_count h)
             else Pcm (map u16_of_le (as_chunks 2 payload)))"

section \<open>Encoding\<close>

definition encode :: "header \<Rightarrow> byte list \<Rightarrow> (frame_error, byte list) result" where
  "encode h payload =
     (if length payload \<ge> 2 ^ 32 then Inl (PayloadTooLong (length payload))
      else let payload_bytes = (word_of_nat (length payload) :: u32) in
        rbind (header_check h payload_bytes) (\<lambda>_.
        rbind (ok_or SampleOverflow (header_end_sample h)) (\<lambda>_.
        rbind (check_records (h_kind h) payload) (\<lambda>_.
          Inr (header_write h payload_bytes @ payload)))))"

definition u32_or_max :: "nat \<Rightarrow> u32" where
  "u32_or_max n = (if n < 2 ^ 32 then word_of_nat n else 0xFFFFFFFF)"

definition render_header :: "u64 \<Rightarrow> u64 \<Rightarrow> u64 \<Rightarrow> u32 \<Rightarrow> u8 \<Rightarrow> i16 list \<Rightarrow> header" where
  "render_header epoch sequence first_sample generation flags pcm =
     \<lparr>h_kind = Kind_Render, h_flags = flags, h_epoch = epoch, h_sequence = sequence,
      h_first_sample = first_sample, h_mono_ns = 0, h_uncertainty_us = None,
      h_frame_count = u32_or_max (length pcm), h_generation = generation, h_source_mask = 0\<rparr>"

definition encode_render ::
    "u64 \<Rightarrow> u64 \<Rightarrow> u64 \<Rightarrow> u32 \<Rightarrow> u8 \<Rightarrow> i16 list \<Rightarrow> (frame_error, byte list) result" where
  "encode_render epoch sequence first_sample generation flags pcm =
     (let h = render_header epoch sequence first_sample generation flags pcm;
          payload_bytes = header_payload_bytes h
      in rbind (header_check h (u32_or_max payload_bytes)) (\<lambda>_.
         rbind (ok_or SampleOverflow (header_end_sample h)) (\<lambda>_.
           Inr (header_write h (word_of_nat payload_bytes) @ concat (map u16_le pcm)))))"

section \<open>Stream names\<close>

text \<open>The order of the constructors is the order of the source's derived \<open>Ord\<close>.\<close>

datatype stream_id = Mic | Reference | CellStream | AfeStream

text \<open>A vocabulary value as the device sent it: one this release knows, or its text.\<close>

datatype 'a reported = Known 'a | Unrecognized string

fun stream_kind :: "stream_id \<Rightarrow> kind" where
  "stream_kind Mic = Kind_Mic"
| "stream_kind Reference = Kind_Reference"
| "stream_kind CellStream = Kind_Cells"
| "stream_kind AfeStream = Kind_Afe"

fun stream_of_kind :: "kind \<Rightarrow> stream_id option" where
  "stream_of_kind Kind_Mic = Some Mic"
| "stream_of_kind Kind_Reference = Some Reference"
| "stream_of_kind Kind_Cells = Some CellStream"
| "stream_of_kind Kind_Afe = Some AfeStream"
| "stream_of_kind Kind_Render = None"

fun stream_rank :: "stream_id \<Rightarrow> nat" where
  "stream_rank Mic = 0"
| "stream_rank Reference = 1"
| "stream_rank CellStream = 2"
| "stream_rank AfeStream = 3"

instantiation stream_id :: linorder
begin

definition less_eq_stream_id :: "stream_id \<Rightarrow> stream_id \<Rightarrow> bool" where
  "less_eq_stream_id a b \<longleftrightarrow> stream_rank a \<le> stream_rank b"

definition less_stream_id :: "stream_id \<Rightarrow> stream_id \<Rightarrow> bool" where
  "less_stream_id a b \<longleftrightarrow> stream_rank a < stream_rank b"

instance
proof
  fix a b :: stream_id
  show "a \<le> b \<Longrightarrow> b \<le> a \<Longrightarrow> a = b"
    by (cases a; cases b) (simp_all add: less_eq_stream_id_def)
qed (auto simp: less_eq_stream_id_def less_stream_id_def)

end

section \<open>What the codec accepts\<close>

text \<open>What \<open>raw_check\<close> accepts, as one predicate.\<close>

definition raw_ok :: "raw_header \<Rightarrow> bool" where
  "raw_ok r \<longleftrightarrow>
     rh_flags r AND NOT FLAGS_KNOWN = 0
     \<and> (contains_flags (rh_flags r) DIGITAL_SILENCE \<longrightarrow> rh_kind r = Kind_Reference)
     \<and> rh_channels r = 1 \<and> rh_format r = format_u8 (kind_format (rh_kind r))
     \<and> rh_epoch r \<noteq> 0 \<and> rh_sample_rate r = sample_rate (rh_kind r)
     \<and> rh_frame_count r \<noteq> 0 \<and> rh_frame_count r \<le> max_frames (rh_kind r)
     \<and> (rh_kind r \<noteq> Kind_Render \<longrightarrow> rh_generation r = 0)
     \<and> (rh_kind r \<noteq> Kind_Reference \<longrightarrow> rh_source_mask r = 0)
     \<and> rh_source_mask r AND NOT SOURCES_KNOWN = 0
     \<and> samples_per_frame (rh_kind r) dvd unat (rh_first_sample r)
     \<and> unat (rh_payload_bytes r) = kind_payload_bytes (rh_kind r) (rh_flags r) (rh_frame_count r)"

text \<open>How many frames a decoded payload holds.\<close>

fun content_frames :: "content \<Rightarrow> nat" where
  "content_frames (Pcm xs) = length xs"
| "content_frames (DigitalSilence n) = unat n"
| "content_frames (Cells cs) = length cs"
| "content_frames (Afe rs) = length rs"

definition cell_valid :: "cell \<Rightarrow> bool" where
  "cell_valid c \<longleftrightarrow>
     E_MIN \<le> sint (e_centi c) \<and> sint (e_centi c) \<le> E_MAX
     \<and> cell_flags c AND NOT CELL_FLAGS_KNOWN = 0
     \<and> (ucast (cell_mask c) :: u32) AND NOT SOURCES_KNOWN = 0
     \<and> (contains_flags (cell_flags c) CELL_GAP \<longrightarrow> sint (e_centi c) = E_MIN)"

definition afe_valid :: "afe_record \<Rightarrow> bool" where
  "afe_valid r \<longleftrightarrow>
     afe_flags r AND NOT AFE_FLAGS_KNOWN = 0 \<and> afe_frames r \<le> 10
     \<and> afe_playback r \<le> afe_frames r \<and> afe_erle_frames r \<le> afe_frames r
     \<and> afe_dtd_frames r \<le> afe_frames r \<and> afe_vad_frames r \<le> afe_frames r
     \<and> afe_dtd_max r \<le> 31 \<and> afe_vad_max r \<le> 3 \<and> afe_volume r \<le> 127"

fun content_valid :: "content \<Rightarrow> bool" where
  "content_valid (Cells cs) = (\<forall>c \<in> set cs. cell_valid c)"
| "content_valid (Afe rs) = (\<forall>r \<in> set rs. afe_valid r)"
| "content_valid _ = True"

definition render_ok :: "u64 \<Rightarrow> u64 \<Rightarrow> u8 \<Rightarrow> i16 list \<Rightarrow> bool" where
  "render_ok epoch first_sample flags pcm \<longleftrightarrow>
     flags AND NOT FLAGS_KNOWN = 0 \<and> \<not> contains_flags flags DIGITAL_SILENCE \<and> epoch \<noteq> 0
     \<and> pcm \<noteq> [] \<and> length pcm \<le> 3840 \<and> unat first_sample + length pcm \<le> u64_max"

text \<open>A cell frame of two records, the second a gap cell.\<close>

definition witness_cells :: "cell list" where
  "witness_cells =
     [\<lparr>e_centi = word_of_int (-100), cell_flags = 2, cell_mask = 5\<rparr>,
      \<lparr>e_centi = word_of_int (-12000), cell_flags = 1, cell_mask = 0\<rparr>]"

definition witness_header :: header where
  "witness_header =
     \<lparr>h_kind = Kind_Cells, h_flags = DISCONTINUITY, h_epoch = 9, h_sequence = 4,
      h_first_sample = 1024, h_mono_ns = 5000, h_uncertainty_us = Some 80, h_frame_count = 2,
      h_generation = 0, h_source_mask = 0\<rparr>"

section \<open>Lemmas\<close>

subsection \<open>Headers\<close>

lemma ucast_mask [simp]: "(ucast (ucast (m :: u8) :: u32) :: u8) = m"
  by (rule ucast_up_ucast_id) (simp add: is_up)

lemma ucast_known: "(m :: u32) AND NOT 15 = 0 \<Longrightarrow> (ucast (ucast m :: u8) :: u32) = m"
proof (rule bit_word_eqI)
  fix n
  assume m: "m AND NOT 15 = 0" and n: "n < LENGTH(32)"
  have "\<not> bit m n" if "8 \<le> n"
  proof
    assume b: "bit m n"
    have "\<not> bit (mask 4 :: u32) n" using that by (simp add: bit_mask_iff)
    moreover have "(mask 4 :: u32) = 15" by (simp add: mask_eq_exp_minus_1)
    ultimately have "\<not> bit (15 :: u32) n" by metis
    then have "bit (m AND NOT 15) n" using b n by (simp add: bit_simps)
    with m show False by simp
  qed
  then show "bit (ucast (ucast m :: u8) :: u32) n = bit m n"
    using n by (cases "8 \<le> n") (auto simp: bit_simps)
qed

lemma header_split:
  fixes head :: "'a list"
  assumes "length head = 64"
  shows "head = take 4 head @ [head ! 4, head ! 5, head ! 6, head ! 7]
    @ take 8 (drop 8 head) @ take 8 (drop 16 head) @ take 8 (drop 24 head)
    @ take 8 (drop 32 head) @ take 4 (drop 40 head) @ take 4 (drop 44 head)
    @ take 4 (drop 48 head) @ take 4 (drop 52 head) @ take 4 (drop 56 head)
    @ take 4 (drop 60 head)"
proof -
  have cut: "drop n head = take k (drop n head) @ drop (n + k) head" for n k
    by (metis add.commute append_take_drop_id drop_drop)
  have one: "drop n head = head ! n # drop (Suc n) head" if "n < 64" for n
    using that assms by (simp add: Cons_nth_drop_Suc)
  have "drop 4 head = [head ! 4, head ! 5, head ! 6, head ! 7] @ drop 8 head"
    using one [of 4] one [of 5] one [of 6] one [of 7] by simp
  moreover have "drop 60 head = take 4 (drop 60 head)" using assms by simp
  ultimately show ?thesis
    using cut [of 0 4] cut [of 8 8] cut [of 16 8] cut [of 24 8] cut [of 32 8] cut [of 40 4]
      cut [of 44 4] cut [of 48 4] cut [of 52 4] cut [of 56 4]
    by simp
qed

lemma header_write_length [simp]: "length (header_write h pb) = 64"
  by (simp add: header_write_def MAGIC_def)

lemma kind_from_u8_kind_u8 [simp]: "kind_from_u8 (kind_u8 k) = Some k"
  by (cases k) (simp_all add: kind_from_u8_def)

lemma kind_u8_from: "kind_from_u8 b = Some k \<Longrightarrow> kind_u8 k = b"
  by (auto simp: kind_from_u8_def split: if_splits)

lemma header_write_fields:
  "take 4 (header_write h pb) = MAGIC"
  "header_write h pb ! 4 = kind_u8 (h_kind h)"
  "header_write h pb ! 5 = h_flags h"
  "header_write h pb ! 6 = 1"
  "header_write h pb ! 7 = format_u8 (kind_format (h_kind h))"
  "u64_at (header_write h pb) 8 = h_epoch h"
  "u64_at (header_write h pb) 16 = h_sequence h"
  "u64_at (header_write h pb) 24 = h_first_sample h"
  "u64_at (header_write h pb) 32 = h_mono_ns h"
  "u32_at (header_write h pb) 40 = (case h_uncertainty_us h of None \<Rightarrow> UNCERTAINTY_UNKNOWN | Some u \<Rightarrow> u)"
  "u32_at (header_write h pb) 44 = sample_rate (h_kind h)"
  "u32_at (header_write h pb) 48 = h_frame_count h"
  "u32_at (header_write h pb) 52 = h_generation h"
  "u32_at (header_write h pb) 56 = ucast (h_source_mask h)"
  "u32_at (header_write h pb) 60 = pb"
  by (simp_all add: header_write_def MAGIC_def u64_at_def u32_at_def nth_append)

lemma raw_check_iff: "raw_check r = Inr () \<longleftrightarrow> raw_ok r"
proof (cases "rh_kind r")
qed (auto simp: raw_check_def raw_ok_def Let_def flags_from_bits_def source_mask_from_bits_def
    not_less split: option.splits if_splits)

lemma decode_raw_write:
  assumes "header_check h pb = Inr ()"
  shows "decode_raw (header_write h pb) = Inr (h, pb)"
proof -
  let ?raw = "header_raw h pb"
  from assms have u: "h_uncertainty_us h \<noteq> Some UNCERTAINTY_UNKNOWN" and c: "raw_check ?raw = Inr ()"
    by (auto simp: header_check_def split: if_splits)
  show ?thesis
    using c u by (cases "h_uncertainty_us h")
      (auto simp: decode_raw_def header_write_fields Let_def header_raw_def)
qed

lemma header_write_decoded:
  assumes len: "length head = 64" and dec: "decode_raw head = Inr (h, pb)"
  shows "header_write h pb = head" and "header_check h pb = Inr ()"
proof -
  from dec obtain kind where magic: "take 4 head = MAGIC" and kind: "kind_from_u8 (head ! 4) = Some kind"
    by (auto simp: decode_raw_def split: if_splits option.splits)
  let ?raw = "\<lparr>rh_kind = kind, rh_flags = head ! 5, rh_channels = head ! 6,
     rh_format = head ! 7, rh_epoch = u64_at head 8, rh_first_sample = u64_at head 24,
     rh_sample_rate = u32_at head 44, rh_frame_count = u32_at head 48,
     rh_generation = u32_at head 52, rh_source_mask = u32_at head 56,
     rh_payload_bytes = u32_at head 60\<rparr>"
  from dec magic kind have ok: "raw_check ?raw = Inr ()"
    and h: "h = \<lparr>h_kind = kind, h_flags = head ! 5, h_epoch = u64_at head 8,
       h_sequence = u64_at head 16, h_first_sample = u64_at head 24, h_mono_ns = u64_at head 32,
       h_uncertainty_us = (if u32_at head 40 \<noteq> UNCERTAINTY_UNKNOWN then Some (u32_at head 40) else None),
       h_frame_count = u32_at head 48, h_generation = u32_at head 52,
       h_source_mask = ucast (u32_at head 56)\<rparr>"
    and pb: "pb = u32_at head 60"
    by (auto simp: decode_raw_def rbind_Inr_iff Let_def)
  from ok have raw: "raw_ok ?raw" by (simp add: raw_check_iff)
  then have mask: "ucast (ucast (u32_at head 56) :: u8) = u32_at head 56"
    by (intro ucast_known) (simp add: raw_ok_def SOURCES_KNOWN_def)
  have same: "header_raw h pb = ?raw"
    using raw mask by (simp add: header_raw_def h pb raw_ok_def)
  have le: "u64_le (u64_at head n) = take 8 (drop n head)" if "n \<le> 56" for n
    using that len by (simp add: u64_at_def u64_le_of_le)
  have le4: "u32_le (u32_at head n) = take 4 (drop n head)" if "n \<le> 60" for n
    using that len by (simp add: u32_at_def u32_le_of_le)
  have fields: "kind_u8 kind = head ! 4" "head ! 6 = 1" "head ! 7 = format_u8 (kind_format kind)"
      "sample_rate kind = u32_at head 44"
    using raw kind_u8_from [OF kind] by (simp_all add: raw_ok_def)
  have unc: "(case h_uncertainty_us h of None \<Rightarrow> UNCERTAINTY_UNKNOWN | Some u \<Rightarrow> u) = u32_at head 40"
    by (simp add: h)
  show "header_write h pb = head"
    unfolding header_write_def unc
    by (rule trans [OF _ header_split [OF len, symmetric]])
      (simp add: h pb magic fields mask le le4)
  show "header_check h pb = Inr ()"
    using ok same by (simp add: header_check_def h)
qed

subsection \<open>Records\<close>

interpretation cell_wire: wire_record CELL_RECORD_BYTES cell_to_bytes cell_from_bytes
proof
  fix bs :: "byte list"
  assume "length bs = CELL_RECORD_BYTES"
  then obtain a b c d where "bs = [a, b, c, d]"
    by (auto simp: CELL_RECORD_BYTES_def numeral_eq_Suc length_Suc_conv)
  then show "cell_to_bytes (cell_from_bytes bs) = bs"
    by (simp add: cell_to_bytes_def cell_from_bytes_def u16_le_of_le)
next
  fix r :: cell
  obtain a b where "u16_le (e_centi r) = [a, b]"
    by (metis (no_types) Suc_length_conv length_0_conv le_length(3) numeral_2_eq_2)
  moreover have "u16_of_le (u16_le (e_centi r)) = e_centi r" by simp
  ultimately show "cell_from_bytes (cell_to_bytes r) = r"
    by (simp add: cell_to_bytes_def cell_from_bytes_def)
qed (simp_all add: CELL_RECORD_BYTES_def cell_to_bytes_def)

interpretation afe_wire: wire_record AFE_RECORD_BYTES afe_to_bytes afe_from_bytes
proof
  fix bs :: "byte list"
  assume "length bs = AFE_RECORD_BYTES"
  then have "length bs = 14" by (simp add: AFE_RECORD_BYTES_def)
  then show "afe_to_bytes (afe_from_bytes bs) = bs"
    by (auto simp: afe_to_bytes_def afe_from_bytes_def numeral_eq_Suc length_Suc_conv)
qed (simp_all add: AFE_RECORD_BYTES_def afe_to_bytes_def afe_from_bytes_def)

interpretation pcm_wire: wire_record 2 u16_le u16_of_le
  by standard (simp_all add: u16_le_of_le)

lemma check_cells_iff:
  "check_cells i chunks = Inr () \<longleftrightarrow> (\<forall>raw \<in> set chunks. \<exists>c. cell_parse raw = Inr c)"
  by (induction chunks arbitrary: i) (auto split: sum.splits)

lemma check_afe_iff:
  "check_afe i chunks = Inr () \<longleftrightarrow> (\<forall>raw \<in> set chunks. \<exists>r. afe_parse raw = Inr r)"
  by (induction chunks arbitrary: i) (auto split: sum.splits)

lemma cell_parse_Inr:
  "cell_parse raw = Inr c \<Longrightarrow> c = cell_from_bytes raw"
  by (auto simp: cell_parse_def Let_def split: if_splits)

lemma afe_parse_Inr:
  "afe_parse raw = Inr r \<Longrightarrow> r = afe_from_bytes raw"
  by (auto simp: afe_parse_def Let_def split: if_splits option.splits)

subsection \<open>Frames\<close>

lemma packet_parse_Inr_iff:
  "packet_parse frame = Inr p \<longleftrightarrow>
     64 \<le> length frame
     \<and> (\<exists>pb. decode_raw (take 64 frame) = Inr (p_header p, pb) \<and> length frame - 64 = unat pb)
     \<and> header_end_sample (p_header p) = Some (p_end_sample p)
     \<and> p_payload p = drop 64 frame
     \<and> check_records (h_kind (p_header p)) (p_payload p) = Inr ()"
  by (cases p) (auto simp: packet_parse_def HEADER_BYTES_def rbind_Inr_iff Let_def)

lemma encode_Inr_iff:
  "encode h payload = Inr frame \<longleftrightarrow>
     length payload < 2 ^ 32
     \<and> header_check h (word_of_nat (length payload)) = Inr ()
     \<and> (\<exists>e. header_end_sample h = Some e)
     \<and> check_records (h_kind h) payload = Inr ()
     \<and> frame = header_write h (word_of_nat (length payload)) @ payload"
  by (auto simp: encode_def rbind_Inr_iff Let_def)

lemma parse_encoded:
  assumes "encode h payload = Inr frame"
  shows "\<exists>p. packet_parse frame = Inr p \<and> p_header p = h \<and> p_payload p = payload"
proof -
  let ?pb = "word_of_nat (length payload) :: u32"
  from assms obtain e where len: "length payload < 2 ^ 32"
    and chk: "header_check h ?pb = Inr ()" and e: "header_end_sample h = Some e"
    and recs: "check_records (h_kind h) payload = Inr ()"
    and frame: "frame = header_write h ?pb @ payload"
    by (auto simp: encode_Inr_iff)
  have "unat ?pb = length payload" using len by (simp add: unat_of_nat)
  then have "packet_parse frame = Inr \<lparr>p_header = h, p_end_sample = e, p_payload = payload\<rparr>"
    using decode_raw_write [OF chk] e recs frame by (simp add: packet_parse_Inr_iff)
  then show ?thesis by auto
qed

lemma encode_parsed:
  assumes "packet_parse frame = Inr p"
  shows "encode (p_header p) (p_payload p) = Inr frame"
proof -
  from assms obtain pb where len: "64 \<le> length frame"
    and dec: "decode_raw (take 64 frame) = Inr (p_header p, pb)"
    and pb: "length frame - 64 = unat pb"
    and e: "header_end_sample (p_header p) = Some (p_end_sample p)"
    and payload: "p_payload p = drop 64 frame"
    and recs: "check_records (h_kind (p_header p)) (p_payload p) = Inr ()"
    by (auto simp: packet_parse_Inr_iff)
  have l64: "length (take 64 frame) = 64" using len by simp
  note hd = header_write_decoded [OF l64 dec]
  have "word_of_nat (length (p_payload p)) = pb" using pb payload by simp
  moreover have "length (p_payload p) < 2 ^ 32"
    using pb payload unat_u32_less [of pb] by simp
  ultimately show ?thesis
    using hd e recs payload by (simp add: encode_Inr_iff)
qed

lemma cell_parse_valid: "(\<exists>c. cell_parse raw = Inr c) \<longleftrightarrow> cell_valid (cell_from_bytes raw)"
  by (auto simp: cell_parse_def cell_valid_def Let_def cell_flags_from_bits_def
      source_mask_from_bits_def cell_from_bytes_def split: if_splits)

lemma afe_parse_valid: "(\<exists>r. afe_parse raw = Inr r) \<longleftrightarrow> afe_valid (afe_from_bytes raw)"
proof -
  let ?r = "afe_from_bytes raw"
  have "(\<exists>r. afe_parse raw = Inr r) \<longleftrightarrow> raw ! 1 AND NOT AFE_FLAGS_KNOWN = 0
      \<and> find (\<lambda>(_, value, bound). value > bound) (afe_bounds ?r) = None"
    by (auto simp: afe_parse_def Let_def afe_flags_from_bits_def split: option.splits)
  also have "\<dots> \<longleftrightarrow> raw ! 1 AND NOT AFE_FLAGS_KNOWN = 0
      \<and> (\<forall>(_, value, bound) \<in> set (afe_bounds ?r). value \<le> bound)"
    by (auto simp: find_None_iff not_less)
  also have "\<dots> \<longleftrightarrow> afe_valid ?r"
    by (simp add: afe_valid_def afe_bounds_def afe_from_bytes_def AFE_MAX_FRAMES_def
        AFE_DTD_MAX_def AFE_VAD_MAX_def AFE_VOLUME_MAX_def conj_ac)
  finally show ?thesis .
qed

lemma check_records_valid:
  "check_records (h_kind (p_header p)) (p_payload p) = Inr () \<Longrightarrow> content_valid (packet_content p)"
  by (cases "h_kind (p_header p)")
    (auto simp: packet_content_def Let_def check_cells_iff check_afe_iff
      simp flip: cell_parse_valid afe_parse_valid)

lemma parsed_header:
  assumes "packet_parse frame = Inr p"
  shows "raw_ok (header_raw (p_header p) (word_of_nat (length (p_payload p))))"
    and "length (p_payload p) < 2 ^ 32"
    and "header_end_sample (p_header p) = Some (p_end_sample p)"
    and "check_records (h_kind (p_header p)) (p_payload p) = Inr ()"
    and "length frame = 64 + length (p_payload p)"
  using encode_parsed [OF assms] assms
  by (auto simp: encode_Inr_iff header_check_def raw_check_iff packet_parse_Inr_iff split: if_splits)

lemma parsed_payload_length:
  assumes "packet_parse frame = Inr p"
  shows "length (p_payload p) = header_payload_bytes (p_header p)"
  using parsed_header(1,2) [OF assms]
  by (simp add: raw_ok_def header_raw_def header_payload_bytes_def unat_of_nat)

lemma parsed_content_frames:
  assumes "packet_parse frame = Inr p"
  shows "content_frames (packet_content p) = unat (h_frame_count (p_header p))"
  using parsed_payload_length [OF assms]
  by (cases "h_kind (p_header p)")
    (simp_all add: packet_content_def Let_def header_payload_bytes_def length_as_chunks
      CELL_RECORD_BYTES_def AFE_RECORD_BYTES_def)

lemma parsed_sound:
  assumes "packet_parse frame = Inr p"
  shows "p_end_sample p = unat (h_first_sample (p_header p))
           + unat (h_frame_count (p_header p)) * samples_per_frame (h_kind (p_header p))
    \<and> p_end_sample p \<le> u64_max
    \<and> unat (h_first_sample (p_header p)) < p_end_sample p
    \<and> samples_per_frame (h_kind (p_header p)) dvd unat (h_first_sample (p_header p))
    \<and> h_epoch (p_header p) \<noteq> 0
    \<and> h_frame_count (p_header p) \<le> max_frames (h_kind (p_header p))
    \<and> length frame = 64 + header_payload_bytes (p_header p)
    \<and> content_frames (packet_content p) = unat (h_frame_count (p_header p))
    \<and> content_valid (packet_content p)"
proof -
  note ph = parsed_header [OF assms]
  from ph(1) have raw: "h_epoch (p_header p) \<noteq> 0" "h_frame_count (p_header p) \<noteq> 0"
      "h_frame_count (p_header p) \<le> max_frames (h_kind (p_header p))"
      "samples_per_frame (h_kind (p_header p)) dvd unat (h_first_sample (p_header p))"
    by (simp_all add: raw_ok_def header_raw_def)
  have pos: "0 < samples_per_frame (h_kind (p_header p))"
    by (cases "h_kind (p_header p)") (simp_all add: CELL_SAMPLES_def AFE_PERIOD_SAMPLES_def)
  have cnt: "0 < unat (h_frame_count (p_header p))" using raw(2) by (simp add: unat_gt_0)
  from ph(3) have e: "p_end_sample p = unat (h_first_sample (p_header p))
      + unat (h_frame_count (p_header p)) * samples_per_frame (h_kind (p_header p))"
    "p_end_sample p \<le> u64_max"
    by (auto simp: header_end_sample_def checked_add_def split: if_splits)
  with pos cnt have "unat (h_first_sample (p_header p)) < p_end_sample p" by simp
  with e raw ph show ?thesis
    by (simp add: parsed_payload_length [OF assms] parsed_content_frames [OF assms]
        check_records_valid)
qed

lemma u32_or_max_le: "u32_or_max n \<le> 3840 \<longleftrightarrow> n \<le> 3840"
  by (simp add: u32_or_max_def word_le_nat_alt unat_of_nat)

lemma u32_or_max_zero: "u32_or_max n = 0 \<longleftrightarrow> n = 0"
  by (simp add: u32_or_max_def unat_eq_zero [symmetric] unat_of_nat del: unat_eq_zero)

lemma unat_u32_or_max: "n \<le> 3840 \<Longrightarrow> unat (u32_or_max n) = n"
  by (simp add: u32_or_max_def unat_of_nat)

lemma render_header_end:
  "length pcm \<le> 3840 \<Longrightarrow>
   header_end_sample (render_header epoch sequence first_sample generation flags pcm)
     = checked_add (unat first_sample) (length pcm)"
  by (simp add: header_end_sample_def render_header_def unat_u32_or_max)

lemma unat_double: "n \<le> 3840 \<Longrightarrow> unat (2 * word_of_nat n :: u32) = 2 * n"
  by (simp add: unat_word_ariths unat_of_nat)

lemma render_header_kind [simp]:
  "h_kind (render_header epoch sequence first_sample generation flags pcm) = Kind_Render"
  by (simp add: render_header_def)

lemma render_header_check:
  "header_check (render_header epoch sequence first_sample generation flags pcm) pb = Inr ()
     \<longleftrightarrow> flags AND NOT FLAGS_KNOWN = 0 \<and> \<not> contains_flags flags DIGITAL_SILENCE \<and> epoch \<noteq> 0
       \<and> pcm \<noteq> [] \<and> length pcm \<le> 3840 \<and> unat pb = 2 * length pcm"
  by (auto simp: header_check_def raw_check_iff raw_ok_def header_raw_def render_header_def
      u32_or_max_le u32_or_max_zero SOURCES_KNOWN_def unat_u32_or_max)

lemma render_payload_bytes:
  "length pcm \<le> 3840 \<Longrightarrow> \<not> contains_flags flags DIGITAL_SILENCE \<Longrightarrow>
   header_payload_bytes (render_header epoch sequence first_sample generation flags pcm)
     = 2 * length pcm"
  by (simp add: header_payload_bytes_def render_header_def unat_u32_or_max)

lemma length_pcm_bytes: "length (concat (map u16_le pcm)) = 2 * length pcm"
  by (rule pcm_wire.encoded_length)

lemma encode_render_Inr_iff:
  "encode_render epoch sequence first_sample generation flags pcm = Inr frame \<longleftrightarrow>
     render_ok epoch first_sample flags pcm
     \<and> frame = header_write (render_header epoch sequence first_sample generation flags pcm)
           (word_of_nat (2 * length pcm)) @ concat (map u16_le pcm)"
  (is "?enc = _ \<longleftrightarrow> ?ok \<and> _")
proof (cases ?ok)
  case True
  then show ?thesis
    by (auto simp: encode_render_def render_ok_def Let_def rbind_Inr_iff render_header_check
        render_payload_bytes render_header_end checked_add_def u32_or_max_def unat_double)
next
  case False
  then show ?thesis
    by (auto simp: encode_render_def render_ok_def Let_def rbind_Inr_iff render_header_check
        render_header_end checked_add_def split: if_splits)
qed

lemma encode_render_encode:
  "encode_render epoch sequence first_sample generation flags pcm = Inr frame \<longleftrightarrow>
   encode (render_header epoch sequence first_sample generation flags pcm)
     (concat (map u16_le pcm)) = Inr frame"
  unfolding encode_render_Inr_iff encode_Inr_iff render_ok_def
  by (auto simp: render_header_check length_pcm_bytes render_header_end checked_add_def unat_double
      split: if_splits)

lemma encode_render_parse:
  assumes "encode_render epoch sequence first_sample generation flags pcm = Inr frame"
  shows "\<exists>p. packet_parse frame = Inr p \<and> packet_content p = Pcm pcm
     \<and> p_header p = render_header epoch sequence first_sample generation flags pcm"
proof -
  from assms have "\<not> contains_flags flags DIGITAL_SILENCE"
    by (simp add: encode_render_Inr_iff render_ok_def)
  moreover obtain p where "packet_parse frame = Inr p" "p_payload p = concat (map u16_le pcm)"
      "p_header p = render_header epoch sequence first_sample generation flags pcm"
    using parse_encoded assms unfolding encode_render_encode by blast
  ultimately show ?thesis
    using pcm_wire.decode_encoded [of pcm]
    by (auto simp: packet_content_def render_header_def)
qed

lemma encode_render_spec:
  "case encode_render epoch sequence first_sample generation flags pcm of
     Inl e \<Rightarrow> \<not> render_ok epoch first_sample flags pcm
   | Inr frame \<Rightarrow> render_ok epoch first_sample flags pcm \<and>
       (\<exists>p. packet_parse frame = Inr p \<and> packet_content p = Pcm pcm
          \<and> p_header p = render_header epoch sequence first_sample generation flags pcm)"
proof (cases "encode_render epoch sequence first_sample generation flags pcm")
  case (Inl e)
  then have "\<not> render_ok epoch first_sample flags pcm"
    by (metis encode_render_Inr_iff sum.distinct(1))
  with Inl show ?thesis by simp
next
  case (Inr frame)
  then have "render_ok epoch first_sample flags pcm" by (simp add: encode_render_Inr_iff)
  with Inr encode_render_parse [OF Inr] show ?thesis by simp
qed

lemma witness_packet:
  "\<exists>frame p. packet_parse frame = Inr p \<and> p_header p = witness_header
     \<and> packet_content p = Cells witness_cells"
proof -
  let ?payload = "concat (map cell_to_bytes witness_cells)"
  have valid: "\<forall>c \<in> set witness_cells. cell_valid c"
    by (simp add: witness_cells_def cell_valid_def E_MIN_def E_MAX_def CELL_FLAGS_KNOWN_def
        SOURCES_KNOWN_def contains_flags_def CELL_GAP_def)
  have len: "length ?payload = 8"
    unfolding cell_wire.encoded_length by (simp add: witness_cells_def CELL_RECORD_BYTES_def)
  have dec: "map cell_from_bytes (as_chunks CELL_RECORD_BYTES ?payload) = witness_cells"
    by (rule cell_wire.decode_encoded)
  have recs: "check_records Kind_Cells ?payload = Inr ()"
    using valid by (simp add: check_cells_iff cell_parse_valid) (metis dec image_eqI list.set_map)
  have chk: "header_check witness_header (word_of_nat (length ?payload)) = Inr ()"
    by (simp add: header_check_def raw_check_iff raw_ok_def header_raw_def witness_header_def len
        UNCERTAINTY_UNKNOWN_def DISCONTINUITY_def FLAGS_KNOWN_def contains_flags_def
        DIGITAL_SILENCE_def SOURCES_KNOWN_def CELL_SAMPLES_def CELL_RECORD_BYTES_def)
  have "\<exists>e. header_end_sample witness_header = Some e"
    by (simp add: header_end_sample_def witness_header_def checked_add_def u64_max_def CELL_SAMPLES_def)
  then have "\<exists>frame. encode witness_header ?payload = Inr frame"
    using chk recs len by (auto simp: encode_Inr_iff witness_header_def)
  then obtain frame p where p: "packet_parse frame = Inr p"
      "p_header p = witness_header" "p_payload p = ?payload"
    using parse_encoded by blast
  moreover have "packet_content p = Cells witness_cells"
    using p dec by (simp add: packet_content_def witness_header_def)
  ultimately show ?thesis by blast
qed

section \<open>Properties\<close>

text \<open>
  (C10) Whatever frame the encoder produces, the parser accepts, and it returns exactly the
  header and the payload that were encoded.
\<close>

theorem ema_parse_encode:
  assumes "encode h payload = Inr frame"
  shows "\<exists>p. packet_parse frame = Inr p \<and> p_header p = h \<and> p_payload p = payload"
  using assms by (rule parse_encoded)

theorem ema_parse_encode_witness:
  "\<exists>frame p. encode (render_header 7 0 0 3 UNDERRUN [1, 65535]) (concat (map u16_le [1, 65535])) = Inr frame
     \<and> packet_parse frame = Inr p
     \<and> p_header p = render_header 7 0 0 3 UNDERRUN [1, 65535]
     \<and> p_payload p = [1, 0, 255, 255]"
proof -
  have "render_ok 7 0 UNDERRUN [1, 65535]"
    by (simp add: render_ok_def UNDERRUN_def FLAGS_KNOWN_def contains_flags_def DIGITAL_SILENCE_def
        u64_max_def)
  then obtain frame where enc: "encode (render_header 7 0 0 3 UNDERRUN [1, 65535])
      (concat (map u16_le [1, 65535])) = Inr frame"
    unfolding encode_render_encode [symmetric] encode_render_Inr_iff by blast
  moreover have "concat (map u16_le [1, 65535]) = [1, 0, 255, 255]"
    by (simp add: u16_le_def le_bytes_2)
  ultimately show ?thesis using ema_parse_encode [OF enc] by auto
qed

text \<open>
  (C11) The wire format is canonical: a frame the parser accepts is the one and only frame the
  encoder produces for the parsed header and payload, so no two byte strings decode to the
  same packet.
\<close>

theorem ema_encode_parse:
  assumes "packet_parse frame = Inr p"
  shows "encode (p_header p) (p_payload p) = Inr frame"
  using assms by (rule encode_parsed)

theorem ema_encode_parse_witness:
  "\<exists>p frame. packet_parse frame = Inr p \<and> encode (p_header p) (p_payload p) = Inr frame
     \<and> packet_content p = Pcm [1, 65535]"
proof -
  have "render_ok 7 0 UNDERRUN [1, 65535]"
    by (simp add: render_ok_def UNDERRUN_def FLAGS_KNOWN_def contains_flags_def DIGITAL_SILENCE_def
        u64_max_def)
  then obtain frame where "encode_render 7 0 0 3 UNDERRUN [1, 65535] = Inr frame"
    by (auto simp: encode_render_Inr_iff)
  from encode_render_parse [OF this] obtain p
    where p: "packet_parse frame = Inr p" "packet_content p = Pcm [1, 65535]" by auto
  then show ?thesis using ema_encode_parse [OF p(1)] by auto
qed

text \<open>
  (C17) What a parsed packet guarantees to everything behind it: its end sample is its first
  sample plus its frames, in 64 bits without overflow; it is not empty and stays within the
  kind's frame limit; its first sample lies on the record grid; its epoch is not zero; the
  frame length is the header's; it holds exactly the announced number of records; and every
  cell and AFE record in it is valid.
\<close>

theorem ema_packet_sound:
  assumes "packet_parse frame = Inr p"
  shows "p_end_sample p = unat (h_first_sample (p_header p))
           + unat (h_frame_count (p_header p)) * samples_per_frame (h_kind (p_header p))
    \<and> p_end_sample p \<le> u64_max
    \<and> unat (h_first_sample (p_header p)) < p_end_sample p
    \<and> samples_per_frame (h_kind (p_header p)) dvd unat (h_first_sample (p_header p))
    \<and> h_epoch (p_header p) \<noteq> 0
    \<and> h_frame_count (p_header p) \<le> max_frames (h_kind (p_header p))
    \<and> length frame = 64 + header_payload_bytes (p_header p)
    \<and> content_frames (packet_content p) = unat (h_frame_count (p_header p))
    \<and> content_valid (packet_content p)"
  using assms by (rule parsed_sound)

theorem ema_packet_sound_witness:
  "\<exists>frame p. packet_parse frame = Inr p \<and> p_end_sample p = 2048
     \<and> length frame = 72 \<and> packet_content p = Cells witness_cells
     \<and> content_valid (packet_content p)"
proof -
  obtain frame p where p: "packet_parse frame = Inr p" "p_header p = witness_header"
      "packet_content p = Cells witness_cells"
    using witness_packet by blast
  then show ?thesis
    using ema_packet_sound [OF p(1)]
    by (intro exI [of _ frame] exI [of _ p])
      (simp add: witness_header_def header_payload_bytes_def CELL_SAMPLES_def CELL_RECORD_BYTES_def)
qed

text \<open>
  The render encoder succeeds exactly for a nonempty block of at most 3840 samples with
  defined flags, no digital silence, a nonzero epoch and positions that fit 64 bits; what it
  produces parses back to those samples under the header it was asked for.
\<close>

theorem ema_encode_render:
  "case encode_render epoch sequence first_sample generation flags pcm of
     Inl e \<Rightarrow> \<not> render_ok epoch first_sample flags pcm
   | Inr frame \<Rightarrow> render_ok epoch first_sample flags pcm \<and>
       (\<exists>p. packet_parse frame = Inr p \<and> packet_content p = Pcm pcm
          \<and> p_header p = render_header epoch sequence first_sample generation flags pcm)"
  by (rule encode_render_spec)

end
