(* ===== verification/Sample_Time.thy ===== *)
theory Sample_Time
  imports Ema
begin

text \<open>
  Sample positions and the clocks of the speech policy (\<open>crates/turn/src/time.rs\<close>), the turn
  starts (\<open>TurnSpec\<close> in \<open>crates/turn/src/endpoint.rs\<close>), and where a subscription's streams
  start (\<open>crates/uplink/src/starts.rs\<close>). The newtypes \<open>Sample\<close>, \<open>Samples\<close>, \<open>CellIndex\<close>
  and \<open>MonoInstant\<close> hold a \<open>u64\<close>; here they are natural numbers, with the saturation of
  the source written out and plain products reduced modulo $2^{64}$, as a release build
  computes them.
\<close>

section \<open>Positions and lengths\<close>

type_synonym sample = nat
type_synonym samples = nat
type_synonym cell_index = nat
type_synonym mono_instant = nat
type_synonym duration_ns = nat
type_synonym epoch = nat

definition wrap64 :: "nat \<Rightarrow> nat" where
  "wrap64 x = x mod 2 ^ 64"

definition SAMPLE_RATE :: nat where "SAMPLE_RATE = 16000"

definition epoch_new :: "nat \<Rightarrow> epoch option" where
  "epoch_new value = (if value = 0 then None else Some value)"

definition samples_from_ms :: "nat \<Rightarrow> samples" where
  "samples_from_ms ms = wrap64 (ms * SAMPLE_RATE) div 1000"

definition samples_as_ms :: "samples \<Rightarrow> nat" where
  "samples_as_ms s = wrap64 (s * 1000) div SAMPLE_RATE"

definition whole_cells :: "samples \<Rightarrow> nat" where
  "whole_cells s = s div CELL_SAMPLES"

definition sample_cell :: "sample \<Rightarrow> cell_index" where
  "sample_cell s = s div CELL_SAMPLES"

definition sample_since :: "sample \<Rightarrow> sample \<Rightarrow> samples" where
  "sample_since self earlier = self - earlier"

definition sample_round_down :: "sample \<Rightarrow> nat \<Rightarrow> sample" where
  "sample_round_down s grid = s - s mod grid"

definition sample_add :: "sample \<Rightarrow> samples \<Rightarrow> sample" where
  "sample_add s d = sat_add s d"

definition sample_sub :: "sample \<Rightarrow> samples \<Rightarrow> sample" where
  "sample_sub s d = s - d"

record sample_span =
  ss_start :: sample
  ss_end :: sample

definition sample_span_new :: "sample \<Rightarrow> sample \<Rightarrow> sample_span" where
  "sample_span_new start end = \<lparr>ss_start = start, ss_end = max end start\<rparr>"

definition sample_span_len :: "sample_span \<Rightarrow> samples" where
  "sample_span_len s = sample_since (ss_end s) (ss_start s)"

definition sample_span_is_empty :: "sample_span \<Rightarrow> bool" where
  "sample_span_is_empty s \<longleftrightarrow> ss_end s \<le> ss_start s"

definition sample_span_overlaps :: "sample_span \<Rightarrow> sample_span \<Rightarrow> bool" where
  "sample_span_overlaps s other \<longleftrightarrow> ss_start s < ss_end other \<and> ss_start other < ss_end s"

definition cell_start :: "cell_index \<Rightarrow> sample" where
  "cell_start k = wrap64 (k * CELL_SAMPLES)"

definition cell_end :: "cell_index \<Rightarrow> sample" where
  "cell_end k = wrap64 ((k + 1) * CELL_SAMPLES)"

definition cell_next :: "cell_index \<Rightarrow> cell_index" where
  "cell_next k = k + 1"

definition mono_after :: "mono_instant \<Rightarrow> duration_ns \<Rightarrow> mono_instant" where
  "mono_after t d = sat_add t (min d u64_max)"

definition mono_since :: "mono_instant \<Rightarrow> mono_instant \<Rightarrow> duration_ns" where
  "mono_since t earlier = t - earlier"

section \<open>Turn starts\<close>

definition candidate_mic_start :: "sample \<Rightarrow> sample" where
  "candidate_mic_start support_start =
     sample_round_down (sample_sub support_start 4800) CELL_SAMPLES"

definition wake_start :: "sample \<Rightarrow> sample" where
  "wake_start support_start = sample_sub support_start 4800"

definition cells_start :: "sample \<Rightarrow> cell_index" where
  "cells_start mic_start = sample_cell (sample_sub mic_start 160000)"

definition reply_start :: "sample \<Rightarrow> sample \<Rightarrow> sample" where
  "reply_start trigger first_retained =
     max (sample_sub trigger (samples_from_ms 780)) first_retained"

section \<open>Stream starts of a subscription\<close>

definition REFERENCE_LEAD :: samples where "REFERENCE_LEAD = 40000"
definition NEAR_MISS_AFE_LEAD :: samples where "NEAR_MISS_AFE_LEAD = 16000"
definition NEAR_MISS_TAIL :: samples where "NEAR_MISS_TAIL = 4800"
definition NEAR_MISS_GRACE :: samples where "NEAR_MISS_GRACE = 16000"

record candidate_starts =
  cs_mic :: sample
  cs_cells :: sample
  cs_reference :: sample
  cs_afe :: "sample option"

definition reference_start :: "sample \<Rightarrow> sample" where
  "reference_start mic_start = sample_sub mic_start REFERENCE_LEAD"

definition afe_start :: "sample \<Rightarrow> sample" where
  "afe_start mic_start = sample_round_down (sample_sub mic_start REFERENCE_LEAD) AFE_PERIOD_SAMPLES"

definition candidate_starts_new :: "sample \<Rightarrow> bool \<Rightarrow> candidate_starts" where
  "candidate_starts_new support_start afe_session =
     (let mic = candidate_mic_start support_start in
      \<lparr>cs_mic = mic, cs_cells = cell_start (cells_start mic), cs_reference = reference_start mic,
       cs_afe = (if afe_session then Some (afe_start mic) else None)\<rparr>)"

fun device_grid :: "stream_id \<Rightarrow> nat" where
  "device_grid Mic = CELL_SAMPLES"
| "device_grid CellStream = CELL_SAMPLES"
| "device_grid AfeStream = AFE_PERIOD_SAMPLES"
| "device_grid Reference = 2560"

definition device_grid_start :: "stream_id \<Rightarrow> sample \<Rightarrow> sample option" where
  "device_grid_start stream requested =
     (if stream \<noteq> Reference then Some (sample_round_down requested (device_grid stream)) else None)"

fun device_history :: "stream_id \<Rightarrow> nat" where
  "device_history Mic = 96000"
| "device_history Reference = 128000"
| "device_history CellStream = 500 * CELL_SAMPLES"
| "device_history AfeStream = 100 * AFE_PERIOD_SAMPLES"

section \<open>Lemmas\<close>

lemmas grid_defs = CELL_SAMPLES_def AFE_PERIOD_SAMPLES_def REFERENCE_LEAD_def

lemma wrap64_id: "x \<le> u64_max \<Longrightarrow> wrap64 x = x"
  by (simp add: wrap64_def u64_max_def)

lemma sample_round_down_eq: "sample_round_down s grid = round_down_to grid s"
  by (simp add: sample_round_down_def round_down_to_def)

lemma cell_start_le:
  assumes "s \<le> u64_max"
  shows "cell_start (sample_cell s) = s div 512 * 512"
proof -
  have "s div 512 * 512 \<le> s" by simp
  with assms show ?thesis by (simp add: cell_start_def sample_cell_def CELL_SAMPLES_def wrap64_id)
qed

lemma device_grid_pos [simp]: "0 < device_grid stream"
  by (cases stream) (simp_all add: grid_defs)

lemma dvd_round_down_id: "grid dvd s \<Longrightarrow> sample_round_down s grid = s"
  by (simp add: sample_round_down_def)

lemma mono_after_ge: "t \<le> u64_max \<Longrightarrow> t \<le> mono_after t d"
  by (simp add: mono_after_def sat_add_def)

section \<open>Properties\<close>

text \<open>
  Cells tile an epoch's timeline: a sample below the last cell of the 64-bit range lies in
  its own cell, the next cell starts where this one ends, and the ends of that cell are the
  only multiples of 512 around the sample.
\<close>

theorem cells_tile:
  assumes "s + 512 \<le> u64_max"
  shows "cell_start (sample_cell s) \<le> s \<and> s < cell_end (sample_cell s)
    \<and> cell_end (sample_cell s) = cell_start (sample_cell s) + 512
    \<and> cell_start (cell_next (sample_cell s)) = cell_end (sample_cell s)
    \<and> (\<forall>k. cell_start k \<le> s \<and> s < cell_start k + 512 \<longrightarrow> k mod 2 ^ 55 = sample_cell s)"
proof (intro conjI allI impI)
  have le: "s div 512 * 512 \<le> s" and lt: "s < s div 512 * 512 + 512"
    using div_mult_mod_eq [of s 512] mod_less_divisor [of 512 s] by linarith+
  have st: "cell_start (sample_cell s) = s div 512 * 512"
    using assms by (intro cell_start_le) simp
  have en: "cell_end (sample_cell s) = s div 512 * 512 + 512"
    using assms le by (simp add: cell_end_def sample_cell_def CELL_SAMPLES_def wrap64_id)
  show "cell_start (sample_cell s) \<le> s" "s < cell_end (sample_cell s)"
    "cell_end (sample_cell s) = cell_start (sample_cell s) + 512"
    using st en le lt by simp_all
  show "cell_start (cell_next (sample_cell s)) = cell_end (sample_cell s)"
    by (simp add: cell_start_def cell_end_def cell_next_def)
  fix k assume k: "cell_start k \<le> s \<and> s < cell_start k + 512"
  have "cell_start k = (k mod 2 ^ 55) * 512"
    by (simp add: cell_start_def wrap64_def CELL_SAMPLES_def mod_mult_mult2 [of k 512 "2 ^ 55", simplified])
  with k have "s div 512 = k mod 2 ^ 55" by (intro div_nat_eqI) simp_all
  then show "k mod 2 ^ 55 = sample_cell s" by (simp add: sample_cell_def CELL_SAMPLES_def)
qed

theorem cells_tile_witness:
  "cell_start (sample_cell 1364068800) = 1364068352 \<and> cell_end (sample_cell 1364068800) = 1364068864
   \<and> cell_end (sample_cell 1364068800) = cell_start (sample_cell 1364068800) + 512"
  using cells_tile [of 1364068800]
  by (simp add: u64_max_def cell_start_def cell_end_def sample_cell_def CELL_SAMPLES_def wrap64_def)

text \<open>
  A length given in milliseconds survives the conversion to samples and back, as long as the
  product stays in 64 bits, and 32 ms are exactly one cell.
\<close>

theorem ms_round_trip:
  assumes "ms * 16000 \<le> u64_max"
  shows "samples_as_ms (samples_from_ms ms) = ms \<and> samples_from_ms ms = 16 * ms
    \<and> whole_cells (samples_from_ms ms) = ms div 32"
proof -
  have "samples_from_ms ms = 16 * ms"
    using assms by (simp add: samples_from_ms_def SAMPLE_RATE_def wrap64_id)
  moreover have "samples_as_ms (16 * ms) = ms"
    using assms by (simp add: samples_as_ms_def SAMPLE_RATE_def wrap64_id)
  moreover have "16 * ms div 512 = ms div 32"
    using div_mult_mult1 [of 16 ms 32] by simp
  ultimately show ?thesis by (simp add: whole_cells_def CELL_SAMPLES_def)
qed

theorem ms_round_trip_witness:
  "samples_as_ms (samples_from_ms 608) = 608 \<and> samples_from_ms 608 = 9728
   \<and> whole_cells (samples_from_ms 608) = 19"
  using ms_round_trip [of 608] by (auto simp: u64_max_def)

text \<open>
  The starts the controller computes for a candidate are the device's own: the mic start
  is the last 512-multiple with 300 ms of pre-roll, every capture stream's start already lies
  on the grid the device rounds it to, and no stream starts after the mic.
\<close>

theorem candidate_starts_contract:
  fixes support :: sample and afe_session :: bool
  assumes "support \<le> u64_max"
  defines "st \<equiv> candidate_starts_new support afe_session"
  shows "cs_mic st \<le> support - 4800 \<and> support - 4800 < cs_mic st + 512
    \<and> device_grid_start Mic (cs_mic st) = Some (cs_mic st)
    \<and> device_grid_start CellStream (cs_cells st) = Some (cs_cells st)
    \<and> cs_cells st \<le> cs_mic st - 160000 \<and> cs_mic st - 160000 < cs_cells st + 512
    \<and> cs_reference st = cs_mic st - 40000
    \<and> cs_afe st = (if afe_session then Some (round_down_to 1280 (cs_mic st - 40000)) else None)
    \<and> (\<forall>afe. cs_afe st = Some afe \<longrightarrow>
          device_grid_start AfeStream afe = Some afe \<and> afe \<le> cs_reference st)"
proof -
  let ?mic = "round_down_to 512 (support - 4800)"
  have mic: "cs_mic st = ?mic"
    by (simp add: st_def candidate_starts_new_def candidate_mic_start_def sample_round_down_eq
        sample_sub_def CELL_SAMPLES_def Let_def)
  have bound: "?mic - 160000 \<le> u64_max"
    using assms(1) round_down_to_le [of 512 "support - 4800"] by linarith
  have cells: "cs_cells st = round_down_to 512 (?mic - 160000)"
    using cell_start_le [OF bound]
    by (simp add: st_def candidate_starts_new_def candidate_mic_start_def sample_round_down_eq
        sample_sub_def CELL_SAMPLES_def Let_def cells_start_def round_down_to_def
        minus_mod_eq_div_mult)
  have rest: "cs_reference st = ?mic - 40000"
    "cs_afe st = (if afe_session then Some (round_down_to 1280 (?mic - 40000)) else None)"
    by (simp_all add: st_def candidate_starts_new_def candidate_mic_start_def sample_round_down_eq
        sample_sub_def grid_defs Let_def reference_start_def afe_start_def)
  show ?thesis
    using round_down_to_le [of 512 "support - 4800"] round_down_to_gap [of 512 "support - 4800"]
      round_down_to_le [of 512 "?mic - 160000"] round_down_to_gap [of 512 "?mic - 160000"]
      round_down_to_le [of 1280 "?mic - 40000"]
    by (auto simp: mic cells rest device_grid_start_def dvd_round_down_id round_down_to_dvd grid_defs)
qed

theorem candidate_starts_contract_witness:
  "cs_mic (candidate_starts_new 165056 True) = 160256
   \<and> cs_cells (candidate_starts_new 165056 True) = 0
   \<and> cs_afe (candidate_starts_new 165056 True) = Some 119040
   \<and> device_grid_start Mic (cs_mic (candidate_starts_new 165056 True)) = Some 160256"
  using candidate_starts_contract [of 165056 True]
  by (simp add: u64_max_def candidate_starts_new_def candidate_mic_start_def sample_round_down_def
      sample_sub_def grid_defs Let_def cells_start_def sample_cell_def cell_start_def wrap64_def
      reference_start_def round_down_to_def)

end
