(* ===== verification/Stream_Registry.thy ===== *)
theory Stream_Registry
  imports Sample_Time
begin

text \<open>
  The registry every uplink packet is checked against (\<open>crates/protocol/src/streams.rs\<close>): the
  stream epochs the device announced, whether each is open, the sequence and live position it
  has reached and the backfill runs granted and under way. The registry's hash map is a partial
  map, its deque of remembered ended epochs a list. Error details are log text and left out:
  an error is its \<open>protocol.error\<close> code.
\<close>

section \<open>Messages\<close>

datatype protocol_error_code =
    UnsupportedProtocol | MalformedMessage | MalformedFrame | Oversize | WrongSession | WrongDevice
  | UnexpectedMessage | BadStream | UnknownEpoch | StreamEnded | Sequence | SampleOrder
  | UnexpectedKind

datatype stream_reason =
  ReasonStart | ReasonDiscontinuity | ReasonPrivacy | ReasonClockReset | ReasonRenderEpoch

record stream_open =
  so_stream :: stream_id
  so_epoch :: nat
  so_reason :: "stream_reason reported option"

record stream_end =
  se_stream :: stream_id
  se_epoch :: nat
  se_final_sample :: nat
  se_reason :: "stream_reason reported option"

datatype uplink_ended_reason =
  EndedClosed | EndedTtl | EndedMute | EndedEpoch | EndedOverrun | EndedSession

record uplink_ended =
  ue_subscription :: string
  ue_reason :: uplink_ended_reason
  ue_last_sample :: "(stream_id \<times> nat option) list"
  ue_clipped_start :: "(stream_id \<times> nat option) list"

datatype backfill_grant = GrantEpoch nat | EveryOpenEpoch

section \<open>The registry\<close>

definition ENDED_EPOCHS_REMEMBERED :: nat where "ENDED_EPOCHS_REMEMBERED = 64"

definition u32_max :: nat where "u32_max = 2 ^ 32 - 1"

record epoch_state =
  es_ended :: bool
  es_last_sequence :: "nat option"
  es_live :: "nat option"
  es_runs :: "nat list"
  es_grants :: nat

type_synonym epoch_key = "stream_id \<times> nat"

record stream_registry =
  sr_afe_metadata :: bool
  sr_epochs :: "epoch_key \<rightharpoonup> epoch_state"
  sr_current :: "stream_id \<rightharpoonup> nat"
  sr_ended :: "epoch_key list"

definition registry_new :: "bool \<Rightarrow> stream_registry" where
  "registry_new afe_metadata =
     \<lparr>sr_afe_metadata = afe_metadata, sr_epochs = Map.empty, sr_current = Map.empty, sr_ended = []\<rparr>"

definition epoch_state_new :: epoch_state where
  "epoch_state_new =
     \<lparr>es_ended = False, es_last_sequence = None, es_live = None, es_runs = [], es_grants = 0\<rparr>"

definition registry_open ::
    "stream_open \<Rightarrow> stream_registry \<Rightarrow> stream_registry \<times> (protocol_error_code, unit) result" where
  "registry_open open r =
     (let stream = so_stream open; epoch = so_epoch open in
      if stream = AfeStream \<and> \<not> sr_afe_metadata r then (r, Inl BadStream)
      else case sr_epochs r (stream, epoch) of
        Some state \<Rightarrow>
          if es_ended state then (r, Inl BadStream)
          else (r\<lparr>sr_current := (sr_current r)(stream \<mapsto> epoch)\<rparr>, Inr ())
      | None \<Rightarrow>
          (r\<lparr>sr_epochs := (sr_epochs r)((stream, epoch) \<mapsto> epoch_state_new),
             sr_current := (sr_current r)(stream \<mapsto> epoch)\<rparr>, Inr ()))"

text \<open>An open epoch ends: it leaves the current epochs and joins the remembered ended ones.\<close>

definition end_epoch :: "epoch_key \<Rightarrow> epoch_state \<Rightarrow> stream_registry \<Rightarrow> stream_registry" where
  "end_epoch k st r =
     r\<lparr>sr_epochs := (sr_epochs r)(k \<mapsto> st\<lparr>es_ended := True, es_runs := [], es_grants := 0\<rparr>),
       sr_current := (if sr_current r (fst k) = Some (snd k) then (sr_current r)(fst k := None) else sr_current r),
       sr_ended := sr_ended r @ [k]\<rparr>"

definition registry_end ::
    "stream_end \<Rightarrow> stream_registry \<Rightarrow> stream_registry \<times> (protocol_error_code, unit) result" where
  "registry_end m r =
     (let key = (se_stream m, se_epoch m) in
      case sr_epochs r key of
        None \<Rightarrow> (r, Inl UnknownEpoch)
      | Some state \<Rightarrow>
          if es_ended state then (r, Inr ())
          else
            let r' = end_epoch key state r in
            if length (sr_ended r') > ENDED_EPOCHS_REMEMBERED
            then (r'\<lparr>sr_epochs := (sr_epochs r')(hd (sr_ended r') := None),
                     sr_ended := tl (sr_ended r')\<rparr>, Inr ())
            else (r', Inr ()))"

definition registry_current :: "stream_id \<Rightarrow> stream_registry \<Rightarrow> nat option" where
  "registry_current stream r = sr_current r stream"

definition registry_is_open :: "stream_id \<Rightarrow> nat \<Rightarrow> stream_registry \<Rightarrow> bool" where
  "registry_is_open stream epoch r \<longleftrightarrow>
     (case sr_epochs r (stream, epoch) of Some s \<Rightarrow> \<not> es_ended s | None \<Rightarrow> False)"

fun grant_covers :: "backfill_grant \<Rightarrow> nat \<Rightarrow> bool" where
  "grant_covers (GrantEpoch e) epoch \<longleftrightarrow> e = epoch"
| "grant_covers EveryOpenEpoch epoch \<longleftrightarrow> True"

definition grant_one :: "bool \<Rightarrow> epoch_state \<Rightarrow> epoch_state" where
  "grant_one covered state =
     (if covered \<and> \<not> es_ended state
      then state\<lparr>es_grants := min (es_grants state + 1) u32_max\<rparr> else state)"

definition grant_backfill :: "stream_id \<Rightarrow> backfill_grant \<Rightarrow> stream_registry \<Rightarrow> stream_registry" where
  "grant_backfill stream grant r =
     r\<lparr>sr_epochs := (\<lambda>(s, epoch). map_option
         (grant_one (s = stream \<and> grant_covers grant epoch)) (sr_epochs r (s, epoch)))\<rparr>"

text \<open>The ordering rule of \<open>check\<close>: the epoch's state after a packet of \<open>[first, end)\<close>, if allowed.\<close>

definition check_order :: "nat \<Rightarrow> nat \<Rightarrow> epoch_state \<Rightarrow> epoch_state option" where
  "check_order first end state =
     (case es_live state of
        Some live \<Rightarrow>
          if first < live then
            (case last_max (\<lambda>next. next \<le> first) (\<lambda>next. next) (es_runs state) of
               Some i \<Rightarrow> Some (state\<lparr>es_runs := (es_runs state)[i := end]\<rparr>)
             | None \<Rightarrow>
                 if es_grants state > 0
                 then Some (state\<lparr>es_grants := es_grants state - 1, es_runs := es_runs state @ [end]\<rparr>)
                 else None)
          else Some (state\<lparr>es_runs := filter (\<lambda>next. next < first) (es_runs state),
                           es_live := Some first\<rparr>)
      | None \<Rightarrow> Some (state\<lparr>es_runs := filter (\<lambda>next. next < first) (es_runs state),
                           es_live := Some first\<rparr>))"

definition uplink_stream :: "bool \<Rightarrow> kind \<Rightarrow> stream_id option" where
  "uplink_stream afe_metadata kind =
     (case stream_of_kind kind of
        Some AfeStream \<Rightarrow> if afe_metadata then Some AfeStream else None
      | other \<Rightarrow> other)"

definition registry_check ::
    "packet \<Rightarrow> stream_registry \<Rightarrow> stream_registry \<times> (protocol_error_code, stream_id) result" where
  "registry_check p r =
     (let h = p_header p in
      case uplink_stream (sr_afe_metadata r) (h_kind h) of
        None \<Rightarrow> (r, Inl UnexpectedKind)
      | Some stream \<Rightarrow>
          let key = (stream, unat (h_epoch h)) in
          case sr_epochs r key of
            None \<Rightarrow> (r, Inl UnknownEpoch)
          | Some state \<Rightarrow>
              if es_ended state then (r, Inl StreamEnded)
              else if (case es_last_sequence state of
                         Some prev \<Rightarrow> unat (h_sequence h) \<le> prev | None \<Rightarrow> False)
              then (r, Inl Sequence)
              else case check_order (unat (h_first_sample h)) (p_end_sample p) state of
                None \<Rightarrow> (r, Inl SampleOrder)
              | Some state' \<Rightarrow>
                  (r\<lparr>sr_epochs := (sr_epochs r)(key \<mapsto>
                       state'\<lparr>es_last_sequence := Some (unat (h_sequence h))\<rparr>)\<rparr>, Inr stream))"

definition registry_clear :: "stream_registry \<Rightarrow> stream_registry" where
  "registry_clear r = r\<lparr>sr_epochs := Map.empty, sr_current := Map.empty, sr_ended := []\<rparr>"

section \<open>Invariant\<close>

text \<open>
  What the registry's parts say agrees: the current epoch of a stream is open, the remembered
  ended epochs are exactly the ended ones, each once and at most 64, an ended epoch has no run
  left, and a session without AFE metadata has no AFE epoch.
\<close>

definition registry_inv :: "stream_registry \<Rightarrow> bool" where
  "registry_inv r \<longleftrightarrow>
     (\<forall>s e. sr_current r s = Some e \<longrightarrow> registry_is_open s e r)
     \<and> (\<forall>k. k \<in> set (sr_ended r) \<longleftrightarrow> (\<exists>st. sr_epochs r k = Some st \<and> es_ended st))
     \<and> distinct (sr_ended r) \<and> length (sr_ended r) \<le> ENDED_EPOCHS_REMEMBERED
     \<and> (\<forall>k st. sr_epochs r k = Some st \<and> es_ended st \<longrightarrow> es_runs st = [] \<and> es_grants st = 0)
     \<and> (\<forall>k st. sr_epochs r k = Some st \<longrightarrow> es_grants st \<le> u32_max)
     \<and> (\<not> sr_afe_metadata r \<longrightarrow> (\<forall>e. sr_epochs r (AfeStream, e) = None))"

datatype registry_op =
    OpOpen stream_open | OpEnd stream_end | OpGrant stream_id backfill_grant
  | OpCheck packet | OpClear

fun registry_step :: "registry_op \<Rightarrow> stream_registry \<Rightarrow> stream_registry" where
  "registry_step (OpOpen m) r = fst (registry_open m r)"
| "registry_step (OpEnd e) r = fst (registry_end e r)"
| "registry_step (OpGrant s g) r = grant_backfill s g r"
| "registry_step (OpCheck p) r = fst (registry_check p r)"
| "registry_step OpClear r = registry_clear r"

text \<open>The packets of one epoch that a sequence of checks accepts.\<close>

fun accepted :: "epoch_key \<Rightarrow> packet list \<Rightarrow> stream_registry \<Rightarrow> packet list" where
  "accepted k [] r = []"
| "accepted k (p # ps) r =
     (case registry_check p r of
        (r', Inl e) \<Rightarrow> accepted k ps r'
      | (r', Inr s) \<Rightarrow> if (s, unat (h_epoch (p_header p))) = k then p # accepted k ps r'
                      else accepted k ps r')"

section \<open>Lemmas\<close>

lemma registry_new_inv: "registry_inv (registry_new afe)"
  by (simp add: registry_inv_def registry_new_def)

lemma registry_clear_inv [inv_intros]: "registry_inv (registry_clear r)"
  by (simp add: registry_inv_def registry_clear_def)

lemma is_open_iff: "registry_is_open s e r \<longleftrightarrow> (\<exists>st. sr_epochs r (s, e) = Some st \<and> \<not> es_ended st)"
  by (auto simp: registry_is_open_def split: option.splits)

lemma registry_invD:
  assumes "registry_inv r"
  shows "sr_current r s = Some e \<Longrightarrow> \<exists>st. sr_epochs r (s, e) = Some st \<and> \<not> es_ended st"
    and "k \<in> set (sr_ended r) \<longleftrightarrow> (\<exists>st. sr_epochs r k = Some st \<and> es_ended st)"
    and "distinct (sr_ended r)" "length (sr_ended r) \<le> ENDED_EPOCHS_REMEMBERED"
    and "sr_epochs r k = Some st \<Longrightarrow> es_ended st \<Longrightarrow> es_runs st = [] \<and> es_grants st = 0"
    and "sr_epochs r k = Some st \<Longrightarrow> es_grants st \<le> u32_max"
    and "\<not> sr_afe_metadata r \<Longrightarrow> sr_epochs r (AfeStream, e) = None"
  using assms unfolding registry_inv_def is_open_iff by blast+

lemma registry_invI:
  assumes "\<And>s e. sr_current r s = Some e \<Longrightarrow> \<exists>st. sr_epochs r (s, e) = Some st \<and> \<not> es_ended st"
    and "\<And>k. k \<in> set (sr_ended r) \<longleftrightarrow> (\<exists>st. sr_epochs r k = Some st \<and> es_ended st)"
    and "distinct (sr_ended r)" "length (sr_ended r) \<le> ENDED_EPOCHS_REMEMBERED"
    and "\<And>k st. sr_epochs r k = Some st \<Longrightarrow> es_ended st \<Longrightarrow> es_runs st = [] \<and> es_grants st = 0"
    and "\<And>k st. sr_epochs r k = Some st \<Longrightarrow> es_grants st \<le> u32_max"
    and "\<And>e. \<not> sr_afe_metadata r \<Longrightarrow> sr_epochs r (AfeStream, e) = None"
  shows "registry_inv r"
  unfolding registry_inv_def is_open_iff using assms by blast

text \<open>One epoch's state changes and stays as open as it was.\<close>

lemma update_epoch_inv:
  assumes inv: "registry_inv r" and st: "sr_epochs r k = Some st"
    and "\<not> es_ended st" "\<not> es_ended st'" "es_grants st' \<le> u32_max"
  shows "registry_inv (r\<lparr>sr_epochs := (sr_epochs r)(k \<mapsto> st')\<rparr>)"
proof (rule registry_invI)
  fix s e assume "sr_current (r\<lparr>sr_epochs := (sr_epochs r)(k \<mapsto> st')\<rparr>) s = Some e"
  then show "\<exists>st. sr_epochs (r\<lparr>sr_epochs := (sr_epochs r)(k \<mapsto> st')\<rparr>) (s, e) = Some st \<and> \<not> es_ended st"
    using registry_invD(1) [OF inv, of s e] assms(4) by auto
next
  fix j show "j \<in> set (sr_ended (r\<lparr>sr_epochs := (sr_epochs r)(k \<mapsto> st')\<rparr>)) \<longleftrightarrow>
      (\<exists>st. sr_epochs (r\<lparr>sr_epochs := (sr_epochs r)(k \<mapsto> st')\<rparr>) j = Some st \<and> es_ended st)"
    using registry_invD(2) [OF inv, of j] st assms(3,4) by auto
next
  fix e assume "\<not> sr_afe_metadata (r\<lparr>sr_epochs := (sr_epochs r)(k \<mapsto> st')\<rparr>)"
  then show "sr_epochs (r\<lparr>sr_epochs := (sr_epochs r)(k \<mapsto> st')\<rparr>) (AfeStream, e) = None"
    using registry_invD(7) [OF inv, of e] st by auto
qed (use registry_invD [OF inv] assms(4,5) in \<open>auto split: if_splits\<close>)

lemma open_current_inv:
  assumes inv: "registry_inv r" and "sr_epochs r (s, e) = Some st" "\<not> es_ended st"
  shows "registry_inv (r\<lparr>sr_current := (sr_current r)(s \<mapsto> e)\<rparr>)"
  by (rule registry_invI) (use registry_invD [OF inv] assms(2,3) in \<open>auto split: if_splits\<close>)

lemma open_new_inv:
  assumes inv: "registry_inv r" and none: "sr_epochs r (s, e) = None" and "s \<noteq> AfeStream \<or> sr_afe_metadata r"
  shows "registry_inv (r\<lparr>sr_epochs := (sr_epochs r)((s, e) \<mapsto> epoch_state_new)\<rparr>)"
proof (rule registry_invI)
  fix j show "j \<in> set (sr_ended (r\<lparr>sr_epochs := (sr_epochs r)((s, e) \<mapsto> epoch_state_new)\<rparr>)) \<longleftrightarrow>
      (\<exists>st. sr_epochs (r\<lparr>sr_epochs := (sr_epochs r)((s, e) \<mapsto> epoch_state_new)\<rparr>) j = Some st \<and> es_ended st)"
    using registry_invD(2) [OF inv, of j] none by (auto simp: epoch_state_new_def)
qed (use registry_invD [OF inv] assms(3) in \<open>auto simp: epoch_state_new_def split: if_splits\<close>)

lemma registry_open_inv [inv_intros]:
  assumes inv: "registry_inv r"
  shows "registry_inv (fst (registry_open m r))"
proof (cases "sr_epochs r (so_stream m, so_epoch m)")
  case None
  have "registry_inv (r\<lparr>sr_epochs := (sr_epochs r)((so_stream m, so_epoch m) \<mapsto> epoch_state_new),
      sr_current := (sr_current r)(so_stream m \<mapsto> so_epoch m)\<rparr>)"
    if "so_stream m \<noteq> AfeStream \<or> sr_afe_metadata r"
    using open_current_inv [OF open_new_inv [OF inv None that], of "so_stream m" "so_epoch m" epoch_state_new]
    by (simp add: epoch_state_new_def)
  then show ?thesis using None inv by (auto simp: registry_open_def Let_def)
qed (use inv in \<open>auto simp: registry_open_def Let_def intro: open_current_inv\<close>)

text \<open>Ending an epoch, and forgetting the oldest remembered one.\<close>

lemma end_epoch_parts:
  assumes inv: "registry_inv r" and st: "sr_epochs r k = Some st" "\<not> es_ended st"
  shows "sr_current (end_epoch k st r) s = Some e \<Longrightarrow>
      \<exists>st'. sr_epochs (end_epoch k st r) (s, e) = Some st' \<and> \<not> es_ended st'"
    and "j \<in> set (sr_ended (end_epoch k st r)) \<longleftrightarrow>
      (\<exists>st'. sr_epochs (end_epoch k st r) j = Some st' \<and> es_ended st')"
    and "distinct (sr_ended (end_epoch k st r))"
proof -
  show "sr_current (end_epoch k st r) s = Some e \<Longrightarrow>
      \<exists>st'. sr_epochs (end_epoch k st r) (s, e) = Some st' \<and> \<not> es_ended st'"
    using registry_invD(1) [OF inv, of s e]
    by (cases k) (auto simp: end_epoch_def split: if_splits)
  show "j \<in> set (sr_ended (end_epoch k st r)) \<longleftrightarrow>
      (\<exists>st'. sr_epochs (end_epoch k st r) j = Some st' \<and> es_ended st')"
    using registry_invD(2) [OF inv, of j] by (auto simp: end_epoch_def)
  show "distinct (sr_ended (end_epoch k st r))"
    using registry_invD(2) [OF inv, of k] registry_invD(3) [OF inv] st by (auto simp: end_epoch_def)
qed

lemma end_epoch_rest:
  assumes inv: "registry_inv r" and st: "sr_epochs r k = Some st"
  shows "sr_epochs (end_epoch k st r) j = Some st' \<Longrightarrow> es_ended st' \<Longrightarrow> es_runs st' = [] \<and> es_grants st' = 0"
    and "sr_epochs (end_epoch k st r) j = Some st' \<Longrightarrow> es_grants st' \<le> u32_max"
    and "\<not> sr_afe_metadata (end_epoch k st r) \<Longrightarrow> sr_epochs (end_epoch k st r) (AfeStream, e) = None"
  using registry_invD(5-7) [OF inv] st by (auto simp: end_epoch_def split: if_splits)

lemma registry_end_inv [inv_intros]:
  assumes inv: "registry_inv r"
  shows "registry_inv (fst (registry_end m r))"
proof (cases "\<exists>state. sr_epochs r (se_stream m, se_epoch m) = Some state \<and> \<not> es_ended state")
  case True
  let ?key = "(se_stream m, se_epoch m)"
  from True obtain st where st: "sr_epochs r ?key = Some st" "\<not> es_ended st" by blast
  let ?r = "end_epoch ?key st r"
  note parts = end_epoch_parts [OF inv st] and rest = end_epoch_rest [OF inv st(1)]
  show ?thesis
  proof (cases "length (sr_ended ?r) > ENDED_EPOCHS_REMEMBERED")
    case long: True
    then obtain k ks where ks: "sr_ended ?r = k # ks" by (cases "sr_ended ?r") auto
    have eq: "fst (registry_end m r) = ?r\<lparr>sr_epochs := (sr_epochs ?r)(k := None), sr_ended := ks\<rparr>"
      using st long ks by (simp add: registry_end_def Let_def)
    have k: "\<exists>st'. sr_epochs ?r k = Some st' \<and> es_ended st'" using parts(2) [of k] ks by simp
    have "length (sr_ended ?r) = Suc (length (sr_ended r))" by (simp add: end_epoch_def)
    then have len: "length ks \<le> ENDED_EPOCHS_REMEMBERED" using registry_invD(4) [OF inv] ks by simp
    show ?thesis unfolding eq
    proof (rule registry_invI)
      fix s e assume "sr_current (?r\<lparr>sr_epochs := (sr_epochs ?r)(k := None), sr_ended := ks\<rparr>) s = Some e"
      then show "\<exists>st'. sr_epochs (?r\<lparr>sr_epochs := (sr_epochs ?r)(k := None), sr_ended := ks\<rparr>) (s, e) = Some st'
          \<and> \<not> es_ended st'"
        using parts(1) [of s e] k by auto
    next
      fix j show "j \<in> set (sr_ended (?r\<lparr>sr_epochs := (sr_epochs ?r)(k := None), sr_ended := ks\<rparr>)) \<longleftrightarrow>
          (\<exists>st'. sr_epochs (?r\<lparr>sr_epochs := (sr_epochs ?r)(k := None), sr_ended := ks\<rparr>) j = Some st' \<and> es_ended st')"
        using parts(2) [of j] parts(3) ks by auto
    qed (use parts(3) rest ks len in \<open>auto split: if_splits\<close>)
  next
    case False
    then have "fst (registry_end m r) = ?r"
      using st by (simp add: registry_end_def Let_def)
    moreover have "registry_inv ?r" by (rule registry_invI) (use parts rest False in auto)
    ultimately show ?thesis by simp
  qed
qed (use inv in \<open>auto simp: registry_end_def Let_def split: option.splits\<close>)

lemma grant_one_keeps [simp]:
  "es_ended (grant_one c st) = es_ended st" "es_runs (grant_one c st) = es_runs st"
  "es_ended st \<Longrightarrow> grant_one c st = st"
  by (simp_all add: grant_one_def)

lemma grant_one_bound: "es_grants st \<le> u32_max \<Longrightarrow> es_grants (grant_one c st) \<le> u32_max"
  by (simp add: grant_one_def)

lemma grant_backfill_epochs:
  "sr_epochs (grant_backfill s g r) (t, e) = map_option (grant_one (t = s \<and> grant_covers g e)) (sr_epochs r (t, e))"
  by (simp add: grant_backfill_def)

lemma grant_backfill_keeps [simp]:
  "sr_current (grant_backfill s g r) = sr_current r" "sr_ended (grant_backfill s g r) = sr_ended r"
  "sr_afe_metadata (grant_backfill s g r) = sr_afe_metadata r"
  by (simp_all add: grant_backfill_def)

lemma grant_backfill_inv [inv_intros]:
  assumes inv: "registry_inv r"
  shows "registry_inv (grant_backfill s g r)"
proof (rule registry_invI)
  fix t e assume "sr_current (grant_backfill s g r) t = Some e"
  then show "\<exists>st. sr_epochs (grant_backfill s g r) (t, e) = Some st \<and> \<not> es_ended st"
    using registry_invD(1) [OF inv, of t e] by (force simp: grant_backfill_epochs)
next
  fix j show "j \<in> set (sr_ended (grant_backfill s g r)) \<longleftrightarrow>
      (\<exists>st. sr_epochs (grant_backfill s g r) j = Some st \<and> es_ended st)"
    using registry_invD(2) [OF inv, of j]
    by (cases j; cases "sr_epochs r j") (simp_all add: grant_backfill_epochs)
next
  fix j st assume "sr_epochs (grant_backfill s g r) j = Some st" "es_ended st"
  then show "es_runs st = [] \<and> es_grants st = 0"
    using registry_invD(5) [OF inv, of j] by (cases j) (auto simp: grant_backfill_epochs)
next
  fix j st assume "sr_epochs (grant_backfill s g r) j = Some st"
  then show "es_grants st \<le> u32_max"
    using registry_invD(6) [OF inv, of j] by (cases j) (auto simp: grant_backfill_epochs intro: grant_one_bound)
qed (use registry_invD [OF inv] in \<open>auto simp: grant_backfill_epochs\<close>)

lemma check_order_keeps:
  "check_order first hi st = Some st' \<Longrightarrow> es_ended st' = es_ended st \<and> es_grants st' \<le> es_grants st
     \<and> es_last_sequence st' = es_last_sequence st"
  by (auto simp: check_order_def split: option.splits if_splits)

lemma registry_check_cases:
  obtains (rejected) e where "registry_check p r = (r, Inl e)"
    | (accepted) stream st st' where
      "registry_check p r = (r\<lparr>sr_epochs := (sr_epochs r)((stream, unat (h_epoch (p_header p))) \<mapsto>
          st'\<lparr>es_last_sequence := Some (unat (h_sequence (p_header p)))\<rparr>)\<rparr>, Inr stream)"
      "uplink_stream (sr_afe_metadata r) (h_kind (p_header p)) = Some stream"
      "sr_epochs r (stream, unat (h_epoch (p_header p))) = Some st" "\<not> es_ended st"
      "\<And>prev. es_last_sequence st = Some prev \<Longrightarrow> prev < unat (h_sequence (p_header p))"
      "check_order (unat (h_first_sample (p_header p))) (p_end_sample p) st = Some st'"
proof -
  let ?s = "uplink_stream (sr_afe_metadata r) (h_kind (p_header p))"
  have "(\<exists>e. registry_check p r = (r, Inl e)) \<or> ?thesis"
    by (cases ?s; cases "sr_epochs r (the ?s, unat (h_epoch (p_header p)))")
      (auto simp: registry_check_def Let_def split: option.splits if_splits intro!: accepted)
  then show ?thesis using rejected by blast
qed

lemma registry_check_inv [inv_intros]:
  assumes inv: "registry_inv r"
  shows "registry_inv (fst (registry_check p r))"
proof (cases rule: registry_check_cases [of p r])
  case (rejected e)
  then show ?thesis using inv by simp
next
  case (accepted stream st st')
  note keep = check_order_keeps [OF accepted(6)]
  have "es_grants st' \<le> u32_max" using keep registry_invD(6) [OF inv accepted(3)] by linarith
  then show ?thesis
    using update_epoch_inv [OF inv accepted(3,4)] keep accepted(1,4) by simp
qed

interpretation registry_machine: invariant_machine registry_step registry_inv
proof
  fix op r assume "registry_inv r"
  then show "registry_inv (registry_step op r)" by (cases op) (simp_all add: inv_intros)
qed

subsection \<open>Sequences of packets\<close>

lemma accepted_step:
  obtains (skip) r' where "accepted k (p # ps) r = accepted k ps r'" "sr_epochs r' k = sr_epochs r k"
    | (take) st st' r' where "accepted k (p # ps) r = p # accepted k ps r'"
      "sr_epochs r k = Some st" "\<not> es_ended st"
      "\<And>prev. es_last_sequence st = Some prev \<Longrightarrow> prev < unat (h_sequence (p_header p))"
      "check_order (unat (h_first_sample (p_header p))) (p_end_sample p) st = Some st'"
      "sr_epochs r' k = Some (st'\<lparr>es_last_sequence := Some (unat (h_sequence (p_header p)))\<rparr>)"
proof (cases rule: registry_check_cases [of p r])
  case (rejected e)
  then show ?thesis using skip [of r] by simp
next
  case (accepted stream st st')
  let ?r = "fst (registry_check p r)"
  show ?thesis
  proof (cases "(stream, unat (h_epoch (p_header p))) = k")
    case True
    then show ?thesis using take [of ?r st st'] accepted by auto
  next
    case False
    then show ?thesis using skip [of ?r] accepted(1) by auto
  qed
qed

lemma accepted_above:
  assumes "\<And>st prev. sr_epochs r k = Some st \<Longrightarrow> es_last_sequence st = Some prev \<Longrightarrow> m \<le> prev"
    and "\<And>st. sr_epochs r k = Some st \<Longrightarrow> es_last_sequence st \<noteq> None"
  shows "(\<forall>p \<in> set (accepted k ps r). m < unat (h_sequence (p_header p)))
    \<and> sorted_wrt (<) (map (\<lambda>p. unat (h_sequence (p_header p))) (accepted k ps r))"
  using assms
proof (induction ps arbitrary: r m)
  case (Cons p ps)
  show ?case
  proof (cases rule: accepted_step [of k p ps r])
    case (skip r')
    then show ?thesis using Cons.IH [of r' m] Cons.prems by auto
  next
    case (take st st' r')
    obtain prev where prev: "es_last_sequence st = Some prev" using Cons.prems(2) take(2) by blast
    have m: "m < unat (h_sequence (p_header p))"
      using Cons.prems(1) [OF take(2) prev] take(4) [OF prev] by simp
    have "(\<forall>q \<in> set (accepted k ps r'). unat (h_sequence (p_header p)) < unat (h_sequence (p_header q)))
      \<and> sorted_wrt (<) (map (\<lambda>p. unat (h_sequence (p_header p))) (accepted k ps r'))"
      by (rule Cons.IH) (use take(6) in auto)
    then show ?thesis using m take(1) by (auto intro: less_trans)
  qed
qed simp

lemma accepted_sequences: "sorted_wrt (<) (map (\<lambda>p. unat (h_sequence (p_header p))) (accepted k ps r))"
proof (induction ps arbitrary: r)
  case (Cons p ps)
  show ?case
  proof (cases rule: accepted_step [of k p ps r])
    case (skip r')
    then show ?thesis using Cons.IH by simp
  next
    case (take st st' r')
    have "(\<forall>q \<in> set (accepted k ps r'). unat (h_sequence (p_header p)) < unat (h_sequence (p_header q)))
      \<and> sorted_wrt (<) (map (\<lambda>p. unat (h_sequence (p_header p))) (accepted k ps r'))"
      by (rule accepted_above) (use take(6) in auto)
    then show ?thesis using take(1) by simp
  qed
qed simp

lemma check_order_forward:
  assumes "check_order first hi st = Some st'" "es_runs st = []" "es_grants st = 0"
  shows "es_runs st' = []" "es_grants st' = 0" "es_live st' = Some first"
    "\<And>live. es_live st = Some live \<Longrightarrow> live \<le> first"
  using assms by (auto simp: check_order_def split: option.splits if_splits)

lemma accepted_forward:
  assumes "sr_epochs r k = Some st" "es_runs st = []" "es_grants st = 0"
  shows "(\<forall>live. es_live st = Some live \<longrightarrow> (\<forall>p \<in> set (accepted k ps r). live \<le> unat (h_first_sample (p_header p))))
    \<and> sorted (map (\<lambda>p. unat (h_first_sample (p_header p))) (accepted k ps r))"
  using assms
proof (induction ps arbitrary: r st)
  case (Cons p ps)
  show ?case
  proof (cases rule: accepted_step [of k p ps r])
    case (skip r')
    then show ?thesis using Cons.IH [of r' st] Cons.prems by simp
  next
    case (take st0 st' r')
    have st0: "st0 = st" using take(2) Cons.prems(1) by simp
    note fwd = check_order_forward [OF take(5) [unfolded st0] Cons.prems(2,3)]
    let ?st = "st'\<lparr>es_last_sequence := Some (unat (h_sequence (p_header p)))\<rparr>"
    have ih: "(\<forall>live. es_live ?st = Some live \<longrightarrow> (\<forall>p \<in> set (accepted k ps r'). live \<le> unat (h_first_sample (p_header p))))
      \<and> sorted (map (\<lambda>p. unat (h_first_sample (p_header p))) (accepted k ps r'))"
      by (rule Cons.IH [OF take(6)]) (use fwd in simp_all)
    then show ?thesis using take(1) fwd(3,4) by (auto intro: order.trans)
  qed
qed simp

section \<open>Properties\<close>

text \<open>Whatever the device announces, ends and sends and whatever backfill is granted, in any
  order, the registry stays consistent: each stream's current epoch is open, exactly the
  remembered epochs are ended, each once and at most 64 of them, an ended epoch has no run or
  grant left, and a session without AFE metadata never has an AFE epoch.\<close>

theorem registry_reachable_consistent:
  "registry_inv (fold registry_step ops (registry_new afe_metadata))"
  by (rule registry_machine.run_inv [OF registry_new_inv])

text \<open>(C16) A rejected packet changes nothing. An accepted one belongs to an open epoch of its own
  stream, has a sequence above the epoch's last, which it becomes, and starts at or past the
  live position, or continues a run under way, or starts one of the granted runs.\<close>

theorem registry_check_contract:
  "case registry_check p r of
     (r', Inl e) \<Rightarrow> r' = r
   | (r', Inr s) \<Rightarrow>
       stream_of_kind (h_kind (p_header p)) = Some s
       \<and> (\<exists>st st'. sr_epochs r (s, unat (h_epoch (p_header p))) = Some st \<and> \<not> es_ended st
            \<and> sr_epochs r' (s, unat (h_epoch (p_header p))) = Some st'
            \<and> (case es_last_sequence st of None \<Rightarrow> True | Some prev \<Rightarrow> prev < unat (h_sequence (p_header p)))
            \<and> es_last_sequence st' = Some (unat (h_sequence (p_header p)))
            \<and> (case es_live st of None \<Rightarrow> True
               | Some live \<Rightarrow> live \<le> unat (h_first_sample (p_header p))
                   \<or> (\<exists>i < length (es_runs st). es_runs st ! i \<le> unat (h_first_sample (p_header p))
                        \<and> es_runs st' = (es_runs st)[i := p_end_sample p])
                   \<or> es_grants st = Suc (es_grants st')))"
proof (cases rule: registry_check_cases [of p r])
  case (rejected e)
  then show ?thesis by simp
next
  case (accepted stream st st')
  have kind: "stream_of_kind (h_kind (p_header p)) = Some stream"
    using accepted(2) by (auto simp: uplink_stream_def split: option.splits stream_id.splits if_splits)
  have order: "case es_live st of None \<Rightarrow> True
     | Some live \<Rightarrow> live \<le> unat (h_first_sample (p_header p))
         \<or> (\<exists>i < length (es_runs st). es_runs st ! i \<le> unat (h_first_sample (p_header p))
              \<and> es_runs st' = (es_runs st)[i := p_end_sample p])
         \<or> es_grants st = Suc (es_grants st')"
    using accepted(6) by (auto simp: check_order_def dest!: last_max_Some split: option.splits if_splits)
  show ?thesis
    unfolding accepted(1) using kind accepted(3-5) order by (auto split: option.splits)
qed

text \<open>Over any sequence of packets, interleaved across streams and epochs in any way, the
  sequence numbers of the packets accepted for one epoch strictly increase.\<close>

theorem accepted_sequences_increase:
  "sorted_wrt (<) (map (\<lambda>p. unat (h_sequence (p_header p))) (accepted k ps r))"
  by (rule accepted_sequences)

text \<open>Without a granted or running backfill an epoch only moves forward: over any sequence of
  packets, the first samples of those accepted for it never go back.\<close>

theorem accepted_forward_without_grant:
  assumes "sr_epochs r k = Some st" "es_runs st = []" "es_grants st = 0"
  shows "sorted (map (\<lambda>p. unat (h_first_sample (p_header p))) (accepted k ps r))"
  using accepted_forward [OF assms] by blast

theorem accepted_forward_without_grant_witness:
  "\<exists>r p. accepted (CellStream, 9) [p] r = [p]
     \<and> sorted (map (\<lambda>p. unat (h_first_sample (p_header p))) (accepted (CellStream, 9) [p, p] r))"
proof -
  obtain frame p where p: "packet_parse frame = Inr p" "p_header p = witness_header"
      "packet_content p = Cells witness_cells" using witness_packet by blast
  let ?r = "fst (registry_open \<lparr>so_stream = CellStream, so_epoch = 9, so_reason = None\<rparr> (registry_new False))"
  have st: "sr_epochs ?r (CellStream, 9) = Some epoch_state_new"
    by (simp add: registry_open_def registry_new_def)
  have "accepted (CellStream, 9) [p] ?r = [p]"
    using p(2) by (simp add: registry_check_def registry_open_def registry_new_def epoch_state_new_def
        check_order_def witness_header_def uplink_stream_def)
  then show ?thesis
    using accepted_forward_without_grant [OF st, of "[p, p]"] by (auto simp: epoch_state_new_def)
qed

end
