(* ===== verification/Block_Index.thy ===== *)
theory Block_Index
  imports Sample_Time
begin

text \<open>
  The block bookkeeping of one stream epoch (\<open>BlockIndex\<close> in
  \<open>crates/uplink/src/buffer.rs\<close>), in record indices: which positions are held, which the
  device reported missing, and below which position nothing is kept. \<open>slot_at\<close> is the
  abstract view: what each position holds, whatever blocks record it.
\<close>

section \<open>Metadata of a run of records\<close>

definition SAMPLE_NS :: nat where "SAMPLE_NS = 62500"

record span =
  sp_start :: nat
  sp_end :: nat

definition span_new :: "nat \<Rightarrow> nat \<Rightarrow> span option" where
  "span_new start end = (if start \<le> end then Some \<lparr>sp_start = start, sp_end = end\<rparr> else None)"

definition span_len :: "span \<Rightarrow> nat" where
  "span_len s = sp_end s - sp_start s"

definition span_is_empty :: "span \<Rightarrow> bool" where
  "span_is_empty s \<longleftrightarrow> sp_start s = sp_end s"

record block_meta =
  bm_flags :: u8
  bm_mono_ns :: nat
  bm_uncertainty_us :: "u32 option"
  bm_source_mask :: u8

definition block_meta_of :: "packet \<Rightarrow> block_meta" where
  "block_meta_of p =
     (let h = p_header p in
      \<lparr>bm_flags = (case flags_from_bits (h_flags h AND NOT DISCONTINUITY) of
                     Some f \<Rightarrow> f | None \<Rightarrow> 0),
       bm_mono_ns = unat (h_mono_ns h), bm_uncertainty_us = h_uncertainty_us h,
       bm_source_mask = h_source_mask h\<rparr>)"

definition meta_advanced :: "block_meta \<Rightarrow> nat \<Rightarrow> nat \<Rightarrow> block_meta" where
  "meta_advanced m records unit =
     m\<lparr>bm_mono_ns := sat_add (bm_mono_ns m) (sat_mul records (unit * SAMPLE_NS))\<rparr>"

section \<open>Blocks\<close>

datatype block_kind = DataBlock block_meta bool | MissingBlock

record block =
  b_first :: nat
  b_end :: nat
  b_kind :: block_kind

record block_index =
  bi_unit :: nat
  bi_capacity :: nat
  bi_max_blocks :: nat
  bi_blocks :: "block list"
  bi_end :: nat
  bi_floor :: nat

datatype lookup =
    LookupData nat block_meta bool
  | LookupMissing nat
  | LookupEvicted nat
  | LookupUnknown "nat option"

text \<open>The front block after the floor rose into it.\<close>

fun trim_front :: "nat \<Rightarrow> nat \<Rightarrow> block list \<Rightarrow> block list" where
  "trim_front unit floor [] = []"
| "trim_front unit floor (front # rest) =
     (if b_first front < floor then
        front\<lparr>b_first := floor,
          b_kind := (case b_kind front of
             DataBlock meta discontinuity \<Rightarrow>
               DataBlock (meta_advanced meta (floor - b_first front) unit) False
           | MissingBlock \<Rightarrow> MissingBlock)\<rparr> # rest
      else front # rest)"

definition raise_floor :: "nat \<Rightarrow> block_index \<Rightarrow> block_index" where
  "raise_floor floor ix =
     (if floor \<le> bi_floor ix then ix
      else ix\<lparr>bi_floor := floor,
              bi_blocks := trim_front (bi_unit ix) floor
                (dropWhile (\<lambda>b. b_end b \<le> floor) (bi_blocks ix))\<rparr>)"

definition advance :: "nat \<Rightarrow> block_index \<Rightarrow> block_index" where
  "advance end ix =
     (let ix' = ix\<lparr>bi_end := max (bi_end ix) end\<rparr>
      in raise_floor (bi_end ix' - bi_capacity ix') ix')"

text \<open>The \<open>while\<close> loop of \<open>enforce_block_limit\<close>: the blocks left and the floor.\<close>

fun pop_excess :: "nat \<Rightarrow> block list \<Rightarrow> nat \<Rightarrow> block list \<times> nat" where
  "pop_excess max_blocks [] floor = ([], floor)"
| "pop_excess max_blocks (oldest # rest) floor =
     (if length (oldest # rest) > max_blocks
      then pop_excess max_blocks rest (max floor (b_end oldest))
      else (oldest # rest, floor))"

definition enforce_block_limit :: "block_index \<Rightarrow> block_index" where
  "enforce_block_limit ix =
     (let (bs, floor) = pop_excess (bi_max_blocks ix) (bi_blocks ix) (bi_floor ix)
      in ix\<lparr>bi_blocks := bs, bi_floor := floor\<rparr>)"

definition after :: "nat \<Rightarrow> block list \<Rightarrow> nat" where
  "after pos bs = partition_point (\<lambda>b. b_end b \<le> pos) bs"

text \<open>The loop of \<open>uncovered\<close> over the blocks from \<open>after first\<close> on.\<close>

fun uncovered_from :: "nat \<Rightarrow> nat \<Rightarrow> bool \<Rightarrow> block list \<Rightarrow> (nat \<times> nat) list" where
  "uncovered_from cur end data_only [] = (if cur < end then [(cur, end)] else [])"
| "uncovered_from cur end data_only (b # bs) =
     (if b_first b \<ge> end then (if cur < end then [(cur, end)] else [])
      else if data_only \<and> b_kind b = MissingBlock then uncovered_from cur end data_only bs
      else (if b_first b > cur then [(cur, b_first b)] else [])
           @ uncovered_from (max cur (b_end b)) end data_only bs)"

definition uncovered :: "nat \<Rightarrow> nat \<Rightarrow> bool \<Rightarrow> block_index \<Rightarrow> (nat \<times> nat) list" where
  "uncovered first end data_only ix =
     uncovered_from first end data_only (drop (after first (bi_blocks ix)) (bi_blocks ix))"

definition insert_block :: "block \<Rightarrow> block list \<Rightarrow> block list" where
  "insert_block block bs =
     (let at = partition_point (\<lambda>b. b_first b < b_first block) bs
      in take at bs @ block # drop at bs)"

text \<open>
  The loop of \<open>cut_missing\<close> over the blocks from \<open>after first\<close> on. A block that reaches past
  \<open>end\<close> leaves a piece that starts at \<open>end\<close>, which the loop reads next and stops at.
\<close>

fun cut_from :: "nat \<Rightarrow> nat \<Rightarrow> block list \<Rightarrow> block list" where
  "cut_from first end [] = []"
| "cut_from first end (b # bs) =
     (if b_first b \<ge> end then b # bs
      else (if b_first b < first then [b\<lparr>b_end := first\<rparr>] else [])
           @ (if b_end b > end then b\<lparr>b_first := end\<rparr> # bs else cut_from first end bs))"

definition cut_missing :: "nat \<Rightarrow> nat \<Rightarrow> block list \<Rightarrow> block list" where
  "cut_missing first end bs =
     (let at = after first bs in take at bs @ cut_from first end (drop at bs))"

fun insert_novel ::
    "nat \<Rightarrow> nat \<Rightarrow> block_meta \<Rightarrow> bool \<Rightarrow> (nat \<times> nat) list \<Rightarrow> block list \<Rightarrow> block list" where
  "insert_novel unit first meta discontinuity [] bs = bs"
| "insert_novel unit first meta discontinuity ((a, b) # novel) bs =
     insert_novel unit first meta discontinuity novel
       (insert_block
          \<lparr>b_first = a, b_end = b,
           b_kind = DataBlock (meta_advanced meta (a - first) unit) (discontinuity \<and> a = first)\<rparr>
          (cut_missing a b bs))"

definition insert_data ::
    "nat \<Rightarrow> nat \<Rightarrow> block_meta \<Rightarrow> bool \<Rightarrow> block_index \<Rightarrow> block_index \<times> (nat \<times> nat) list" where
  "insert_data first end meta discontinuity ix =
     (let ix1 = advance end ix; from = max first (bi_floor ix1) in
      if from \<ge> end then (ix1, [])
      else let novel = uncovered from end True ix1 in
        (enforce_block_limit
           (ix1\<lparr>bi_blocks := insert_novel (bi_unit ix1) first meta discontinuity novel (bi_blocks ix1)\<rparr>),
         novel))"

fun insert_gaps :: "(nat \<times> nat) list \<Rightarrow> block list \<Rightarrow> block list" where
  "insert_gaps [] bs = bs"
| "insert_gaps ((a, b) # gaps) bs =
     insert_gaps gaps (insert_block \<lparr>b_first = a, b_end = b, b_kind = MissingBlock\<rparr> bs)"

definition insert_missing :: "nat \<Rightarrow> nat \<Rightarrow> block_index \<Rightarrow> block_index" where
  "insert_missing first end ix =
     (let ix1 = advance end ix; from = max first (bi_floor ix1) in
      if from \<ge> end then ix1
      else enforce_block_limit
        (ix1\<lparr>bi_blocks := insert_gaps (uncovered from end False ix1) (bi_blocks ix1)\<rparr>))"

definition index_lookup :: "nat \<Rightarrow> block_index \<Rightarrow> lookup" where
  "index_lookup pos ix =
     (if pos < bi_floor ix then LookupEvicted (bi_floor ix)
      else case drop (after pos (bi_blocks ix)) (bi_blocks ix) of
        [] \<Rightarrow> LookupUnknown None
      | b # _ \<Rightarrow>
          if b_first b \<le> pos then
            (case b_kind b of
               DataBlock meta discontinuity \<Rightarrow>
                 LookupData (b_end b) (meta_advanced meta (pos - b_first b) (bi_unit ix))
                   (discontinuity \<and> pos = b_first b)
             | MissingBlock \<Rightarrow> LookupMissing (b_end b))
          else LookupUnknown (Some (b_first b)))"

section \<open>The abstract view and the invariant\<close>

datatype slot = Held block_meta bool | Lost

fun block_slot :: "nat \<Rightarrow> block \<Rightarrow> nat \<Rightarrow> slot" where
  "block_slot unit b pos =
     (case b_kind b of
        DataBlock meta discontinuity \<Rightarrow>
          Held (meta_advanced meta (pos - b_first b) unit) (discontinuity \<and> pos = b_first b)
      | MissingBlock \<Rightarrow> Lost)"

definition covers :: "block \<Rightarrow> nat \<Rightarrow> bool" where
  "covers b pos \<longleftrightarrow> b_first b \<le> pos \<and> pos < b_end b"

fun slot_in :: "nat \<Rightarrow> block list \<Rightarrow> nat \<Rightarrow> slot option" where
  "slot_in unit [] pos = None"
| "slot_in unit (b # bs) pos = (if covers b pos then Some (block_slot unit b pos) else slot_in unit bs pos)"

definition slot_at :: "block_index \<Rightarrow> nat \<Rightarrow> slot option" where
  "slot_at ix pos = slot_in (bi_unit ix) (bi_blocks ix) pos"

fun is_held :: "slot option \<Rightarrow> bool" where
  "is_held (Some (Held m d)) = True"
| "is_held _ = False"

definition chain :: "block list \<Rightarrow> bool" where
  "chain bs \<longleftrightarrow> sorted_wrt (\<lambda>b c. b_end b \<le> b_first c) bs \<and> (\<forall>b \<in> set bs. b_first b < b_end b)"

definition index_inv :: "block_index \<Rightarrow> bool" where
  "index_inv ix \<longleftrightarrow>
     chain (bi_blocks ix)
     \<and> (\<forall>b \<in> set (bi_blocks ix). bi_floor ix \<le> b_first b \<and> b_end b \<le> bi_end ix)
     \<and> bi_end ix \<le> bi_floor ix + bi_capacity ix \<and> bi_floor ix \<le> bi_end ix
     \<and> length (bi_blocks ix) \<le> bi_max_blocks ix
     \<and> 0 < bi_unit ix \<and> 0 < bi_capacity ix \<and> 0 < bi_max_blocks ix"

text \<open>The invariant before the block limit is enforced.\<close>

definition index_pre :: "block_index \<Rightarrow> bool" where
  "index_pre ix \<longleftrightarrow>
     chain (bi_blocks ix)
     \<and> (\<forall>b \<in> set (bi_blocks ix). bi_floor ix \<le> b_first b \<and> b_end b \<le> bi_end ix)
     \<and> bi_end ix \<le> bi_floor ix + bi_capacity ix \<and> bi_floor ix \<le> bi_end ix
     \<and> 0 < bi_unit ix \<and> 0 < bi_capacity ix \<and> 0 < bi_max_blocks ix"

text \<open>A block and a range have a position in common.\<close>

definition overlaps :: "nat \<Rightarrow> nat \<Rightarrow> block \<Rightarrow> bool" where
  "overlaps first end b \<longleftrightarrow> b_first b < end \<and> first < b_end b"

text \<open>Positions in a list of ranges; sorted, disjoint, non-empty ranges.\<close>

definition in_ranges :: "(nat \<times> nat) list \<Rightarrow> nat \<Rightarrow> bool" where
  "in_ranges rs pos \<longleftrightarrow> (\<exists>(a, b) \<in> set rs. a \<le> pos \<and> pos < b)"

definition ranges_ok :: "(nat \<times> nat) list \<Rightarrow> bool" where
  "ranges_ok rs \<longleftrightarrow> sorted_wrt (\<lambda>(a, b) (c, d). b \<le> c) rs \<and> (\<forall>(a, b) \<in> set rs. a < b)"

text \<open>Whether a block counts as covering in \<open>uncovered\<close>.\<close>

definition counts :: "bool \<Rightarrow> block \<Rightarrow> bool" where
  "counts data_only b \<longleftrightarrow> \<not> (data_only \<and> b_kind b = MissingBlock)"

text \<open>The index a new buffer of a stream starts from, and its operations as one step function.\<close>

definition index_new :: "stream_id \<Rightarrow> nat \<Rightarrow> nat \<Rightarrow> block_index" where
  "index_new stream retention max_blocks =
     \<lparr>bi_unit = samples_per_frame (stream_kind stream),
      bi_capacity = max (retention div samples_per_frame (stream_kind stream)) 1,
      bi_max_blocks = max max_blocks 1, bi_blocks = [], bi_end = 0, bi_floor = 0\<rparr>"

datatype index_op = InsertData nat nat block_meta bool | InsertMissing nat nat

fun index_step :: "index_op \<Rightarrow> block_index \<Rightarrow> block_index" where
  "index_step (InsertData first end meta discontinuity) ix =
     fst (insert_data first end meta discontinuity ix)"
| "index_step (InsertMissing first end) ix = insert_missing first end ix"

definition index_after :: "stream_id \<Rightarrow> nat \<Rightarrow> nat \<Rightarrow> index_op list \<Rightarrow> block_index" where
  "index_after stream retention max_blocks ops =
     fold index_step ops (index_new stream retention max_blocks)"

text \<open>Where a lookup says the next answer starts.\<close>

fun lookup_stop :: "lookup \<Rightarrow> nat option" where
  "lookup_stop (LookupData hi m d) = Some hi"
| "lookup_stop (LookupMissing hi) = Some hi"
| "lookup_stop (LookupEvicted hi) = Some hi"
| "lookup_stop (LookupUnknown next) = next"

text \<open>Two packets of four samples, the second overlapping the first, then a gap report.\<close>

definition witness_meta :: "nat \<Rightarrow> block_meta" where
  "witness_meta t = \<lparr>bm_flags = 0, bm_mono_ns = t, bm_uncertainty_us = None, bm_source_mask = 0\<rparr>"

definition witness_ops :: "index_op list" where
  "witness_ops = [InsertData 4 8 (witness_meta 0) True, InsertData 6 10 (witness_meta 7) False,
     InsertMissing 9 14]"

section \<open>Lemmas\<close>

lemma meta_advanced_add:
  "meta_advanced (meta_advanced m a unit) b unit = meta_advanced m (a + b) unit"
  by (simp add: meta_advanced_def sat_add_assoc sat_mul_add)

subsection \<open>Chains\<close>

lemma chain_Nil [simp]: "chain []"
  by (simp add: chain_def)

lemma chain_Cons:
  "chain (b # bs) \<longleftrightarrow> b_first b < b_end b \<and> (\<forall>c \<in> set bs. b_end b \<le> b_first c) \<and> chain bs"
  by (auto simp: chain_def)

lemma chain_append:
  "chain (xs @ ys) \<longleftrightarrow> chain xs \<and> chain ys \<and> (\<forall>x \<in> set xs. \<forall>y \<in> set ys. b_end x \<le> b_first y)"
  by (auto simp: chain_def sorted_wrt_append)

lemma chain_nonempty: "chain bs \<Longrightarrow> b \<in> set bs \<Longrightarrow> b_first b < b_end b"
  by (simp add: chain_def)

lemma slot_in_append:
  "slot_in unit (xs @ ys) pos =
     (case slot_in unit xs pos of None \<Rightarrow> slot_in unit ys pos | Some s \<Rightarrow> Some s)"
  by (induction xs) auto

lemma slot_in_None: "slot_in unit bs pos = None \<longleftrightarrow> (\<forall>b \<in> set bs. \<not> covers b pos)"
  by (induction bs) auto

lemma slot_in_Some: "chain bs \<Longrightarrow> b \<in> set bs \<Longrightarrow> covers b pos \<Longrightarrow>
    slot_in unit bs pos = Some (block_slot unit b pos)"
proof (induction bs)
  case (Cons c bs)
  show ?case
  proof (cases "b = c")
    case False
    with Cons.prems have "b \<in> set bs" and "b_end c \<le> b_first b" by (auto simp: chain_Cons)
    with Cons show ?thesis by (auto simp: chain_Cons covers_def)
  qed (use Cons.prems in simp)
qed simp

lemma slot_in_cases:
  assumes "chain bs"
  obtains (None) "slot_in unit bs pos = None" "\<And>b. b \<in> set bs \<Longrightarrow> \<not> covers b pos"
    | (Some) b where "b \<in> set bs" "covers b pos" "slot_in unit bs pos = Some (block_slot unit b pos)"
  using assms slot_in_None slot_in_Some by metis

lemma slot_in_same:
  assumes "chain bs" "chain cs"
    and "\<And>b. covers b pos \<Longrightarrow> b \<in> set bs \<Longrightarrow> \<exists>c \<in> set cs. covers c pos \<and> block_slot unit c pos = block_slot unit b pos"
    and "\<And>c. covers c pos \<Longrightarrow> c \<in> set cs \<Longrightarrow> \<exists>b \<in> set bs. covers b pos"
  shows "slot_in unit cs pos = slot_in unit bs pos"
  using assms(1)
proof (cases rule: slot_in_cases [where unit = unit and pos = pos])
  case None
  then have "\<forall>c \<in> set cs. \<not> covers c pos" using assms(4) by blast
  then show ?thesis using None by (simp add: slot_in_None [THEN iffD2])
next
  case (Some b)
  then obtain c where "c \<in> set cs" "covers c pos" "block_slot unit c pos = block_slot unit b pos"
    using assms(3) by blast
  then show ?thesis using Some slot_in_Some [OF assms(2)] by simp
qed

lemma is_held_slot:
  "is_held (Some (block_slot unit b pos)) \<longleftrightarrow> b_kind b \<noteq> MissingBlock"
  by (cases "b_kind b") simp_all

subsection \<open>The floor\<close>

lemma chain_dropWhile: "chain bs \<Longrightarrow> chain (dropWhile P bs)"
  by (metis chain_append takeWhile_dropWhile_id)

lemma dropWhile_ends:
  "chain bs \<Longrightarrow> b \<in> set (dropWhile (\<lambda>b. b_end b \<le> floor) bs) \<Longrightarrow> floor < b_end b"
  by (induction bs) (auto simp: chain_Cons split: if_splits dest!: chain_nonempty)

lemma trim_front_chain:
  "chain bs \<Longrightarrow> (\<And>b. b \<in> set bs \<Longrightarrow> floor < b_end b) \<Longrightarrow> chain (trim_front unit floor bs)"
  by (cases bs) (auto simp: chain_Cons)

lemma trim_front_bounds:
  assumes "chain bs" "\<And>b. b \<in> set bs \<Longrightarrow> floor < b_end b" "c \<in> set (trim_front unit floor bs)"
  shows "floor \<le> b_first c \<and> (\<exists>b \<in> set bs. b_end c = b_end b \<and> b_first b \<le> b_first c)"
  using assms by (cases bs) (auto simp: chain_Cons not_less dest: order.trans less_imp_le split: if_splits)

lemma trim_front_slot:
  assumes "chain bs" "\<And>b. b \<in> set bs \<Longrightarrow> floor < b_end b" "floor \<le> pos"
  shows "slot_in unit (trim_front unit floor bs) pos = slot_in unit bs pos"
  using assms
  by (cases bs) (auto simp: covers_def meta_advanced_add split: block_kind.splits)

lemma dropWhile_slot:
  assumes "floor \<le> pos"
  shows "slot_in unit (dropWhile (\<lambda>b. b_end b \<le> floor) bs) pos = slot_in unit bs pos"
  using assms by (induction bs) (auto simp: covers_def)

lemma length_trim_front [simp]: "length (trim_front unit floor bs) = length bs"
  by (cases bs) simp_all

lemma length_dropWhile_blocks: "length (dropWhile P bs) \<le> length bs"
  by (rule length_dropWhile_le)

lemma index_inv_pre: "index_inv ix \<longleftrightarrow> index_pre ix \<and> length (bi_blocks ix) \<le> bi_max_blocks ix"
  by (auto simp: index_inv_def index_pre_def)

lemma advance_frame [simp]:
  "bi_unit (advance e ix) = bi_unit ix" "bi_capacity (advance e ix) = bi_capacity ix"
  "bi_max_blocks (advance e ix) = bi_max_blocks ix" "bi_end (advance e ix) = max (bi_end ix) e"
  by (simp_all add: advance_def raise_floor_def Let_def)

lemma advance_floor: "bi_floor (advance e ix) = max (bi_floor ix) (max (bi_end ix) e - bi_capacity ix)"
  by (auto simp: advance_def raise_floor_def Let_def)

lemma advance_inv: "index_inv ix \<Longrightarrow> index_inv (advance e ix)"
proof -
  assume inv: "index_inv ix"
  let ?f = "max (bi_end ix) e - bi_capacity ix"
  let ?bs = "dropWhile (\<lambda>b. b_end b \<le> ?f) (bi_blocks ix)"
  have c: "chain (bi_blocks ix)" using inv by (simp add: index_inv_def)
  have bs: "chain ?bs" "\<And>b. b \<in> set ?bs \<Longrightarrow> ?f < b_end b"
    using c by (simp_all add: chain_dropWhile dropWhile_ends)
  have sub: "\<And>b. b \<in> set ?bs \<Longrightarrow> b_end b \<le> bi_end ix"
    using inv by (auto simp: index_inv_def dest: set_dropWhileD)
  have bd: "?f \<le> b_first b \<and> b_end b \<le> bi_end ix" if "b \<in> set (trim_front (bi_unit ix) ?f ?bs)" for b
    using trim_front_bounds [OF bs that] sub by auto
  have len: "length ?bs \<le> bi_max_blocks ix"
    using inv length_dropWhile_le [of "\<lambda>b. b_end b \<le> ?f" "bi_blocks ix"] by (simp add: index_inv_def)
  show ?thesis
    using inv bd len trim_front_chain [OF bs]
    by (fastforce simp: index_inv_def advance_def raise_floor_def Let_def max_def)
qed

lemma advance_slot:
  assumes "index_inv ix" "bi_floor (advance e ix) \<le> pos"
  shows "slot_at (advance e ix) pos = slot_at ix pos"
proof -
  let ?f = "max (bi_end ix) e - bi_capacity ix"
  have c: "chain (bi_blocks ix)" using assms(1) by (simp add: index_inv_def)
  have "?f \<le> pos" using assms(2) by (simp add: advance_floor)
  then show ?thesis
    using trim_front_slot [OF chain_dropWhile [OF c] dropWhile_ends [OF c]] dropWhile_slot
    by (simp add: slot_at_def advance_def raise_floor_def Let_def)
qed

lemma slot_below_floor: "index_pre ix \<Longrightarrow> pos < bi_floor ix \<Longrightarrow> slot_at ix pos = None"
  by (auto simp: slot_at_def slot_in_None covers_def index_pre_def)

lemma pop_excess_suffix:
  "pop_excess m bs f = (bs', f') \<Longrightarrow>
     \<exists>dropped. bs = dropped @ bs' \<and> (\<forall>b \<in> set dropped. b_end b \<le> f') \<and> f \<le> f'
       \<and> length bs' \<le> m \<and> (f' = f \<or> (\<exists>b \<in> set dropped. f' = b_end b))"
proof (induction m bs f rule: pop_excess.induct)
  case (2 m oldest rest f)
  show ?case
  proof (cases "length (oldest # rest) > m")
    case True
    with 2 obtain d where d: "rest = d @ bs'" "\<forall>b \<in> set d. b_end b \<le> f'" "max f (b_end oldest) \<le> f'"
        "length bs' \<le> m" "f' = max f (b_end oldest) \<or> (\<exists>b \<in> set d. f' = b_end b)"
      by auto
    then show ?thesis by (intro exI [of _ "oldest # d"]) (auto simp: max_def split: if_splits)
  next
    case False
    with "2.prems" show ?thesis by auto
  qed
qed auto

lemma enforce_frame [simp]:
  "bi_unit (enforce_block_limit ix) = bi_unit ix" "bi_capacity (enforce_block_limit ix) = bi_capacity ix"
  "bi_max_blocks (enforce_block_limit ix) = bi_max_blocks ix" "bi_end (enforce_block_limit ix) = bi_end ix"
  by (simp_all add: enforce_block_limit_def split: prod.split)

lemma enforce_floor: "bi_floor ix \<le> bi_floor (enforce_block_limit ix)"
  using pop_excess_suffix by (fastforce simp: enforce_block_limit_def split: prod.split)

lemma enforce_inv: "index_pre ix \<Longrightarrow> index_inv (enforce_block_limit ix)"
proof -
  assume pre: "index_pre ix"
  obtain bs f where pop: "pop_excess (bi_max_blocks ix) (bi_blocks ix) (bi_floor ix) = (bs, f)"
    by fastforce
  then obtain d where d: "bi_blocks ix = d @ bs" "\<forall>b \<in> set d. b_end b \<le> f" "bi_floor ix \<le> f"
      "length bs \<le> bi_max_blocks ix" "f = bi_floor ix \<or> (\<exists>b \<in> set d. f = b_end b)"
    using pop_excess_suffix by blast
  have "chain bs" "\<forall>b \<in> set bs. f \<le> b_first b" "f \<le> bi_end ix"
    using pre d by (auto simp: index_pre_def chain_append)
  then show ?thesis
    using pre d pop by (auto simp: index_inv_def index_pre_def enforce_block_limit_def)
qed

lemma enforce_slot:
  assumes "index_pre ix" "bi_floor (enforce_block_limit ix) \<le> pos"
  shows "slot_at (enforce_block_limit ix) pos = slot_at ix pos"
proof -
  obtain bs f where pop: "pop_excess (bi_max_blocks ix) (bi_blocks ix) (bi_floor ix) = (bs, f)"
    by fastforce
  then obtain d where d: "bi_blocks ix = d @ bs" "\<forall>b \<in> set d. b_end b \<le> f"
    using pop_excess_suffix by blast
  have "f \<le> pos" using assms(2) pop by (simp add: enforce_block_limit_def)
  with d(2) have "slot_in (bi_unit ix) d pos = None" by (auto simp: slot_in_None covers_def)
  then show ?thesis using pop d(1) by (simp add: slot_at_def enforce_block_limit_def slot_in_append)
qed


subsection \<open>Cutting and inserting\<close>

lemma split_after:
  assumes "chain bs"
  shows "bs = take (after pos bs) bs @ drop (after pos bs) bs"
    and "b \<in> set (take (after pos bs) bs) \<Longrightarrow> b_end b \<le> pos"
    and "b \<in> set (drop (after pos bs) bs) \<Longrightarrow> pos < b_end b"
proof -
  have tk: "take (after pos bs) bs = takeWhile (\<lambda>b. b_end b \<le> pos) bs"
    and dr: "drop (after pos bs) bs = dropWhile (\<lambda>b. b_end b \<le> pos) bs"
    by (simp_all add: after_def partition_point_def takeWhile_eq_take [symmetric]
        dropWhile_eq_drop [symmetric])
  show "bs = take (after pos bs) bs @ drop (after pos bs) bs" by simp
  show "b \<in> set (take (after pos bs) bs) \<Longrightarrow> b_end b \<le> pos"
    unfolding tk by (auto dest: set_takeWhileD)
  show "b \<in> set (drop (after pos bs) bs) \<Longrightarrow> pos < b_end b"
    unfolding dr by (rule dropWhile_ends [OF assms])
qed

lemma cut_from_props:
  assumes "chain bs" "\<And>b. b \<in> set bs \<Longrightarrow> first < b_end b" "first < end"
    and "\<And>b. b \<in> set bs \<Longrightarrow> overlaps first end b \<Longrightarrow> b_kind b = MissingBlock"
  shows "chain (cut_from first end bs)
    \<and> (\<forall>c \<in> set (cut_from first end bs). \<not> overlaps first end c
         \<and> (\<exists>b \<in> set bs. b_first b \<le> b_first c \<and> b_end c \<le> b_end b))
    \<and> (\<forall>pos. slot_in unit (cut_from first end bs) pos =
          (if first \<le> pos \<and> pos < end then None else slot_in unit bs pos))"
  using assms
proof (induction bs)
  case (Cons b bs)
  note IH = Cons.IH [OF _ _ Cons.prems(3)]
  have ch: "b_first b < b_end b" "\<forall>c \<in> set bs. b_end b \<le> b_first c" "chain bs"
    using Cons.prems(1) by (auto simp: chain_Cons)
  have fe: "first < b_end b" using Cons.prems(2) by simp
  show ?case
  proof (cases "b_first b \<ge> end")
    case True
    have "slot_in unit (b # bs) pos = None" if "pos < end" for pos
      using True that ch Cons.prems(1) by (fastforce simp: slot_in_None covers_def chain_Cons)
    moreover have "\<not> overlaps first end c" if "c \<in> set (b # bs)" for c
      using True that ch by (fastforce simp: overlaps_def)
    ultimately show ?thesis using True Cons.prems(1) by auto
  next
    case False
    then have miss: "b_kind b = MissingBlock"
      using Cons.prems(4) [of b] fe by (simp add: overlaps_def)
    show ?thesis
    proof (cases "b_end b > end")
      case True
      then have out: "slot_in unit bs pos = None" if "pos < end" for pos
        using that ch by (fastforce simp: slot_in_None covers_def)
      have no: "\<not> overlaps first end c" if "c \<in> set bs" for c
        using True that ch by (fastforce simp: overlaps_def)
      show ?thesis
        using False True ch miss out no fe Cons.prems(3)
        by (auto simp: chain_Cons covers_def overlaps_def)
    next
      case no: False
      have ih: "chain (cut_from first end bs)"
        "\<forall>c \<in> set (cut_from first end bs). \<not> overlaps first end c
           \<and> (\<exists>b \<in> set bs. b_first b \<le> b_first c \<and> b_end c \<le> b_end b)"
        "\<forall>pos. slot_in unit (cut_from first end bs) pos =
           (if first \<le> pos \<and> pos < end then None else slot_in unit bs pos)"
        using IH ch(3) Cons.prems(2,4) by auto
      have later: "b_end b \<le> b_first c" if "c \<in> set (cut_from first end bs)" for c
        using ih(2) that ch(2) by (meson order.trans)
      show ?thesis
        using False no ih later miss fe ch(1)
        by (cases "b_first b < first") (auto simp: chain_Cons covers_def overlaps_def dest: later)
    qed
  qed
qed simp


lemma cut_missing_props:
  assumes "chain bs" "first < end"
    and miss: "\<And>b. b \<in> set bs \<Longrightarrow> overlaps first end b \<Longrightarrow> b_kind b = MissingBlock"
  shows "chain (cut_missing first end bs)"
    and "c \<in> set (cut_missing first end bs) \<Longrightarrow> \<not> overlaps first end c"
    and "c \<in> set (cut_missing first end bs) \<Longrightarrow> \<exists>b \<in> set bs. b_first b \<le> b_first c \<and> b_end c \<le> b_end b"
    and "slot_in unit (cut_missing first end bs) pos =
           (if first \<le> pos \<and> pos < end then None else slot_in unit bs pos)"
proof -
  define pre where "pre = take (after first bs) bs"
  define post where "post = drop (after first bs) bs"
  have bs: "bs = pre @ post" by (simp add: pre_def post_def)
  have pre: "b \<in> set pre \<Longrightarrow> b_end b \<le> first" and post: "b \<in> set post \<Longrightarrow> first < b_end b" for b
    using split_after [OF assms(1)] by (auto simp: pre_def post_def)
  have ch: "chain pre" "chain post" "\<forall>x \<in> set pre. \<forall>y \<in> set post. b_end x \<le> b_first y"
    using assms(1) bs by (simp_all add: chain_append)
  have cut: "cut_missing first end bs = pre @ cut_from first end post"
    by (simp add: cut_missing_def pre_def post_def Let_def)
  have cf: "chain (cut_from first end post)"
    "\<forall>c \<in> set (cut_from first end post). \<not> overlaps first end c
       \<and> (\<exists>b \<in> set post. b_first b \<le> b_first c \<and> b_end c \<le> b_end b)"
    "\<forall>pos. slot_in unit (cut_from first end post) pos =
       (if first \<le> pos \<and> pos < end then None else slot_in unit post pos)"
    using cut_from_props [OF ch(2) post assms(2)] miss bs by auto
  show "chain (cut_missing first end bs)"
    unfolding cut chain_append using ch cf(1,2) by (meson order.trans)
  show "c \<in> set (cut_missing first end bs) \<Longrightarrow> \<not> overlaps first end c"
    unfolding cut using cf(2) pre by (auto simp: overlaps_def not_less)
  show "c \<in> set (cut_missing first end bs) \<Longrightarrow> \<exists>b \<in> set bs. b_first b \<le> b_first c \<and> b_end c \<le> b_end b"
    unfolding cut using cf(2) bs by auto
  have "slot_in unit pre pos = None" if "first \<le> pos"
    using that pre by (fastforce simp: slot_in_None covers_def)
  then show "slot_in unit (cut_missing first end bs) pos =
      (if first \<le> pos \<and> pos < end then None else slot_in unit bs pos)"
    unfolding cut using cf(3) bs by (auto simp: slot_in_append split: option.split)
qed

lemma insert_block_props:
  assumes "chain bs" "b_first b < b_end b" "\<And>c. c \<in> set bs \<Longrightarrow> \<not> overlaps (b_first b) (b_end b) c"
  shows "chain (insert_block b bs)"
    and "set (insert_block b bs) = insert b (set bs)"
    and "slot_in unit (insert_block b bs) pos =
           (if covers b pos then Some (block_slot unit b pos) else slot_in unit bs pos)"
proof -
  define pre where "pre = takeWhile (\<lambda>c. b_first c < b_first b) bs"
  define post where "post = dropWhile (\<lambda>c. b_first c < b_first b) bs"
  have ins: "insert_block b bs = pre @ b # post"
    by (simp add: insert_block_def partition_point_def pre_def post_def
        takeWhile_eq_take [symmetric] dropWhile_eq_drop [symmetric])
  have bs: "bs = pre @ post" by (simp add: pre_def post_def)
  have ch: "chain pre" "chain post" "\<forall>x \<in> set pre. \<forall>y \<in> set post. b_end x \<le> b_first y"
    using assms(1) bs by (simp_all add: chain_append)
  have pre: "b_end c \<le> b_first b" if "c \<in> set pre" for c
  proof -
    have "b_first c < b_first b" using that by (auto simp: pre_def dest: set_takeWhileD)
    moreover have "\<not> overlaps (b_first b) (b_end b) c" using assms(3) that bs by simp
    ultimately show ?thesis using assms(2) by (simp add: overlaps_def)
  qed
  have ge: "b_first b \<le> b_first c" if "c \<in> set post" for c
  proof (cases post)
    case (Cons d ds)
    then have "\<not> b_first d < b_first b" unfolding post_def by (metis dropWhile_eq_Cons_conv)
    then show ?thesis using that Cons ch(2) by (auto simp: chain_Cons dest: bspec)
  qed (use that in simp)
  have post: "b_end b \<le> b_first c" if "c \<in> set post" for c
    using that ge [OF that] assms(3) [of c] bs chain_nonempty [OF ch(2) that]
    by (auto simp: overlaps_def not_less)
  show "chain (insert_block b bs)"
    unfolding ins using ch pre post assms(2)
    by (auto simp: chain_append chain_Cons dest: pre post)
  show "set (insert_block b bs) = insert b (set bs)"
    unfolding ins using bs by auto
  have "slot_in unit pre pos = None" if "covers b pos"
    using that pre by (fastforce simp: slot_in_None covers_def)
  then show "slot_in unit (insert_block b bs) pos =
      (if covers b pos then Some (block_slot unit b pos) else slot_in unit bs pos)"
    unfolding ins by (auto simp: bs slot_in_append split: option.split)
qed

subsection \<open>Uncovered ranges\<close>

lemma in_ranges_simps [simp]:
  "in_ranges [] pos \<longleftrightarrow> False"
  "in_ranges ((a, b) # rs) pos \<longleftrightarrow> a \<le> pos \<and> pos < b \<or> in_ranges rs pos"
  "in_ranges (rs @ rs') pos \<longleftrightarrow> in_ranges rs pos \<or> in_ranges rs' pos"
  by (auto simp: in_ranges_def)

lemma ranges_ok_simps [simp]:
  "ranges_ok []"
  "ranges_ok ((a, b) # rs) \<longleftrightarrow> a < b \<and> (\<forall>(c, d) \<in> set rs. b \<le> c) \<and> ranges_ok rs"
  by (auto simp: ranges_ok_def)

text \<open>Whether a block counts as covering for \<open>uncovered\<close>.\<close>

lemma uncovered_from_props:
  assumes "chain bs" "\<And>b. b \<in> set bs \<Longrightarrow> cur < b_end b"
  shows "ranges_ok (uncovered_from cur end d bs)
    \<and> (\<forall>(a, b) \<in> set (uncovered_from cur end d bs). cur \<le> a \<and> b \<le> end)
    \<and> (\<forall>pos. in_ranges (uncovered_from cur end d bs) pos \<longleftrightarrow>
         cur \<le> pos \<and> pos < end \<and> (\<forall>b \<in> set bs. counts d b \<longrightarrow> \<not> covers b pos))"
  using assms
proof (induction bs arbitrary: cur)
  case (Cons b bs)
  have ch: "b_first b < b_end b" "\<forall>c \<in> set bs. b_end b \<le> b_first c" "chain bs"
    using Cons.prems(1) by (auto simp: chain_Cons)
  have cur: "cur < b_end b" using Cons.prems(2) by simp
  have far: "\<forall>c \<in> set bs. b_first b < b_first c" using ch by fastforce
  consider (past) "b_first b \<ge> end" | (skip) "b_first b < end" "\<not> counts d b"
    | (cover) "b_first b < end" "counts d b" by fastforce
  then show ?case
  proof cases
    case past
    then have "\<forall>c \<in> set (b # bs). \<not> covers c pos" if "pos < end" for pos
      using that far by (fastforce simp: covers_def)
    then show ?thesis using past by auto
  next
    case skip
    then have "uncovered_from cur end d (b # bs) = uncovered_from cur end d bs"
      by (simp add: counts_def)
    then show ?thesis using skip Cons.IH [OF ch(3)] Cons.prems(2) by simp
  next
    case cover
    have "\<And>c. c \<in> set bs \<Longrightarrow> b_end b < b_end c"
      using ch chain_nonempty [OF ch(3)] by fastforce
    note ih = Cons.IH [OF ch(3) this]
    have eq: "uncovered_from cur end d (b # bs) =
        (if b_first b > cur then [(cur, b_first b)] else []) @ uncovered_from (b_end b) end d bs"
      using cover cur by (auto simp: counts_def max_def)
    have "\<not> covers c pos" if "c \<in> set bs" "pos < b_end b" for c pos
      using that ch(2) by (fastforce simp: covers_def)
    then show ?thesis
      unfolding eq using ih cover ch(1) cur
      by (auto simp: covers_def not_less dest: order.trans less_le_trans)
  qed
qed auto


lemma uncovered_props:
  assumes "chain (bi_blocks ix)"
  shows "ranges_ok (uncovered first hi d ix)"
    and "(a, b) \<in> set (uncovered first hi d ix) \<Longrightarrow> first \<le> a \<and> b \<le> hi"
    and "in_ranges (uncovered first hi d ix) pos \<longleftrightarrow>
         first \<le> pos \<and> pos < hi \<and> (\<forall>b \<in> set (bi_blocks ix). counts d b \<longrightarrow> \<not> covers b pos)"
proof -
  let ?bs = "bi_blocks ix"
  define pre where "pre = take (after first ?bs) ?bs"
  define post where "post = drop (after first ?bs) ?bs"
  have bs: "?bs = pre @ post" by (simp add: pre_def post_def)
  have pre: "b \<in> set pre \<Longrightarrow> b_end b \<le> first" and post: "b \<in> set post \<Longrightarrow> first < b_end b" for b
    using split_after [OF assms(1)] by (auto simp: pre_def post_def)
  have "chain post" using assms bs by (simp add: chain_append)
  note up = uncovered_from_props [OF this post, where d = d]
  have un: "uncovered first hi d ix = uncovered_from first hi d post"
    by (simp add: uncovered_def post_def)
  show "ranges_ok (uncovered first hi d ix)"
    "(a, b) \<in> set (uncovered first hi d ix) \<Longrightarrow> first \<le> a \<and> b \<le> hi"
    unfolding un using up by auto
  have "\<not> covers b pos" if "b \<in> set pre" "first \<le> pos" for b
    using that pre by (fastforce simp: covers_def)
  then show "in_ranges (uncovered first hi d ix) pos \<longleftrightarrow>
      first \<le> pos \<and> pos < hi \<and> (\<forall>b \<in> set ?bs. counts d b \<longrightarrow> \<not> covers b pos)"
    unfolding un using up bs by auto
qed

subsection \<open>Inserting data\<close>

lemma insert_novel_props:
  assumes "chain bs" "ranges_ok novel"
    and "\<And>a b. (a, b) \<in> set novel \<Longrightarrow> first \<le> a \<and> lo \<le> a \<and> b \<le> hi"
    and "\<And>b. b \<in> set bs \<Longrightarrow> lo \<le> b_first b \<and> b_end b \<le> hi"
    and "\<And>b pos. b \<in> set bs \<Longrightarrow> in_ranges novel pos \<Longrightarrow> covers b pos \<Longrightarrow> b_kind b = MissingBlock"
  shows "chain (insert_novel unit first meta disc novel bs)
    \<and> (\<forall>b \<in> set (insert_novel unit first meta disc novel bs). lo \<le> b_first b \<and> b_end b \<le> hi)
    \<and> (\<forall>pos. slot_in unit (insert_novel unit first meta disc novel bs) pos =
         (if in_ranges novel pos
          then Some (Held (meta_advanced meta (pos - first) unit) (disc \<and> pos = first))
          else slot_in unit bs pos))"
  using assms
proof (induction novel arbitrary: bs)
  case (Cons r novel)
  obtain a b where r: "r = (a, b)" by fastforce
  have ab: "a < b" and nx: "\<forall>(c, d) \<in> set novel. b \<le> c" and ok: "ranges_ok novel"
    using Cons.prems(2) by (simp_all add: r)
  have bnd: "first \<le> a" "lo \<le> a" "b \<le> hi" using Cons.prems(3) r by auto
  have miss: "b_kind c = MissingBlock" if "c \<in> set bs" "overlaps a b c" for c
  proof -
    have "covers c (max a (b_first c))" "in_ranges (r # novel) (max a (b_first c))"
      using that ab chain_nonempty [OF Cons.prems(1) that(1)] r
      by (auto simp: covers_def overlaps_def max_def)
    then show ?thesis using Cons.prems(5) that(1) by blast
  qed
  let ?cut = "cut_missing a b bs"
  let ?new = "\<lparr>b_first = a, b_end = b,
      b_kind = DataBlock (meta_advanced meta (a - first) unit) (disc \<and> a = first)\<rparr>"
  let ?bs = "insert_block ?new ?cut"
  note cut = cut_missing_props [OF Cons.prems(1) ab miss]
  have ins: "chain ?bs" "set ?bs = insert ?new (set ?cut)"
    "\<And>pos. slot_in unit ?bs pos = (if covers ?new pos then Some (block_slot unit ?new pos) else slot_in unit ?cut pos)"
    using insert_block_props [of ?cut ?new] cut(1,2) ab by simp_all
  have b1: "\<And>c. c \<in> set ?bs \<Longrightarrow> lo \<le> b_first c \<and> b_end c \<le> hi"
    unfolding ins(2) using cut(3) Cons.prems(4) bnd by (fastforce dest: order.trans)
  have past: "b \<le> pos" if "in_ranges novel pos" for pos
    using that nx by (fastforce simp: in_ranges_def)
  have b2: "b_kind c = MissingBlock" if "c \<in> set ?bs" "in_ranges novel pos" "covers c pos" for c pos
  proof -
    have "c \<in> set ?cut" using that past [OF that(2)] ins(2) by (auto simp: covers_def)
    then have "slot_in unit bs pos = Some (block_slot unit c pos)"
      using slot_in_Some [OF cut(1) _ that(3)] cut(4) [of unit pos] past [OF that(2)] by auto
    moreover have "slot_in unit bs pos = None \<or> slot_in unit bs pos = Some Lost"
      using Cons.prems(1)
    proof (cases rule: slot_in_cases [where unit = unit and pos = pos])
      case (Some d)
      then show ?thesis using Cons.prems(5) [of d pos] that(2) r by simp
    qed simp
    ultimately show ?thesis by (cases "b_kind c") simp_all
  qed
  have sl: "slot_in unit ?bs pos = (if a \<le> pos \<and> pos < b
      then Some (Held (meta_advanced meta (pos - first) unit) (disc \<and> pos = first))
      else slot_in unit bs pos)" for pos
    using bnd by (auto simp: ins(3) cut(4) covers_def meta_advanced_add)
  have in_r: "\<not> in_ranges novel pos" if "pos < b" for pos
    using that past [of pos] by auto
  have IH: "chain (insert_novel unit first meta disc novel ?bs)
    \<and> (\<forall>b \<in> set (insert_novel unit first meta disc novel ?bs). lo \<le> b_first b \<and> b_end b \<le> hi)
    \<and> (\<forall>pos. slot_in unit (insert_novel unit first meta disc novel ?bs) pos =
         (if in_ranges novel pos
          then Some (Held (meta_advanced meta (pos - first) unit) (disc \<and> pos = first))
          else slot_in unit ?bs pos))"
    using Cons.prems(3) by (intro Cons.IH [OF ins(1) ok _ b1 b2]) auto
  show ?case
    using IH sl in_r bnd past ab by (auto simp: r)
qed simp


lemma insert_gaps_props:
  assumes "chain bs" "ranges_ok gaps"
    and "\<And>a b. (a, b) \<in> set gaps \<Longrightarrow> lo \<le> a \<and> b \<le> hi"
    and "\<And>b. b \<in> set bs \<Longrightarrow> lo \<le> b_first b \<and> b_end b \<le> hi"
    and "\<And>b pos. b \<in> set bs \<Longrightarrow> in_ranges gaps pos \<Longrightarrow> \<not> covers b pos"
  shows "chain (insert_gaps gaps bs)
    \<and> (\<forall>b \<in> set (insert_gaps gaps bs). lo \<le> b_first b \<and> b_end b \<le> hi)
    \<and> (\<forall>pos. slot_in unit (insert_gaps gaps bs) pos =
         (if in_ranges gaps pos then Some Lost else slot_in unit bs pos))"
  using assms
proof (induction gaps arbitrary: bs)
  case (Cons r gaps)
  obtain a b where r: "r = (a, b)" by fastforce
  have ab: "a < b" and nx: "\<forall>(c, d) \<in> set gaps. b \<le> c" and ok: "ranges_ok gaps"
    using Cons.prems(2) by (simp_all add: r)
  have no: "\<not> overlaps a b c" if "c \<in> set bs" for c
  proof
    assume "overlaps a b c"
    then have "covers c (max a (b_first c))" "in_ranges (r # gaps) (max a (b_first c))"
      using that ab chain_nonempty [OF Cons.prems(1) that] r
      by (auto simp: covers_def overlaps_def max_def)
    then show False using Cons.prems(5) that by blast
  qed
  let ?new = "\<lparr>b_first = a, b_end = b, b_kind = MissingBlock\<rparr>"
  let ?bs = "insert_block ?new bs"
  have ins: "chain ?bs" "set ?bs = insert ?new (set bs)"
    "\<And>pos. slot_in unit ?bs pos = (if covers ?new pos then Some (block_slot unit ?new pos) else slot_in unit bs pos)"
    using insert_block_props [of bs ?new] Cons.prems(1) no ab by simp_all
  have past: "b \<le> pos" if "in_ranges gaps pos" for pos
    using that nx by (fastforce simp: in_ranges_def)
  have IH: "chain (insert_gaps gaps ?bs)
    \<and> (\<forall>b \<in> set (insert_gaps gaps ?bs). lo \<le> b_first b \<and> b_end b \<le> hi)
    \<and> (\<forall>pos. slot_in unit (insert_gaps gaps ?bs) pos =
         (if in_ranges gaps pos then Some Lost else slot_in unit ?bs pos))"
  proof (intro Cons.IH [OF ins(1) ok])
    show "lo \<le> a' \<and> b' \<le> hi" if "(a', b') \<in> set gaps" for a' b'
      using Cons.prems(3) [of a' b'] that by simp
    show "lo \<le> b_first c \<and> b_end c \<le> hi" if "c \<in> set ?bs" for c
      using that Cons.prems(3) [of a b] Cons.prems(4) r by (auto simp: ins(2))
    show "\<not> covers c pos" if "c \<in> set ?bs" "in_ranges gaps pos" for c pos
      using that past [OF that(2)] Cons.prems(5) r by (auto simp: ins(2) covers_def)
  qed
  show ?case using IH past by (auto simp: r ins(3) covers_def)
qed simp

lemma held_iff:
  assumes "chain (bi_blocks ix)"
  shows "is_held (slot_at ix pos) \<longleftrightarrow> (\<exists>b \<in> set (bi_blocks ix). counts True b \<and> covers b pos)"
  using assms
proof (cases rule: slot_in_cases [where unit = "bi_unit ix" and pos = pos])
  case None
  then show ?thesis by (auto simp: slot_at_def)
next
  case (Some b)
  have "b_kind c \<noteq> MissingBlock \<longleftrightarrow> b_kind b \<noteq> MissingBlock"
    if "c \<in> set (bi_blocks ix)" "covers c pos" for c
    using slot_in_Some [OF assms that, of "bi_unit ix"] Some(3)
      is_held_slot [of "bi_unit ix" b pos] is_held_slot [of "bi_unit ix" c pos] by simp
  moreover have "is_held (slot_at ix pos) \<longleftrightarrow> b_kind b \<noteq> MissingBlock"
    unfolding slot_at_def Some(3) by (rule is_held_slot)
  ultimately show ?thesis using Some(1,2) unfolding counts_def by blast
qed

lemma known_iff: "slot_at ix pos \<noteq> None \<longleftrightarrow> (\<exists>b \<in> set (bi_blocks ix). covers b pos)"
  by (simp add: slot_at_def slot_in_None)

lemma insert_data_novel:
  assumes inv: "index_inv ix" and ins: "insert_data first end meta disc ix = (ix', novel)"
  shows "ranges_ok novel"
    and "in_ranges novel pos \<longleftrightarrow> bi_floor (advance end ix) \<le> pos \<and> first \<le> pos \<and> pos < end
           \<and> \<not> is_held (slot_at ix pos)"
proof -
  let ?ix1 = "advance end ix"
  let ?from = "max first (bi_floor ?ix1)"
  have ch: "chain (bi_blocks ?ix1)" using advance_inv [OF inv] by (simp add: index_inv_def)
  have nov: "novel = (if ?from \<ge> end then [] else uncovered ?from end True ?ix1)"
    using ins by (auto simp: insert_data_def Let_def split: if_splits)
  show "ranges_ok novel" unfolding nov using uncovered_props(1) [OF ch] by simp
  have "in_ranges novel pos \<longleftrightarrow> ?from \<le> pos \<and> pos < end \<and> \<not> is_held (slot_at ?ix1 pos)"
    unfolding nov using uncovered_props(3) [OF ch] held_iff [OF ch] by auto
  then show "in_ranges novel pos \<longleftrightarrow> bi_floor ?ix1 \<le> pos \<and> first \<le> pos \<and> pos < end
      \<and> \<not> is_held (slot_at ix pos)"
    using advance_slot [OF inv, of "end" pos] by auto
qed


lemma insert_data_pre:
  fixes meta :: block_meta and disc :: bool
  assumes inv: "index_inv ix" and less: "max first (bi_floor (advance end ix)) < end"
  defines "ix1 \<equiv> advance end ix"
  defines "ix2 \<equiv> ix1\<lparr>bi_blocks := insert_novel (bi_unit ix1) first meta disc
      (uncovered (max first (bi_floor ix1)) end True ix1) (bi_blocks ix1)\<rparr>"
  shows "index_pre ix2"
    and "bi_floor ix1 \<le> pos \<Longrightarrow> slot_at ix2 pos =
      (if first \<le> pos \<and> pos < end \<and> \<not> is_held (slot_at ix pos)
       then Some (Held (meta_advanced meta (pos - first) (bi_unit ix)) (disc \<and> pos = first))
       else slot_at ix pos)"
proof -
  let ?from = "max first (bi_floor ix1)"
  let ?novel = "uncovered ?from end True ix1"
  have inv1: "index_inv ix1" unfolding ix1_def by (rule advance_inv [OF inv])
  then have ch: "chain (bi_blocks ix1)" by (simp add: index_inv_def)
  note up = uncovered_props [OF ch, where first = ?from and hi = "end" and d = True]
  have blocks2: "bi_blocks ix2 = insert_novel (bi_unit ix1) first meta disc ?novel (bi_blocks ix1)"
    by (simp add: ix2_def)
  have ins: "chain (bi_blocks ix2)
    \<and> (\<forall>b \<in> set (bi_blocks ix2). bi_floor ix1 \<le> b_first b \<and> b_end b \<le> bi_end ix1)
    \<and> (\<forall>pos. slot_in (bi_unit ix1) (bi_blocks ix2) pos =
         (if in_ranges ?novel pos
          then Some (Held (meta_advanced meta (pos - first) (bi_unit ix1)) (disc \<and> pos = first))
          else slot_in (bi_unit ix1) (bi_blocks ix1) pos))"
    unfolding blocks2
  proof (rule insert_novel_props [OF ch up(1)])
    show "first \<le> a \<and> bi_floor ix1 \<le> a \<and> b \<le> bi_end ix1" if "(a, b) \<in> set ?novel" for a b
      using up(2) [OF that] by (auto simp: ix1_def)
    show "bi_floor ix1 \<le> b_first b \<and> b_end b \<le> bi_end ix1" if "b \<in> set (bi_blocks ix1)" for b
      using inv1 that by (simp add: index_inv_def)
    show "b_kind b = MissingBlock"
      if "b \<in> set (bi_blocks ix1)" "in_ranges ?novel pos" "covers b pos" for b pos
      using that up(3) by (auto simp: counts_def)
  qed
  show "index_pre ix2"
    using ins inv1 by (simp add: index_pre_def index_inv_def ix2_def)
  assume pos: "bi_floor ix1 \<le> pos"
  have same: "slot_at ix1 pos = slot_at ix pos"
    using advance_slot [OF inv] pos by (simp add: ix1_def)
  have nov: "in_ranges ?novel pos \<longleftrightarrow> first \<le> pos \<and> pos < end \<and> \<not> is_held (slot_at ix pos)"
    using up(3) [of pos] held_iff [OF ch, of pos] pos same by auto
  have unit: "bi_unit ix1 = bi_unit ix" by (simp add: ix1_def)
  have "slot_at ix2 pos = slot_in (bi_unit ix1) (bi_blocks ix2) pos"
    by (simp add: slot_at_def ix2_def)
  also have "\<dots> = (if in_ranges ?novel pos
      then Some (Held (meta_advanced meta (pos - first) (bi_unit ix1)) (disc \<and> pos = first))
      else slot_at ix1 pos)"
    using ins by (simp add: slot_at_def)
  finally show "slot_at ix2 pos =
      (if first \<le> pos \<and> pos < end \<and> \<not> is_held (slot_at ix pos)
       then Some (Held (meta_advanced meta (pos - first) (bi_unit ix)) (disc \<and> pos = first))
       else slot_at ix pos)"
    by (simp only: nov same unit)
qed

lemma insert_data_view:
  assumes inv: "index_inv ix" and ins: "insert_data first end meta disc ix = (ix', novel)"
  shows "index_inv ix'"
    and "bi_unit ix' = bi_unit ix" "bi_capacity ix' = bi_capacity ix"
      "bi_max_blocks ix' = bi_max_blocks ix" "bi_end ix' = max (bi_end ix) end"
    and "bi_floor (advance end ix) \<le> bi_floor ix'"
    and "slot_at ix' pos =
      (if pos < bi_floor ix' then None
       else if first \<le> pos \<and> pos < end \<and> \<not> is_held (slot_at ix pos)
         then Some (Held (meta_advanced meta (pos - first) (bi_unit ix)) (disc \<and> pos = first))
       else slot_at ix pos)"
proof -
  let ?ix1 = "advance end ix"
  let ?from = "max first (bi_floor ?ix1)"
  let ?ix2 = "?ix1\<lparr>bi_blocks := insert_novel (bi_unit ?ix1) first meta disc
      (uncovered ?from end True ?ix1) (bi_blocks ?ix1)\<rparr>"
  have inv1: "index_inv ?ix1" by (rule advance_inv [OF inv])
  have goals: "index_inv ix' \<and> bi_unit ix' = bi_unit ix \<and> bi_capacity ix' = bi_capacity ix
    \<and> bi_max_blocks ix' = bi_max_blocks ix \<and> bi_end ix' = max (bi_end ix) end
    \<and> bi_floor ?ix1 \<le> bi_floor ix'
    \<and> slot_at ix' pos =
      (if pos < bi_floor ix' then None
       else if first \<le> pos \<and> pos < end \<and> \<not> is_held (slot_at ix pos)
         then Some (Held (meta_advanced meta (pos - first) (bi_unit ix)) (disc \<and> pos = first))
       else slot_at ix pos)"
  proof (cases "?from \<ge> end")
    case True
    then have "ix' = ?ix1" using ins by (simp add: insert_data_def Let_def)
    then show ?thesis
      using True inv1 advance_slot [OF inv, of "end" pos] slot_below_floor [of ?ix1 pos]
      by (auto simp: index_inv_pre)
  next
    case False
    then have ix': "ix' = enforce_block_limit ?ix2" using ins by (auto simp: insert_data_def Let_def)
    have lt: "?from < end" using False by (simp only: not_le)
    have pre: "index_pre ?ix2" by (rule insert_data_pre(1) [OF inv lt])
    have fl: "bi_floor ?ix1 \<le> bi_floor ix'"
      unfolding ix' using enforce_floor [of ?ix2] by simp
    have "index_inv ix'" unfolding ix' by (rule enforce_inv [OF pre])
    moreover have "slot_at ix' pos = None" if "pos < bi_floor ix'"
      using calculation that by (simp add: index_inv_pre slot_below_floor)
    moreover have "slot_at ix' pos = slot_at ?ix2 pos" if "bi_floor ix' \<le> pos"
      using enforce_slot [OF pre] that by (simp add: ix')
    ultimately show ?thesis
      using insert_data_pre(2) [OF inv lt, where pos = pos and meta = meta and disc = disc] fl
      by (auto simp: ix' not_less)
  qed
  then show "index_inv ix'" "bi_unit ix' = bi_unit ix" "bi_capacity ix' = bi_capacity ix"
      "bi_max_blocks ix' = bi_max_blocks ix" "bi_end ix' = max (bi_end ix) end"
      "bi_floor ?ix1 \<le> bi_floor ix'"
      "slot_at ix' pos =
      (if pos < bi_floor ix' then None
       else if first \<le> pos \<and> pos < end \<and> \<not> is_held (slot_at ix pos)
         then Some (Held (meta_advanced meta (pos - first) (bi_unit ix)) (disc \<and> pos = first))
       else slot_at ix pos)"
    by blast+
qed


lemma insert_missing_pre:
  assumes inv: "index_inv ix" and less: "max first (bi_floor (advance end ix)) < end"
  defines "ix1 \<equiv> advance end ix"
  defines "ix2 \<equiv> ix1\<lparr>bi_blocks :=
      insert_gaps (uncovered (max first (bi_floor ix1)) end False ix1) (bi_blocks ix1)\<rparr>"
  shows "index_pre ix2"
    and "bi_floor ix1 \<le> pos \<Longrightarrow> slot_at ix2 pos =
      (if first \<le> pos \<and> pos < end \<and> slot_at ix pos = None then Some Lost else slot_at ix pos)"
proof -
  let ?from = "max first (bi_floor ix1)"
  let ?gaps = "uncovered ?from end False ix1"
  have inv1: "index_inv ix1" unfolding ix1_def by (rule advance_inv [OF inv])
  then have ch: "chain (bi_blocks ix1)" by (simp add: index_inv_def)
  note up = uncovered_props [OF ch, where first = ?from and hi = "end" and d = False]
  have blocks2: "bi_blocks ix2 = insert_gaps ?gaps (bi_blocks ix1)"
    by (simp add: ix2_def)
  have ins: "chain (bi_blocks ix2)
    \<and> (\<forall>b \<in> set (bi_blocks ix2). bi_floor ix1 \<le> b_first b \<and> b_end b \<le> bi_end ix1)
    \<and> (\<forall>pos. slot_in (bi_unit ix1) (bi_blocks ix2) pos =
         (if in_ranges ?gaps pos then Some Lost else slot_in (bi_unit ix1) (bi_blocks ix1) pos))"
    unfolding blocks2
  proof (rule insert_gaps_props [OF ch up(1)])
    show "bi_floor ix1 \<le> a \<and> b \<le> bi_end ix1" if "(a, b) \<in> set ?gaps" for a b
      using up(2) [OF that] by (auto simp: ix1_def)
    show "bi_floor ix1 \<le> b_first b \<and> b_end b \<le> bi_end ix1" if "b \<in> set (bi_blocks ix1)" for b
      using inv1 that by (simp add: index_inv_def)
    show "\<not> covers b pos" if "b \<in> set (bi_blocks ix1)" "in_ranges ?gaps pos" for b pos
      using that up(3) by (auto simp: counts_def)
  qed
  show "index_pre ix2"
    using ins inv1 by (simp add: index_pre_def index_inv_def ix2_def)
  assume pos: "bi_floor ix1 \<le> pos"
  have same: "slot_at ix1 pos = slot_at ix pos"
    using advance_slot [OF inv] pos by (simp add: ix1_def)
  have gap: "in_ranges ?gaps pos \<longleftrightarrow> first \<le> pos \<and> pos < end \<and> slot_at ix pos = None"
    using up(3) [of pos] known_iff [of ix1 pos] pos same by (auto simp: counts_def)
  have "slot_at ix2 pos = slot_in (bi_unit ix1) (bi_blocks ix2) pos"
    by (simp add: slot_at_def ix2_def)
  also have "\<dots> = (if in_ranges ?gaps pos then Some Lost else slot_at ix1 pos)"
    using ins by (simp add: slot_at_def)
  finally show "slot_at ix2 pos =
      (if first \<le> pos \<and> pos < end \<and> slot_at ix pos = None then Some Lost else slot_at ix pos)"
    by (simp only: gap same)
qed

lemma insert_missing_view:
  assumes inv: "index_inv ix" and ix'_def: "ix' = insert_missing first end ix"
  shows "index_inv ix'"
    and "bi_unit ix' = bi_unit ix" "bi_capacity ix' = bi_capacity ix"
      "bi_max_blocks ix' = bi_max_blocks ix" "bi_end ix' = max (bi_end ix) end"
    and "bi_floor (advance end ix) \<le> bi_floor ix'"
    and "slot_at ix' pos =
      (if pos < bi_floor ix' then None
       else if first \<le> pos \<and> pos < end \<and> slot_at ix pos = None then Some Lost
       else slot_at ix pos)"
proof -
  let ?ix1 = "advance end ix"
  let ?from = "max first (bi_floor ?ix1)"
  let ?ix2 = "?ix1\<lparr>bi_blocks := insert_gaps (uncovered ?from end False ?ix1) (bi_blocks ?ix1)\<rparr>"
  have inv1: "index_inv ?ix1" by (rule advance_inv [OF inv])
  have goals: "index_inv ix' \<and> bi_unit ix' = bi_unit ix \<and> bi_capacity ix' = bi_capacity ix
    \<and> bi_max_blocks ix' = bi_max_blocks ix \<and> bi_end ix' = max (bi_end ix) end
    \<and> bi_floor ?ix1 \<le> bi_floor ix'
    \<and> slot_at ix' pos =
      (if pos < bi_floor ix' then None
       else if first \<le> pos \<and> pos < end \<and> slot_at ix pos = None then Some Lost
       else slot_at ix pos)"
  proof (cases "?from \<ge> end")
    case True
    then have "ix' = ?ix1" by (simp add: ix'_def insert_missing_def Let_def)
    then show ?thesis
      using True inv1 advance_slot [OF inv, of "end" pos] slot_below_floor [of ?ix1 pos]
      by (auto simp: index_inv_pre)
  next
    case False
    then have ix': "ix' = enforce_block_limit ?ix2" by (auto simp: ix'_def insert_missing_def Let_def)
    have lt: "?from < end" using False by (simp only: not_le)
    have pre: "index_pre ?ix2" by (rule insert_missing_pre(1) [OF inv lt])
    have fl: "bi_floor ?ix1 \<le> bi_floor ix'"
      unfolding ix' using enforce_floor [of ?ix2] by simp
    have "index_inv ix'" unfolding ix' by (rule enforce_inv [OF pre])
    moreover have "slot_at ix' pos = None" if "pos < bi_floor ix'"
      using calculation that by (simp add: index_inv_pre slot_below_floor)
    moreover have "slot_at ix' pos = slot_at ?ix2 pos" if "bi_floor ix' \<le> pos"
      using enforce_slot [OF pre] that by (simp add: ix')
    ultimately show ?thesis
      using insert_missing_pre(2) [OF inv lt, where pos = pos] fl by (auto simp: ix' not_less)
  qed
  then show "index_inv ix'" "bi_unit ix' = bi_unit ix" "bi_capacity ix' = bi_capacity ix"
      "bi_max_blocks ix' = bi_max_blocks ix" "bi_end ix' = max (bi_end ix) end"
      "bi_floor ?ix1 \<le> bi_floor ix'"
      "slot_at ix' pos =
      (if pos < bi_floor ix' then None
       else if first \<le> pos \<and> pos < end \<and> slot_at ix pos = None then Some Lost
       else slot_at ix pos)"
    by blast+
qed

subsection \<open>Lookup\<close>

lemma drop_after_cases:
  assumes "chain bs"
  obtains (none) "drop (after pos bs) bs = []" "\<And>b. b \<in> set bs \<Longrightarrow> b_end b \<le> pos"
    | (found) b rest where "drop (after pos bs) bs = b # rest" "b \<in> set bs" "pos < b_end b"
        "\<And>c. c \<in> set bs \<Longrightarrow> c \<noteq> b \<Longrightarrow> b_end c \<le> pos \<or> b_end b \<le> b_first c"
proof (cases "drop (after pos bs) bs")
  case Nil
  then have "b \<in> set bs \<Longrightarrow> b_end b \<le> pos" for b
    using split_after(2) [OF assms, of b pos] by simp
  with Nil none show ?thesis by blast
next
  case (Cons b rest)
  have split: "bs = take (after pos bs) bs @ b # rest" using Cons by (metis append_take_drop_id)
  have b: "b \<in> set bs" by (subst split) simp
  have "pos < b_end b" using split_after(3) [OF assms, of b pos] Cons by simp
  moreover have "b_end c \<le> pos \<or> b_end b \<le> b_first c" if c: "c \<in> set bs" "c \<noteq> b" for c
  proof -
    have "c \<in> set (take (after pos bs) bs) \<or> c \<in> set rest"
      using c split by (metis Un_iff set_ConsD set_append)
    moreover have "chain (b # rest)" using assms split chain_append by metis
    ultimately show ?thesis using split_after(2) [OF assms] by (auto simp: chain_Cons)
  qed
  ultimately show ?thesis using found Cons b by blast
qed

text \<open>What a lookup says of the abstract view.\<close>

lemma index_lookup_spec:
  assumes inv: "index_inv ix"
  shows "case index_lookup pos ix of
      LookupEvicted until \<Rightarrow> pos < until \<and> until = bi_floor ix
    | LookupData hi meta disc \<Rightarrow> pos < hi \<and> hi \<le> bi_end ix \<and> bi_floor ix \<le> pos
        \<and> slot_at ix pos = Some (Held meta disc)
        \<and> (\<forall>q. pos < q \<and> q < hi \<longrightarrow> slot_at ix q = Some (Held (meta_advanced meta (q - pos) (bi_unit ix)) False))
    | LookupMissing hi \<Rightarrow> pos < hi \<and> hi \<le> bi_end ix \<and> bi_floor ix \<le> pos
        \<and> (\<forall>q. pos \<le> q \<and> q < hi \<longrightarrow> slot_at ix q = Some Lost)
    | LookupUnknown None \<Rightarrow> bi_floor ix \<le> pos \<and> (\<forall>q \<ge> pos. slot_at ix q = None)
    | LookupUnknown (Some next) \<Rightarrow> pos < next \<and> next < bi_end ix \<and> bi_floor ix \<le> pos
        \<and> slot_at ix next \<noteq> None \<and> (\<forall>q. pos \<le> q \<and> q < next \<longrightarrow> slot_at ix q = None)"
proof (cases "pos < bi_floor ix")
  case True
  then show ?thesis by (simp add: index_lookup_def)
next
  case False
  have ch: "chain (bi_blocks ix)"
    and bd: "\<And>b. b \<in> set (bi_blocks ix) \<Longrightarrow> b_end b \<le> bi_end ix" using inv by (auto simp: index_inv_def)
  note sl = slot_in_Some [OF ch, where unit = "bi_unit ix"]
  from ch show ?thesis
  proof (cases rule: drop_after_cases [where pos = pos])
    case none
    have "slot_at ix q = None" if "q \<ge> pos" for q
      unfolding slot_at_def slot_in_None covers_def
      using none(2) that by (meson leD order.trans le_less_trans)
    then show ?thesis using False none(1) by (simp add: index_lookup_def)
  next
    case (found b rest)
    note ne = chain_nonempty [OF ch found(2)]
    show ?thesis
    proof (cases "b_first b \<le> pos")
      case le: True
      have "slot_at ix q = Some (block_slot (bi_unit ix) b q)" if "pos \<le> q" "q < b_end b" for q
        using sl [OF found(2), of q] le that by (simp add: slot_at_def covers_def)
      then show ?thesis
        using False found le bd [OF found(2)]
        by (cases "b_kind b") (auto simp: index_lookup_def meta_advanced_add)
    next
      case gt: False
      have "slot_at ix q = None" if "pos \<le> q" "q < b_first b" for q
        using found(4) ne that by (fastforce simp: slot_at_def slot_in_None covers_def)
      moreover have "slot_at ix (b_first b) = Some (block_slot (bi_unit ix) b (b_first b))"
        using sl [OF found(2)] ne by (simp add: slot_at_def covers_def)
      ultimately show ?thesis
        using False found(1) gt ne bd [OF found(2)] by (auto simp: index_lookup_def)
    qed
  qed
qed

text \<open>A lookup always moves on, whatever the index holds.\<close>

lemma index_lookup_progress:
  assumes "lookup_stop (index_lookup pos ix) = Some hi"
  shows "pos < hi"
proof (cases "pos < bi_floor ix")
  case False
  have "pos < b_end b" if "drop (after pos (bi_blocks ix)) (bi_blocks ix) = b # r" for b r
  proof -
    have "dropWhile (\<lambda>b. b_end b \<le> pos) (bi_blocks ix) = b # r"
      using that by (simp add: after_def partition_point_def dropWhile_eq_drop)
    then show ?thesis using hd_dropWhile [of "\<lambda>b. b_end b \<le> pos" "bi_blocks ix"] by auto
  qed
  then show ?thesis
    using assms False by (auto simp: index_lookup_def split: list.splits block_kind.splits if_splits)
qed (use assms in \<open>auto simp: index_lookup_def\<close>)

subsection \<open>Reachable indices\<close>

interpretation index_machine: invariant_machine index_step index_inv
proof
  fix op ix assume inv: "index_inv ix"
  show "index_inv (index_step op ix)"
  proof (cases op)
    case (InsertData first hi meta d)
    then show ?thesis using insert_data_view(1) [OF inv] by (cases "insert_data first hi meta d ix") simp
  qed (simp add: insert_missing_view(1) [OF inv])
qed

lemma samples_per_frame_pos: "0 < samples_per_frame k"
  by (cases k) (simp_all add: CELL_SAMPLES_def AFE_PERIOD_SAMPLES_def)

lemma index_new_inv: "index_inv (index_new stream retention max_blocks)"
  by (simp add: index_inv_def index_new_def samples_per_frame_pos max_def)

lemma index_after_inv: "index_inv (index_after stream retention max_blocks ops)"
  unfolding index_after_def by (rule index_machine.run_inv [OF index_new_inv])

section \<open>Properties\<close>

text \<open>Whatever packets and gap reports arrive, and in whatever order, the block index stays
  well formed: blocks sorted, disjoint and non-empty, nothing below the floor or past the end,
  at most \<open>capacity\<close> records between floor and end, at most \<open>max_blocks\<close> blocks.\<close>

theorem index_reachable_wf:
  "index_inv (index_after stream retention max_blocks ops)"
  by (rule index_after_inv)

text \<open>The first copy of every position wins. After a packet's records are inserted, a position
  at or above the new floor that the packet covers and that was not held before holds the
  packet's metadata carried forward to it; every other position keeps exactly what it had, and
  nothing is known below the floor. The ranges returned for copying are exactly the positions
  newly held.\<close>

theorem insert_data_first_copy:
  fixes stream retention max_blocks ops first hi meta d
  defines "ix \<equiv> index_after stream retention max_blocks ops"
  defines "ix' \<equiv> fst (insert_data first hi meta d ix)"
  defines "novel \<equiv> snd (insert_data first hi meta d ix)"
  shows "slot_at ix' pos =
      (if pos < bi_floor ix' then None
       else if first \<le> pos \<and> pos < hi \<and> \<not> is_held (slot_at ix pos)
         then Some (Held (meta_advanced meta (pos - first) (bi_unit ix)) (d \<and> pos = first))
       else slot_at ix pos)
    \<and> (in_ranges novel pos \<longleftrightarrow> bi_floor (advance hi ix) \<le> pos \<and> first \<le> pos \<and> pos < hi
         \<and> \<not> is_held (slot_at ix pos))"
proof -
  have ins: "insert_data first hi meta d ix = (ix', novel)" by (simp add: ix'_def novel_def)
  have inv: "index_inv ix" unfolding ix_def by (rule index_after_inv)
  show ?thesis using insert_data_view(7) [OF inv ins] insert_data_novel(2) [OF inv ins] by simp
qed

text \<open>A gap report never overwrites what is known: at or above the floor, exactly the positions
  of the gap that nothing was known about become missing.\<close>

theorem insert_missing_keeps_known:
  fixes stream retention max_blocks ops first hi
  defines "ix \<equiv> index_after stream retention max_blocks ops"
  defines "ix' \<equiv> insert_missing first hi ix"
  shows "slot_at ix' pos =
      (if pos < bi_floor ix' then None
       else if first \<le> pos \<and> pos < hi \<and> slot_at ix pos = None then Some Lost
       else slot_at ix pos)"
proof -
  have inv: "index_inv ix" unfolding ix_def by (rule index_after_inv)
  show ?thesis by (rule insert_missing_view(7) [OF inv ix'_def [THEN meta_eq_to_obj_eq]])
qed

text \<open>A lookup tells the truth about a whole run: evicted means below the floor; held data means
  every position up to the returned end is held with the returned metadata carried forward;
  missing means every position up to the end was reported missing; unknown means nothing is
  known up to the next known position, which is the first one that is.\<close>

theorem lookup_describes_run:
  fixes stream retention max_blocks ops pos
  defines "ix \<equiv> index_after stream retention max_blocks ops"
  shows "case index_lookup pos ix of
      LookupEvicted until \<Rightarrow> pos < until \<and> until = bi_floor ix
    | LookupData hi meta disc \<Rightarrow> pos < hi \<and> hi \<le> bi_end ix \<and> bi_floor ix \<le> pos
        \<and> slot_at ix pos = Some (Held meta disc)
        \<and> (\<forall>q. pos < q \<and> q < hi \<longrightarrow> slot_at ix q = Some (Held (meta_advanced meta (q - pos) (bi_unit ix)) False))
    | LookupMissing hi \<Rightarrow> pos < hi \<and> hi \<le> bi_end ix \<and> bi_floor ix \<le> pos
        \<and> (\<forall>q. pos \<le> q \<and> q < hi \<longrightarrow> slot_at ix q = Some Lost)
    | LookupUnknown None \<Rightarrow> bi_floor ix \<le> pos \<and> (\<forall>q \<ge> pos. slot_at ix q = None)
    | LookupUnknown (Some next) \<Rightarrow> pos < next \<and> next < bi_end ix \<and> bi_floor ix \<le> pos
        \<and> slot_at ix next \<noteq> None \<and> (\<forall>q. pos \<le> q \<and> q < next \<longrightarrow> slot_at ix q = None)"
  unfolding ix_def by (rule index_lookup_spec [OF index_after_inv])

lemmas index_run_simps = index_after_def index_new_def witness_ops_def insert_data_def
  insert_missing_def advance_def raise_floor_def enforce_block_limit_def uncovered_def after_def
  partition_point_def insert_block_def cut_missing_def Let_def

theorem lookup_describes_run_witness:
  "index_lookup 5 (index_after Mic 100 8 witness_ops) = LookupData 8 (witness_meta 62500) False
   \<and> slot_at (index_after Mic 100 8 witness_ops) 7 = Some (Held (witness_meta 187500) False)"
proof -
  have look: "index_lookup 5 (index_after Mic 100 8 witness_ops) = LookupData 8 (witness_meta 62500) False"
    by (simp add: index_run_simps index_lookup_def witness_meta_def meta_advanced_def sat_add_def
        sat_mul_def u64_max_def SAMPLE_NS_def)
  then show ?thesis
    using lookup_describes_run [of 5 Mic 100 8 witness_ops]
    by (simp add: witness_meta_def meta_advanced_def sat_add_def sat_mul_def u64_max_def SAMPLE_NS_def
        index_run_simps)
qed

end
