(* ===== verification/Epoch_Buffer.thy ===== *)
theory Epoch_Buffer
  imports Block_Index
begin

text \<open>
  One stream epoch's retained records (\<open>EpochBuffer\<close> in \<open>crates/uplink/src/buffer.rs\<close>): a ring
  of records addressed by position modulo its capacity, with the block index saying which
  positions it holds. An index out of the ring's range panics in the source and is \<open>None\<close>
  here. The scratch vector the source reuses between calls is an allocation, not state. The
  refinement at the end forgets the ring: a buffer is a partial map from record positions to
  records in which the first copy of each position stays until it is evicted.
\<close>

section \<open>Chunk data\<close>

type_synonym pcm = "byte list"

definition pcm_samples :: "pcm \<Rightarrow> i16 list" where
  "pcm_samples b = map u16_of_le (as_chunks 2 b)"

definition pcm_len :: "pcm \<Rightarrow> nat" where
  "pcm_len b = length b div 2"

definition pcm_is_empty :: "pcm \<Rightarrow> bool" where
  "pcm_is_empty b \<longleftrightarrow> b = []"

datatype chunk_data =
    ChunkPcm pcm
  | ChunkSilence nat
  | ChunkCells "cell list"
  | ChunkAfe "afe_record list"

fun data_payload_bytes :: "chunk_data \<Rightarrow> nat" where
  "data_payload_bytes (ChunkPcm pcm) = length pcm"
| "data_payload_bytes (ChunkSilence frames) = 0"
| "data_payload_bytes (ChunkCells cells) = length cells * CELL_RECORD_BYTES"
| "data_payload_bytes (ChunkAfe records) = length records * AFE_RECORD_BYTES"

section \<open>The buffer\<close>

datatype records = PcmRing "i16 list" | CellRing "cell list" | AfeRing "afe_record list"

record epoch_buffer =
  eb_index :: block_index
  eb_records :: records

datatype segment_kind =
    SegData block_meta bool
  | SegMissing
  | SegEvicted
  | SegUnknown

record segment =
  sg_span :: span
  sg_kind :: segment_kind

definition GAP_CELL :: cell where
  "GAP_CELL = \<lparr>e_centi = word_of_int E_MIN, cell_flags = CELL_GAP, cell_mask = 0\<rparr>"

definition AFE_DEFAULT :: afe_record where
  "AFE_DEFAULT = afe_from_bytes (replicate AFE_RECORD_BYTES 0)"

fun records_new :: "stream_id \<Rightarrow> records" where
  "records_new Mic = PcmRing []"
| "records_new Reference = PcmRing []"
| "records_new CellStream = CellRing []"
| "records_new AfeStream = AfeRing []"

definition buffer_new :: "stream_id \<Rightarrow> nat \<Rightarrow> nat \<Rightarrow> epoch_buffer" where
  "buffer_new stream retention max_blocks =
     \<lparr>eb_index = index_new stream retention max_blocks, eb_records = records_new stream\<rparr>"

definition buffer_unit :: "epoch_buffer \<Rightarrow> nat" where
  "buffer_unit b = bi_unit (eb_index b)"

definition buffer_end :: "epoch_buffer \<Rightarrow> nat" where
  "buffer_end b = bi_end (eb_index b) * buffer_unit b"

text \<open>The loop of \<open>write\<close> (the ring after the values). It stops at the first value past every novel range.\<close>

fun write_from :: "nat \<Rightarrow> nat \<Rightarrow> 'a list \<Rightarrow> (nat \<times> nat) list \<Rightarrow> 'a list \<Rightarrow> 'a list" where
  "write_from capacity pos [] ranges ring = ring"
| "write_from capacity pos (value # values) ranges ring =
     (case dropWhile (\<lambda>(start, end). pos \<ge> end) ranges of
        [] \<Rightarrow> ring
      | (start, end) # rest \<Rightarrow>
          write_from capacity (Suc pos) values ((start, end) # rest)
            (if pos \<ge> start then ring[pos mod capacity := value] else ring))"

definition write_ring :: "'a list \<Rightarrow> nat \<Rightarrow> 'a \<Rightarrow> nat \<Rightarrow> 'a list \<Rightarrow> (nat \<times> nat) list \<Rightarrow> 'a list" where
  "write_ring ring capacity fill first values novel =
     write_from capacity first values novel (if ring = [] then replicate capacity fill else ring)"

fun write_content :: "records \<Rightarrow> nat \<Rightarrow> nat \<Rightarrow> content \<Rightarrow> (nat \<times> nat) list \<Rightarrow> records" where
  "write_content (PcmRing ring) capacity first (Pcm samples) novel =
     PcmRing (write_ring ring capacity 0 first samples novel)"
| "write_content (PcmRing ring) capacity first (DigitalSilence frames) novel =
     PcmRing (write_ring ring capacity 0 first (replicate (unat frames) 0) novel)"
| "write_content (CellRing ring) capacity first (Cells cells) novel =
     CellRing (write_ring ring capacity GAP_CELL first cells novel)"
| "write_content (AfeRing ring) capacity first (Afe records) novel =
     AfeRing (write_ring ring capacity AFE_DEFAULT first records novel)"
| "write_content ring capacity first content novel = ring"

definition store :: "packet \<Rightarrow> epoch_buffer \<Rightarrow> epoch_buffer \<times> nat" where
  "store p b =
     (let h = p_header p;
          unit = buffer_unit b;
          first = unat (h_first_sample h) div unit;
          end = first + unat (h_frame_count h);
          (ix, novel) = insert_data first end (block_meta_of p)
                             (contains_flags (h_flags h) DISCONTINUITY) (eb_index b);
          capacity = bi_capacity ix;
          stored = sum_list (map (\<lambda>(a, b). b - a) novel)
      in (\<lparr>eb_index = ix,
           eb_records = (if stored > 0
              then write_content (eb_records b) capacity first (packet_content p) novel
              else eb_records b)\<rparr>,
          stored * unit))"

definition mark_missing :: "span \<Rightarrow> epoch_buffer \<Rightarrow> epoch_buffer" where
  "mark_missing s b =
     b\<lparr>eb_index := insert_missing (sp_start s div buffer_unit b)
                     (div_ceil (sp_end s) (buffer_unit b)) (eb_index b)\<rparr>"

definition buffer_lookup :: "nat \<Rightarrow> epoch_buffer \<Rightarrow> lookup" where
  "buffer_lookup pos b =
     (let unit = buffer_unit b in
      case index_lookup (pos div unit) (eb_index b) of
        LookupData end meta discontinuity \<Rightarrow> LookupData (end * unit) meta discontinuity
      | LookupMissing end \<Rightarrow> LookupMissing (end * unit)
      | LookupEvicted until \<Rightarrow> LookupEvicted (until * unit)
      | LookupUnknown next \<Rightarrow> LookupUnknown (map_option (\<lambda>n. n * unit) next))"

fun segment_of :: "nat \<Rightarrow> lookup \<Rightarrow> nat \<times> segment_kind" where
  "segment_of stop (LookupData end meta discontinuity) = (end, SegData meta discontinuity)"
| "segment_of stop (LookupMissing end) = (end, SegMissing)"
| "segment_of stop (LookupEvicted until) = (until, SegEvicted)"
| "segment_of stop (LookupUnknown next) = ((case next of Some n \<Rightarrow> n | None \<Rightarrow> stop), SegUnknown)"

lemma buffer_lookup_progress:
  assumes "0 < buffer_unit b" "lookup_stop (buffer_lookup pos b) = Some hi"
  shows "pos < hi"
proof -
  obtain k where k: "lookup_stop (index_lookup (pos div buffer_unit b) (eb_index b)) = Some k"
      "hi = k * buffer_unit b"
    using assms(2) by (auto simp: buffer_lookup_def Let_def split: lookup.splits option.splits)
  have "pos div buffer_unit b < k" by (rule index_lookup_progress [OF k(1)])
  then show ?thesis using assms(1) k(2) by (simp add: div_less_iff_less_mult)
qed

text \<open>
  The loop of \<open>segments\<close>. A record width of 0, which no stream has, would be a division by
  zero in the source.
\<close>

function segments_from :: "epoch_buffer \<Rightarrow> nat \<Rightarrow> nat \<Rightarrow> segment list" where
  "segments_from b pos stop =
     (if 0 < buffer_unit b \<and> pos < stop then
        let (end, kind) = segment_of stop (buffer_lookup pos b);
            end = min end stop
        in \<lparr>sg_span = \<lparr>sp_start = pos, sp_end = end\<rparr>, sg_kind = kind\<rparr> # segments_from b end stop
      else [])"
  by pat_completeness auto

lemma segment_of_progress:
  assumes "0 < buffer_unit b" "pos < stop" "segment_of stop (buffer_lookup pos b) = (hi, kind)"
  shows "pos < hi"
  using assms buffer_lookup_progress [OF assms(1), of pos]
  by (cases "buffer_lookup pos b") (auto split: option.splits)

termination segments_from
proof (relation "measure (\<lambda>(b, pos, stop). stop - pos)")
  fix b pos stop x hi kind hi'
  assume "0 < buffer_unit b \<and> pos < stop" "x = segment_of stop (buffer_lookup pos b)"
    "(hi, kind) = x" "hi' = min hi stop"
  then show "((b, hi', stop), (b, pos, stop)) \<in> measure (\<lambda>(b, pos, stop). stop - pos)"
    using segment_of_progress [of b pos stop hi kind] by (auto simp: min_def)
qed simp

declare segments_from.simps [simp del]

definition segments :: "span \<Rightarrow> epoch_buffer \<Rightarrow> segment list" where
  "segments s b = segments_from b (sp_start s) (sp_end s)"

definition slots :: "span \<Rightarrow> epoch_buffer \<Rightarrow> nat list" where
  "slots s b = map (\<lambda>i. i mod bi_capacity (eb_index b))
     [sp_start s div buffer_unit b ..< sp_end s div buffer_unit b]"

definition ring_get :: "'a list \<Rightarrow> nat \<Rightarrow> 'a option" where
  "ring_get ring i = (if i < length ring then Some (ring ! i) else None)"

definition ring_all :: "'a list \<Rightarrow> nat list \<Rightarrow> 'a list option" where
  "ring_all ring is = those (map (ring_get ring) is)"

definition copy_pcm :: "span \<Rightarrow> epoch_buffer \<Rightarrow> i16 list \<Rightarrow> i16 list option" where
  "copy_pcm s b out =
     (case eb_records b of PcmRing ring \<Rightarrow> map_option (\<lambda>xs. out @ xs) (ring_all ring (slots s b))
      | _ \<Rightarrow> Some out)"

definition copy_cells :: "span \<Rightarrow> epoch_buffer \<Rightarrow> cell list \<Rightarrow> cell list option" where
  "copy_cells s b out =
     (case eb_records b of CellRing ring \<Rightarrow> map_option (\<lambda>xs. out @ xs) (ring_all ring (slots s b))
      | _ \<Rightarrow> Some out)"

definition copy_afe :: "span \<Rightarrow> epoch_buffer \<Rightarrow> afe_record list \<Rightarrow> afe_record list option" where
  "copy_afe s b out =
     (case eb_records b of AfeRing ring \<Rightarrow> map_option (\<lambda>xs. out @ xs) (ring_all ring (slots s b))
      | _ \<Rightarrow> Some out)"

text \<open>\<open>Bytes::slice\<close>, which panics out of range.\<close>

definition bytes_slice :: "nat \<Rightarrow> nat \<Rightarrow> byte list \<Rightarrow> byte list option" where
  "bytes_slice from to bs =
     (if from \<le> to \<and> to \<le> length bs then Some (take (to - from) (drop from bs)) else None)"

definition packet_has :: "span \<Rightarrow> packet \<Rightarrow> bool" where
  "packet_has s p \<longleftrightarrow>
     \<not> contains_flags (h_flags (p_header p)) DIGITAL_SILENCE
     \<and> unat (h_first_sample (p_header p)) \<le> sp_start s \<and> sp_end s \<le> p_end_sample p"

definition chunk_data_of :: "span \<Rightarrow> block_meta \<Rightarrow> packet option \<Rightarrow> epoch_buffer \<Rightarrow> chunk_data option" where
  "chunk_data_of s meta packet b =
     (case eb_records b of
        PcmRing ring \<Rightarrow>
          if contains_flags (bm_flags meta) DIGITAL_SILENCE then Some (ChunkSilence (span_len s))
          else (case packet of
              Some p \<Rightarrow>
                if packet_has s p then
                  let first = unat (h_first_sample (p_header p)) in
                  map_option ChunkPcm
                    (bytes_slice ((sp_start s - first) * 2) ((sp_end s - first) * 2) (p_payload p))
                else map_option (\<lambda>xs. ChunkPcm (concat (map u16_le xs))) (ring_all ring (slots s b))
            | None \<Rightarrow> map_option (\<lambda>xs. ChunkPcm (concat (map u16_le xs))) (ring_all ring (slots s b)))
      | CellRing _ \<Rightarrow> map_option ChunkCells (copy_cells s b [])
      | AfeRing _ \<Rightarrow> map_option ChunkAfe (copy_afe s b []))"

section \<open>The abstract view\<close>

datatype rec = PcmRec i16 | CellRec cell | AfeRec afe_record

fun ring_list :: "records \<Rightarrow> rec list" where
  "ring_list (PcmRing r) = map PcmRec r"
| "ring_list (CellRing r) = map CellRec r"
| "ring_list (AfeRing r) = map AfeRec r"

fun content_list :: "content \<Rightarrow> rec list" where
  "content_list (Pcm xs) = map PcmRec xs"
| "content_list (DigitalSilence n) = replicate (unat n) (PcmRec 0)"
| "content_list (Cells xs) = map CellRec xs"
| "content_list (Afe xs) = map AfeRec xs"

fun data_list :: "chunk_data \<Rightarrow> rec list" where
  "data_list (ChunkPcm bs) = map PcmRec (pcm_samples bs)"
| "data_list (ChunkSilence n) = replicate n (PcmRec 0)"
| "data_list (ChunkCells xs) = map CellRec xs"
| "data_list (ChunkAfe xs) = map AfeRec xs"

text \<open>The ring a stream's buffer has, and the content a stream's packets have.\<close>

fun ring_fits :: "stream_id \<Rightarrow> records \<Rightarrow> bool" where
  "ring_fits s (PcmRing r) \<longleftrightarrow> s = Mic \<or> s = Reference"
| "ring_fits s (CellRing r) \<longleftrightarrow> s = CellStream"
| "ring_fits s (AfeRing r) \<longleftrightarrow> s = AfeStream"

fun content_fits :: "stream_id \<Rightarrow> content \<Rightarrow> bool" where
  "content_fits s (Pcm xs) \<longleftrightarrow> s = Mic \<or> s = Reference"
| "content_fits s (DigitalSilence n) \<longleftrightarrow> s = Mic \<or> s = Reference"
| "content_fits s (Cells xs) \<longleftrightarrow> s = CellStream"
| "content_fits s (Afe xs) \<longleftrightarrow> s = AfeStream"

definition record_at :: "epoch_buffer \<Rightarrow> nat \<Rightarrow> rec option" where
  "record_at b q =
     (if is_held (slot_at (eb_index b) q)
      then Some (ring_list (eb_records b) ! (q mod bi_capacity (eb_index b))) else None)"

definition silent_at :: "epoch_buffer \<Rightarrow> nat \<Rightarrow> bool" where
  "silent_at b q \<longleftrightarrow> (case slot_at (eb_index b) q of
      Some (Held m d) \<Rightarrow> contains_flags (bm_flags m) DIGITAL_SILENCE | _ \<Rightarrow> False)"

definition buffer_inv :: "stream_id \<Rightarrow> epoch_buffer \<Rightarrow> bool" where
  "buffer_inv s b \<longleftrightarrow>
     index_inv (eb_index b) \<and> bi_unit (eb_index b) = samples_per_frame (stream_kind s)
     \<and> ring_fits s (eb_records b)
     \<and> ring_list (eb_records b) \<in> {[]} \<union> {r. length r = bi_capacity (eb_index b)}
     \<and> (\<forall>q. is_held (slot_at (eb_index b) q) \<longrightarrow> ring_list (eb_records b) \<noteq> [])
     \<and> (\<forall>q. silent_at b q \<longrightarrow> (s = Mic \<or> s = Reference) \<longrightarrow> record_at b q = Some (PcmRec 0))"

text \<open>Segments follow each other without overlap or hole; what each says of its records.\<close>

fun tiles :: "nat \<Rightarrow> nat \<Rightarrow> segment list \<Rightarrow> bool" where
  "tiles lo hi [] \<longleftrightarrow> lo = hi"
| "tiles lo hi (sg # rest) \<longleftrightarrow>
     sp_start (sg_span sg) = lo \<and> lo < sp_end (sg_span sg) \<and> tiles (sp_end (sg_span sg)) hi rest"

definition in_span :: "span \<Rightarrow> epoch_buffer \<Rightarrow> nat \<Rightarrow> bool" where
  "in_span s b q \<longleftrightarrow> sp_start s \<le> q * buffer_unit b \<and> q * buffer_unit b < sp_end s"

definition segment_true :: "epoch_buffer \<Rightarrow> segment \<Rightarrow> bool" where
  "segment_true b sg \<longleftrightarrow> (\<forall>q. in_span (sg_span sg) b q \<longrightarrow>
     (case sg_kind sg of
        SegData meta d \<Rightarrow>
          (let k = q - sp_start (sg_span sg) div buffer_unit b in
           slot_at (eb_index b) q = Some (Held (meta_advanced meta k (buffer_unit b)) (d \<and> k = 0)))
      | SegMissing \<Rightarrow> slot_at (eb_index b) q = Some Lost
      | SegEvicted \<Rightarrow> q < bi_floor (eb_index b)
      | SegUnknown \<Rightarrow> bi_floor (eb_index b) \<le> q \<and> slot_at (eb_index b) q = None))"

definition span_held :: "span \<Rightarrow> epoch_buffer \<Rightarrow> bool" where
  "span_held s b \<longleftrightarrow> buffer_unit b dvd sp_start s \<and> buffer_unit b dvd sp_end s
     \<and> (\<forall>q. in_span s b q \<longrightarrow> record_at b q \<noteq> None)"

definition records_of :: "span \<Rightarrow> epoch_buffer \<Rightarrow> rec list" where
  "records_of s b = map (\<lambda>q. the (record_at b q))
     [sp_start s div buffer_unit b ..< sp_end s div buffer_unit b]"

text \<open>
  What a chunk of a held span carries, decoded, is what the buffer holds there: from the ring,
  from the packet itself where the packet agrees with the buffer, and as silence where the
  device sent no samples.
\<close>

definition packet_agrees :: "packet \<Rightarrow> span \<Rightarrow> epoch_buffer \<Rightarrow> bool" where
  "packet_agrees p s b \<longleftrightarrow> (\<forall>q. in_span s b q \<longrightarrow>
     record_at b q = Some (content_list (packet_content p) ! (q - unat (h_first_sample (p_header p)))))"

text \<open>The buffers a stream's packets and gap reports can build.\<close>

inductive buffer_reachable :: "stream_id \<Rightarrow> epoch_buffer \<Rightarrow> bool" for s where
  new: "buffer_reachable s (buffer_new s retention max_blocks)"
| stored: "buffer_reachable s b \<Longrightarrow> packet_parse frame = Inr p \<Longrightarrow>
     stream_of_kind (h_kind (p_header p)) = Some s \<Longrightarrow> buffer_reachable s (fst (store p b))"
| marked: "buffer_reachable s b \<Longrightarrow> buffer_reachable s (mark_missing sp b)"

section \<open>Lemmas\<close>

subsection \<open>Writing into the ring\<close>

lemma length_write_from [simp]: "length (write_from cap pos vs rs ring) = length ring"
  by (induction cap pos vs rs ring rule: write_from.induct)
    (auto split: list.splits prod.splits)

lemma map_write_from:
  "map f (write_from cap pos vs rs ring) = write_from cap pos (map f vs) rs (map f ring)"
  by (induction cap pos vs rs ring rule: write_from.induct)
    (auto split: list.split prod.split simp: map_update simp del: dropWhile_eq_Nil_conv)

lemma mod_inj_window:
  fixes lo :: nat
  assumes "lo \<le> x" "x < lo + cap" "lo \<le> y" "y < lo + cap" "x mod cap = y mod cap"
  shows "x = y"
proof -
  have *: "u = v" if "u \<le> v" "v < u + cap" "u mod cap = v mod cap" for u v :: nat
  proof -
    have "cap dvd v - u" using that(1,3) by (metis mod_eq_dvd_iff_nat)
    moreover have "v - u < cap" using that(1,2) by linarith
    ultimately have "v - u = 0" using nat_dvd_not_less by blast
    then show "u = v" using that(1) by simp
  qed
  show ?thesis
    using * [of x y] * [of y x] assms by (cases "x \<le> y") auto
qed

lemma dropWhile_ranges:
  assumes "ranges_ok rs" "pos \<le> q"
  shows "in_ranges (dropWhile (\<lambda>(a, b). pos \<ge> b) rs) q \<longleftrightarrow> in_ranges rs q"
  using assms(2) by (induction rs) (auto split: if_splits)

lemma ranges_ok_dropWhile: "ranges_ok rs \<Longrightarrow> ranges_ok (dropWhile P rs)"
  by (induction rs) (auto split: prod.splits)

lemma in_ranges_head:
  assumes "ranges_ok ((a, b) # rs)" "pos < b"
  shows "in_ranges ((a, b) # rs) pos \<longleftrightarrow> a \<le> pos"
  using assms by (fastforce simp: in_ranges_def)

lemma write_from_nth:
  assumes "ranges_ok rs" "length ring = cap" "0 < cap"
    and "\<And>x. in_ranges rs x \<Longrightarrow> lo \<le> x \<and> x < lo + cap"
    and "lo \<le> q" "q < lo + cap"
  shows "write_from cap pos vs rs ring ! (q mod cap) =
    (if in_ranges rs q \<and> pos \<le> q \<and> q < pos + length vs then vs ! (q - pos) else ring ! (q mod cap))"
  using assms(1,2,4)
proof (induction vs arbitrary: pos rs ring)
  case (Cons v vs)
  define ds where "ds = dropWhile (\<lambda>(a, b). pos \<ge> b) rs"
  have dr: "in_ranges ds x \<longleftrightarrow> in_ranges rs x" if "pos \<le> x" for x
    using dropWhile_ranges [OF Cons.prems(1) that] by (simp add: ds_def)
  show ?case
  proof (cases ds)
    case Nil
    then have "\<not> (in_ranges rs q \<and> pos \<le> q)" using dr by auto
    then show ?thesis using Nil by (auto simp: ds_def simp del: dropWhile_eq_Nil_conv)
  next
    case (Cons r rest)
    obtain a b where r: "r = (a, b)" by fastforce
    have ok: "ranges_ok ds" unfolding ds_def by (rule ranges_ok_dropWhile [OF Cons.prems(1)])
    have pb: "pos < b" using hd_dropWhile [of "\<lambda>(a, b). pos \<ge> b" rs] Cons r
      by (simp add: ds_def del: dropWhile_eq_Nil_conv)
    have here: "in_ranges rs pos \<longleftrightarrow> a \<le> pos"
      using in_ranges_head [of a b rest pos] ok pb dr [of pos] by (simp add: Cons r)
    define ring' where "ring' = (if a \<le> pos then ring[pos mod cap := v] else ring)"
    have sub: "in_ranges ds x \<Longrightarrow> in_ranges rs x" for x
      by (auto simp: ds_def in_ranges_def dest!: set_dropWhileD)
    have win: "in_ranges ds x \<Longrightarrow> lo \<le> x \<and> x < lo + cap" for x
      using sub Cons.prems(3) by blast
    have step: "write_from cap pos (v # vs) rs ring = write_from cap (Suc pos) vs ds ring'"
      using Cons r by (simp add: ds_def ring'_def)
    have ring': "ring' ! (q mod cap) = (if a \<le> pos \<and> q = pos then v else ring ! (q mod cap))"
    proof (cases "a \<le> pos")
      case True
      then have "lo \<le> pos \<and> pos < lo + cap" using here Cons.prems(3) by blast
      then show ?thesis
        using mod_inj_window [of lo q cap pos] assms(3,5,6) Cons.prems(2) True
        by (auto simp: ring'_def nth_list_update)
    qed (simp add: ring'_def)
    have "write_from cap (Suc pos) vs ds ring' ! (q mod cap) =
      (if in_ranges ds q \<and> Suc pos \<le> q \<and> q < Suc pos + length vs then vs ! (q - Suc pos)
       else ring' ! (q mod cap))"
      by (rule Cons.IH [OF ok _ win]) (simp add: ring'_def Cons.prems(2))
    then show ?thesis
      unfolding step ring' using dr [of q] here
      by (auto simp: nth_Cons' not_less_eq_eq Suc_diff_le le_antisym)
  qed
qed auto

lemma write_content_list:
  assumes "ring_fits s r" "content_fits s c"
  shows "\<exists>fill. ring_list (write_content r cap first c novel) =
      write_from cap first (content_list c) novel
        (if ring_list r = [] then replicate cap fill else ring_list r)"
proof (cases r)
  case (PcmRing ring)
  then show ?thesis using assms
    by (cases c) (auto simp: write_ring_def map_write_from map_replicate_const intro: exI [of _ "PcmRec 0"])
next
  case (CellRing ring)
  then show ?thesis using assms
    by (cases c) (auto simp: write_ring_def map_write_from map_replicate_const intro: exI [of _ "CellRec GAP_CELL"])
next
  case (AfeRing ring)
  then show ?thesis using assms
    by (cases c) (auto simp: write_ring_def map_write_from map_replicate_const intro: exI [of _ "AfeRec AFE_DEFAULT"])
qed

lemma write_content_fits: "ring_fits s r \<Longrightarrow> ring_fits s (write_content r cap first c novel)"
  by (cases r; cases c) simp_all

lemma stored_pos: "ranges_ok rs \<Longrightarrow> 0 < sum_list (map (\<lambda>(a, b). b - a) rs) \<longleftrightarrow> rs \<noteq> []"
  by (cases rs) auto

lemma finite_in_ranges: "finite {q. in_ranges rs q}"
proof -
  have "{q. in_ranges rs q} = (\<Union>(a, b) \<in> set rs. {a..<b})" by (fastforce simp: in_ranges_def)
  then show ?thesis by auto
qed

lemma stored_card: "ranges_ok rs \<Longrightarrow> sum_list (map (\<lambda>(a, b). b - a) rs) = card {q. in_ranges rs q}"
proof (induction rs)
  case (Cons r rs)
  obtain a b where r: "r = (a, b)" by fastforce
  have "{q. in_ranges (r # rs) q} = {a..<b} \<union> {q. in_ranges rs q}" by (auto simp: r)
  moreover have "{a..<b} \<inter> {q. in_ranges rs q} = {}"
    using Cons.prems by (auto simp: r in_ranges_def)
  ultimately show ?case using Cons by (simp add: r card_Un_disjoint finite_in_ranges)
qed (simp add: in_ranges_def Collect_empty_eq [THEN iffD2])


subsection \<open>Packets\<close>

lemma parsed_fits:
  assumes "packet_parse frame = Inr p" "stream_of_kind (h_kind (p_header p)) = Some s"
  shows "content_fits s (packet_content p)"
    and "length (content_list (packet_content p)) = unat (h_frame_count (p_header p))"
    and "samples_per_frame (h_kind (p_header p)) = samples_per_frame (stream_kind s)"
proof -
  show "content_fits s (packet_content p)"
    using assms(2) by (cases "h_kind (p_header p)") (auto simp: packet_content_def Let_def)
  have "length (content_list (packet_content p)) = content_frames (packet_content p)"
    by (cases "packet_content p") simp_all
  then show "length (content_list (packet_content p)) = unat (h_frame_count (p_header p))"
    using parsed_sound [OF assms(1)] by simp
  show "samples_per_frame (h_kind (p_header p)) = samples_per_frame (stream_kind s)"
    using assms(2) by (cases "h_kind (p_header p)") auto
qed

lemma meta_silent:
  assumes "contains_flags (bm_flags (block_meta_of p)) DIGITAL_SILENCE"
  shows "contains_flags (h_flags (p_header p)) DIGITAL_SILENCE"
proof -
  have m: "NOT (1 :: u8) AND 16 = 16" by simp
  have "h_flags (p_header p) AND NOT 1 AND 16 = 16"
    using assms by (auto simp: block_meta_of_def Let_def flags_from_bits_def contains_flags_def
        DISCONTINUITY_def DIGITAL_SILENCE_def and.assoc split: if_splits)
  then show ?thesis by (simp add: and.assoc m contains_flags_def DIGITAL_SILENCE_def)
qed

lemma bm_flags_advanced [simp]: "bm_flags (meta_advanced m n unit) = bm_flags m"
  by (simp add: meta_advanced_def)

lemma silent_content:
  assumes "stream_of_kind (h_kind (p_header p)) = Some s" "s = Mic \<or> s = Reference"
    and "contains_flags (h_flags (p_header p)) DIGITAL_SILENCE"
    and "i < length (content_list (packet_content p))"
  shows "content_list (packet_content p) ! i = PcmRec 0"
  using assms by (cases "h_kind (p_header p)") (auto simp: packet_content_def Let_def)

subsection \<open>Storing\<close>

text \<open>What \<open>store\<close> does, in the terms of the index.\<close>

lemma store_cases:
  fixes b :: epoch_buffer
  assumes "store p b = (b', n)"
  defines "first \<equiv> unat (h_first_sample (p_header p)) div buffer_unit b"
  obtains novel where
    "insert_data first (first + unat (h_frame_count (p_header p))) (block_meta_of p)
       (contains_flags (h_flags (p_header p)) DISCONTINUITY) (eb_index b) = (eb_index b', novel)"
    "eb_records b' = (if sum_list (map (\<lambda>(a, b). b - a) novel) > 0
       then write_content (eb_records b) (bi_capacity (eb_index b')) first (packet_content p) novel
       else eb_records b)"
    "n = sum_list (map (\<lambda>(a, b). b - a) novel) * buffer_unit b"
proof (cases "insert_data first (first + unat (h_frame_count (p_header p))) (block_meta_of p)
       (contains_flags (h_flags (p_header p)) DISCONTINUITY) (eb_index b)")
  case (Pair ix novel)
  then have "eb_index b' = ix" "eb_records b' = (if sum_list (map (\<lambda>(a, b). b - a) novel) > 0
       then write_content (eb_records b) (bi_capacity ix) first (packet_content p) novel
       else eb_records b)" "n = sum_list (map (\<lambda>(a, b). b - a) novel) * buffer_unit b"
    using assms(1) unfolding first_def
    by (auto simp: store_def Let_def simp del: sum_list_eq_0_iff split del: if_split)
  with Pair show ?thesis using that [of novel] by (simp split del: if_split cong: if_cong)
qed

lemma ring_all_write:
  assumes inv: "buffer_inv s b" and p: "packet_parse frame = Inr p"
    and s: "stream_of_kind (h_kind (p_header p)) = Some s" and st: "store p b = (b', n)"
    and first: "first = unat (h_first_sample (p_header p)) div buffer_unit b"
    and stop: "stop = first + unat (h_frame_count (p_header p))"
  shows "ring_fits s (eb_records b')"
    and "ring_list (eb_records b') \<in> {[]} \<union> {r. length r = bi_capacity (eb_index b')}"
    and "bi_floor (eb_index b') \<le> q \<Longrightarrow> q < bi_end (eb_index b') \<Longrightarrow>
         is_held (slot_at (eb_index b') q) \<Longrightarrow>
         ring_list (eb_records b') \<noteq> [] \<and>
         ring_list (eb_records b') ! (q mod bi_capacity (eb_index b)) =
          (if is_held (slot_at (eb_index b) q) then ring_list (eb_records b) ! (q mod bi_capacity (eb_index b))
           else content_list (packet_content p) ! (q - first))"
proof -
  let ?ix = "eb_index b" and ?ix' = "eb_index b'"
  have ixinv: "index_inv ?ix" using inv by (simp add: buffer_inv_def)
  obtain novel where ins: "insert_data first stop (block_meta_of p)
       (contains_flags (h_flags (p_header p)) DISCONTINUITY) ?ix = (?ix', novel)"
    and recs: "eb_records b' = (if sum_list (map (\<lambda>(a, b). b - a) novel) > 0
       then write_content (eb_records b) (bi_capacity ?ix') first (packet_content p) novel
       else eb_records b)"
    using store_cases [OF st] first stop by metis
  note view = insert_data_view [OF ixinv ins]
  note novel = insert_data_novel [OF ixinv ins]
  have cap: "bi_capacity ?ix' = bi_capacity ?ix" by (rule view(3))
  have cap0: "0 < bi_capacity ?ix" using ixinv by (simp add: index_inv_def)
  have fits: "ring_fits s (eb_records b)" "content_fits s (packet_content p)"
    using inv parsed_fits(1) [OF p s] by (simp_all add: buffer_inv_def)
  have len0: "ring_list (eb_records b) \<in> {[]} \<union> {r. length r = bi_capacity ?ix}"
    using inv by (simp add: buffer_inv_def)
  show "ring_fits s (eb_records b')" using recs fits(1) write_content_fits by simp
  obtain fill where wl: "ring_list (write_content (eb_records b) (bi_capacity ?ix) first (packet_content p) novel) =
      write_from (bi_capacity ?ix) first (content_list (packet_content p)) novel
        (if ring_list (eb_records b) = [] then replicate (bi_capacity ?ix) fill else ring_list (eb_records b))"
    using write_content_list [OF fits] by blast
  define ring where "ring = (if ring_list (eb_records b) = [] then replicate (bi_capacity ?ix) fill else ring_list (eb_records b))"
  have rl: "length ring = bi_capacity ?ix" using len0 by (auto simp: ring_def)
  have w: "ring_list (eb_records b') = (if novel \<noteq> []
      then write_from (bi_capacity ?ix) first (content_list (packet_content p)) novel ring
      else ring_list (eb_records b))"
    using recs wl stored_pos [OF novel(1)] by (simp add: cap ring_def)
  show "ring_list (eb_records b') \<in> {[]} \<union> {r. length r = bi_capacity ?ix'}"
    using w rl len0 by (auto simp: cap)
  assume q: "bi_floor ?ix' \<le> q" "q < bi_end ?ix'" "is_held (slot_at ?ix' q)"
  let ?lo = "bi_floor (advance stop ?ix)"
  have adv: "index_inv (advance stop ?ix)" by (rule advance_inv [OF ixinv])
  have room: "max (bi_end ?ix) stop \<le> ?lo + bi_capacity ?ix" using adv by (simp add: index_inv_def)
  have win: "?lo \<le> q" "q < ?lo + bi_capacity ?ix"
    using q view(5,6) room by linarith+
  have nwin: "?lo \<le> x \<and> x < ?lo + bi_capacity ?ix" if "in_ranges novel x" for x
    using that novel(2) adv by (auto simp: index_inv_def)
  have held: "is_held (slot_at ?ix q) \<or> in_ranges novel q"
    using view(7) [of q] novel(2) [of q] q(1,3) win(1) by (auto split: if_splits)
  have inb: "q < first + length (content_list (packet_content p))" "first \<le> q" if "in_ranges novel q"
    using that novel(2) stop parsed_fits(2) [OF p s] by auto
  have excl: "\<not> in_ranges novel q" if "is_held (slot_at ?ix q)" using that novel(2) by auto
  have nth: "write_from (bi_capacity ?ix) first (content_list (packet_content p)) novel ring ! (q mod bi_capacity ?ix)
     = (if is_held (slot_at ?ix q) then ring ! (q mod bi_capacity ?ix) else content_list (packet_content p) ! (q - first))"
    using write_from_nth [OF novel(1) rl cap0 nwin win, of first "content_list (packet_content p)"]
      held inb excl by auto
  have nonempty: "ring_list (eb_records b) \<noteq> []" if "is_held (slot_at ?ix q)"
    using that inv by (auto simp: buffer_inv_def)
  show "ring_list (eb_records b') \<noteq> [] \<and>
         ring_list (eb_records b') ! (q mod bi_capacity ?ix) =
          (if is_held (slot_at ?ix q) then ring_list (eb_records b) ! (q mod bi_capacity ?ix)
           else content_list (packet_content p) ! (q - first))"
  proof (cases "novel = []")
    case True
    then show ?thesis using w held nonempty by auto
  next
    case False
    have "ring \<noteq> []" using rl cap0 by auto
    then have "write_from (bi_capacity ?ix) first (content_list (packet_content p)) novel ring \<noteq> []"
      by (metis length_write_from length_0_conv)
    then show ?thesis using w False nth nonempty by (auto simp: ring_def)
  qed
qed


lemma slot_in_window:
  assumes "index_inv ix" "slot_at ix q \<noteq> None"
  shows "bi_floor ix \<le> q" "q < bi_end ix"
proof -
  obtain b where "b \<in> set (bi_blocks ix)" "covers b q" using assms(2) known_iff by blast
  then show "bi_floor ix \<le> q" "q < bi_end ix" using assms(1) by (fastforce simp: index_inv_def covers_def)+
qed

lemma is_held_known: "is_held s \<Longrightarrow> s \<noteq> None"
  by (cases s) auto

text \<open>The refinement of \<open>store\<close>: a position already held keeps its record.\<close>

lemma store_record_at:
  assumes inv: "buffer_inv s b" and p: "packet_parse frame = Inr p"
    and s: "stream_of_kind (h_kind (p_header p)) = Some s" and st: "store p b = (b', n)"
    and first: "first = unat (h_first_sample (p_header p)) div buffer_unit b"
    and stop: "stop = first + unat (h_frame_count (p_header p))"
  shows "record_at b' q =
     (if q < bi_floor (eb_index b') then None
      else case record_at b q of
        Some r \<Rightarrow> Some r
      | None \<Rightarrow> if first \<le> q \<and> q < stop
                 then Some (content_list (packet_content p) ! (q - first)) else None)"
proof -
  let ?ix = "eb_index b" and ?ix' = "eb_index b'"
  have ixinv: "index_inv ?ix" using inv by (simp add: buffer_inv_def)
  obtain novel where ins: "insert_data first stop (block_meta_of p)
       (contains_flags (h_flags (p_header p)) DISCONTINUITY) ?ix = (?ix', novel)"
    using store_cases [OF st] first stop by metis
  note view = insert_data_view [OF ixinv ins]
  have held': "is_held (slot_at ?ix' q) \<longleftrightarrow> bi_floor ?ix' \<le> q
      \<and> (is_held (slot_at ?ix q) \<or> first \<le> q \<and> q < stop)"
    unfolding view(7) by auto
  have "record_at b' q = Some (ring_list (eb_records b') ! (q mod bi_capacity ?ix))"
    if "is_held (slot_at ?ix' q)" using that by (simp add: record_at_def view(3))
  moreover have "q < bi_end ?ix'" if "is_held (slot_at ?ix' q)"
    using that slot_in_window(2) [OF view(1)] is_held_known by blast
  ultimately show ?thesis
    using held' ring_all_write(3) [OF inv p s st first stop, of q]
    by (auto simp: record_at_def not_less)
qed

lemma store_count:
  assumes inv: "buffer_inv s b" and st: "store p b = (b', n)"
    and first: "first = unat (h_first_sample (p_header p)) div buffer_unit b"
    and stop: "stop = first + unat (h_frame_count (p_header p))"
  shows "n = buffer_unit b * card {q. first \<le> q \<and> q < stop \<and> record_at b q = None
           \<and> bi_end (eb_index b') \<le> q + bi_capacity (eb_index b) \<and> bi_floor (eb_index b) \<le> q}"
proof -
  let ?ix = "eb_index b" and ?ix' = "eb_index b'"
  have ixinv: "index_inv ?ix" using inv by (simp add: buffer_inv_def)
  obtain novel where ins: "insert_data first stop (block_meta_of p)
       (contains_flags (h_flags (p_header p)) DISCONTINUITY) ?ix = (?ix', novel)"
    and n: "n = sum_list (map (\<lambda>(a, b). b - a) novel) * buffer_unit b"
    using store_cases [OF st] first stop by metis
  note novel = insert_data_novel [OF ixinv ins]
  have "in_ranges novel q \<longleftrightarrow> first \<le> q \<and> q < stop \<and> record_at b q = None
           \<and> bi_end ?ix' \<le> q + bi_capacity ?ix \<and> bi_floor ?ix \<le> q" for q
    unfolding novel(2) insert_data_view(5) [OF ixinv ins] advance_floor record_at_def by auto
  then show ?thesis using n stored_card [OF novel(1)] by simp
qed

lemma store_inv:
  assumes inv: "buffer_inv s b" and p: "packet_parse frame = Inr p"
    and s: "stream_of_kind (h_kind (p_header p)) = Some s" and st: "store p b = (b', n)"
  shows "buffer_inv s b'"
proof -
  let ?ix = "eb_index b" and ?ix' = "eb_index b'"
  let ?first = "unat (h_first_sample (p_header p)) div buffer_unit b"
  let ?stop = "?first + unat (h_frame_count (p_header p))"
  have ixinv: "index_inv ?ix" using inv by (simp add: buffer_inv_def)
  obtain novel where ins: "insert_data ?first ?stop (block_meta_of p)
       (contains_flags (h_flags (p_header p)) DISCONTINUITY) ?ix = (?ix', novel)"
    using store_cases [OF st] by metis
  note view = insert_data_view [OF ixinv ins]
  note ring = ring_all_write [OF inv p s st refl refl]
  have win: "bi_floor ?ix' \<le> q \<and> q < bi_end ?ix'" if "is_held (slot_at ?ix' q)" for q
    using that slot_in_window [OF view(1)] is_held_known by blast
  have silent: "record_at b' q = Some (PcmRec 0)" if q: "silent_at b' q" and pcm: "s = Mic \<or> s = Reference" for q
  proof -
    have held: "is_held (slot_at ?ix' q)" using q by (auto simp: silent_at_def split: option.splits slot.splits)
    then have rec: "record_at b' q = (case record_at b q of Some r \<Rightarrow> Some r
        | None \<Rightarrow> if ?first \<le> q \<and> q < ?stop then Some (content_list (packet_content p) ! (q - ?first)) else None)"
      using store_record_at [OF inv p s st refl refl, of q] win [OF held] by (simp add: not_less [THEN iffD2])
    show ?thesis
    proof (cases "is_held (slot_at ?ix q)")
      case True
      then have "slot_at ?ix' q = slot_at ?ix q" using view(7) [of q] win [OF held] by auto
      then have "silent_at b q" using q by (simp add: silent_at_def)
      then have "record_at b q = Some (PcmRec 0)" using inv pcm by (auto simp: buffer_inv_def)
      then show ?thesis using rec by simp
    next
      case False
      then have new: "?first \<le> q" "q < ?stop" and sl: "slot_at ?ix' q =
          Some (Held (meta_advanced (block_meta_of p) (q - ?first) (bi_unit ?ix))
            (contains_flags (h_flags (p_header p)) DISCONTINUITY \<and> q = ?first))"
        using view(7) [of q] win [OF held] held by (auto split: if_splits)
      have "contains_flags (h_flags (p_header p)) DIGITAL_SILENCE"
        using q sl meta_silent by (simp add: silent_at_def)
      then have "content_list (packet_content p) ! (q - ?first) = PcmRec 0"
        using silent_content [OF s pcm] parsed_fits(2) [OF p s] new by simp
      then show ?thesis using rec False new by (simp add: record_at_def)
    qed
  qed
  show ?thesis
    unfolding buffer_inv_def
    using view(1,2) ring win silent inv by (auto simp: buffer_inv_def)
qed

lemma mark_missing_inv:
  assumes inv: "buffer_inv s b"
  shows "buffer_inv s (mark_missing sp b)"
    and "record_at (mark_missing sp b) q =
      (if q < bi_floor (eb_index (mark_missing sp b)) then None else record_at b q)"
proof -
  let ?ix = "eb_index b" and ?ix' = "eb_index (mark_missing sp b)"
  have ixinv: "index_inv ?ix" using inv by (simp add: buffer_inv_def)
  have ix': "?ix' = insert_missing (sp_start sp div buffer_unit b) (div_ceil (sp_end sp) (buffer_unit b)) ?ix"
    by (simp add: mark_missing_def)
  note view = insert_missing_view [OF ixinv ix']
  have recs: "eb_records (mark_missing sp b) = eb_records b" by (simp add: mark_missing_def)
  have held: "is_held (slot_at ?ix' q) \<longleftrightarrow> bi_floor ?ix' \<le> q \<and> is_held (slot_at ?ix q)" for q
    unfolding view(7) by auto
  show rec: "record_at (mark_missing sp b) q =
      (if q < bi_floor ?ix' then None else record_at b q)" for q
    using held by (simp add: record_at_def recs view(3))
  have "silent_at b q \<and> \<not> q < bi_floor ?ix'" if "silent_at (mark_missing sp b) q" for q
    using that unfolding silent_at_def view(7) by (auto split: if_splits)
  then show "buffer_inv s (mark_missing sp b)"
    using inv view(1-3) rec held unfolding buffer_inv_def recs by auto
qed

lemma buffer_new_inv: "buffer_inv s (buffer_new s retention max_blocks)"
  using index_new_inv [of s retention max_blocks]
  by (cases s) (auto simp: buffer_inv_def buffer_new_def silent_at_def slot_at_def index_new_def)

lemma buffer_unit_pos: "buffer_inv s b \<Longrightarrow> 0 < buffer_unit b"
  by (simp add: buffer_inv_def index_inv_def buffer_unit_def)

lemma slot_meta_0: "slot_in unit bs pos = Some (Held m d) \<Longrightarrow> meta_advanced m 0 unit = m"
  by (induction bs) (auto simp: meta_advanced_add split: if_splits block_kind.splits)

lemma segment_of_true:
  assumes inv: "buffer_inv s b" and on: "buffer_unit b dvd pos" and "pos < stop"
    and seg: "segment_of stop (buffer_lookup pos b) = (hi, kind)"
  shows "segment_true b \<lparr>sg_span = \<lparr>sp_start = pos, sp_end = min hi stop\<rparr>, sg_kind = kind\<rparr>"
    and "buffer_unit b dvd min hi stop \<or> min hi stop = stop"
proof -
  let ?u = "buffer_unit b" and ?k = "pos div buffer_unit b"
  have u: "0 < ?u" by (rule buffer_unit_pos [OF inv])
  have ixinv: "index_inv (eb_index b)" using inv by (simp add: buffer_inv_def)
  obtain k where k: "pos = ?u * k" using on by blast
  have kk: "?k = k" using k u by simp
  note spec = index_lookup_spec [OF ixinv, of k]
  show "buffer_unit b dvd min hi stop \<or> min hi stop = stop"
    using seg by (cases "index_lookup k (eb_index b)")
      (auto simp: buffer_lookup_def kk Let_def min_def split: option.splits)
  have le: "pos \<le> q * ?u \<longleftrightarrow> k \<le> q" for q using u by (simp add: k mult.commute)
  have lt: "q * ?u < n * ?u \<longleftrightarrow> q < n" for q n using u by simp
  have adv: "meta_advanced m 0 ?u = m" if "slot_at (eb_index b) k = Some (Held m d)" for m d
    using slot_meta_0 that by (simp add: slot_at_def buffer_unit_def)
  show "segment_true b \<lparr>sg_span = \<lparr>sp_start = pos, sp_end = min hi stop\<rparr>, sg_kind = kind\<rparr>"
    unfolding segment_true_def
  proof (intro allI impI)
    fix q assume "in_span (sg_span \<lparr>sg_span = \<lparr>sp_start = pos, sp_end = min hi stop\<rparr>, sg_kind = kind\<rparr>) b q"
    then have q: "k \<le> q" "q * ?u < hi" "q * ?u < stop" using le by (simp_all add: in_span_def)
    show "case sg_kind \<lparr>sg_span = \<lparr>sp_start = pos, sp_end = min hi stop\<rparr>, sg_kind = kind\<rparr> of
        SegData meta d \<Rightarrow>
          (let k = q - sp_start (sg_span \<lparr>sg_span = \<lparr>sp_start = pos, sp_end = min hi stop\<rparr>, sg_kind = kind\<rparr>) div ?u in
           slot_at (eb_index b) q = Some (Held (meta_advanced meta k ?u) (d \<and> k = 0)))
      | SegMissing \<Rightarrow> slot_at (eb_index b) q = Some Lost
      | SegEvicted \<Rightarrow> q < bi_floor (eb_index b)
      | SegUnknown \<Rightarrow> bi_floor (eb_index b) \<le> q \<and> slot_at (eb_index b) q = None"
    proof (cases "index_lookup k (eb_index b)")
      case (LookupData e m d)
      then have sg: "hi = e * ?u" "kind = SegData m d" using seg by (simp_all add: buffer_lookup_def kk)
      then have "q < e" using q(2) lt by simp
      then show ?thesis
        using spec LookupData q(1) adv by (cases "q = k") (auto simp: sg kk Let_def buffer_unit_def [symmetric])
    next
      case (LookupMissing e)
      then have sg: "hi = e * ?u" "kind = SegMissing" using seg by (simp_all add: buffer_lookup_def kk)
      then show ?thesis using spec LookupMissing q lt by simp
    next
      case (LookupEvicted e)
      then have sg: "hi = e * ?u" "kind = SegEvicted" using seg by (simp_all add: buffer_lookup_def kk)
      then show ?thesis using spec LookupEvicted q lt by simp
    next
      case (LookupUnknown nx)
      then have sg: "hi = (case nx of Some n \<Rightarrow> n * ?u | None \<Rightarrow> stop)" "kind = SegUnknown"
        using seg by (auto simp: buffer_lookup_def kk split: option.splits)
      then show ?thesis using spec LookupUnknown q lt by (cases nx) simp_all
    qed
  qed
qed

lemma segments_from_tile:
  assumes "buffer_inv s b" "buffer_unit b dvd pos \<or> pos = stop" "pos \<le> stop"
  shows "tiles pos stop (segments_from b pos stop) \<and> (\<forall>sg \<in> set (segments_from b pos stop). segment_true b sg)"
  using assms
proof (induction b pos stop rule: segments_from.induct)
  case (1 b pos stop)
  have u: "0 < buffer_unit b" by (rule buffer_unit_pos [OF "1.prems"(1)])
  show ?case
  proof (cases "pos < stop")
    case True
    obtain hi kind where seg: "segment_of stop (buffer_lookup pos b) = (hi, kind)" by fastforce
    have on: "buffer_unit b dvd pos" using "1.prems"(2) True by simp
    have "pos < hi" by (rule segment_of_progress [OF u True seg])
    moreover note segment_of_true [OF "1.prems"(1) on True seg]
    moreover have "tiles (min hi stop) stop (segments_from b (min hi stop) stop)
        \<and> (\<forall>sg \<in> set (segments_from b (min hi stop) stop). segment_true b sg)"
      using "1.IH" [OF _ seg [symmetric] _ refl "1.prems"(1)] u True calculation(3) by simp
    moreover have "segments_from b pos stop = \<lparr>sg_span = \<lparr>sp_start = pos, sp_end = min hi stop\<rparr>,
        sg_kind = kind\<rparr> # segments_from b (min hi stop) stop"
      by (subst segments_from.simps) (simp add: True u seg Let_def)
    ultimately show ?thesis using True by simp
  qed (use "1.prems"(3) in \<open>simp add: segments_from.simps\<close>)
qed

subsection \<open>Reading the ring\<close>

lemma those_map_Some: "(\<And>x. x \<in> set xs \<Longrightarrow> f x = Some (g x)) \<Longrightarrow> those (map f xs) = Some (map g xs)"
  by (induction xs) auto

lemma span_records:
  "0 < buffer_unit b \<Longrightarrow> buffer_unit b dvd sp_start s \<Longrightarrow> buffer_unit b dvd sp_end s \<Longrightarrow>
     q \<in> set [sp_start s div buffer_unit b ..< sp_end s div buffer_unit b] \<longleftrightarrow> in_span s b q"
  by (auto simp: in_span_def elim!: dvdE)

lemma ring_all_held:
  assumes inv: "buffer_inv st b" and held: "span_held s b"
    and ring: "ring_list (eb_records b) = map f ring"
  obtains xs where "ring_all ring (slots s b) = Some xs" "map f xs = records_of s b"
proof -
  let ?c = "bi_capacity (eb_index b)"
  let ?qs = "[sp_start s div buffer_unit b ..< sp_end s div buffer_unit b]"
  have c: "0 < ?c" using inv by (simp add: buffer_inv_def index_inv_def)
  have r: "record_at b q \<noteq> None" if "q \<in> set ?qs" for q
    using that held span_records buffer_unit_pos [OF inv] by (auto simp: span_held_def simp del: set_upt)
  have len: "length ring = ?c" if "?qs \<noteq> []"
  proof -
    have "record_at b (hd ?qs) \<noteq> None" using r that by (simp del: upt_eq_Nil_conv set_upt)
    then have "ring \<noteq> []" using inv ring by (auto simp: record_at_def buffer_inv_def split: if_splits)
    then show ?thesis using inv ring by (auto simp: buffer_inv_def)
  qed
  have some: "ring_get ring (q mod ?c) = Some (ring ! (q mod ?c))" if "q \<in> set ?qs" for q
    using len that c by (force simp: ring_get_def)
  have val: "f (ring ! (q mod ?c)) = the (record_at b q)" if "q \<in> set ?qs" for q
    using r [OF that] len that c ring by (force simp: record_at_def split: if_splits)
  have "ring_all ring (slots s b) = Some (map (\<lambda>q. ring ! (q mod ?c)) ?qs)"
    unfolding ring_all_def slots_def map_map comp_def by (rule those_map_Some) (rule some)
  moreover have "map f (map (\<lambda>q. ring ! (q mod ?c)) ?qs) = records_of s b"
    unfolding records_of_def map_map comp_def using val by (rule map_cong [OF refl])
  ultimately show ?thesis using that by blast
qed


lemma in_span_count:
  "0 < buffer_unit b \<Longrightarrow> buffer_unit b = 1 \<Longrightarrow> in_span s b q \<longleftrightarrow> sp_start s \<le> q \<and> q < sp_end s"
  by (simp add: in_span_def)

lemma pcm_unit:
  assumes "buffer_inv st b" "eb_records b = PcmRing ring"
  shows "buffer_unit b = 1" "st = Mic \<or> st = Reference"
  using assms by (auto simp: buffer_inv_def buffer_unit_def)

lemma pcm_bytes_roundtrip: "pcm_samples (concat (map u16_le xs)) = xs"
  using pcm_wire.decode_encoded by (simp add: pcm_samples_def)

lemma nth_as_chunks: "0 < n \<Longrightarrow> k < length xs div n \<Longrightarrow> as_chunks n xs ! k = take n (drop (k * n) xs)"
proof (induction k arbitrary: xs)
  case 0
  then show ?case by (subst as_chunks.simps) (auto simp: div_greater_zero_iff)
next
  case (Suc k)
  then have le: "n \<le> length xs" by (metis div_less not_less not_less_zero)
  then have "k < length (drop n xs) div n" using Suc.prems by (simp add: le_div_geq)
  then have "as_chunks n (drop n xs) ! k = take n (drop (k * n) (drop n xs))"
    using Suc by blast
  then show ?case using Suc.prems le by (subst as_chunks.simps) (simp add: add.commute)
qed

lemma chunks_slice:
  assumes "i \<le> j" "j * 2 \<le> length bs"
  shows "as_chunks 2 (take (j * 2 - i * 2) (drop (i * 2) bs)) = map (\<lambda>k. as_chunks 2 bs ! k) [i..<j]"
proof (rule nth_equalityI)
  show "length (as_chunks 2 (take (j * 2 - i * 2) (drop (i * 2) bs))) = length (map (\<lambda>k. as_chunks 2 bs ! k) [i..<j])"
    using assms by (simp add: length_as_chunks min_absorb2)
  fix k assume "k < length (as_chunks 2 (take (j * 2 - i * 2) (drop (i * 2) bs)))"
  then have k: "k < j - i" using assms by (simp add: length_as_chunks min_absorb2)
  have "as_chunks 2 (take (j * 2 - i * 2) (drop (i * 2) bs)) ! k =
      take 2 (drop (k * 2) (take (j * 2 - i * 2) (drop (i * 2) bs)))"
    using k assms by (intro nth_as_chunks) (simp_all add: min_absorb2)
  also have "\<dots> = take 2 (drop ((i + k) * 2) bs)"
    using k by (simp add: drop_take min_def algebra_simps)
  also have "\<dots> = as_chunks 2 bs ! (i + k)"
    using k assms by (intro nth_as_chunks [symmetric]) (auto simp: less_eq_div_iff_mult_less_eq)
  finally show "as_chunks 2 (take (j * 2 - i * 2) (drop (i * 2) bs)) ! k = map (\<lambda>k. as_chunks 2 bs ! k) [i..<j] ! k"
    using k by simp
qed


lemma upt_records_cong:
  assumes "buffer_inv st b" "span_held s b" "\<And>q. in_span s b q \<Longrightarrow> record_at b q = Some (g q)"
  shows "records_of s b = map g [sp_start s div buffer_unit b ..< sp_end s div buffer_unit b]"
  unfolding records_of_def
  using assms span_records [OF buffer_unit_pos [OF assms(1)]]
  by (intro map_cong refl) (auto simp: span_held_def simp del: set_upt)

lemma packet_slice:
  assumes p: "packet_parse frame = Inr p" "stream_of_kind (h_kind (p_header p)) = Some st"
    and pcm: "st = Mic \<or> st = Reference" and has: "packet_has s p" and le: "sp_start s \<le> sp_end s"
  defines "first \<equiv> unat (h_first_sample (p_header p))"
  obtains bs where "bytes_slice ((sp_start s - first) * 2) ((sp_end s - first) * 2) (p_payload p) = Some bs"
    "map PcmRec (pcm_samples bs) = map (\<lambda>q. content_list (packet_content p) ! (q - first)) [sp_start s ..< sp_end s]"
proof -
  let ?i = "sp_start s - first" and ?j = "sp_end s - first" and ?bs = "p_payload p"
  have h: "first \<le> sp_start s" "sp_end s \<le> p_end_sample p"
      "\<not> contains_flags (h_flags (p_header p)) DIGITAL_SILENCE"
    using has by (simp_all add: packet_has_def first_def)
  have kind: "h_kind (p_header p) = Kind_Mic \<or> h_kind (p_header p) = Kind_Reference"
    using p(2) pcm by (cases "h_kind (p_header p)") auto
  then have content: "packet_content p = Pcm (map u16_of_le (as_chunks 2 ?bs))"
    using h(3) by (auto simp: packet_content_def Let_def)
  have e: "p_end_sample p = first + unat (h_frame_count (p_header p))"
    using parsed_sound [OF p(1)] kind by (auto simp: first_def)
  have len: "length ?bs = unat (h_frame_count (p_header p)) * 2"
    using parsed_payload_length [OF p(1)] kind h(3) by (auto simp: header_payload_bytes_def)
  have ij: "?i \<le> ?j" "?j * 2 \<le> length ?bs" using h(1,2) le e len by auto
  have "pcm_samples (take (?j * 2 - ?i * 2) (drop (?i * 2) ?bs))
      = map (\<lambda>k. u16_of_le (as_chunks 2 ?bs ! k)) [?i..<?j]"
    using chunks_slice [OF ij] by (simp add: pcm_samples_def)
  also have "map PcmRec \<dots> = map (\<lambda>k. content_list (packet_content p) ! k) [?i..<?j]"
    using ij by (auto simp: content length_as_chunks less_eq_div_iff_mult_less_eq)
  also have "\<dots> = map (\<lambda>q. content_list (packet_content p) ! (q - first)) [sp_start s ..< sp_end s]"
    using h(1) le by (intro nth_equalityI) auto
  finally show ?thesis
    using that [of "take (?j * 2 - ?i * 2) (drop (?i * 2) ?bs)"] ij by (simp add: bytes_slice_def)
qed

lemma chunk_data_records:
  assumes inv: "buffer_inv st b" and held: "span_held s b" and le: "sp_start s \<le> sp_end s"
    and silent: "contains_flags (bm_flags meta) DIGITAL_SILENCE \<Longrightarrow> (\<And>q. in_span s b q \<Longrightarrow> silent_at b q)"
    and packet: "\<And>p. packet = Some p \<Longrightarrow> packet_has s p \<Longrightarrow> packet_agrees p s b
        \<and> stream_of_kind (h_kind (p_header p)) = Some st \<and> (\<exists>frame. packet_parse frame = Inr p)"
  shows "\<exists>d. chunk_data_of s meta packet b = Some d \<and> data_list d = records_of s b"
proof (cases "eb_records b")
  case (CellRing ring)
  obtain xs where "ring_all ring (slots s b) = Some xs" "map CellRec xs = records_of s b"
    using ring_all_held [OF inv held, of CellRec ring] CellRing by auto
  then show ?thesis by (simp add: chunk_data_of_def CellRing copy_cells_def)
next
  case (AfeRing ring)
  obtain xs where "ring_all ring (slots s b) = Some xs" "map AfeRec xs = records_of s b"
    using ring_all_held [OF inv held, of AfeRec ring] AfeRing by auto
  then show ?thesis by (simp add: chunk_data_of_def AfeRing copy_afe_def)
next
  case (PcmRing ring)
  note unit = pcm_unit [OF inv PcmRing]
  obtain xs where xs: "ring_all ring (slots s b) = Some xs" "map PcmRec xs = records_of s b"
    using ring_all_held [OF inv held, of PcmRec ring] PcmRing by auto
  show ?thesis
  proof (cases "contains_flags (bm_flags meta) DIGITAL_SILENCE")
    case True
    have "record_at b q = Some (PcmRec 0)" if "in_span s b q" for q
      using silent [OF True that] inv unit(2) by (auto simp: buffer_inv_def)
    then have "records_of s b = replicate (sp_end s - sp_start s) (PcmRec 0)"
      using upt_records_cong [OF inv held, of "\<lambda>_. PcmRec 0"] unit(1) by (simp add: map_replicate_const)
    then show ?thesis using True by (simp add: chunk_data_of_def PcmRing span_len_def)
  next
    case loud: False
    show ?thesis
    proof (cases "\<exists>p. packet = Some p \<and> packet_has s p")
      case True
      then obtain p where p: "packet = Some p" "packet_has s p" by blast
      then obtain frame where f: "packet_parse frame = Inr p" "stream_of_kind (h_kind (p_header p)) = Some st"
          "packet_agrees p s b" using packet by blast
      obtain bs where bs: "bytes_slice ((sp_start s - unat (h_first_sample (p_header p))) * 2)
          ((sp_end s - unat (h_first_sample (p_header p))) * 2) (p_payload p) = Some bs"
          "map PcmRec (pcm_samples bs) = map (\<lambda>q. content_list (packet_content p) ! (q - unat (h_first_sample (p_header p))))
             [sp_start s ..< sp_end s]"
        using packet_slice [OF f(1,2) unit(2) p(2) le] by blast
      have "records_of s b = map PcmRec (pcm_samples bs)"
        using upt_records_cong [OF inv held, of "\<lambda>q. content_list (packet_content p) ! (q - unat (h_first_sample (p_header p)))"]
          f(3) unit(1) bs(2) by (simp add: packet_agrees_def)
      then show ?thesis using loud p bs(1) by (simp add: chunk_data_of_def PcmRing Let_def)
    next
      case False
      then have "chunk_data_of s meta packet b = Some (ChunkPcm (concat (map u16_le xs)))"
        using loud xs(1) by (auto simp: chunk_data_of_def PcmRing split: option.splits)
      then show ?thesis using xs(2) by (simp add: pcm_bytes_roundtrip)
    qed
  qed
qed


lemma reachable_inv: "buffer_reachable s b \<Longrightarrow> buffer_inv s b"
proof (induction rule: buffer_reachable.induct)
  case (stored b frame p)
  then show ?case using store_inv [of s b frame p] by (cases "store p b") simp
qed (simp_all add: buffer_new_inv mark_missing_inv)

lemma segments_grid:
  assumes "buffer_inv s b" "buffer_unit b dvd pos" "buffer_unit b dvd stop"
  shows "\<forall>sg \<in> set (segments_from b pos stop). buffer_unit b dvd sp_start (sg_span sg)
           \<and> buffer_unit b dvd sp_end (sg_span sg) \<and> sp_start (sg_span sg) \<le> sp_end (sg_span sg)"
  using assms
proof (induction b pos stop rule: segments_from.induct)
  case (1 b pos stop)
  have u: "0 < buffer_unit b" by (rule buffer_unit_pos [OF "1.prems"(1)])
  show ?case
  proof (cases "pos < stop")
    case True
    obtain hi kind where seg: "segment_of stop (buffer_lookup pos b) = (hi, kind)" by fastforce
    have "pos < hi" by (rule segment_of_progress [OF u True seg])
    moreover have on: "buffer_unit b dvd min hi stop"
      using segment_of_true(2) [OF "1.prems"(1,2) True seg] "1.prems"(3) by auto
    moreover have "\<forall>sg \<in> set (segments_from b (min hi stop) stop). buffer_unit b dvd sp_start (sg_span sg)
           \<and> buffer_unit b dvd sp_end (sg_span sg) \<and> sp_start (sg_span sg) \<le> sp_end (sg_span sg)"
      using "1.IH" [OF _ seg [symmetric] _ refl "1.prems"(1) on "1.prems"(3)] u True by simp
    moreover have "segments_from b pos stop = \<lparr>sg_span = \<lparr>sp_start = pos, sp_end = min hi stop\<rparr>,
        sg_kind = kind\<rparr> # segments_from b (min hi stop) stop"
      by (subst segments_from.simps) (simp add: True u seg Let_def)
    ultimately show ?thesis using True "1.prems"(2) by simp
  qed (simp add: segments_from.simps)
qed

lemma data_segment_held:
  assumes "buffer_inv s b" "segment_true b sg" "sg_kind sg = SegData meta d" "in_span (sg_span sg) b q"
  shows "record_at b q \<noteq> None"
    and "contains_flags (bm_flags meta) DIGITAL_SILENCE \<Longrightarrow> silent_at b q"
  using assms by (auto simp: segment_true_def record_at_def silent_at_def Let_def)

lemma store_new_view:
  assumes "packet_parse frame = Inr p" "p_header p = witness_header" "packet_content p = Cells witness_cells"
  defines "b \<equiv> fst (store p (buffer_new CellStream 51200 8))"
  shows "buffer_reachable CellStream b" "bi_floor (eb_index b) = 0" "buffer_unit b = 512"
proof -
  show "buffer_reachable CellStream b"
    unfolding b_def by (rule buffer_reachable.stored [OF buffer_reachable.new assms(1)])
      (simp add: assms(2) witness_header_def)
  show "bi_floor (eb_index b) = 0" "buffer_unit b = 512"
    using assms(2) unfolding b_def
    by (simp_all add: witness_header_def store_def buffer_new_def index_run_simps CELL_SAMPLES_def
        buffer_unit_def)
qed

section \<open>Properties\<close>

text \<open>(C13) The ring buffer refines a partial map from record positions to records in which the
  first copy wins. After a packet of the buffer's stream is stored, a position at or above the
  floor that was held keeps its record, a position the packet covers and that was not held
  takes the packet's record, and no other position is held; the count returned is the stream
  samples of the newly held records.\<close>

theorem store_first_copy_wins:
  assumes "buffer_reachable s b" "packet_parse frame = Inr p"
    and "stream_of_kind (h_kind (p_header p)) = Some s" "store p b = (b', n)"
    and "first = unat (h_first_sample (p_header p)) div buffer_unit b"
    and "stop = first + unat (h_frame_count (p_header p))"
  shows "record_at b' q =
     (if q < bi_floor (eb_index b') then None
      else case record_at b q of
        Some r \<Rightarrow> Some r
      | None \<Rightarrow> if first \<le> q \<and> q < stop
                 then Some (content_list (packet_content p) ! (q - first)) else None)
   \<and> n = buffer_unit b * card {q. first \<le> q \<and> q < stop \<and> record_at b q = None
           \<and> bi_end (eb_index b') \<le> q + bi_capacity (eb_index b) \<and> bi_floor (eb_index b) \<le> q}"
  using store_record_at [OF reachable_inv [OF assms(1)] assms(2-6)]
    store_count [OF reachable_inv [OF assms(1)] assms(4-6)] by simp

theorem store_first_copy_wins_witness:
  "\<exists>frame p. packet_parse frame = Inr p
     \<and> record_at (fst (store p (buffer_new CellStream 51200 8))) 3 = Some (CellRec (witness_cells ! 1))
     \<and> record_at (fst (store p (buffer_new CellStream 51200 8))) 4 = None"
proof -
  obtain frame p where p: "packet_parse frame = Inr p" "p_header p = witness_header"
      "packet_content p = Cells witness_cells" using witness_packet by blast
  let ?b = "buffer_new CellStream 51200 8"
  obtain b' n where st: "store p ?b = (b', n)" by fastforce
  have floor: "bi_floor (eb_index b') = 0" using store_new_view(2) [OF p] st by simp
  have unit: "buffer_unit ?b = 512" by (simp add: buffer_unit_def buffer_new_def index_new_def CELL_SAMPLES_def)
  have empty: "record_at ?b q = None" for q
    by (simp add: record_at_def buffer_new_def index_new_def slot_at_def)
  have k: "stream_of_kind (h_kind (p_header p)) = Some CellStream" by (simp add: p(2) witness_header_def)
  note main = store_first_copy_wins [OF buffer_reachable.new p(1) k st refl refl]
  have "record_at b' 3 = Some (CellRec (witness_cells ! 1))"
    using main [of 3] by (simp add: floor unit empty p(2,3) witness_header_def witness_cells_def)
  moreover have "record_at b' 4 = None"
    using main [of 4] by (simp add: floor unit empty p(2,3) witness_header_def)
  ultimately show ?thesis using p(1) st by (intro exI [of _ frame] exI [of _ p]) simp
qed

text \<open>(C14) A read of any stretch that starts on the record grid terminates with segments that follow
  each other from its start to its end without overlap or hole, and each segment tells the truth
  about every record in it: held with the segment's metadata carried forward, reported missing,
  older than the buffer keeps, or not known.\<close>

theorem segments_tile_truthfully:
  assumes "buffer_reachable s b" "buffer_unit b dvd sp_start sp" "sp_start sp \<le> sp_end sp"
  shows "tiles (sp_start sp) (sp_end sp) (segments sp b) \<and> list_all (segment_true b) (segments sp b)"
  using segments_from_tile [OF reachable_inv [OF assms(1)], of "sp_start sp" "sp_end sp"] assms(2,3)
  by (simp add: segments_def list_all_iff)

theorem segments_tile_truthfully_witness:
  "\<exists>b. buffer_reachable CellStream b \<and> record_at b 2 \<noteq> None
     \<and> tiles 0 4096 (segments \<lparr>sp_start = 0, sp_end = 4096\<rparr> b)"
proof -
  obtain frame p where p: "packet_parse frame = Inr p" "p_header p = witness_header"
      "packet_content p = Cells witness_cells" using witness_packet by blast
  let ?b = "fst (store p (buffer_new CellStream 51200 8))"
  note view = store_new_view [OF p]
  have "record_at ?b 2 \<noteq> None"
    using p(2) by (simp add: record_at_def store_def buffer_new_def index_run_simps witness_header_def
        slot_at_def buffer_unit_def CELL_SAMPLES_def covers_def)
  then show ?thesis
    using segments_tile_truthfully [OF view(1), of "\<lparr>sp_start = 0, sp_end = 4096\<rparr>"] view(1) by auto
qed



end
