(* ===== verification/Uplink_Types.thy ===== *)
theory Uplink_Types
  imports Epoch_Buffer Stream_Registry Capabilities
begin

text \<open>
  The uplink's bounds and session terms (\<open>crates/uplink/src/config.rs\<close>), the subscription
  commands (\<open>wire.rs\<close>) and what consumers receive (\<open>chunk.rs\<close>). Subscription and owner IDs are
  strings; durations and instants are nanoseconds. How the commands are written as JSON is not
  part of the model.
\<close>

section \<open>Configuration\<close>

record retention =
  rt_mic :: nat
  rt_reference :: nat
  rt_cells :: nat
  rt_afe :: nat

definition retention_default :: retention where
  "retention_default =
     \<lparr>rt_mic = 40 * 16000, rt_reference = 40 * 16000, rt_cells = 60 * 16000, rt_afe = 60 * 16000\<rparr>"

fun retention_of :: "retention \<Rightarrow> stream_id \<Rightarrow> nat" where
  "retention_of r Mic = rt_mic r"
| "retention_of r Reference = rt_reference r"
| "retention_of r CellStream = rt_cells r"
| "retention_of r AfeStream = rt_afe r"

record uplink_config =
  uc_retention :: retention
  uc_max_blocks :: nat
  uc_capture_epochs_kept :: nat
  uc_reference_epochs_kept :: nat
  uc_hole_wait :: duration_ns
  uc_max_backlog_bytes :: nat
  uc_max_backlog_deliveries :: nat

definition secs :: "nat \<Rightarrow> duration_ns" where
  "secs n = n * 1000000000"

definition uplink_config_default :: uplink_config where
  "uplink_config_default =
     \<lparr>uc_retention = retention_default, uc_max_blocks = 4096, uc_capture_epochs_kept = 2,
      uc_reference_epochs_kept = 2, uc_hole_wait = secs 2, uc_max_backlog_bytes = 2 * 2 ^ 20,
      uc_max_backlog_deliveries = 8192\<rparr>"

record session_terms =
  st_afe_metadata :: bool
  st_near_miss :: bool

definition session_terms_new :: "capabilities \<Rightarrow> bool \<Rightarrow> session_terms" where
  "session_terms_new caps afe_metadata_sent =
     \<lparr>st_afe_metadata = (afe_metadata_sent \<and> capabilities_contains CapAfeMetadata caps),
      st_near_miss = capabilities_contains CapNearMiss caps\<rparr>"

section \<open>Subscription commands\<close>

definition SUBSCRIPTION_TTL :: duration_ns where "SUBSCRIPTION_TTL = secs 3"
definition RENEW_INTERVAL :: duration_ns where "RENEW_INTERVAL = secs 1"

datatype subscription_reason =
  SubCandidate | SubTurn | SubReply | SubDiagnostic | SubNearMiss

datatype open_reason = OpenTurn | OpenReply | OpenDiagnostic | OpenNearMiss

fun reason_of_open :: "open_reason \<Rightarrow> subscription_reason" where
  "reason_of_open OpenTurn = SubTurn"
| "reason_of_open OpenReply = SubReply"
| "reason_of_open OpenDiagnostic = SubDiagnostic"
| "reason_of_open OpenNearMiss = SubNearMiss"

datatype close_reason = CloseRejected | CloseArbitrationLost | CloseCommitted | CloseClosed

text \<open>The exact wire spellings (\<open>as_str\<close> and \<open>from_wire\<close> of the \<open>vocabulary!\<close> macro).\<close>

fun subscription_reason_str :: "subscription_reason \<Rightarrow> string" where
  "subscription_reason_str SubCandidate = ''candidate''"
| "subscription_reason_str SubTurn = ''turn''"
| "subscription_reason_str SubReply = ''reply''"
| "subscription_reason_str SubDiagnostic = ''diagnostic''"
| "subscription_reason_str SubNearMiss = ''near_miss''"

definition subscription_reason_from_wire :: "string \<Rightarrow> subscription_reason option" where
  "subscription_reason_from_wire text =
     (if text = ''candidate'' then Some SubCandidate
      else if text = ''turn'' then Some SubTurn
      else if text = ''reply'' then Some SubReply
      else if text = ''diagnostic'' then Some SubDiagnostic
      else if text = ''near_miss'' then Some SubNearMiss
      else None)"

fun open_reason_str :: "open_reason \<Rightarrow> string" where
  "open_reason_str OpenTurn = ''turn''"
| "open_reason_str OpenReply = ''reply''"
| "open_reason_str OpenDiagnostic = ''diagnostic''"
| "open_reason_str OpenNearMiss = ''near_miss''"

fun close_reason_str :: "close_reason \<Rightarrow> string" where
  "close_reason_str CloseRejected = ''rejected''"
| "close_reason_str CloseArbitrationLost = ''arbitration_lost''"
| "close_reason_str CloseCommitted = ''committed''"
| "close_reason_str CloseClosed = ''closed''"

type_synonym subscription_id = string
type_synonym owner = string
type_synonym generation = nat

definition subscription_id_from_device :: "string \<Rightarrow> subscription_id option" where
  "subscription_id_from_device text = (if text \<noteq> [] then Some text else None)"

definition owner_new :: "string \<Rightarrow> owner option" where
  "owner_new text = (if text \<noteq> [] then Some text else None)"

definition owner_of_subscription :: "subscription_id \<Rightarrow> owner" where
  "owner_of_subscription sub_id = sub_id"

definition GENERATION_FIRST :: generation where "GENERATION_FIRST = 1"

definition generation_next :: "generation \<Rightarrow> generation" where
  "generation_next g = min (g + 1) u32_max"

datatype stream_start = StartAt sample | StartLive

record uplink_open =
  uo_subscription :: subscription_id
  uo_owner :: owner
  uo_reason :: open_reason
  uo_streams :: "(stream_id \<times> stream_start) list"
  uo_ttl :: duration_ns

record uplink_renew =
  ur_subscription :: subscription_id
  ur_ttl :: duration_ns
  ur_conversion :: "owner option"

record uplink_close =
  ul_subscription :: subscription_id
  ul_reason :: close_reason

datatype uplink_command = CmdOpen uplink_open | CmdRenew uplink_renew | CmdClose uplink_close

fun command_subscription :: "uplink_command \<Rightarrow> subscription_id" where
  "command_subscription (CmdOpen b) = uo_subscription b"
| "command_subscription (CmdRenew b) = ur_subscription b"
| "command_subscription (CmdClose b) = ul_subscription b"

record outgoing =
  og_generation :: generation
  og_command :: uplink_command

section \<open>Deliveries\<close>

datatype missing_cause =
  CauseDevice | CauseClipped | CauseNotSent | CauseOverwritten | CauseTimedOut | CauseEvicted

datatype chunk_body = BodyData block_meta bool chunk_data | BodyMissing missing_cause

record chunk =
  ck_subscription :: subscription_id
  ck_generation :: generation
  ck_stream :: stream_id
  ck_epoch :: nat
  ck_span :: span
  ck_body :: chunk_body

definition chunk_payload_bytes :: "chunk \<Rightarrow> nat" where
  "chunk_payload_bytes c =
     (case ck_body c of BodyData _ _ data \<Rightarrow> data_payload_bytes data | BodyMissing _ \<Rightarrow> 0)"

datatype end_cause =
    EndClosed close_reason
  | EndDevice uplink_ended
  | EndCaptureEpoch
  | EndMuted
  | EndSessionLost
  | EndRejected "string option"
  | EndOverflow

record ended =
  en_subscription :: subscription_id
  en_owner :: owner
  en_reason :: subscription_reason
  en_generation :: generation
  en_cause :: end_cause

datatype delivery = DeliverChunk chunk | DeliverEnded ended

fun delivery_subscription :: "delivery \<Rightarrow> subscription_id" where
  "delivery_subscription (DeliverChunk c) = ck_subscription c"
| "delivery_subscription (DeliverEnded e) = en_subscription e"

fun delivery_payload_bytes :: "delivery \<Rightarrow> nat" where
  "delivery_payload_bytes (DeliverChunk c) = chunk_payload_bytes c"
| "delivery_payload_bytes (DeliverEnded e) = 0"

record backlog =
  bl_deliveries :: nat
  bl_payload_bytes :: nat

record accounting =
  ac_chunks :: nat
  ac_payload_bytes :: nat

definition backlog_default :: backlog where
  "backlog_default = \<lparr>bl_deliveries = 0, bl_payload_bytes = 0\<rparr>"

definition accounting_default :: accounting where
  "accounting_default = \<lparr>ac_chunks = 0, ac_payload_bytes = 0\<rparr>"

section \<open>Lemmas\<close>

lemma subscription_reason_wire:
  "subscription_reason_from_wire (subscription_reason_str x) = Some x"
  by (cases x) (simp_all add: subscription_reason_from_wire_def)

lemma open_reason_wire:
  "subscription_reason_from_wire (open_reason_str x) = Some (reason_of_open x)"
  by (cases x) (simp_all add: subscription_reason_from_wire_def)

end
