(* ===== verification/Timeline.thy ===== *)
theory Timeline
  imports Uplink_Types
begin

text \<open>
  The session's audio timeline (\<open>crates/uplink/src/timeline.rs\<close>): every stream's retained epochs
  and, for each, how the device came to send its packets. \<open>Track\<close> places a packet as live audio
  or inside a backfill run and hands a new run to the oldest subscription waiting for one. The
  array of four stores is a function from the stream; references into it are positions read and
  written back.
\<close>

section \<open>Tracks\<close>

type_synonym sub_key = nat

record claim =
  cl_key :: sub_key
  cl_fresh :: bool
  cl_floor :: "nat option"

datatype path = Advance | RunPath "sub_key option"

datatype attribution = RunAt nat | NoRun

record run =
  rn_next :: nat
  rn_owner :: "sub_key option"

record classified =
  cf_path :: path
  cf_missing :: "span option"
  cf_attributed :: "(sub_key \<times> attribution) list"

record track =
  tk_live_end :: "nat option"
  tk_runs :: "run list"
  tk_claims :: "claim list"

definition track_default :: track where
  "track_default = \<lparr>tk_live_end = None, tk_runs = [], tk_claims = []\<rparr>"

definition track_claim :: "claim \<Rightarrow> track \<Rightarrow> track" where
  "track_claim c t = t\<lparr>tk_claims := tk_claims t @ [c]\<rparr>"

definition track_drop_claims :: "sub_key \<Rightarrow> track \<Rightarrow> track" where
  "track_drop_claims key t = t\<lparr>tk_claims := filter (\<lambda>c. cl_key c \<noteq> key) (tk_claims t)\<rparr>"

text \<open>The loop of \<open>hand_over\<close>: the claims left, what was attributed, and the run's owner.\<close>

fun hand_over ::
    "nat \<Rightarrow> bool \<Rightarrow> claim list \<Rightarrow> claim list \<times> (sub_key \<times> attribution) list \<times> sub_key option" where
  "hand_over first fresh_only [] = ([], [], None)"
| "hand_over first fresh_only (front # claims) =
     (if fresh_only \<and> \<not> cl_fresh front then (front # claims, [], None)
      else if (case cl_floor front of Some floor \<Rightarrow> first < floor | None \<Rightarrow> False) then
        (if fresh_only then (front # claims, [], None)
         else let (left, out, owner) = hand_over first fresh_only claims
              in (left, (cl_key front, NoRun) # out, owner))
      else (claims, [(cl_key front, RunAt first)], Some (cl_key front)))"

definition continuing_run :: "nat \<Rightarrow> bool \<Rightarrow> run list \<Rightarrow> nat option" where
  "continuing_run first discontinuity runs =
     (case last_max (\<lambda>r. rn_next r \<le> first) rn_next runs of
        Some i \<Rightarrow> if first = rn_next (runs ! i) \<or> discontinuity then Some i else None
      | None \<Rightarrow> None)"

definition classify :: "nat \<Rightarrow> nat \<Rightarrow> bool \<Rightarrow> track \<Rightarrow> track \<times> classified" where
  "classify first end discontinuity t =
     (if (case tk_live_end t of Some live \<Rightarrow> first < live | None \<Rightarrow> False) then
        (case continuing_run first discontinuity (tk_runs t) of
           Some i \<Rightarrow>
             (let run = tk_runs t ! i in
              (t\<lparr>tk_runs := (tk_runs t)[i := run\<lparr>rn_next := end\<rparr>]\<rparr>,
               \<lparr>cf_path = RunPath (rn_owner run),
                cf_missing = (if first > rn_next run
                  then Some \<lparr>sp_start = rn_next run, sp_end = first\<rparr> else None),
                cf_attributed = []\<rparr>))
         | None \<Rightarrow>
             (let (claims, attributed, owner) = hand_over first False (tk_claims t) in
              (t\<lparr>tk_claims := claims, tk_runs := tk_runs t @ [\<lparr>rn_next = end, rn_owner = owner\<rparr>]\<rparr>,
               \<lparr>cf_path = RunPath owner, cf_missing = None, cf_attributed = attributed\<rparr>)))
      else
        (let missing = (case tk_live_end t of
               Some live \<Rightarrow> if discontinuity \<and> first > live
                            then Some \<lparr>sp_start = live, sp_end = first\<rparr> else None
             | None \<Rightarrow> None);
             (claims, attributed, owner) = hand_over first True (tk_claims t)
         in (t\<lparr>tk_live_end := Some end, tk_runs := [], tk_claims := claims\<rparr>,
             \<lparr>cf_path = Advance, cf_missing = missing, cf_attributed = attributed\<rparr>)))"

section \<open>The timeline\<close>

record epoch_stream =
  ep_epoch :: nat
  ep_buffer :: epoch_buffer
  ep_track :: track

datatype read_error = ReadUnknownEpoch | ReadWrongStream | ReadMisaligned | ReadNotHeld segment

record timeline =
  tl_config :: uplink_config
  tl_stores :: "stream_id \<Rightarrow> epoch_stream list"
  tl_capture :: "nat option"
  tl_reference :: "nat option"
  tl_erased :: "nat set"

definition timeline_new :: "uplink_config \<Rightarrow> timeline" where
  "timeline_new config =
     \<lparr>tl_config = config, tl_stores = (\<lambda>_. []), tl_capture = None, tl_reference = None,
      tl_erased = {}\<rparr>"

definition epochs_of :: "stream_id \<Rightarrow> timeline \<Rightarrow> nat list" where
  "epochs_of stream t = map ep_epoch (tl_stores t stream)"

definition timeline_get :: "stream_id \<Rightarrow> nat \<Rightarrow> timeline \<Rightarrow> epoch_stream option" where
  "timeline_get stream epoch t = find (\<lambda>e. ep_epoch e = epoch) (tl_stores t stream)"

definition timeline_end :: "stream_id \<Rightarrow> nat \<Rightarrow> timeline \<Rightarrow> nat option" where
  "timeline_end stream epoch t = map_option (\<lambda>e. buffer_end (ep_buffer e)) (timeline_get stream epoch t)"

definition check_grid :: "stream_id \<Rightarrow> span \<Rightarrow> (read_error, unit) result" where
  "check_grid stream sp =
     (let unit = samples_per_frame (stream_kind stream) in
      if \<not> unit dvd sp_start sp \<or> \<not> unit dvd sp_end sp then Inl ReadMisaligned else Inr ())"

definition timeline_segments ::
    "stream_id \<Rightarrow> nat \<Rightarrow> span \<Rightarrow> timeline \<Rightarrow> (read_error, segment list) result" where
  "timeline_segments stream epoch sp t =
     rbind (ok_or ReadUnknownEpoch (timeline_get stream epoch t)) (\<lambda>held.
     rbind (check_grid stream sp) (\<lambda>_. Inr (segments sp (ep_buffer held))))"

fun is_data :: "segment_kind \<Rightarrow> bool" where
  "is_data (SegData _ _) = True"
| "is_data _ = False"

definition timeline_held ::
    "stream_id \<Rightarrow> nat \<Rightarrow> span \<Rightarrow> timeline \<Rightarrow> (read_error, epoch_buffer) result" where
  "timeline_held stream epoch sp t =
     rbind (ok_or ReadUnknownEpoch (timeline_get stream epoch t)) (\<lambda>held.
     rbind (check_grid stream sp) (\<lambda>_.
       case find (\<lambda>s. \<not> is_data (sg_kind s)) (segments sp (ep_buffer held)) of
         Some gap \<Rightarrow> Inl (ReadNotHeld gap)
       | None \<Rightarrow> Inr (ep_buffer held)))"

text \<open>
  The reads append to their output; a panic of the copy is \<open>None\<close>.
\<close>

definition read_pcm ::
    "stream_id \<Rightarrow> nat \<Rightarrow> span \<Rightarrow> i16 list \<Rightarrow> timeline \<Rightarrow> (read_error, i16 list option) result" where
  "read_pcm stream epoch sp out t =
     (if stream \<noteq> Mic \<and> stream \<noteq> Reference then Inl ReadWrongStream
      else rbind (timeline_held stream epoch sp t) (\<lambda>b. Inr (copy_pcm sp b out)))"

definition read_cells ::
    "nat \<Rightarrow> span \<Rightarrow> cell list \<Rightarrow> timeline \<Rightarrow> (read_error, cell list option) result" where
  "read_cells epoch sp out t =
     rbind (timeline_held CellStream epoch sp t) (\<lambda>b. Inr (copy_cells sp b out))"

definition read_afe ::
    "nat \<Rightarrow> span \<Rightarrow> afe_record list \<Rightarrow> timeline \<Rightarrow> (read_error, afe_record list option) result" where
  "read_afe epoch sp out t =
     rbind (timeline_held AfeStream epoch sp t) (\<lambda>b. Inr (copy_afe sp b out))"

definition is_erased :: "stream_id \<Rightarrow> nat \<Rightarrow> timeline \<Rightarrow> bool" where
  "is_erased stream epoch t \<longleftrightarrow> stream \<noteq> Reference \<and> epoch \<in> tl_erased t"

text \<open>The first epoch with this number, changed in place.\<close>

fun update_epoch :: "nat \<Rightarrow> (epoch_stream \<Rightarrow> epoch_stream) \<Rightarrow> epoch_stream list \<Rightarrow> epoch_stream list" where
  "update_epoch epoch f [] = []"
| "update_epoch epoch f (e # es) =
     (if ep_epoch e = epoch then f e # es else e # update_epoch epoch f es)"

definition timeline_update ::
    "stream_id \<Rightarrow> nat \<Rightarrow> (epoch_stream \<Rightarrow> epoch_stream) \<Rightarrow> timeline \<Rightarrow> timeline" where
  "timeline_update stream epoch f t =
     t\<lparr>tl_stores := (tl_stores t)(stream := update_epoch epoch f (tl_stores t stream))\<rparr>"

definition epochs_kept :: "stream_id \<Rightarrow> uplink_config \<Rightarrow> nat" where
  "epochs_kept stream config =
     max (case stream of Reference \<Rightarrow> uc_reference_epochs_kept config
          | _ \<Rightarrow> uc_capture_epochs_kept config) 1"

definition epoch_stream_new :: "stream_id \<Rightarrow> nat \<Rightarrow> uplink_config \<Rightarrow> epoch_stream" where
  "epoch_stream_new stream epoch config =
     \<lparr>ep_epoch = epoch,
      ep_buffer = buffer_new stream (retention_of (uc_retention config) stream) (uc_max_blocks config),
      ep_track = track_default\<rparr>"

text \<open>
  \<open>ensure\<close> without the reference it returns; the \<open>while\<close> loop drops the oldest epochs until one
  more fits.
\<close>

definition timeline_ensure :: "stream_id \<Rightarrow> nat \<Rightarrow> timeline \<Rightarrow> timeline" where
  "timeline_ensure stream epoch t =
     (let kept = epochs_kept stream (tl_config t); store = tl_stores t stream in
      if \<exists>e \<in> set store. ep_epoch e = epoch then t
      else t\<lparr>tl_stores := (tl_stores t)(stream :=
               drop (length store + 1 - kept) store @ [epoch_stream_new stream epoch (tl_config t)])\<rparr>)"

definition set_capture :: "nat option \<Rightarrow> timeline \<Rightarrow> timeline" where
  "set_capture epoch t = t\<lparr>tl_capture := epoch\<rparr>"

definition set_reference :: "nat option \<Rightarrow> timeline \<Rightarrow> timeline" where
  "set_reference epoch t = t\<lparr>tl_reference := epoch\<rparr>"

definition drop_claims :: "sub_key \<Rightarrow> timeline \<Rightarrow> timeline" where
  "drop_claims key t =
     t\<lparr>tl_stores := (\<lambda>s. map (\<lambda>e. e\<lparr>ep_track := track_drop_claims key (ep_track e)\<rparr>) (tl_stores t s))\<rparr>"

definition timeline_erase :: "timeline \<Rightarrow> timeline" where
  "timeline_erase t =
     t\<lparr>tl_stores := (\<lambda>s. if s = Reference
           then map (\<lambda>e. epoch_stream_new s (ep_epoch e) (tl_config t)) (tl_stores t s) else []),
       tl_erased := tl_erased t
         \<union> ep_epoch ` (set (tl_stores t Mic) \<union> set (tl_stores t CellStream) \<union> set (tl_stores t AfeStream))
         \<union> set_option (tl_capture t),
       tl_capture := None\<rparr>"

definition timeline_clear :: "timeline \<Rightarrow> timeline" where
  "timeline_clear t = t\<lparr>tl_stores := (\<lambda>_. []), tl_capture := None, tl_reference := None\<rparr>"

text \<open>
  A well-formed timeline: no stream keeps an epoch twice or more epochs than configured, every
  buffer is one its stream can build, and no erased capture epoch is kept or current.
\<close>

definition timeline_inv :: "timeline \<Rightarrow> bool" where
  "timeline_inv t \<longleftrightarrow>
     (\<forall>s. distinct (epochs_of s t) \<and> length (tl_stores t s) \<le> epochs_kept s (tl_config t)
        \<and> (\<forall>e \<in> set (tl_stores t s). buffer_inv s (ep_buffer e)))
     \<and> (\<forall>s e. s \<noteq> Reference \<longrightarrow> e \<in> set (tl_stores t s) \<longrightarrow> ep_epoch e \<notin> tl_erased t)
     \<and> (\<forall>e. tl_capture t = Some e \<longrightarrow> e \<notin> tl_erased t)"

text \<open>Claims a hand-over takes off the queue, in order: those passed by and the one served.\<close>

definition passed_by :: "nat \<Rightarrow> claim \<Rightarrow> bool" where
  "passed_by first c \<longleftrightarrow> (case cl_floor c of Some floor \<Rightarrow> first < floor | None \<Rightarrow> False)"

section \<open>Lemmas\<close>

subsection \<open>Reads\<close>

lemma tiles_cover:
  "tiles lo hi sgs \<Longrightarrow> lo \<le> x \<Longrightarrow> x < hi \<Longrightarrow> \<exists>sg \<in> set sgs. sp_start (sg_span sg) \<le> x \<and> x < sp_end (sg_span sg)"
proof (induction sgs arbitrary: lo)
  case (Cons sg sgs)
  then show ?case by (cases "x < sp_end (sg_span sg)") auto
qed simp

lemma all_data_held:
  assumes inv: "buffer_inv s b" and grid: "buffer_unit b dvd sp_start sp" "buffer_unit b dvd sp_end sp"
    and data: "find (\<lambda>s. \<not> is_data (sg_kind s)) (segments sp b) = None"
  shows "span_held sp b"
proof (cases "sp_start sp \<le> sp_end sp")
  case True
  have seg: "tiles (sp_start sp) (sp_end sp) (segments sp b)" "\<forall>sg \<in> set (segments sp b). segment_true b sg"
    using segments_from_tile [OF inv, of "sp_start sp" "sp_end sp"] grid True by (simp_all add: segments_def)
  have "record_at b q \<noteq> None" if q: "in_span sp b q" for q
  proof -
    obtain sg where sg: "sg \<in> set (segments sp b)" "sp_start (sg_span sg) \<le> q * buffer_unit b"
        "q * buffer_unit b < sp_end (sg_span sg)"
      using tiles_cover [OF seg(1), of "q * buffer_unit b"] q by (auto simp: in_span_def)
    have "is_data (sg_kind sg)" using data sg(1) by (auto simp: find_None_iff)
    then obtain m d where "sg_kind sg = SegData m d" by (cases "sg_kind sg") auto
    then show ?thesis
      using data_segment_held(1) [OF inv, of sg m d q] seg(2) sg by (auto simp: in_span_def)
  qed
  then show ?thesis using grid by (simp add: span_held_def)
qed (use grid in \<open>auto simp: span_held_def in_span_def\<close>)

lemma check_grid_Inr:
  "check_grid s sp = Inr () \<longleftrightarrow>
     samples_per_frame (stream_kind s) dvd sp_start sp \<and> samples_per_frame (stream_kind s) dvd sp_end sp"
  by (auto simp: check_grid_def Let_def)

lemma find_mem: "find P xs = Some x \<Longrightarrow> x \<in> set xs \<and> P x"
  by (induction xs) (auto split: if_splits)

lemma timeline_get_mem:
  "timeline_get s e t = Some x \<Longrightarrow> x \<in> set (tl_stores t s) \<and> ep_epoch x = e"
  by (auto simp: timeline_get_def dest: find_mem)

lemma timeline_inv_buffer: "timeline_inv t \<Longrightarrow> e \<in> set (tl_stores t s) \<Longrightarrow> buffer_inv s (ep_buffer e)"
  by (simp add: timeline_inv_def)

lemma timeline_held_Inr:
  assumes inv: "timeline_inv t" and held: "timeline_held s epoch sp t = Inr b"
  shows "buffer_inv s b" "span_held sp b"
proof -
  obtain e where e: "timeline_get s epoch t = Some e" "check_grid s sp = Inr ()" "b = ep_buffer e"
      "find (\<lambda>s. \<not> is_data (sg_kind s)) (segments sp (ep_buffer e)) = None"
    using held by (auto simp: timeline_held_def rbind_Inr_iff ok_or_def split: option.splits)
  show b: "buffer_inv s b" using timeline_inv_buffer [OF inv] timeline_get_mem [OF e(1)] e(3) by auto
  have "buffer_unit b = samples_per_frame (stream_kind s)" using b by (simp add: buffer_inv_def buffer_unit_def)
  then show "span_held sp b"
    using all_data_held [OF b] e by (simp add: check_grid_Inr)
qed

lemma read_pcm_Inr:
  assumes "timeline_inv t" "read_pcm s epoch sp out t = Inr res"
  shows "\<exists>xs b. res = Some (out @ xs) \<and> timeline_held s epoch sp t = Inr b \<and> map PcmRec xs = records_of sp b"
proof -
  obtain b where b: "timeline_held s epoch sp t = Inr b" "res = copy_pcm sp b out" "s = Mic \<or> s = Reference"
    using assms(2) by (auto simp: read_pcm_def rbind_Inr_iff split: if_splits)
  note held = timeline_held_Inr [OF assms(1) b(1)]
  obtain ring where ring: "eb_records b = PcmRing ring"
    using held(1) b(3) by (cases "eb_records b") (auto simp: buffer_inv_def)
  obtain xs where "ring_all ring (slots sp b) = Some xs" "map PcmRec xs = records_of sp b"
    using ring_all_held [OF held, of PcmRec ring] ring by auto
  then show ?thesis using b ring by (auto simp: copy_pcm_def)
qed

lemma read_cells_Inr:
  assumes "timeline_inv t" "read_cells epoch sp out t = Inr res"
  shows "\<exists>xs b. res = Some (out @ xs) \<and> timeline_held CellStream epoch sp t = Inr b \<and> map CellRec xs = records_of sp b"
proof -
  obtain b where b: "timeline_held CellStream epoch sp t = Inr b" "res = copy_cells sp b out"
    using assms(2) by (auto simp: read_cells_def rbind_Inr_iff)
  note held = timeline_held_Inr [OF assms(1) b(1)]
  obtain ring where ring: "eb_records b = CellRing ring"
    using held(1) by (cases "eb_records b") (auto simp: buffer_inv_def)
  obtain xs where "ring_all ring (slots sp b) = Some xs" "map CellRec xs = records_of sp b"
    using ring_all_held [OF held, of CellRec ring] ring by auto
  then show ?thesis using b ring by (auto simp: copy_cells_def)
qed

lemma read_afe_Inr:
  assumes "timeline_inv t" "read_afe epoch sp out t = Inr res"
  shows "\<exists>xs b. res = Some (out @ xs) \<and> timeline_held AfeStream epoch sp t = Inr b \<and> map AfeRec xs = records_of sp b"
proof -
  obtain b where b: "timeline_held AfeStream epoch sp t = Inr b" "res = copy_afe sp b out"
    using assms(2) by (auto simp: read_afe_def rbind_Inr_iff)
  note held = timeline_held_Inr [OF assms(1) b(1)]
  obtain ring where ring: "eb_records b = AfeRing ring"
    using held(1) by (cases "eb_records b") (auto simp: buffer_inv_def)
  obtain xs where "ring_all ring (slots sp b) = Some xs" "map AfeRec xs = records_of sp b"
    using ring_all_held [OF held, of AfeRec ring] ring by auto
  then show ?thesis using b ring by (auto simp: copy_afe_def)
qed

subsection \<open>Epochs\<close>

lemma timeline_new_inv: "timeline_inv (timeline_new c)"
  by (simp add: timeline_inv_def timeline_new_def epochs_of_def)

lemma epoch_stream_new_simps [simp]:
  "ep_epoch (epoch_stream_new s e c) = e" "buffer_inv s (ep_buffer (epoch_stream_new s e c))"
  by (simp_all add: epoch_stream_new_def buffer_new_inv)

lemma epochs_kept_pos: "0 < epochs_kept s c"
  by (simp add: epochs_kept_def max_def split: stream_id.splits)

lemma timeline_ensure_inv [inv_intros]:
  assumes inv: "timeline_inv t" and "\<not> is_erased s epoch t"
  shows "timeline_inv (timeline_ensure s epoch t)"
proof (cases "\<exists>e \<in> set (tl_stores t s). ep_epoch e = epoch")
  case False
  let ?store = "tl_stores t s" and ?k = "epochs_kept s (tl_config t)"
  let ?new = "drop (length ?store + 1 - ?k) ?store @ [epoch_stream_new s epoch (tl_config t)]"
  have t': "timeline_ensure s epoch t = t\<lparr>tl_stores := (tl_stores t)(s := ?new)\<rparr>"
    using False by (auto simp: timeline_ensure_def Let_def)
  have "distinct (map ep_epoch ?store)" using inv by (simp add: timeline_inv_def epochs_of_def)
  then have d: "distinct (map ep_epoch ?new)"
    using False by (auto simp: drop_map [symmetric] dest!: in_set_dropD)
  have len: "length ?new \<le> ?k" using epochs_kept_pos [of s "tl_config t"] by simp
  have buf: "\<forall>e \<in> set ?new. buffer_inv s (ep_buffer e)"
    using timeline_inv_buffer [OF inv] by (auto dest: in_set_dropD)
  have er: "\<forall>e \<in> set ?new. s \<noteq> Reference \<longrightarrow> ep_epoch e \<notin> tl_erased t"
    using inv assms(2) by (auto simp: timeline_inv_def is_erased_def dest: in_set_dropD)
  show ?thesis using inv d len buf er unfolding t' timeline_inv_def epochs_of_def by simp
qed (use assms in \<open>simp add: timeline_ensure_def\<close>)

lemma update_epoch_map:
  "(\<And>e. ep_epoch e = epoch \<Longrightarrow> ep_epoch (f e) = epoch) \<Longrightarrow> map ep_epoch (update_epoch epoch f es) = map ep_epoch es"
  by (induction es) auto

lemma length_update_epoch [simp]: "length (update_epoch epoch f es) = length es"
  by (induction es) auto

lemma set_update_epoch: "e \<in> set (update_epoch epoch f es) \<Longrightarrow> e \<in> set es \<or> (\<exists>e' \<in> set es. ep_epoch e' = epoch \<and> e = f e')"
  by (induction es) (auto split: if_splits)

lemma timeline_update_inv [inv_intros]:
  assumes inv: "timeline_inv t" and f: "\<And>e. ep_epoch e = epoch \<Longrightarrow> ep_epoch (f e) = epoch"
    and b: "\<And>e. e \<in> set (tl_stores t s) \<Longrightarrow> ep_epoch e = epoch \<Longrightarrow> buffer_inv s (ep_buffer (f e))"
  shows "timeline_inv (timeline_update s epoch f t)"
  using inv f b unfolding timeline_inv_def timeline_update_def epochs_of_def
  by (auto simp: update_epoch_map dest!: set_update_epoch)

lemma drop_claims_inv [inv_intros]: "timeline_inv t \<Longrightarrow> timeline_inv (drop_claims key t)"
  unfolding timeline_inv_def drop_claims_def epochs_of_def by (auto simp: comp_def)

lemma timeline_erase_inv [inv_intros]: "timeline_inv t \<Longrightarrow> timeline_inv (timeline_erase t)"
  unfolding timeline_inv_def timeline_erase_def epochs_of_def by (auto simp: comp_def)

lemma timeline_clear_inv [inv_intros]: "timeline_inv t \<Longrightarrow> timeline_inv (timeline_clear t)"
  by (simp add: timeline_inv_def timeline_clear_def epochs_of_def)

lemma set_reference_inv [inv_intros]: "timeline_inv t \<Longrightarrow> timeline_inv (set_reference r t)"
  by (simp add: timeline_inv_def set_reference_def epochs_of_def)

lemma set_capture_inv [inv_intros]:
  "timeline_inv t \<Longrightarrow> (\<And>e. c = Some e \<Longrightarrow> e \<notin> tl_erased t) \<Longrightarrow> timeline_inv (set_capture c t)"
  by (auto simp: timeline_inv_def set_capture_def epochs_of_def)

subsection \<open>Tracks\<close>

lemma hand_over_spec:
  "hand_over first fresh_only claims = (left, out, owner) \<Longrightarrow>
     \<exists>skipped. list_all (passed_by first) skipped \<and> (fresh_only \<longrightarrow> skipped = [])
       \<and> (case owner of
            None \<Rightarrow> claims = skipped @ left \<and> out = map (\<lambda>c. (cl_key c, NoRun)) skipped
              \<and> (fresh_only \<or> left = [])
          | Some key \<Rightarrow> \<exists>c. claims = skipped @ c # left \<and> cl_key c = key \<and> \<not> passed_by first c
              \<and> (fresh_only \<longrightarrow> cl_fresh c)
              \<and> out = map (\<lambda>c. (cl_key c, NoRun)) skipped @ [(key, RunAt first)])"
proof (induction first fresh_only claims arbitrary: left out owner rule: hand_over.induct)
  case (2 first fresh_only front claims)
  show ?case
  proof (cases "passed_by first front \<and> \<not> fresh_only")
    case True
    obtain l o' ow where h: "hand_over first fresh_only claims = (l, o', ow)" by (cases "hand_over first fresh_only claims") auto
    have eqs: "left = l" "out = (cl_key front, NoRun) # o'" "owner = ow"
      using "2.prems" True h by (auto simp: passed_by_def)
    obtain sk where sk: "list_all (passed_by first) sk"
       "case ow of None \<Rightarrow> claims = sk @ l \<and> o' = map (\<lambda>c. (cl_key c, NoRun)) sk \<and> (fresh_only \<or> l = [])
          | Some key \<Rightarrow> \<exists>c. claims = sk @ c # l \<and> cl_key c = key \<and> \<not> passed_by first c
              \<and> (fresh_only \<longrightarrow> cl_fresh c)
              \<and> o' = map (\<lambda>c. (cl_key c, NoRun)) sk @ [(key, RunAt first)]"
      using "2.IH" [OF _ _ _ h] True by (auto simp: passed_by_def [of first front])
    show ?thesis
      using sk True eqs by (intro exI [of _ "front # sk"]) (auto split: option.splits)
  next
    case False
    then show ?thesis
      using "2.prems" by (intro exI [of _ "[]"]) (auto simp: passed_by_def split: if_splits option.splits)
  qed
qed auto


lemma continuing_run_Some:
  assumes "continuing_run first d runs = Some i"
  shows "i < length runs" "rn_next (runs ! i) \<le> first" "first = rn_next (runs ! i) \<or> d"
    "\<And>r. r \<in> set runs \<Longrightarrow> rn_next r \<le> first \<Longrightarrow> rn_next r \<le> rn_next (runs ! i)"
  using assms last_max_Some [of "\<lambda>r. rn_next r \<le> first" rn_next runs]
  by (auto simp: continuing_run_def split: option.splits if_splits)

lemma classify_cases:
  fixes t :: track
  assumes "classify first hi d t = (t', c)"
  obtains (live) claims attributed owner where
      "\<And>live. tk_live_end t = Some live \<Longrightarrow> live \<le> first" "cf_path c = Advance"
      "hand_over first True (tk_claims t) = (claims, attributed, owner)"
      "t' = t\<lparr>tk_live_end := Some hi, tk_runs := [], tk_claims := claims\<rparr>"
      "cf_attributed c = attributed"
      "cf_missing c = (case tk_live_end t of
         Some live \<Rightarrow> if d \<and> first > live then Some \<lparr>sp_start = live, sp_end = first\<rparr> else None
       | None \<Rightarrow> None)"
    | (continued) live i where "tk_live_end t = Some live" "first < live"
      "continuing_run first d (tk_runs t) = Some i"
      "t' = t\<lparr>tk_runs := (tk_runs t)[i := (tk_runs t ! i)\<lparr>rn_next := hi\<rparr>]\<rparr>"
      "cf_path c = RunPath (rn_owner (tk_runs t ! i))" "cf_attributed c = []"
      "cf_missing c = (if first > rn_next (tk_runs t ! i)
         then Some \<lparr>sp_start = rn_next (tk_runs t ! i), sp_end = first\<rparr> else None)"
    | (started) live claims attributed owner where "tk_live_end t = Some live" "first < live"
      "continuing_run first d (tk_runs t) = None"
      "hand_over first False (tk_claims t) = (claims, attributed, owner)"
      "t' = t\<lparr>tk_claims := claims, tk_runs := tk_runs t @ [\<lparr>rn_next = hi, rn_owner = owner\<rparr>]\<rparr>"
      "cf_path c = RunPath owner" "cf_attributed c = attributed" "cf_missing c = None"
proof (cases "case tk_live_end t of Some live \<Rightarrow> first < live | None \<Rightarrow> False")
  case True
  then obtain live where live': "tk_live_end t = Some live" "first < live" by (auto split: option.splits)
  show ?thesis
  proof (cases "continuing_run first d (tk_runs t)")
    case None
    then show ?thesis
      using assms True started [OF live' None] by (auto simp: classify_def Let_def split: prod.splits)
  next
    case (Some i)
    then show ?thesis
      using assms True continued [OF live' Some] by (auto simp: classify_def Let_def)
  qed
next
  case False
  obtain cl at ow where h: "hand_over first True (tk_claims t) = (cl, at, ow)"
    by (cases "hand_over first True (tk_claims t)") auto
  have "live \<le> first" if "tk_live_end t = Some live" for live using False that by simp
  moreover have "t' = t\<lparr>tk_live_end := Some hi, tk_runs := [], tk_claims := cl\<rparr>"
    "c = \<lparr>cf_path = Advance, cf_missing = (case tk_live_end t of
         Some live \<Rightarrow> if d \<and> first > live then Some \<lparr>sp_start = live, sp_end = first\<rparr> else None
       | None \<Rightarrow> None), cf_attributed = at\<rparr>"
    using assms False h by (auto simp: classify_def Let_def)
  ultimately show ?thesis using live [OF _ _ h] by simp
qed


lemma new_buffer_empty [simp]: "record_at (buffer_new s r m) q = None"
  by (simp add: record_at_def buffer_new_def index_new_def slot_at_def)

section \<open>Properties\<close>

text \<open>A read by range either fails or returns exactly what is held: on a well-formed timeline a
  successful read of PCM, cells or AFE records never indexes a ring out of range and appends to
  its output precisely the records the named epoch holds at the positions asked for, every one
  of which is held.\<close>

theorem reads_return_held_records:
  assumes "timeline_inv t"
  shows "(case read_pcm s epoch sp out t of Inl e \<Rightarrow> True
     | Inr res \<Rightarrow> \<exists>xs b. res = Some (out @ xs) \<and> timeline_held s epoch sp t = Inr b
         \<and> span_held sp b \<and> map PcmRec xs = records_of sp b)
   \<and> (case read_cells epoch sp cells t of Inl e \<Rightarrow> True
     | Inr res \<Rightarrow> \<exists>xs b. res = Some (cells @ xs) \<and> timeline_held CellStream epoch sp t = Inr b
         \<and> span_held sp b \<and> map CellRec xs = records_of sp b)
   \<and> (case read_afe epoch sp afe t of Inl e \<Rightarrow> True
     | Inr res \<Rightarrow> \<exists>xs b. res = Some (afe @ xs) \<and> timeline_held AfeStream epoch sp t = Inr b
         \<and> span_held sp b \<and> map AfeRec xs = records_of sp b)"
proof (intro conjI)
  show "case read_pcm s epoch sp out t of Inl e \<Rightarrow> True
     | Inr res \<Rightarrow> \<exists>xs b. res = Some (out @ xs) \<and> timeline_held s epoch sp t = Inr b
         \<and> span_held sp b \<and> map PcmRec xs = records_of sp b"
    using read_pcm_Inr [OF assms] timeline_held_Inr(2) [OF assms] by (simp split: sum.split) blast
  show "case read_cells epoch sp cells t of Inl e \<Rightarrow> True
     | Inr res \<Rightarrow> \<exists>xs b. res = Some (cells @ xs) \<and> timeline_held CellStream epoch sp t = Inr b
         \<and> span_held sp b \<and> map CellRec xs = records_of sp b"
    using read_cells_Inr [OF assms] timeline_held_Inr(2) [OF assms] by (simp split: sum.split) blast
  show "case read_afe epoch sp afe t of Inl e \<Rightarrow> True
     | Inr res \<Rightarrow> \<exists>xs b. res = Some (afe @ xs) \<and> timeline_held AfeStream epoch sp t = Inr b
         \<and> span_held sp b \<and> map AfeRec xs = records_of sp b"
    using read_afe_Inr [OF assms] timeline_held_Inr(2) [OF assms] by (simp split: sum.split) blast
qed

theorem reads_return_held_records_witness:
  "\<exists>t xs. timeline_inv t \<and> read_cells 9 \<lparr>sp_start = 1024, sp_end = 2048\<rparr> [] t = Inr (Some xs) \<and> length xs = 2"
proof -
  obtain frame p where p: "packet_parse frame = Inr p" "p_header p = witness_header"
      "packet_content p = Cells witness_cells" using witness_packet by blast
  let ?sp = "\<lparr>sp_start = 1024, sp_end = 2048\<rparr>"
  let ?b = "fst (store p (buffer_new CellStream 51200 8))"
  let ?e = "\<lparr>ep_epoch = 9, ep_buffer = ?b, ep_track = track_default\<rparr>"
  let ?t = "(timeline_new uplink_config_default)\<lparr>tl_stores := (\<lambda>s. if s = CellStream then [?e] else [])\<rparr>"
  note view = store_new_view [OF p]
  have inv: "timeline_inv ?t"
    using reachable_inv [OF view(1)]
    by (auto simp: timeline_inv_def timeline_new_def epochs_of_def epochs_kept_def uplink_config_default_def)
  have get: "timeline_get CellStream 9 ?t = Some ?e" by (simp add: timeline_get_def)
  obtain meta d where look: "buffer_lookup 1024 ?b = LookupData 2048 meta d"
    using p(2) by (simp add: buffer_lookup_def index_lookup_def store_def buffer_new_def index_run_simps
        witness_header_def buffer_unit_def CELL_SAMPLES_def)
  have seg: "segments ?sp ?b = [\<lparr>sg_span = ?sp, sg_kind = SegData meta d\<rparr>]"
    unfolding segments_def by (subst segments_from.simps) (simp add: view(3) look segments_from.simps [of _ 2048])
  have held: "timeline_held CellStream 9 ?sp ?t = Inr ?b"
    using get seg by (simp add: timeline_held_def ok_or_def rbind_def check_grid_def CELL_SAMPLES_def)
  then obtain res where res: "read_cells 9 ?sp [] ?t = Inr res" by (simp add: read_cells_def rbind_def)
  have "case read_cells 9 ?sp [] ?t of Inl e \<Rightarrow> True
     | Inr res \<Rightarrow> \<exists>xs b. res = Some ([] @ xs) \<and> timeline_held CellStream 9 ?sp ?t = Inr b
         \<and> span_held ?sp b \<and> map CellRec xs = records_of ?sp b"
    using reads_return_held_records [OF inv] by blast
  then obtain xs where "res = Some xs" "map CellRec xs = records_of ?sp ?b" using res held by auto
  moreover have "length (records_of ?sp ?b) = 2" by (simp add: records_of_def view(3))
  ultimately show ?thesis using inv res by (metis length_map)
qed

text \<open>Backfill runs go to the subscriptions waiting for one in the order they asked: a hand-over
  takes claims off the front of the queue only. Claims whose start lies past the run's start are
  told they got no run; the first other claim owns the run and nothing behind it is touched. Where
  only a fresh claim may take it, at most the front claim is served, and only if it is fresh.\<close>

theorem runs_go_to_oldest_claim:
  "case hand_over first fresh_only claims of (left, out, owner) \<Rightarrow>
     \<exists>skipped. list_all (passed_by first) skipped \<and> (fresh_only \<longrightarrow> skipped = [])
       \<and> (case owner of
            None \<Rightarrow> claims = skipped @ left \<and> out = map (\<lambda>c. (cl_key c, NoRun)) skipped
              \<and> (fresh_only \<or> left = [])
          | Some key \<Rightarrow> \<exists>c. claims = skipped @ c # left \<and> cl_key c = key \<and> \<not> passed_by first c
              \<and> (fresh_only \<longrightarrow> cl_fresh c)
              \<and> out = map (\<lambda>c. (cl_key c, NoRun)) skipped @ [(key, RunAt first)])"
  using hand_over_spec [of first fresh_only claims] by (auto split: prod.split)

theorem runs_go_to_oldest_claim_witness:
  "\<exists>skipped c. list_all (passed_by 3000) skipped
     \<and> [\<lparr>cl_key = 1, cl_fresh = False, cl_floor = Some 5000\<rparr>, \<lparr>cl_key = 2, cl_fresh = False, cl_floor = Some 2000\<rparr>,
        \<lparr>cl_key = 3, cl_fresh = False, cl_floor = None\<rparr>]
       = skipped @ c # [\<lparr>cl_key = 3, cl_fresh = False, cl_floor = None\<rparr>] \<and> cl_key c = 2"
  using runs_go_to_oldest_claim [of 3000 False "[\<lparr>cl_key = 1, cl_fresh = False, cl_floor = Some 5000\<rparr>,
      \<lparr>cl_key = 2, cl_fresh = False, cl_floor = Some 2000\<rparr>, \<lparr>cl_key = 3, cl_fresh = False, cl_floor = None\<rparr>]"]
  by auto

text \<open>Placing a packet never moves the live position back; a range it declares missing is not
  empty, is flagged by the packet's discontinuity, ends where the packet starts and begins where
  live audio or a run under way had got to; and the subscriptions it attributes a run or no run to
  are exactly the claims it takes off the front of the queue, in order.\<close>

theorem classify_contract:
  assumes "classify first hi d t = (t', c)" "first < hi"
  shows "(\<forall>live. tk_live_end t = Some live \<longrightarrow> (\<exists>live'. tk_live_end t' = Some live' \<and> live \<le> live'))
   \<and> (\<forall>sp. cf_missing c = Some sp \<longrightarrow> d \<and> sp_end sp = first \<and> sp_start sp < first
        \<and> (tk_live_end t = Some (sp_start sp) \<or> (\<exists>r \<in> set (tk_runs t). rn_next r = sp_start sp)))
   \<and> (\<exists>taken. tk_claims t = taken @ tk_claims t' \<and> map fst (cf_attributed c) = map cl_key taken)"
  using assms(1)
proof (cases rule: classify_cases)
  case (live claims attributed owner)
  obtain taken where taken: "tk_claims t = taken @ claims" "map fst attributed = map cl_key taken"
    using hand_over_spec [OF live(3)] by (auto simp: comp_def split: option.splits)
  show ?thesis using live taken assms(2) by (auto split: option.splits if_splits intro: order.trans less_imp_le)
next
  case (continued live i)
  note run = continuing_run_Some [OF continued(3)]
  show ?thesis using continued run by (auto intro: nth_mem)
next
  case (started live claims attributed owner)
  obtain taken where taken: "tk_claims t = taken @ claims" "map fst attributed = map cl_key taken"
    using hand_over_spec [OF started(4)] by (auto simp: comp_def split: option.splits)
  show ?thesis using started taken by auto
qed

theorem classify_contract_witness:
  "\<exists>t' c. classify 900 1000 True \<lparr>tk_live_end = Some 800, tk_runs = [],
       tk_claims = [\<lparr>cl_key = 4, cl_fresh = True, cl_floor = Some 512\<rparr>]\<rparr> = (t', c)
     \<and> cf_missing c = Some \<lparr>sp_start = 800, sp_end = 900\<rparr> \<and> tk_claims t' = [] \<and> (\<exists>live'. tk_live_end t' = Some live' \<and> 800 \<le> live')"
proof -
  let ?t = "\<lparr>tk_live_end = Some 800, tk_runs = [], tk_claims = [\<lparr>cl_key = 4, cl_fresh = True, cl_floor = Some 512\<rparr>]\<rparr>"
  obtain t' c where c: "classify 900 1000 True ?t = (t', c)" by fastforce
  have "cf_missing c = Some \<lparr>sp_start = 800, sp_end = 900\<rparr>" "tk_claims t' = []"
    using c by (auto simp: classify_def)
  then show ?thesis using classify_contract [OF c] c by auto
qed

text \<open>Erasing forgets everything: no capture stream keeps an epoch, every capture epoch that was
  kept or current is marked erased, the epochs erased before stay erased, there is no current
  capture epoch, and a reference epoch that is still open holds no record at all.\<close>

theorem erase_forgets_everything:
  "(\<forall>s \<in> {Mic, CellStream, AfeStream}. tl_stores (timeline_erase t) s = []
      \<and> (\<forall>e. e \<in> set (epochs_of s t) \<or> tl_capture t = Some e \<or> is_erased s e t \<longrightarrow> is_erased s e (timeline_erase t)))
   \<and> tl_capture (timeline_erase t) = None
   \<and> epochs_of Reference (timeline_erase t) = epochs_of Reference t
   \<and> (\<forall>e \<in> set (tl_stores (timeline_erase t) Reference). record_at (ep_buffer e) q = None \<and> ep_track e = track_default)"
  by (auto simp: timeline_erase_def epochs_of_def is_erased_def epoch_stream_new_def comp_def)

theorem erase_forgets_everything_witness:
  "is_erased Mic 7 (timeline_erase (set_capture (Some 7) (timeline_new uplink_config_default)))"
  using erase_forgets_everything [of "set_capture (Some 7) (timeline_new uplink_config_default)"]
  by (simp add: set_capture_def)

end
