(* ===== verification/Outbox.thy ===== *)
theory Outbox
  imports Timeline
begin

text \<open>
  The queue of deliveries waiting for consumers and the per-subscription accounts over it
  (\<open>Outbox\<close> in \<open>crates/uplink/src/uplink.rs\<close>). Draining subtracts from unsigned counters; an
  underflow, which panics in a debug build and wraps in a release build, is \<open>None\<close> here and is
  shown not to happen.
\<close>

section \<open>Model\<close>

record account =
  at_backlog :: backlog
  at_delivered :: accounting

definition account_default :: account where
  "account_default = \<lparr>at_backlog = backlog_default, at_delivered = accounting_default\<rparr>"

record outbox =
  ob_queue :: "delivery list"
  ob_accounts :: "subscription_id \<rightharpoonup> account"
  ob_max_bytes :: nat
  ob_max_deliveries :: nat

fun is_ended_delivery :: "delivery \<Rightarrow> bool" where
  "is_ended_delivery (DeliverEnded e) = True"
| "is_ended_delivery (DeliverChunk c) = False"

definition push :: "delivery \<Rightarrow> outbox \<Rightarrow> outbox \<times> bool" where
  "push d ob =
     (let sub = delivery_subscription d;
          a = (case ob_accounts ob sub of Some a \<Rightarrow> a | None \<Rightarrow> account_default);
          backlog = \<lparr>bl_deliveries = bl_deliveries (at_backlog a) + 1,
                     bl_payload_bytes = bl_payload_bytes (at_backlog a) + delivery_payload_bytes d\<rparr>;
          within = (bl_payload_bytes backlog \<le> ob_max_bytes ob
                    \<and> bl_deliveries backlog \<le> ob_max_deliveries ob)
      in (ob\<lparr>ob_queue := ob_queue ob @ [d],
             ob_accounts := (ob_accounts ob)(sub \<mapsto> a\<lparr>at_backlog := backlog\<rparr>)\<rparr>, within))"

text \<open>The loop of \<open>drain\<close>: the accounts after each queued delivery was taken.\<close>

definition take_delivery :: "delivery \<Rightarrow> account \<Rightarrow> account option" where
  "take_delivery d a =
     (case (checked_sub (bl_deliveries (at_backlog a)) 1,
            checked_sub (bl_payload_bytes (at_backlog a)) (delivery_payload_bytes d)) of
        (Some n, Some b) \<Rightarrow>
          Some \<lparr>at_backlog = \<lparr>bl_deliveries = n, bl_payload_bytes = b\<rparr>,
                at_delivered = (case d of
                   DeliverChunk c \<Rightarrow>
                     \<lparr>ac_chunks = ac_chunks (at_delivered a) + 1,
                      ac_payload_bytes = ac_payload_bytes (at_delivered a) + chunk_payload_bytes c\<rparr>
                 | DeliverEnded _ \<Rightarrow> at_delivered a)\<rparr>
      | _ \<Rightarrow> None)"

fun drain_queue ::
    "delivery list \<Rightarrow> (subscription_id \<rightharpoonup> account) \<Rightarrow> (subscription_id \<rightharpoonup> account) option" where
  "drain_queue [] accounts = Some accounts"
| "drain_queue (d # ds) accounts =
     (let sub = delivery_subscription d in
      case accounts sub of
        None \<Rightarrow> drain_queue ds accounts
      | Some a \<Rightarrow>
          (case take_delivery d a of
             None \<Rightarrow> None
           | Some a' \<Rightarrow> drain_queue ds
               (if is_ended_delivery d then accounts(sub := None) else accounts(sub \<mapsto> a'))))"

definition drain :: "delivery list \<Rightarrow> outbox \<Rightarrow> (outbox \<times> delivery list) option" where
  "drain out ob =
     map_option (\<lambda>accounts. (ob\<lparr>ob_queue := [], ob_accounts := accounts\<rparr>, out @ ob_queue ob))
       (drain_queue (ob_queue ob) (ob_accounts ob))"

fun recount :: "delivery \<Rightarrow> (subscription_id \<rightharpoonup> account) \<Rightarrow> (subscription_id \<rightharpoonup> account)" where
  "recount d accounts =
     (case accounts (delivery_subscription d) of
        Some a \<Rightarrow> accounts(delivery_subscription d \<mapsto>
          a\<lparr>at_backlog := (at_backlog a)\<lparr>bl_deliveries := bl_deliveries (at_backlog a) + 1\<rparr>\<rparr>)
      | None \<Rightarrow> accounts)"

definition discard_chunks :: "outbox \<Rightarrow> outbox" where
  "discard_chunks ob =
     (let queue = filter is_ended_delivery (ob_queue ob);
          cleared = (\<lambda>sub. map_option (\<lambda>a. a\<lparr>at_backlog := backlog_default\<rparr>) (ob_accounts ob sub))
      in ob\<lparr>ob_queue := queue, ob_accounts := fold recount queue cleared\<rparr>)"

definition discard_chunks_of :: "subscription_id \<Rightarrow> outbox \<Rightarrow> outbox" where
  "discard_chunks_of sub ob =
     ob\<lparr>ob_queue := filter (\<lambda>d. delivery_subscription d \<noteq> sub \<or> is_ended_delivery d) (ob_queue ob),
        ob_accounts := (case ob_accounts ob sub of
           Some a \<Rightarrow> (ob_accounts ob)(sub \<mapsto> a\<lparr>at_backlog := backlog_default\<rparr>)
         | None \<Rightarrow> ob_accounts ob)\<rparr>"

section \<open>Invariants\<close>

text \<open>A subscription's deliveries in a queue, and those up to its first end notice.\<close>

definition entries :: "subscription_id \<Rightarrow> delivery list \<Rightarrow> delivery list" where
  "entries sub q = filter (\<lambda>d. delivery_subscription d = sub) q"

fun until_end :: "delivery list \<Rightarrow> delivery list" where
  "until_end [] = []"
| "until_end (d # ds) = d # (if is_ended_delivery d then [] else until_end ds)"

definition payload_sum :: "delivery list \<Rightarrow> nat" where
  "payload_sum ds = sum_list (map delivery_payload_bytes ds)"

text \<open>
  The accounts cover what draining will subtract, and an ID without an account has nothing
  queued. A device may reuse an ID whose end notice is still queued, so only the deliveries up to
  the first end notice are covered.
\<close>

definition covers_account :: "delivery list \<Rightarrow> account \<Rightarrow> bool" where
  "covers_account es a \<longleftrightarrow>
     length (until_end es) \<le> bl_deliveries (at_backlog a)
     \<and> payload_sum (until_end es) \<le> bl_payload_bytes (at_backlog a)"

definition outbox_ok :: "outbox \<Rightarrow> bool" where
  "outbox_ok ob \<longleftrightarrow> (\<forall>sub. case ob_accounts ob sub of
      None \<Rightarrow> entries sub (ob_queue ob) = []
    | Some a \<Rightarrow> covers_account (entries sub (ob_queue ob)) a)"

text \<open>The accounts are exact: they count precisely what is queued.\<close>

definition exact_account :: "delivery list \<Rightarrow> account \<Rightarrow> bool" where
  "exact_account es a \<longleftrightarrow>
     bl_deliveries (at_backlog a) = length es \<and> bl_payload_bytes (at_backlog a) = payload_sum es"

definition outbox_exact :: "outbox \<Rightarrow> bool" where
  "outbox_exact ob \<longleftrightarrow> (\<forall>sub. case ob_accounts ob sub of
      None \<Rightarrow> entries sub (ob_queue ob) = []
    | Some a \<Rightarrow> exact_account (entries sub (ob_queue ob)) a)"

section \<open>Lemmas\<close>

lemma entries_simps [simp]:
  "entries sub [] = []"
  "entries sub (d # ds) = (if delivery_subscription d = sub then d # entries sub ds else entries sub ds)"
  "entries sub (xs @ ys) = entries sub xs @ entries sub ys"
  by (simp_all add: entries_def)

lemma payload_sum_simps [simp]:
  "payload_sum [] = 0" "payload_sum (d # ds) = delivery_payload_bytes d + payload_sum ds"
  "payload_sum (xs @ ys) = payload_sum xs + payload_sum ys"
  by (simp_all add: payload_sum_def)

lemma until_end_append:
  "until_end (xs @ ys) = (if \<exists>d \<in> set xs. is_ended_delivery d then until_end xs else xs @ until_end ys)"
  by (induction xs) auto

lemma until_end_chunks: "\<forall>d \<in> set xs. \<not> is_ended_delivery d \<Longrightarrow> until_end xs = xs"
  by (induction xs) auto

lemma until_end_le: "length (until_end es) \<le> length es" "payload_sum (until_end es) \<le> payload_sum es"
  by (induction es) auto

lemma exact_covers: "exact_account es a \<Longrightarrow> covers_account es a"
  using until_end_le [of es] by (simp add: exact_account_def covers_account_def)

lemma outbox_exact_ok: "outbox_exact ob \<Longrightarrow> outbox_ok ob"
  unfolding outbox_exact_def outbox_ok_def using exact_covers by (fastforce split: option.splits)

lemma take_delivery_covers:
  assumes "covers_account (d # es) a"
  shows "\<exists>a'. take_delivery d a = Some a' \<and> (\<not> is_ended_delivery d \<longrightarrow> covers_account es a')"
  using assms by (auto simp: take_delivery_def covers_account_def checked_sub_def split: if_splits)

lemma take_delivery_exact:
  assumes "exact_account (d # es) a"
  shows "\<exists>a'. take_delivery d a = Some a' \<and> exact_account es a'"
  using assms by (auto simp: take_delivery_def exact_account_def checked_sub_def)

lemma drain_queue_total:
  assumes "\<And>sub a. accounts sub = Some a \<Longrightarrow> covers_account (entries sub q) a"
  shows "\<exists>accounts'. drain_queue q accounts = Some accounts'"
  using assms
proof (induction q arbitrary: accounts)
  case (Cons d ds)
  let ?s = "delivery_subscription d"
  show ?case
  proof (cases "accounts ?s")
    case None
    have "covers_account (entries sub ds) a" if "accounts sub = Some a" for sub a
      using Cons.prems [OF that] None that by (auto split: if_splits)
    then show ?thesis using Cons.IH None by (simp add: Let_def)
  next
    case (Some a)
    obtain a' where a': "take_delivery d a = Some a'" "\<not> is_ended_delivery d \<longrightarrow> covers_account (entries ?s ds) a'"
      using take_delivery_covers [of d "entries ?s ds" a] Cons.prems [OF Some] by auto
    let ?acc = "if is_ended_delivery d then accounts(?s := None) else accounts(?s \<mapsto> a')"
    have "covers_account (entries sub ds) b" if "?acc sub = Some b" for sub b
      using that a'(2) Cons.prems [of sub b] by (auto split: if_splits)
    then show ?thesis using Cons.IH [of ?acc] Some a'(1) by (simp add: Let_def)
  qed
qed simp

lemma drain_queue_exact:
  assumes "\<And>sub a. accounts sub = Some a \<Longrightarrow> exact_account (entries sub q) a"
    and "drain_queue q accounts = Some accounts'" "accounts' sub = Some a"
  shows "exact_account [] a"
  using assms
proof (induction q arbitrary: accounts)
  case (Cons d ds)
  let ?s = "delivery_subscription d"
  show ?case
  proof (cases "accounts ?s")
    case None
    have "exact_account (entries sub ds) a" if "accounts sub = Some a" for sub a
      using Cons.prems(1) [OF that] None that by (auto split: if_splits)
    then show ?thesis using Cons.IH [of accounts] Cons.prems(2,3) None by (simp add: Let_def)
  next
    case (Some b)
    obtain b' where b': "take_delivery d b = Some b'" "exact_account (entries ?s ds) b'"
      using take_delivery_exact [of d "entries ?s ds" b] Cons.prems(1) [OF Some] by auto
    let ?acc = "if is_ended_delivery d then accounts(?s := None) else accounts(?s \<mapsto> b')"
    have "exact_account (entries sub ds) c" if "?acc sub = Some c" for sub c
      using that b'(2) Cons.prems(1) [of sub c] by (auto split: if_splits)
    then show ?thesis using Cons.IH [of ?acc] Cons.prems(2,3) Some b'(1) by (simp add: Let_def)
  qed
qed simp

lemma drain_total:
  assumes "outbox_ok ob"
  shows "\<exists>accounts. drain out ob = Some (ob\<lparr>ob_queue := [], ob_accounts := accounts\<rparr>, out @ ob_queue ob)"
proof -
  have "covers_account (entries sub (ob_queue ob)) a" if "ob_accounts ob sub = Some a" for sub a
    using assms that by (auto simp: outbox_ok_def dest: spec [of _ sub])
  then show ?thesis using drain_queue_total [of "ob_accounts ob" "ob_queue ob"] by (auto simp: drain_def)
qed

lemma drain_ok: "drain out ob = Some (ob', out') \<Longrightarrow> outbox_ok ob'"
  by (auto simp: drain_def outbox_ok_def covers_account_def split: option.splits)

lemma push_ok [inv_intros]:
  assumes "outbox_ok ob"
  shows "outbox_ok (fst (push d ob))"
proof -
  have "case ob_accounts (fst (push d ob)) sub of None \<Rightarrow> entries sub (ob_queue (fst (push d ob))) = []
    | Some a \<Rightarrow> covers_account (entries sub (ob_queue (fst (push d ob)))) a" for sub
    using assms [unfolded outbox_ok_def, rule_format, of sub]
    by (auto simp: push_def Let_def covers_account_def until_end_append until_end_chunks
        account_default_def backlog_default_def split: option.splits)
  then show ?thesis by (simp add: outbox_ok_def)
qed

lemma push_exact:
  assumes "outbox_exact ob"
  shows "outbox_exact (fst (push d ob))"
proof -
  have "case ob_accounts (fst (push d ob)) sub of None \<Rightarrow> entries sub (ob_queue (fst (push d ob))) = []
    | Some a \<Rightarrow> exact_account (entries sub (ob_queue (fst (push d ob)))) a" for sub
    using assms [unfolded outbox_exact_def, rule_format, of sub]
    by (auto simp: push_def Let_def exact_account_def account_default_def backlog_default_def
        split: option.splits)
  then show ?thesis by (simp add: outbox_exact_def)
qed

subsection \<open>Discarding\<close>

lemma fold_recount:
  "fold recount q accounts sub =
     map_option (\<lambda>a. a\<lparr>at_backlog := (at_backlog a)\<lparr>bl_deliveries := bl_deliveries (at_backlog a) + length (entries sub q)\<rparr>\<rparr>)
       (accounts sub)"
proof (induction q arbitrary: accounts)
  case Nil
  then show ?case by (cases "accounts sub") simp_all
next
  case (Cons d q)
  then show ?case by (auto split: option.splits)
qed

lemma entries_filter: "entries sub (filter P q) = filter P (entries sub q)"
  by (simp add: entries_def conj_commute)

lemma payload_sum_ended: "payload_sum (filter is_ended_delivery es) = 0"
proof (induction es)
  case (Cons d es)
  then show ?case by (cases d) simp_all
qed simp

lemma discard_chunks_exact:
  assumes "outbox_ok ob"
  shows "outbox_exact (discard_chunks ob)"
proof -
  have "case ob_accounts (discard_chunks ob) sub of None \<Rightarrow> entries sub (ob_queue (discard_chunks ob)) = []
    | Some a \<Rightarrow> exact_account (entries sub (ob_queue (discard_chunks ob))) a" for sub
    using assms [unfolded outbox_ok_def, rule_format, of sub]
    by (auto simp: discard_chunks_def Let_def fold_recount entries_filter exact_account_def backlog_default_def
        payload_sum_ended split: option.splits)
  then show ?thesis by (simp add: outbox_exact_def)
qed

lemma until_end_only_ended:
  "length (until_end (filter is_ended_delivery es @ [DeliverEnded e])) \<le> 1"
  "payload_sum (until_end (filter is_ended_delivery es @ [DeliverEnded e])) = 0"
proof (induction es)
  case (Cons d es)
  case 1 show ?case using Cons by (cases d) simp_all
  case 2 show ?case using Cons by (cases d) simp_all
qed simp_all

text \<open>Discarding one subscription's chunks is always followed by its end notice.\<close>

lemma discard_chunks_of_view:
  "entries t (ob_queue (discard_chunks_of s ob)) =
     (if t = s then filter is_ended_delivery (entries s (ob_queue ob)) else entries t (ob_queue ob))"
  "ob_accounts (discard_chunks_of s ob) t =
     (if t = s then map_option (\<lambda>a. a\<lparr>at_backlog := backlog_default\<rparr>) (ob_accounts ob s) else ob_accounts ob t)"
proof -
  show "entries t (ob_queue (discard_chunks_of s ob)) =
     (if t = s then filter is_ended_delivery (entries s (ob_queue ob)) else entries t (ob_queue ob))"
    by (auto simp: discard_chunks_of_def entries_def intro!: filter_cong)
  show "ob_accounts (discard_chunks_of s ob) t =
     (if t = s then map_option (\<lambda>a. a\<lparr>at_backlog := backlog_default\<rparr>) (ob_accounts ob s) else ob_accounts ob t)"
    by (auto simp: discard_chunks_of_def split: option.splits)
qed

lemma push_view:
  "ob_queue (fst (push d ob)) = ob_queue ob @ [d]"
  "ob_accounts (fst (push d ob)) t =
     (if t = delivery_subscription d then
        (let a = (case ob_accounts ob t of Some a \<Rightarrow> a | None \<Rightarrow> account_default) in
         Some (a\<lparr>at_backlog := \<lparr>bl_deliveries = bl_deliveries (at_backlog a) + 1,
            bl_payload_bytes = bl_payload_bytes (at_backlog a) + delivery_payload_bytes d\<rparr>\<rparr>))
      else ob_accounts ob t)"
  by (simp_all add: push_def Let_def)

lemma discard_then_end_ok:
  assumes "outbox_ok ob" "en_subscription e = s"
  shows "outbox_ok (fst (push (DeliverEnded e) (discard_chunks_of s ob)))"
proof -
  let ?ob = "fst (push (DeliverEnded e) (discard_chunks_of s ob))"
  have "case ob_accounts ?ob sub of None \<Rightarrow> entries sub (ob_queue ?ob) = []
    | Some a \<Rightarrow> covers_account (entries sub (ob_queue ?ob)) a" for sub
    using assms(1) [unfolded outbox_ok_def, rule_format, of sub] assms(2)
      until_end_only_ended [of "entries s (ob_queue ob)" e]
    by (auto simp: push_view discard_chunks_of_view covers_account_def account_default_def
        backlog_default_def Let_def split: option.splits)
  then show ?thesis by (simp add: outbox_ok_def)
qed

lemma discard_chunks_queue: "ob_queue (discard_chunks ob) = filter is_ended_delivery (ob_queue ob)"
  by (simp add: discard_chunks_def Let_def)

section \<open>Properties\<close>

text \<open>On accounts that are exact, draining takes every queued delivery in order, never subtracts
  below zero, and leaves every account that remains with an empty backlog; pushing keeps the
  accounts exact, and discarding every chunk makes them exact again.\<close>

theorem drain_settles_accounts:
  assumes "outbox_exact ob"
  shows "(\<exists>ob'. drain out ob = Some (ob', out @ ob_queue ob) \<and> ob_queue ob' = [] \<and> outbox_exact ob'
      \<and> (\<forall>sub a. ob_accounts ob' sub = Some a \<longrightarrow> at_backlog a = backlog_default))
    \<and> outbox_exact (fst (push d ob)) \<and> outbox_exact (discard_chunks ob)"
proof -
  note ok = outbox_exact_ok [OF assms]
  obtain accounts where dr: "drain out ob = Some (ob\<lparr>ob_queue := [], ob_accounts := accounts\<rparr>, out @ ob_queue ob)"
    using drain_total [OF ok] by blast
  then have acc: "drain_queue (ob_queue ob) (ob_accounts ob) = Some accounts"
    by (auto simp: drain_def) (metis outbox.ext_inject outbox.surjective outbox.update_convs(1,2))
  have start: "exact_account (entries sub (ob_queue ob)) a" if "ob_accounts ob sub = Some a" for sub a
    using assms that by (auto simp: outbox_exact_def dest: spec [of _ sub])
  have zero: "exact_account [] a" if "accounts sub = Some a" for sub a
    using drain_queue_exact [OF start acc that] by blast
  then have "outbox_exact (ob\<lparr>ob_queue := [], ob_accounts := accounts\<rparr>)"
    by (auto simp: outbox_exact_def split: option.splits)
  moreover have "at_backlog a = backlog_default" if "accounts sub = Some a" for sub a
    using zero [OF that] by (simp add: exact_account_def backlog_default_def)
  ultimately show ?thesis
    using dr push_exact [OF assms] discard_chunks_exact [OF ok] by auto
qed

theorem drain_settles_accounts_witness:
  "\<exists>ob ob'. outbox_exact ob \<and> length (ob_queue ob) = 1 \<and> drain [] ob = Some (ob', ob_queue ob)"
proof -
  let ?ob = "\<lparr>ob_queue = [], ob_accounts = Map.empty, ob_max_bytes = 10, ob_max_deliveries = 10\<rparr>"
  let ?d = "DeliverEnded \<lparr>en_subscription = ''a'', en_owner = ''b'', en_reason = SubTurn, en_generation = 1, en_cause = EndMuted\<rparr>"
  have "outbox_exact ?ob" by (simp add: outbox_exact_def)
  then have ex: "outbox_exact (fst (push ?d ?ob))" by (rule push_exact)
  then obtain ob' where "drain [] (fst (push ?d ?ob)) = Some (ob', [] @ ob_queue (fst (push ?d ?ob)))"
    using drain_settles_accounts [OF ex, of "[]" ?d] by blast
  moreover have "length (ob_queue (fst (push ?d ?ob))) = 1" by (simp add: push_def Let_def)
  ultimately show ?thesis using ex by auto
qed

end
