(* ===== verification/Release.thy ===== *)
theory Release
  imports Outbox
begin

text \<open>
  A subscription's position on one stream epoch (\<open>Cursor\<close>) and the loop that releases what it can
  deliver (\<open>Source\<close> and \<open>release\<close> in \<open>crates/uplink/src/uplink.rs\<close>). A panic, from a ring index
  out of range or a record width of zero, is \<open>None\<close>. \<open>u64::MAX\<close>, where the source uses it as the
  neutral element of \<open>min\<close>, is an absent bound.
\<close>

section \<open>Cursors\<close>

datatype start_spec = SpecAt nat | SpecLive | SpecMapped

datatype mode = AwaitClaim | AwaitLive | Ordered

record cursor =
  cu_epoch :: nat
  cu_start :: start_spec
  cu_mode :: mode
  cu_pos :: "nat option"
  cu_settled_to :: nat
  cu_settle_cause :: missing_cause
  cu_stalled_since :: "mono_instant option"
  cu_target :: "nat option"

definition cursor_new :: "nat \<Rightarrow> start_spec \<Rightarrow> cursor" where
  "cursor_new epoch start =
     \<lparr>cu_epoch = epoch, cu_start = start,
      cu_mode = (case start of SpecAt _ \<Rightarrow> AwaitClaim | SpecMapped \<Rightarrow> AwaitClaim | SpecLive \<Rightarrow> AwaitLive),
      cu_pos = (case start of SpecAt sample \<Rightarrow> Some sample | _ \<Rightarrow> None),
      cu_settled_to = 0, cu_settle_cause = CauseNotSent, cu_stalled_since = None, cu_target = None\<rparr>"

definition settle :: "nat \<Rightarrow> missing_cause \<Rightarrow> cursor \<Rightarrow> cursor" where
  "settle to cause c =
     (if to > cu_settled_to c then c\<lparr>cu_settled_to := to, cu_settle_cause := cause\<rparr> else c)"

definition attribute :: "attribution \<Rightarrow> stream_id \<Rightarrow> cursor \<Rightarrow> cursor" where
  "attribute attribution stream c =
     (if cu_mode c \<noteq> AwaitClaim then c
      else case attribution of
        RunAt start \<Rightarrow>
          (case cu_start c of
             SpecAt requested \<Rightarrow>
               (if start > requested then settle start CauseClipped c else c)\<lparr>cu_mode := Ordered\<rparr>
           | _ \<Rightarrow> c\<lparr>cu_pos := Some (next_multiple_of start (device_grid stream)), cu_mode := Ordered\<rparr>)
      | NoRun \<Rightarrow>
          (case cu_start c of
             SpecAt _ \<Rightarrow> c\<lparr>cu_mode := Ordered\<rparr>
           | _ \<Rightarrow> c\<lparr>cu_mode := AwaitLive\<rparr>))"

definition on_packet :: "path \<Rightarrow> nat \<Rightarrow> sub_key \<Rightarrow> stream_id \<Rightarrow> cursor \<Rightarrow> cursor" where
  "on_packet path first own stream c =
     (if cu_mode c = AwaitLive \<and> path = Advance then
        c\<lparr>cu_pos := Some (next_multiple_of first (device_grid stream)), cu_mode := Ordered\<rparr>
      else if cu_mode c = Ordered \<and> (path = Advance \<or> path = RunPath (Some own)) then
        (case cu_pos c of
           Some pos \<Rightarrow> if first > max pos (cu_settled_to c) then settle first CauseNotSent c else c
         | None \<Rightarrow> c)
      else c)"

definition stall_deadline :: "duration_ns \<Rightarrow> cursor \<Rightarrow> mono_instant option" where
  "stall_deadline wait c = map_option (\<lambda>since. mono_after since wait) (cu_stalled_since c)"

definition cursor_done :: "cursor \<Rightarrow> bool" where
  "cursor_done c \<longleftrightarrow>
     (case cu_target c of
        None \<Rightarrow> True
      | Some target \<Rightarrow> (case cu_pos c of Some pos \<Rightarrow> pos \<ge> target | None \<Rightarrow> False))"

section \<open>Releasing\<close>

record source =
  sc_buffer :: epoch_buffer
  sc_live_end :: "nat option"
  sc_packet :: "packet option"
  sc_stream :: stream_id
  sc_epoch :: nat

definition overwritten_below :: "source \<Rightarrow> nat option" where
  "overwritten_below src =
     (let unit = samples_per_frame (stream_kind (sc_stream src)) in
      case sc_live_end src of
        None \<Rightarrow> None
      | Some live \<Rightarrow>
          (case checked_sub live (device_history (sc_stream src)) of
             None \<Rightarrow> None
           | Some gone \<Rightarrow> Some (gone - gone mod unit)))"

text \<open>\<open>Ord::min\<close> with an absent bound.\<close>

fun min_opt :: "nat \<Rightarrow> nat option \<Rightarrow> nat" where
  "min_opt a None = a"
| "min_opt a (Some b) = min a b"

datatype release_step = Emit nat chunk_body | Halt cursor | Panic

text \<open>A hole nobody settled: it waits, and is declared missing once later audio waited too long.\<close>

definition release_stall ::
    "cursor \<Rightarrow> uplink_config \<Rightarrow> mono_instant \<Rightarrow> nat \<Rightarrow> nat option \<Rightarrow> release_step" where
  "release_stall c config now pos next_known =
     (let limit = (case next_known of
            Some n \<Rightarrow> Some n
          | None \<Rightarrow> (case cu_target c of
              Some t \<Rightarrow> if t > pos then Some t else None
            | None \<Rightarrow> None))
      in case (limit, cu_stalled_since c) of
        (None, _) \<Rightarrow> Halt (c\<lparr>cu_stalled_since := None\<rparr>)
      | (Some _, None) \<Rightarrow> Halt (c\<lparr>cu_stalled_since := Some now\<rparr>)
      | (Some limit, Some since) \<Rightarrow>
          if now \<ge> mono_after since (uc_hole_wait config)
          then Emit limit (BodyMissing CauseTimedOut)
          else Halt c)"

definition release_unknown ::
    "cursor \<Rightarrow> source \<Rightarrow> uplink_config \<Rightarrow> mono_instant \<Rightarrow> nat \<Rightarrow> nat option \<Rightarrow> release_step" where
  "release_unknown c src config now pos next_known =
     (if pos < cu_settled_to c then
        Emit (min_opt (cu_settled_to c) next_known) (BodyMissing (cu_settle_cause c))
      else case overwritten_below src of
        Some gone \<Rightarrow>
          if gone > pos then Emit (min_opt gone next_known) (BodyMissing CauseOverwritten)
          else release_stall c config now pos next_known
      | None \<Rightarrow> release_stall c config now pos next_known)"

text \<open>One turn of the loop: what the lookup at \<open>pos\<close> lets the cursor deliver.\<close>

definition release_step ::
    "cursor \<Rightarrow> source \<Rightarrow> uplink_config \<Rightarrow> mono_instant \<Rightarrow> nat \<Rightarrow> release_step" where
  "release_step c src config now pos =
     (if buffer_unit (sc_buffer src) = 0 then Panic
      else case buffer_lookup pos (sc_buffer src) of
        LookupData end meta discontinuity \<Rightarrow>
          (case chunk_data_of \<lparr>sp_start = pos, sp_end = end\<rparr> meta (sc_packet src) (sc_buffer src) of
             Some data \<Rightarrow> Emit end (BodyData meta discontinuity data)
           | None \<Rightarrow> Panic)
      | LookupMissing end \<Rightarrow> Emit end (BodyMissing CauseDevice)
      | LookupEvicted until \<Rightarrow> Emit until (BodyMissing CauseEvicted)
      | LookupUnknown next_known \<Rightarrow> release_unknown c src config now pos next_known)"

text \<open>
  How far a release can get: past every block, the floor, and what the cursor and the source
  declare settled, overwritten or sent. Every turn moves forward and stays within it.
\<close>

definition index_bound :: "block_index \<Rightarrow> nat" where
  "index_bound ix = fold max (map b_end (bi_blocks ix) @ map b_first (bi_blocks ix)) (bi_floor ix)"

definition or_zero :: "nat option \<Rightarrow> nat" where
  "or_zero x = (case x of Some n \<Rightarrow> n | None \<Rightarrow> 0)"

definition release_bound :: "source \<Rightarrow> cursor \<Rightarrow> nat" where
  "release_bound src c =
     max (index_bound (eb_index (sc_buffer src)) * buffer_unit (sc_buffer src))
       (max (cu_settled_to c) (max (or_zero (overwritten_below src)) (or_zero (cu_target c))))"

lemma fold_max_ge: "x \<in> set xs \<Longrightarrow> x \<le> fold max xs a" "a \<le> fold max xs (a :: nat)"
proof -
  have *: "a \<le> fold max xs a \<and> (\<forall>x \<in> set xs. x \<le> fold max xs a)" for a
  proof (induction xs arbitrary: a)
    case (Cons y ys)
    have "max y a \<le> fold max ys (max y a)" using Cons.IH by blast
    then have "y \<le> fold max ys (max y a)" "a \<le> fold max ys (max y a)" by linarith+
    then show ?case using Cons.IH [of "max y a"] by simp
  qed simp
  show "x \<in> set xs \<Longrightarrow> x \<le> fold max xs a" "a \<le> fold max xs a" using * by blast+
qed

lemma index_lookup_bound:
  assumes "lookup_stop (index_lookup pos ix) = Some hi"
  shows "hi \<le> index_bound ix"
proof (cases "pos < bi_floor ix")
  case True
  then have "hi = bi_floor ix" using assms by (simp add: index_lookup_def)
  then show ?thesis unfolding index_bound_def by (simp only: fold_max_ge(2))
next
  case False
  have "b_end b \<le> index_bound ix" "b_first b \<le> index_bound ix"
    if "drop (after pos (bi_blocks ix)) (bi_blocks ix) = b # r" for b r
  proof -
    have b: "b \<in> set (bi_blocks ix)" using that by (metis in_set_dropD list.set_intros(1))
    show "b_end b \<le> index_bound ix"
      unfolding index_bound_def by (rule fold_max_ge(1)) (simp add: b)
    show "b_first b \<le> index_bound ix"
      unfolding index_bound_def by (rule fold_max_ge(1)) (simp add: b)
  qed
  then show ?thesis
    using assms False by (auto simp: index_lookup_def split: list.splits block_kind.splits if_splits)
qed

lemma buffer_lookup_bound:
  assumes "lookup_stop (buffer_lookup pos b) = Some hi"
  shows "hi \<le> index_bound (eb_index b) * buffer_unit b"
proof -
  obtain k where "lookup_stop (index_lookup (pos div buffer_unit b) (eb_index b)) = Some k" "hi = k * buffer_unit b"
    using assms by (auto simp: buffer_lookup_def Let_def split: lookup.splits option.splits)
  then show ?thesis using index_lookup_bound by simp
qed

lemma release_unknown_Emit:
  assumes "release_unknown c src config now pos nk = Emit hi body"
    and "\<And>n. nk = Some n \<Longrightarrow> pos < n \<and> n \<le> release_bound src c"
  shows "pos < hi \<and> hi \<le> release_bound src c \<and> (\<forall>n. nk = Some n \<longrightarrow> hi \<le> n)"
proof (cases nk)
  case None
  then show ?thesis using assms
    by (auto simp: release_unknown_def release_stall_def release_bound_def or_zero_def Let_def
        split: if_splits option.splits)
next
  case (Some n)
  then show ?thesis using assms
    by (auto simp: release_unknown_def release_stall_def Let_def split: if_splits option.splits)
qed

lemma release_step_Emit:
  assumes "release_step c src config now pos = Emit hi body"
  shows "pos < hi" "hi \<le> release_bound src c"
proof -
  have u: "0 < buffer_unit (sc_buffer src)" using assms by (auto simp: release_step_def split: if_splits)
  let ?l = "buffer_lookup pos (sc_buffer src)"
  have prog: "pos < n \<and> n \<le> release_bound src c" if "lookup_stop ?l = Some n" for n
    using buffer_lookup_progress [OF u that] buffer_lookup_bound [OF that] by (simp add: release_bound_def)
  have "pos < hi \<and> hi \<le> release_bound src c"
  proof (cases ?l)
    case (LookupUnknown nk)
    then show ?thesis
      using assms u prog release_unknown_Emit [of c src config now pos nk hi body] by (auto simp: release_step_def)
  qed (use assms u prog in \<open>auto simp: release_step_def split: option.splits\<close>)
  then show "pos < hi" "hi \<le> release_bound src c" by auto
qed

lemma release_step_Halt:
  assumes "release_step c src config now pos = Halt c'"
  shows "\<exists>st. c' = c\<lparr>cu_stalled_since := st\<rparr>"
proof -
  have c: "\<exists>st. c = c\<lparr>cu_stalled_since := st\<rparr>" by (rule exI [of _ "cu_stalled_since c"]) simp
  show ?thesis using assms c
    by (auto simp: release_step_def release_unknown_def release_stall_def Let_def
        split: if_splits option.splits lookup.splits)
qed

function release_loop ::
    "source \<Rightarrow> subscription_id \<Rightarrow> generation \<Rightarrow> uplink_config \<Rightarrow> mono_instant \<Rightarrow> cursor \<Rightarrow> nat \<Rightarrow> outbox
     \<Rightarrow> (cursor \<times> outbox \<times> bool) option" where
  "release_loop src sub generation config now c pos ob =
     (case release_step c src config now pos of
        Panic \<Rightarrow> None
      | Halt c' \<Rightarrow> Some (c', ob, True)
      | Emit end body \<Rightarrow>
          (let chunk = \<lparr>ck_subscription = sub, ck_generation = generation, ck_stream = sc_stream src,
                 ck_epoch = sc_epoch src, ck_span = \<lparr>sp_start = pos, sp_end = end\<rparr>, ck_body = body\<rparr>;
               c' = c\<lparr>cu_pos := Some end, cu_stalled_since := None\<rparr>;
               (ob', within) = push (DeliverChunk chunk) ob
           in if \<not> within then Some (c', ob', False)
              else release_loop src sub generation config now c' end ob'))"
  by pat_completeness auto

termination release_loop
proof (relation "measure (\<lambda>(src, sub, generation, config, now, c, pos, ob). release_bound src c - pos)")
  fix src sub generation config now c pos ob hi body x xa y xb xc
  assume step: "release_step c src config now pos = Emit hi body"
    and c': "xa = c\<lparr>cu_pos := Some hi, cu_stalled_since := None\<rparr>"
  have "release_bound src xa = release_bound src c" by (simp add: release_bound_def c')
  then show "((src, sub, generation, config, now, xa, hi, xb), src, sub, generation, config, now, c, pos, ob)
      \<in> measure (\<lambda>(src, sub, generation, config, now, c, pos, ob). release_bound src c - pos)"
    using release_step_Emit [OF step] by auto
qed simp

declare release_loop.simps [simp del]

definition release ::
    "cursor \<Rightarrow> source \<Rightarrow> subscription_id \<Rightarrow> generation \<Rightarrow> outbox \<Rightarrow> uplink_config \<Rightarrow> mono_instant
     \<Rightarrow> (cursor \<times> outbox \<times> bool) option" where
  "release c src sub generation ob config now =
     (case cu_pos c of
        None \<Rightarrow> Some (c, ob, True)
      | Some pos \<Rightarrow> release_loop src sub generation config now c pos ob)"

text \<open>Chunks that follow each other from \<open>lo\<close> to \<open>hi\<close> without overlap or hole.\<close>

fun follows :: "nat \<Rightarrow> nat \<Rightarrow> chunk list \<Rightarrow> bool" where
  "follows lo hi [] \<longleftrightarrow> lo = hi"
| "follows lo hi (c # cs) \<longleftrightarrow>
     sp_start (ck_span c) = lo \<and> lo < sp_end (ck_span c) \<and> follows (sp_end (ck_span c)) hi cs"

text \<open>
  A chunk tells the truth about a buffer: data is exactly the held records, and a missing range
  covers no record the buffer holds.
\<close>

definition chunk_true :: "epoch_buffer \<Rightarrow> chunk \<Rightarrow> bool" where
  "chunk_true b c \<longleftrightarrow>
     (case ck_body c of
        BodyData meta d data \<Rightarrow> data_list data = records_of (ck_span c) b
          \<and> (\<forall>x. sp_start (ck_span c) \<le> x \<and> x < sp_end (ck_span c) \<longrightarrow> record_at b (x div buffer_unit b) \<noteq> None)
      | BodyMissing cause \<Rightarrow>
          (\<forall>x. sp_start (ck_span c) \<le> x \<and> x < sp_end (ck_span c) \<longrightarrow> record_at b (x div buffer_unit b) = None))"

text \<open>
  What a release may read from: a buffer its stream can build and, where a packet is at hand, a
  parsed packet of the stream. Whether the packet's samples are the ones the buffer holds is a
  matter of the device sending the same audio twice when it sends a position twice.
\<close>

definition source_safe :: "source \<Rightarrow> bool" where
  "source_safe src \<longleftrightarrow> buffer_inv (sc_stream src) (sc_buffer src)
     \<and> (\<forall>p. sc_packet src = Some p \<longrightarrow> stream_of_kind (h_kind (p_header p)) = Some (sc_stream src)
          \<and> (\<exists>frame. packet_parse frame = Inr p))"

definition packet_matches :: "packet \<Rightarrow> stream_id \<Rightarrow> epoch_buffer \<Rightarrow> bool" where
  "packet_matches p stream b \<longleftrightarrow>
     (\<forall>q r. (stream = Mic \<or> stream = Reference) \<longrightarrow> unat (h_first_sample (p_header p)) \<le> q \<longrightarrow> q < p_end_sample p \<longrightarrow>
        record_at b q = Some r \<longrightarrow> r = content_list (packet_content p) ! (q - unat (h_first_sample (p_header p))))"

definition source_ok :: "source \<Rightarrow> bool" where
  "source_ok src \<longleftrightarrow> source_safe src
     \<and> (\<forall>p. sc_packet src = Some p \<longrightarrow> packet_matches p (sc_stream src) (sc_buffer src))"

text \<open>A position where nothing can be delivered or declared missing yet.\<close>

definition waits_at :: "source \<Rightarrow> cursor \<Rightarrow> nat \<Rightarrow> bool" where
  "waits_at src c pos \<longleftrightarrow>
     (\<exists>nk. buffer_lookup pos (sc_buffer src) = LookupUnknown nk) \<and> cu_settled_to c \<le> pos
     \<and> or_zero (overwritten_below src) \<le> pos"

definition chunk_header :: "source \<Rightarrow> subscription_id \<Rightarrow> generation \<Rightarrow> chunk \<Rightarrow> bool" where
  "chunk_header src sub generation c \<longleftrightarrow>
     ck_subscription c = sub \<and> ck_generation c = generation \<and> ck_stream c = sc_stream src \<and> ck_epoch c = sc_epoch src"

definition over_bounds :: "subscription_id \<Rightarrow> outbox \<Rightarrow> bool" where
  "over_bounds sub ob \<longleftrightarrow> (case ob_accounts ob sub of
      Some a \<Rightarrow> ob_max_bytes ob < bl_payload_bytes (at_backlog a) \<or> ob_max_deliveries ob < bl_deliveries (at_backlog a)
    | None \<Rightarrow> False)"

text \<open>What a release does: everything it can, in order, and nothing else.\<close>

definition release_result ::
    "source \<Rightarrow> subscription_id \<Rightarrow> generation \<Rightarrow> cursor \<Rightarrow> nat \<Rightarrow> outbox \<Rightarrow> cursor \<Rightarrow> outbox \<Rightarrow> bool \<Rightarrow> chunk list \<Rightarrow> bool" where
  "release_result src sub generation c pos ob c' ob' ok cs \<longleftrightarrow>
     ob_queue ob' = ob_queue ob @ map DeliverChunk cs
     \<and> (\<exists>pos' st. follows pos pos' cs \<and> c' = c\<lparr>cu_pos := Some pos', cu_stalled_since := st\<rparr>
          \<and> (if ok then waits_at src c' pos' else over_bounds sub ob'))
     \<and> (\<forall>ck \<in> set cs. (source_ok src \<longrightarrow> chunk_true (sc_buffer src) ck) \<and> chunk_header src sub generation ck)
     \<and> (outbox_ok ob \<longrightarrow> outbox_ok ob')
     \<and> ob_max_bytes ob' = ob_max_bytes ob \<and> ob_max_deliveries ob' = ob_max_deliveries ob"

section \<open>Lemmas\<close>

subsection \<open>What one lookup delivers\<close>

lemma chunk_data_of_align:
  assumes "\<And>ring. eb_records b \<noteq> PcmRing ring"
  shows "chunk_data_of \<lparr>sp_start = pos, sp_end = hi\<rparr> m pk b =
    chunk_data_of \<lparr>sp_start = pos div buffer_unit b * buffer_unit b, sp_end = hi\<rparr> m pk b"
proof -
  have "slots \<lparr>sp_start = pos, sp_end = hi\<rparr> b = slots \<lparr>sp_start = pos div buffer_unit b * buffer_unit b, sp_end = hi\<rparr> b"
    by (cases "buffer_unit b = 0") (simp_all add: slots_def)
  then show ?thesis
  proof (cases "eb_records b")
    case (PcmRing ring)
    then show ?thesis using assms by blast
  qed (simp_all add: chunk_data_of_def copy_cells_def copy_afe_def)
qed

lemma records_of_align:
  "records_of \<lparr>sp_start = pos, sp_end = hi\<rparr> b =
     records_of \<lparr>sp_start = pos div buffer_unit b * buffer_unit b, sp_end = hi\<rparr> b"
  by (cases "buffer_unit b = 0") (simp_all add: records_of_def)

lemma lookup_data_spec:
  assumes inv: "buffer_inv st b" and look: "buffer_lookup pos b = LookupData hi m d"
  defines "s \<equiv> \<lparr>sp_start = pos div buffer_unit b * buffer_unit b, sp_end = hi\<rparr>"
  shows "span_held s b" "sp_start s \<le> sp_end s"
    and "contains_flags (bm_flags m) DIGITAL_SILENCE \<Longrightarrow> in_span s b q \<Longrightarrow> silent_at b q"
    and "pos \<le> x \<Longrightarrow> x < hi \<Longrightarrow> record_at b (x div buffer_unit b) \<noteq> None"
proof -
  let ?u = "buffer_unit b" and ?k = "pos div buffer_unit b"
  have u: "0 < ?u" by (rule buffer_unit_pos [OF inv])
  have ixinv: "index_inv (eb_index b)" using inv by (simp add: buffer_inv_def)
  obtain e where e: "index_lookup ?k (eb_index b) = LookupData e m d" "hi = e * ?u"
    using look by (auto simp: buffer_lookup_def Let_def split: lookup.splits)
  note spec = index_lookup_spec [OF ixinv, of ?k, unfolded e(1), simplified]
  have held: "\<exists>k d'. slot_at (eb_index b) q = Some (Held (meta_advanced m k ?u) d')" if "?k \<le> q" "q < e" for q
  proof (cases "q = ?k")
    case True
    have "slot_at (eb_index b) q = Some (Held m d)" using spec True by simp
    then show ?thesis using slot_meta_0 by (auto simp: slot_at_def buffer_unit_def intro!: exI [of _ 0])
  next
    case False
    then have "slot_at (eb_index b) q = Some (Held (meta_advanced m (q - ?k) (bi_unit (eb_index b))) False)"
      using spec that by auto
    then show ?thesis by (auto simp: buffer_unit_def)
  qed
  have q: "?k \<le> q \<and> q < e" if "in_span s b q" for q
    using that u by (auto simp: in_span_def s_def e(2))
  have rec: "record_at b q \<noteq> None" if "?k \<le> q" "q < e" for q
    using held [OF that] by (auto simp: record_at_def)
  show "span_held s b" using q rec by (auto simp: span_held_def s_def e(2))
  show "sp_start s \<le> sp_end s" using spec by (simp add: s_def e(2))
  show "contains_flags (bm_flags m) DIGITAL_SILENCE \<Longrightarrow> in_span s b q \<Longrightarrow> silent_at b q"
    using held q by (fastforce simp: silent_at_def)
  show "pos \<le> x \<Longrightarrow> x < hi \<Longrightarrow> record_at b (x div ?u) \<noteq> None"
    using rec [of "x div ?u"] u by (auto simp: e(2) div_le_mono less_mult_imp_div_less)
qed

lemma lookup_data_chunk:
  assumes src: "source_ok src" and look: "buffer_lookup pos (sc_buffer src) = LookupData hi m d"
  shows "\<exists>data. chunk_data_of \<lparr>sp_start = pos, sp_end = hi\<rparr> m (sc_packet src) (sc_buffer src) = Some data
     \<and> data_list data = records_of \<lparr>sp_start = pos, sp_end = hi\<rparr> (sc_buffer src)"
proof -
  let ?b = "sc_buffer src"
  let ?s = "\<lparr>sp_start = pos div buffer_unit ?b * buffer_unit ?b, sp_end = hi\<rparr>"
  have inv: "buffer_inv (sc_stream src) ?b" using src by (simp add: source_ok_def source_safe_def)
  note sp = lookup_data_spec [OF inv look]
  have agrees: "packet_agrees p s ?b" if p: "sc_packet src = Some p" and ring: "eb_records ?b = PcmRing ring"
      and has: "packet_has s p" and hs: "span_held s ?b" for p ring s
    unfolding packet_agrees_def
  proof (intro allI impI)
    fix q assume q: "in_span s ?b q"
    have one: "buffer_unit ?b = 1" "sc_stream src = Mic \<or> sc_stream src = Reference"
      using pcm_unit [OF inv ring] by auto
    obtain r where "record_at ?b q = Some r" using hs q by (auto simp: span_held_def)
    then show "record_at ?b q = Some (content_list (packet_content p) ! (q - unat (h_first_sample (p_header p))))"
      using src p q has one unfolding source_ok_def packet_matches_def packet_has_def in_span_def by force
  qed
  show ?thesis
  proof (cases "\<exists>ring. eb_records ?b = PcmRing ring")
    case True
    then obtain ring where ring: "eb_records ?b = PcmRing ring" by blast
    have al: "?s = \<lparr>sp_start = pos, sp_end = hi\<rparr>" using pcm_unit(1) [OF inv ring] by simp
    show ?thesis
      using chunk_data_records [OF inv sp(1,2) sp(3), where packet = "sc_packet src"] agrees [OF _ ring _ sp(1)] src
      unfolding al source_ok_def source_safe_def by blast
  next
    case False
    then have none: "chunk_data_of ?s m (sc_packet src) ?b = chunk_data_of ?s m None ?b"
      by (auto simp: chunk_data_of_def split: records.split)
    have "\<exists>data. chunk_data_of ?s m None ?b = Some data \<and> data_list data = records_of ?s ?b"
      by (rule chunk_data_records [OF inv sp(1,2) sp(3)]) simp_all
    then show ?thesis
      using chunk_data_of_align [of ?b pos hi m "sc_packet src"] False none records_of_align [of pos hi ?b] by auto
  qed
qed


lemma lookup_data_total:
  assumes src: "source_safe src" and look: "buffer_lookup pos (sc_buffer src) = LookupData hi m d"
  shows "\<exists>data. chunk_data_of \<lparr>sp_start = pos, sp_end = hi\<rparr> m (sc_packet src) (sc_buffer src) = Some data"
proof -
  let ?b = "sc_buffer src" and ?s = "\<lparr>sp_start = pos, sp_end = hi\<rparr>"
  let ?no = "src\<lparr>sc_packet := None\<rparr>"
  have inv: "buffer_inv (sc_stream src) ?b" using src by (simp add: source_safe_def)
  have "source_ok ?no" using inv by (simp add: source_ok_def source_safe_def)
  then have none: "\<exists>data. chunk_data_of ?s m None ?b = Some data"
    using lookup_data_chunk [of ?no pos hi m d] look by auto
  show ?thesis
  proof (cases "\<exists>ring p. eb_records ?b = PcmRing ring \<and> sc_packet src = Some p \<and> packet_has ?s p
      \<and> \<not> contains_flags (bm_flags m) DIGITAL_SILENCE")
    case True
    then obtain ring p where p: "eb_records ?b = PcmRing ring" "sc_packet src = Some p" "packet_has ?s p"
        "\<not> contains_flags (bm_flags m) DIGITAL_SILENCE" by blast
    obtain frame where "packet_parse frame = Inr p" "stream_of_kind (h_kind (p_header p)) = Some (sc_stream src)"
      using src p(2) by (auto simp: source_safe_def)
    moreover have "sp_start ?s \<le> sp_end ?s"
      using buffer_lookup_progress [OF buffer_unit_pos [OF inv], of pos hi] look by simp
    ultimately obtain bs where "bytes_slice ((pos - unat (h_first_sample (p_header p))) * 2)
        ((hi - unat (h_first_sample (p_header p))) * 2) (p_payload p) = Some bs"
      using packet_slice [OF _ _ pcm_unit(2) [OF inv p(1)] p(3)] by fastforce
    then show ?thesis using p by (simp add: chunk_data_of_def)
  next
    case False
    then have "chunk_data_of ?s m (sc_packet src) ?b = chunk_data_of ?s m None ?b"
      by (auto simp: chunk_data_of_def split: records.splits option.splits)
    then show ?thesis using none by simp
  qed
qed

lemma lookup_missing_spec:
  assumes inv: "buffer_inv st b"
  shows "buffer_lookup pos b = LookupMissing hi \<Longrightarrow> pos \<le> x \<Longrightarrow> x < hi \<Longrightarrow> record_at b (x div buffer_unit b) = None"
    and "buffer_lookup pos b = LookupEvicted hi \<Longrightarrow> pos \<le> x \<Longrightarrow> x < hi \<Longrightarrow> record_at b (x div buffer_unit b) = None"
    and "buffer_lookup pos b = LookupUnknown nk \<Longrightarrow> pos \<le> x \<Longrightarrow> (\<And>n. nk = Some n \<Longrightarrow> x < n) \<Longrightarrow>
      record_at b (x div buffer_unit b) = None"
proof -
  let ?u = "buffer_unit b" and ?k = "pos div buffer_unit b"
  have u: "0 < ?u" by (rule buffer_unit_pos [OF inv])
  have ixinv: "index_inv (eb_index b)" using inv by (simp add: buffer_inv_def)
  note spec = index_lookup_spec [OF ixinv, of ?k]
  have le: "?k \<le> x div ?u" if "pos \<le> x" using that by (rule div_le_mono)
  have lt: "x div ?u < e" if "x < e * ?u" for e using that u by (simp add: less_mult_imp_div_less)
  show "buffer_lookup pos b = LookupMissing hi \<Longrightarrow> pos \<le> x \<Longrightarrow> x < hi \<Longrightarrow> record_at b (x div ?u) = None"
    using spec le lt by (auto simp: buffer_lookup_def Let_def record_at_def split: lookup.splits)
  show "buffer_lookup pos b = LookupEvicted hi \<Longrightarrow> pos \<le> x \<Longrightarrow> x < hi \<Longrightarrow> record_at b (x div ?u) = None"
    using spec le lt slot_below_floor [of "eb_index b" "x div ?u"] ixinv
    by (auto simp: buffer_lookup_def Let_def record_at_def index_inv_pre split: lookup.splits)
  show "buffer_lookup pos b = LookupUnknown nk \<Longrightarrow> pos \<le> x \<Longrightarrow> (\<And>n. nk = Some n \<Longrightarrow> x < n) \<Longrightarrow>
      record_at b (x div ?u) = None"
    using spec le lt by (auto simp: buffer_lookup_def Let_def record_at_def split: lookup.splits option.splits)
qed

lemma release_unknown_body:
  "release_unknown c src config now pos nk = Emit hi body \<Longrightarrow> \<exists>cause. body = BodyMissing cause"
  by (auto simp: release_unknown_def release_stall_def Let_def split: if_splits option.splits)

lemma release_step_true:
  assumes src: "source_ok src" and step: "release_step c src config now pos = Emit hi body"
    and ck: "ck_span ck = \<lparr>sp_start = pos, sp_end = hi\<rparr>" "ck_body ck = body"
  shows "chunk_true (sc_buffer src) ck"
proof -
  let ?b = "sc_buffer src"
  have inv: "buffer_inv (sc_stream src) ?b" using src by (simp add: source_ok_def source_safe_def)
  have u: "buffer_unit ?b \<noteq> 0" using buffer_unit_pos [OF inv] by simp
  note miss = lookup_missing_spec [OF inv]
  show ?thesis
  proof (cases "buffer_lookup pos ?b")
    case (LookupData e m d)
    obtain data where "chunk_data_of \<lparr>sp_start = pos, sp_end = e\<rparr> m (sc_packet src) ?b = Some data"
        "data_list data = records_of \<lparr>sp_start = pos, sp_end = e\<rparr> ?b"
      using lookup_data_chunk [OF src LookupData] by blast
    then have "body = BodyData m d data" "hi = e" "data_list data = records_of \<lparr>sp_start = pos, sp_end = e\<rparr> ?b"
      using step LookupData u by (auto simp: release_step_def)
    then show ?thesis
      using ck lookup_data_spec(4) [OF inv LookupData] by (simp add: chunk_true_def)
  next
    case (LookupUnknown nk)
    then have un: "release_unknown c src config now pos nk = Emit hi body" using step u by (simp add: release_step_def)
    obtain cause where b: "body = BodyMissing cause" using release_unknown_body [OF un] by blast
    have "lookup_stop (buffer_lookup pos ?b) = nk" by (simp add: LookupUnknown)
    then have "hi \<le> n" if "nk = Some n" for n
      using release_unknown_Emit [OF un] that buffer_lookup_progress [of ?b pos n] buffer_lookup_bound [of pos ?b n] u
      by (auto simp: release_bound_def)
    then show ?thesis using miss(3) [OF LookupUnknown] ck b by (force simp: chunk_true_def)
  qed (use step u ck miss in \<open>auto simp: release_step_def chunk_true_def\<close>)
qed

lemma release_step_no_panic:
  assumes src: "source_safe src"
  shows "release_step c src config now pos \<noteq> Panic"
proof -
  let ?b = "sc_buffer src"
  have u: "buffer_unit ?b \<noteq> 0" using buffer_unit_pos src by (auto simp: source_safe_def)
  show ?thesis
  proof (cases "buffer_lookup pos ?b")
    case (LookupData e m d)
    then show ?thesis using lookup_data_total [OF src LookupData] u by (auto simp: release_step_def)
  qed (use u in \<open>auto simp: release_step_def release_unknown_def release_stall_def Let_def split: option.splits\<close>)
qed

lemma release_step_waits:
  assumes "release_step c src config now pos = Halt c'"
  shows "waits_at src c' pos"
  using assms
  by (auto simp: waits_at_def release_step_def release_unknown_def release_stall_def Let_def or_zero_def
      split: if_splits option.splits lookup.splits)

lemma push_over: "push d ob = (ob', within) \<Longrightarrow> over_bounds (delivery_subscription d) ob' \<longleftrightarrow> \<not> within"
  by (auto simp: push_def Let_def over_bounds_def)

lemma release_result_Cons:
  assumes "push (DeliverChunk ck) ob = (ob1, w)" "ck_span ck = \<lparr>sp_start = pos, sp_end = hi\<rparr>" "pos < hi"
    and "source_ok src \<longrightarrow> chunk_true (sc_buffer src) ck" "chunk_header src sub generation ck"
    and "release_result src sub generation (c\<lparr>cu_pos := Some hi, cu_stalled_since := None\<rparr>) hi ob1 c' ob' ok cs"
  shows "release_result src sub generation c pos ob c' ob' ok (ck # cs)"
proof -
  have ob1: "ob_queue ob1 = ob_queue ob @ [DeliverChunk ck]" "outbox_ok ob \<Longrightarrow> outbox_ok ob1"
      "ob_max_bytes ob1 = ob_max_bytes ob" "ob_max_deliveries ob1 = ob_max_deliveries ob"
    using assms(1) push_ok [of ob "DeliverChunk ck"] by (auto simp: push_def Let_def)
  obtain pos' st where "follows hi pos' cs"
      "c' = c\<lparr>cu_pos := Some pos', cu_stalled_since := st\<rparr>" "if ok then waits_at src c' pos' else over_bounds sub ob'"
    using assms(6) unfolding release_result_def by auto
  then show ?thesis
    using assms(2-6) ob1 unfolding release_result_def by (auto intro!: exI [of _ pos'] exI [of _ st])
qed

lemma release_loop_spec:
  assumes src: "source_safe src" and pos: "cu_pos c = Some pos"
  shows "\<exists>c' ob' ok cs. release_loop src sub generation config now c pos ob = Some (c', ob', ok)
     \<and> release_result src sub generation c pos ob c' ob' ok cs"
  using pos src
proof (induction src sub generation config now c pos ob rule: release_loop.induct)
  case (1 src sub generation config now c pos ob)
  note pos = "1.prems"(1) and src = "1.prems"(2)
  show ?case
  proof (cases "release_step c src config now pos")
    case Panic
    then show ?thesis using release_step_no_panic [OF src] by blast
  next
    case (Halt c')
    obtain st where st: "c' = c\<lparr>cu_stalled_since := st\<rparr>" using release_step_Halt [OF Halt] by blast
    have "c' = c\<lparr>cu_pos := Some pos, cu_stalled_since := st\<rparr>" using pos st by (cases c) simp
    then have "release_result src sub generation c pos ob c' ob True []"
      using release_step_waits [OF Halt] unfolding release_result_def by auto
    then show ?thesis using Halt by (subst release_loop.simps) auto
  next
    case (Emit hi body)
    define ck where "ck = \<lparr>ck_subscription = sub, ck_generation = generation, ck_stream = sc_stream src,
        ck_epoch = sc_epoch src, ck_span = \<lparr>sp_start = pos, sp_end = hi\<rparr>, ck_body = body\<rparr>"
    let ?c = "c\<lparr>cu_pos := Some hi, cu_stalled_since := None\<rparr>"
    obtain ob1 w where push: "push (DeliverChunk ck) ob = (ob1, w)" by fastforce
    have ck: "source_ok src \<longrightarrow> chunk_true (sc_buffer src) ck" "chunk_header src sub generation ck"
        "ck_span ck = \<lparr>sp_start = pos, sp_end = hi\<rparr>" "pos < hi"
      using release_step_true [OF _ Emit, of ck] release_step_Emit(1) [OF Emit]
      by (simp_all add: ck_def chunk_header_def)
    note cons = release_result_Cons [OF push ck(3,4,1,2)]
    show ?thesis
    proof (cases w)
      case True
      obtain c' ob' ok cs where rec: "release_loop src sub generation config now ?c hi ob1 = Some (c', ob', ok)"
          "release_result src sub generation ?c hi ob1 c' ob' ok cs"
        using "1.IH" [OF Emit ck_def refl push [symmetric] refl _ _ src] True by auto
      have "release_loop src sub generation config now c pos ob = Some (c', ob', ok)"
        using Emit push True rec(1) by (subst release_loop.simps) (simp add: ck_def [symmetric])
      then show ?thesis using cons [OF rec(2)] by blast
    next
      case False
      have "over_bounds sub ob1" using push_over [OF push] False by (simp add: ck_def)
      then have "release_result src sub generation ?c hi ob1 ?c ob1 False []"
        unfolding release_result_def by auto
      moreover have "release_loop src sub generation config now c pos ob = Some (?c, ob1, False)"
        using Emit push False by (subst release_loop.simps) (simp add: ck_def [symmetric])
      ultimately show ?thesis using cons by blast
    qed
  qed
qed

lemma release_spec:
  assumes "source_safe src"
  shows "\<exists>c' ob' ok. release c src sub generation ob config now = Some (c', ob', ok)
     \<and> (case cu_pos c of None \<Rightarrow> c' = c \<and> ob' = ob \<and> ok
        | Some pos \<Rightarrow> \<exists>cs. release_result src sub generation c pos ob c' ob' ok cs)"
  using release_loop_spec [OF assms, of c _ sub generation config now ob]
  by (cases "cu_pos c") (auto simp: release_def)

section \<open>Properties\<close>



end
