(* ===== verification/Uplink.thy ===== *)
theory Uplink
  imports Release
begin

text \<open>
  One session's audio subscriptions (\<open>Uplink\<close> in \<open>crates/uplink/src/uplink.rs\<close>): the whole state
  machine the device runtime drives with device reports, controller decisions and time. A
  \<open>BTreeMap\<close> of streams is an association list sorted by stream. A fresh subscription ID, a random
  UUID in the source, is an argument of the operations that open one. Operations that release
  audio return \<open>None\<close> for a panic.
\<close>

section \<open>State\<close>

record grant =
  gr_stream :: stream_id
  gr_grant :: backfill_grant

record candidate_open =
  co_subscription :: subscription_id
  co_capture_epoch :: nat
  co_support_start :: sample

record near_miss_open =
  no_near_miss_id :: owner
  no_capture_epoch :: nat
  no_support_start :: sample
  no_support_end :: sample

record opened =
  op_subscription :: subscription_id
  op_grants :: "grant list"

datatype ingested = Stored nat | Unwanted | ErasedEpoch | UnknownStreamEpoch | NotUplink

datatype open_error =
    OpenMuted
  | NoCaptureEpoch
  | StaleEpoch "nat option" nat
  | DuplicateId
  | NoStreams
  | AfeUnavailable
  | NearMissUnsupported

datatype command_error = UnknownSubscription | NotACandidate | Ending

record want =
  wn_stream :: stream_id
  wn_cursors :: "cursor list"

datatype phase = Active mono_instant | Draining uplink_ended mono_instant

record near_miss_plan =
  nm_mic_through :: nat
  nm_afe :: bool

record sub =
  sb_key :: sub_key
  sb_id :: subscription_id
  sb_owner :: owner
  sb_reason :: subscription_reason
  sb_generation :: generation
  sb_capture_epoch :: nat
  sb_wants :: "want list"
  sb_phase :: phase
  sb_near_miss :: "near_miss_plan option"
  sb_overflowed :: bool

record subscription_view =
  sv_id :: subscription_id
  sv_owner :: owner
  sv_reason :: subscription_reason
  sv_generation :: generation
  sv_capture_epoch :: nat
  sv_streams :: "stream_id list"
  sv_draining :: bool

record zombie =
  zb_key :: sub_key
  zb_id :: subscription_id
  zb_streams :: "(stream_id \<times> nat) list"
  zb_expires :: mono_instant

record uplink =
  up_config :: uplink_config
  up_terms :: session_terms
  up_timeline :: timeline
  up_muted :: bool
  up_subs :: "sub list"
  up_zombies :: "zombie list"
  up_next_key :: nat
  up_commands :: "outgoing list"
  up_outbox :: outbox

datatype leaves = LeavesZombie | LeavesGone

definition uplink_new :: "uplink_config \<Rightarrow> session_terms \<Rightarrow> bool \<Rightarrow> uplink" where
  "uplink_new config terms muted =
     \<lparr>up_config = config, up_terms = terms, up_timeline = timeline_new config, up_muted = muted,
      up_subs = [], up_zombies = [], up_next_key = 0, up_commands = [],
      up_outbox = \<lparr>ob_queue = [], ob_accounts = Map.empty,
                   ob_max_bytes = uc_max_backlog_bytes config,
                   ob_max_deliveries = uc_max_backlog_deliveries config\<rparr>\<rparr>"

section \<open>Subscriptions\<close>

text \<open>\<open>iter().position(P)\<close>, and the first element that satisfies \<open>P\<close> changed in place.\<close>

fun update_first :: "('a \<Rightarrow> bool) \<Rightarrow> ('a \<Rightarrow> 'a) \<Rightarrow> 'a list \<Rightarrow> 'a list" where
  "update_first P f [] = []"
| "update_first P f (x # xs) = (if P x then f x # xs else x # update_first P f xs)"

fun is_active :: "phase \<Rightarrow> bool" where
  "is_active (Active _) = True"
| "is_active (Draining _ _) = False"

definition wants_on :: "stream_id \<Rightarrow> nat \<Rightarrow> sub \<Rightarrow> bool" where
  "wants_on stream epoch s \<longleftrightarrow>
     (\<exists>w \<in> set (sb_wants s). wn_stream w = stream \<and> (\<exists>c \<in> set (wn_cursors w). cu_epoch c = epoch))"

definition sub_position :: "stream_id \<Rightarrow> sub \<Rightarrow> nat option" where
  "sub_position stream s =
     (case find (\<lambda>w. wn_stream w = stream) (sb_wants s) of
        None \<Rightarrow> None
      | Some w \<Rightarrow> if wn_cursors w = [] then None else cu_pos (last (wn_cursors w)))"

definition near_miss_done :: "sub \<Rightarrow> bool" where
  "near_miss_done s \<longleftrightarrow>
     (case sb_near_miss s of
        None \<Rightarrow> False
      | Some plan \<Rightarrow>
          (case sub_position Mic s of
             None \<Rightarrow> False
           | Some mic \<Rightarrow>
               mic \<ge> nm_mic_through plan
               \<and> (\<not> nm_afe plan
                  \<or> (case sub_position AfeStream s of Some afe \<Rightarrow> afe \<ge> nm_mic_through plan | None \<Rightarrow> False)
                  \<or> mic \<ge> nm_mic_through plan + NEAR_MISS_GRACE)))"

definition sub_view :: "sub \<Rightarrow> subscription_view" where
  "sub_view s =
     \<lparr>sv_id = sb_id s, sv_owner = sb_owner s, sv_reason = sb_reason s, sv_generation = sb_generation s,
      sv_capture_epoch = sb_capture_epoch s, sv_streams = map wn_stream (sb_wants s),
      sv_draining = (\<not> is_active (sb_phase s))\<rparr>"

definition find_cursor :: "want list \<Rightarrow> stream_id \<Rightarrow> nat \<Rightarrow> cursor option" where
  "find_cursor wants stream epoch =
     (case find (\<lambda>w. wn_stream w = stream) wants of
        None \<Rightarrow> None
      | Some w \<Rightarrow> find (\<lambda>c. cu_epoch c = epoch) (wn_cursors w))"

text \<open>Writing back through the reference \<open>find_cursor\<close> returns.\<close>

definition set_cursor :: "stream_id \<Rightarrow> nat \<Rightarrow> (cursor \<Rightarrow> cursor) \<Rightarrow> want list \<Rightarrow> want list" where
  "set_cursor stream epoch f wants =
     update_first (\<lambda>w. wn_stream w = stream)
       (\<lambda>w. w\<lparr>wn_cursors := update_first (\<lambda>c. cu_epoch c = epoch) f (wn_cursors w)\<rparr>) wants"

definition subscription :: "subscription_id \<Rightarrow> uplink \<Rightarrow> subscription_view option" where
  "subscription sid u = map_option sub_view (find (\<lambda>s. sb_id s = sid) (up_subs u))"

definition subscriptions :: "uplink \<Rightarrow> subscription_view list" where
  "subscriptions u = map sub_view (up_subs u)"

definition diagnostic_live :: "uplink \<Rightarrow> bool" where
  "diagnostic_live u \<longleftrightarrow>
     (\<exists>s \<in> set (up_subs u). sb_reason s = SubDiagnostic \<and> is_active (sb_phase s))"

definition take_commands :: "uplink \<Rightarrow> uplink \<times> outgoing list" where
  "take_commands u = (u\<lparr>up_commands := []\<rparr>, up_commands u)"

definition uplink_drain :: "delivery list \<Rightarrow> uplink \<Rightarrow> (uplink \<times> delivery list) option" where
  "uplink_drain out u =
     map_option (\<lambda>(ob, out'). (u\<lparr>up_outbox := ob\<rparr>, out')) (drain out (up_outbox u))"

definition backlog_of :: "subscription_id \<Rightarrow> uplink \<Rightarrow> backlog option" where
  "backlog_of sid u = map_option at_backlog (ob_accounts (up_outbox u) sid)"

definition delivered_of :: "subscription_id \<Rightarrow> uplink \<Rightarrow> accounting option" where
  "delivered_of sid u = map_option at_delivered (ob_accounts (up_outbox u) sid)"

section \<open>Ending subscriptions\<close>

definition ended_of :: "sub \<Rightarrow> end_cause \<Rightarrow> ended" where
  "ended_of s cause =
     \<lparr>en_subscription = sb_id s, en_owner = sb_owner s, en_reason = sb_reason s,
      en_generation = sb_generation s, en_cause = cause\<rparr>"

definition push_ended :: "sub \<Rightarrow> end_cause \<Rightarrow> uplink \<Rightarrow> uplink" where
  "push_ended s cause u =
     u\<lparr>up_outbox := fst (push (DeliverEnded (ended_of s cause)) (up_outbox u))\<rparr>"

definition retain_commands :: "subscription_id \<Rightarrow> uplink \<Rightarrow> uplink" where
  "retain_commands sid u =
     u\<lparr>up_commands := filter (\<lambda>c. command_subscription (og_command c) \<noteq> sid) (up_commands u)\<rparr>"

definition drop_key :: "sub_key \<Rightarrow> uplink \<Rightarrow> uplink" where
  "drop_key key u = u\<lparr>up_timeline := drop_claims key (up_timeline u)\<rparr>"

definition end_all :: "end_cause \<Rightarrow> uplink \<Rightarrow> uplink" where
  "end_all cause u =
     (let u1 = fold (\<lambda>s v. push_ended s cause (retain_commands (sb_id s) (drop_key (sb_key s) v)))
                 (up_subs u) (u\<lparr>up_subs := []\<rparr>)
      in fold (\<lambda>z v. drop_key (zb_key z) v) (up_zombies u1) (u1\<lparr>up_zombies := []\<rparr>))"

definition zombie_of :: "uplink_config \<Rightarrow> mono_instant \<Rightarrow> sub \<Rightarrow> zombie" where
  "zombie_of config now s =
     \<lparr>zb_key = sb_key s, zb_id = sb_id s,
      zb_streams = concat (map (\<lambda>w. map (\<lambda>c. (wn_stream w, cu_epoch c)) (wn_cursors w)) (sb_wants s)),
      zb_expires = mono_after now (SUBSCRIPTION_TTL + uc_hole_wait config)\<rparr>"

definition end_sub :: "nat \<Rightarrow> end_cause \<Rightarrow> leaves \<Rightarrow> mono_instant \<Rightarrow> uplink \<Rightarrow> uplink" where
  "end_sub at cause leaves now u =
     (let s = up_subs u ! at;
          u1 = u\<lparr>up_subs := remove_nth at (up_subs u)\<rparr>;
          u2 = (case leaves of
             LeavesZombie \<Rightarrow> u1\<lparr>up_zombies := up_zombies u1 @ [zombie_of (up_config u1) now s]\<rparr>
           | LeavesGone \<Rightarrow> retain_commands (sb_id s) (drop_key (sb_key s) u1))
      in push_ended s cause u2)"

definition send :: "generation \<Rightarrow> uplink_command \<Rightarrow> uplink \<Rightarrow> uplink" where
  "send generation command u =
     u\<lparr>up_commands := up_commands u @ [\<lparr>og_generation = generation, og_command = command\<rparr>]\<rparr>"

definition close_at :: "nat \<Rightarrow> close_reason \<Rightarrow> end_cause \<Rightarrow> mono_instant \<Rightarrow> uplink \<Rightarrow> uplink" where
  "close_at at reason cause now u =
     (let s = up_subs u ! at in
      if is_active (sb_phase s) then
        end_sub at cause LeavesZombie now
          (send (sb_generation s) (CmdClose \<lparr>ul_subscription = sb_id s, ul_reason = reason\<rparr>) u)
      else end_sub at cause LeavesGone now u)"

text \<open>The chunk a drain that ran out declares missing for one cursor, if it owes anything.\<close>

definition give_up_cursor :: "sub \<Rightarrow> stream_id \<Rightarrow> cursor \<Rightarrow> outbox \<Rightarrow> cursor \<times> outbox" where
  "give_up_cursor s stream c ob =
     (case (cu_pos c, cu_target c) of
        (Some pos, Some target) \<Rightarrow>
          if pos \<ge> target then (c, ob)
          else (c\<lparr>cu_pos := Some target\<rparr>,
                fst (push (DeliverChunk
                  \<lparr>ck_subscription = sb_id s, ck_generation = sb_generation s, ck_stream = stream,
                   ck_epoch = cu_epoch c, ck_span = \<lparr>sp_start = pos, sp_end = target\<rparr>,
                   ck_body = BodyMissing CauseTimedOut\<rparr>) ob))
      | _ \<Rightarrow> (c, ob))"

fun give_up_cursors :: "sub \<Rightarrow> stream_id \<Rightarrow> cursor list \<Rightarrow> outbox \<Rightarrow> cursor list \<times> outbox" where
  "give_up_cursors s stream [] ob = ([], ob)"
| "give_up_cursors s stream (c # cs) ob =
     (let (c', ob1) = give_up_cursor s stream c ob; (cs', ob2) = give_up_cursors s stream cs ob1
      in (c' # cs', ob2))"

fun give_up_wants :: "sub \<Rightarrow> want list \<Rightarrow> outbox \<Rightarrow> want list \<times> outbox" where
  "give_up_wants s [] ob = ([], ob)"
| "give_up_wants s (w # ws) ob =
     (let (cs, ob1) = give_up_cursors s (wn_stream w) (wn_cursors w) ob;
          (ws', ob2) = give_up_wants s ws ob1
      in (w\<lparr>wn_cursors := cs\<rparr> # ws', ob2))"

definition give_up_drain :: "nat \<Rightarrow> uplink \<Rightarrow> uplink" where
  "give_up_drain at u =
     (let s = up_subs u ! at; (ws, ob) = give_up_wants s (sb_wants s) (up_outbox u)
      in u\<lparr>up_subs := (up_subs u)[at := s\<lparr>sb_wants := ws\<rparr>], up_outbox := ob\<rparr>)"

definition drained :: "sub \<Rightarrow> bool" where
  "drained s \<longleftrightarrow> (\<forall>w \<in> set (sb_wants s). \<forall>c \<in> set (wn_cursors w). cursor_done c)"

text \<open>What \<open>settle_subs\<close> does at one position: the subscription ends, or the loop moves on.\<close>

definition settle_at :: "nat \<Rightarrow> mono_instant \<Rightarrow> uplink \<Rightarrow> uplink option" where
  "settle_at at now u =
     (let s = up_subs u ! at in
      if sb_overflowed s then Some (close_at at CloseClosed EndOverflow now u)
      else case sb_phase s of
        Draining report deadline \<Rightarrow>
          if drained s \<or> deadline \<le> now
          then Some (end_sub at (EndDevice report) LeavesGone now
                       (if drained s then u else give_up_drain at u))
          else None
      | Active _ \<Rightarrow>
          if near_miss_done s
          then Some (close_at at CloseClosed (EndClosed CloseClosed) now u)
          else None)"

lemma push_ended_subs [simp]: "up_subs (push_ended s cause u) = up_subs u"
  by (simp add: push_ended_def)

lemma end_sub_subs: "up_subs (end_sub at cause leaves now u) = remove_nth at (up_subs u)"
  by (simp add: end_sub_def Let_def retain_commands_def drop_key_def split: leaves.split)

lemma close_at_subs: "up_subs (close_at at reason cause now u) = remove_nth at (up_subs u)"
  by (simp add: close_at_def Let_def end_sub_subs send_def)

lemma settle_at_length:
  assumes "settle_at at now u = Some u'" "at < length (up_subs u)"
  shows "length (up_subs u') = length (up_subs u) - 1"
proof -
  have g: "length (up_subs (give_up_drain at u)) = length (up_subs u)"
    by (simp add: give_up_drain_def Let_def split: prod.split)
  show ?thesis
    using assms g
    by (auto simp: settle_at_def Let_def close_at_subs end_sub_subs length_remove_nth
        split: if_splits phase.splits)
qed

function settle_from :: "nat \<Rightarrow> mono_instant \<Rightarrow> uplink \<Rightarrow> uplink" where
  "settle_from at now u =
     (if at < length (up_subs u) then
        (case settle_at at now u of
           Some u' \<Rightarrow> settle_from at now u'
         | None \<Rightarrow> settle_from (Suc at) now u)
      else u)"
  by pat_completeness auto

termination settle_from
  by (relation "measure (\<lambda>(at, now, u). length (up_subs u) - at)") (auto simp: settle_at_length)

declare settle_from.simps [simp del]

definition settle_subs :: "mono_instant \<Rightarrow> uplink \<Rightarrow> uplink" where
  "settle_subs now u = settle_from 0 now u"

section \<open>Releasing for every subscription\<close>

definition source_of :: "stream_id \<Rightarrow> packet option \<Rightarrow> epoch_stream \<Rightarrow> source" where
  "source_of stream packet held =
     \<lparr>sc_buffer = ep_buffer held, sc_live_end = tk_live_end (ep_track held), sc_packet = packet,
      sc_stream = stream, sc_epoch = ep_epoch held\<rparr>"

fun release_cursors ::
    "timeline \<Rightarrow> uplink_config \<Rightarrow> mono_instant \<Rightarrow> sub \<Rightarrow> stream_id \<Rightarrow> cursor list \<Rightarrow> outbox
     \<Rightarrow> (cursor list \<times> outbox \<times> bool) option" where
  "release_cursors t config now s stream [] ob = Some ([], ob, True)"
| "release_cursors t config now s stream (c # cs) ob =
     (case (case timeline_get stream (cu_epoch c) t of
              None \<Rightarrow> Some (c, ob, True)
            | Some held \<Rightarrow> release c (source_of stream None held) (sb_id s) (sb_generation s) ob config now) of
        None \<Rightarrow> None
      | Some (c', ob1, ok) \<Rightarrow>
          map_option (\<lambda>(cs', ob2, ok'). (c' # cs', ob2, ok \<and> ok'))
            (release_cursors t config now s stream cs ob1))"

fun release_wants ::
    "timeline \<Rightarrow> uplink_config \<Rightarrow> mono_instant \<Rightarrow> sub \<Rightarrow> want list \<Rightarrow> outbox
     \<Rightarrow> (want list \<times> outbox \<times> bool) option" where
  "release_wants t config now s [] ob = Some ([], ob, True)"
| "release_wants t config now s (w # ws) ob =
     (case release_cursors t config now s (wn_stream w) (wn_cursors w) ob of
        None \<Rightarrow> None
      | Some (cs, ob1, ok) \<Rightarrow>
          map_option (\<lambda>(ws', ob2, ok'). (w\<lparr>wn_cursors := cs\<rparr> # ws', ob2, ok \<and> ok'))
            (release_wants t config now s ws ob1))"

text \<open>The loop over the subscriptions, for any change of one subscription that may queue deliveries.\<close>

fun for_subs :: "(sub \<Rightarrow> outbox \<Rightarrow> (sub \<times> outbox) option) \<Rightarrow> sub list \<Rightarrow> outbox \<Rightarrow> (sub list \<times> outbox) option" where
  "for_subs f [] ob = Some ([], ob)"
| "for_subs f (s # ss) ob =
     (case f s ob of
        None \<Rightarrow> None
      | Some (s', ob1) \<Rightarrow> map_option (\<lambda>(ss', ob2). (s' # ss', ob2)) (for_subs f ss ob1))"

definition with_subs :: "(sub \<Rightarrow> outbox \<Rightarrow> (sub \<times> outbox) option) \<Rightarrow> uplink \<Rightarrow> uplink option" where
  "with_subs f u =
     map_option (\<lambda>(ss, ob). u\<lparr>up_subs := ss, up_outbox := ob\<rparr>) (for_subs f (up_subs u) (up_outbox u))"

definition note_overflow :: "bool \<Rightarrow> sub \<Rightarrow> sub" where
  "note_overflow ok s = (if ok then s else s\<lparr>sb_overflowed := True\<rparr>)"

definition release_sub ::
    "timeline \<Rightarrow> uplink_config \<Rightarrow> mono_instant \<Rightarrow> sub \<Rightarrow> outbox \<Rightarrow> (sub \<times> outbox) option" where
  "release_sub t config now s ob =
     map_option (\<lambda>(ws, ob', ok). (note_overflow ok (s\<lparr>sb_wants := ws\<rparr>), ob'))
       (release_wants t config now s (sb_wants s) ob)"

definition release_all :: "mono_instant \<Rightarrow> uplink \<Rightarrow> uplink option" where
  "release_all now u = with_subs (release_sub (up_timeline u) (up_config u) now) u"

section \<open>Device reports\<close>

definition restart_reference :: "nat \<Rightarrow> sub \<Rightarrow> sub" where
  "restart_reference epoch s =
     (if is_active (sb_phase s) then
        s\<lparr>sb_wants := update_first (\<lambda>w. wn_stream w = Reference)
             (\<lambda>w. if \<exists>c \<in> set (wn_cursors w). cu_epoch c = epoch then w
                  else w\<lparr>wn_cursors := wn_cursors w @ [cursor_new epoch SpecLive]\<rparr>) (sb_wants s)\<rparr>
      else s)"

definition stream_opened :: "stream_open \<Rightarrow> uplink \<Rightarrow> uplink" where
  "stream_opened open u =
     (let stream = so_stream open; epoch = so_epoch open in
      if is_erased stream epoch (up_timeline u) then u
      else if stream = Reference then
        u\<lparr>up_timeline := timeline_ensure stream epoch (set_reference (Some epoch) (up_timeline u)),
          up_subs := map (restart_reference epoch) (up_subs u)\<rparr>
      else
        let u1 = (if tl_capture (up_timeline u) \<noteq> Some epoch
                  then (let v = end_all EndCaptureEpoch u
                        in v\<lparr>up_timeline := set_capture (Some epoch) (up_timeline v)\<rparr>)
                  else u)
        in u1\<lparr>up_timeline := timeline_ensure stream epoch (up_timeline u1)\<rparr>)"

text \<open>The end of a reference epoch for one subscription: its cursor there is closed.\<close>

definition end_reference ::
    "source \<Rightarrow> uplink_config \<Rightarrow> mono_instant \<Rightarrow> stream_end \<Rightarrow> sub \<Rightarrow> outbox \<Rightarrow> (sub \<times> outbox) option" where
  "end_reference src config now e s ob =
     (case find (\<lambda>w. wn_stream w = se_stream e) (sb_wants s) of
        None \<Rightarrow> Some (s, ob)
      | Some w \<Rightarrow>
          (case position (\<lambda>c. cu_epoch c = se_epoch e) (wn_cursors w) of
             None \<Rightarrow> Some (s, ob)
           | Some at \<Rightarrow>
               (let c = (wn_cursors w ! at)\<lparr>cu_target := None\<rparr>;
                    c = (if cu_pos c \<noteq> None then settle (se_final_sample e) CauseNotSent c else c);
                    s' = s\<lparr>sb_wants := update_first (\<lambda>w. wn_stream w = se_stream e)
                             (\<lambda>w. w\<lparr>wn_cursors := remove_nth at (wn_cursors w)\<rparr>) (sb_wants s)\<rparr>
                in map_option (\<lambda>(_, ob', ok). (note_overflow ok s', ob'))
                     (release c src (sb_id s) (sb_generation s) ob config now))))"

definition stream_ended :: "stream_end \<Rightarrow> mono_instant \<Rightarrow> uplink \<Rightarrow> uplink option" where
  "stream_ended e now u =
     (let stream = se_stream e; epoch = se_epoch e in
      if stream \<noteq> Reference then
        Some (if tl_capture (up_timeline u) = Some epoch
              then (let v = end_all EndCaptureEpoch u
                    in v\<lparr>up_timeline := set_capture None (up_timeline v)\<rparr>)
              else u)
      else
        let u1 = (if tl_reference (up_timeline u) = Some epoch
                  then u\<lparr>up_timeline := set_reference None (up_timeline u)\<rparr> else u)
        in case timeline_get stream epoch (up_timeline u1) of
             None \<Rightarrow> Some u1
           | Some held \<Rightarrow>
               map_option (settle_subs now)
                 (with_subs (end_reference (source_of stream None held) (up_config u1) now e) u1))"

definition attribute_all ::
    "(sub_key \<times> attribution) list \<Rightarrow> stream_id \<Rightarrow> nat \<Rightarrow> sub list \<Rightarrow> sub list" where
  "attribute_all attributed stream epoch subs =
     fold (\<lambda>(key, a) ss. update_first (\<lambda>s. sb_key s = key)
             (\<lambda>s. s\<lparr>sb_wants := set_cursor stream epoch (attribute a stream) (sb_wants s)\<rparr>) ss)
       attributed subs"

definition feed ::
    "source \<Rightarrow> uplink_config \<Rightarrow> mono_instant \<Rightarrow> path \<Rightarrow> nat \<Rightarrow> sub \<Rightarrow> outbox \<Rightarrow> (sub \<times> outbox) option" where
  "feed src config now path first s ob =
     (case find_cursor (sb_wants s) (sc_stream src) (sc_epoch src) of
        None \<Rightarrow> Some (s, ob)
      | Some c \<Rightarrow>
          map_option (\<lambda>(c', ob', ok).
              (note_overflow ok (s\<lparr>sb_wants := set_cursor (sc_stream src) (sc_epoch src) (\<lambda>_. c') (sb_wants s)\<rparr>), ob'))
            (release (on_packet path first (sb_key s) (sc_stream src) c) src (sb_id s) (sb_generation s)
               ob config now))"

definition ingest :: "packet \<Rightarrow> mono_instant \<Rightarrow> uplink \<Rightarrow> (uplink \<times> ingested) option" where
  "ingest p now u =
     (let h = p_header p in
      case stream_of_kind (h_kind h) of
        None \<Rightarrow> Some (u, NotUplink)
      | Some stream \<Rightarrow>
          let epoch = unat (h_epoch h) in
          if is_erased stream epoch (up_timeline u) then Some (u, ErasedEpoch)
          else case timeline_get stream epoch (up_timeline u) of
            None \<Rightarrow> Some (u, UnknownStreamEpoch)
          | Some held \<Rightarrow>
              let first = unat (h_first_sample h);
                  (track, classified) = classify first (p_end_sample p)
                     (contains_flags (h_flags h) DISCONTINUITY) (ep_track held);
                  buffer = (case cf_missing classified of
                     Some sp \<Rightarrow> mark_missing sp (ep_buffer held) | None \<Rightarrow> ep_buffer held);
                  wanted = (\<exists>s \<in> set (up_subs u). wants_on stream epoch s);
                  (buffer', new_samples) = (if wanted then store p buffer else (buffer, 0));
                  held' = held\<lparr>ep_buffer := buffer', ep_track := track\<rparr>;
                  u1 = u\<lparr>up_timeline := timeline_update stream epoch (\<lambda>_. held') (up_timeline u),
                         up_subs := attribute_all (cf_attributed classified) stream epoch (up_subs u)\<rparr>
              in map_option (\<lambda>u2. (settle_subs now u2, if wanted then Stored new_samples else Unwanted))
                   (with_subs (feed (source_of stream (Some p) held') (up_config u) now (cf_path classified) first) u1))"

text \<open>\<open>map.get(stream).copied().flatten()\<close>\<close>

definition stream_sample :: "stream_id \<Rightarrow> (stream_id \<times> nat option) list \<Rightarrow> nat option" where
  "stream_sample stream m = (case map_of m stream of Some x \<Rightarrow> x | None \<Rightarrow> None)"

definition drain_cursor :: "nat option \<Rightarrow> nat option \<Rightarrow> cursor \<Rightarrow> cursor" where
  "drain_cursor last_sample clipped c =
     (let c = c\<lparr>cu_target := map_option (\<lambda>l. sat_add l 1) last_sample\<rparr> in
      case clipped of
        None \<Rightarrow> c
      | Some at \<Rightarrow>
          (case cu_pos c of
             Some _ \<Rightarrow> settle at CauseClipped c
           | None \<Rightarrow> c\<lparr>cu_pos := Some at\<rparr>)\<lparr>cu_mode := Ordered\<rparr>)"

definition drain_want :: "uplink_ended \<Rightarrow> want \<Rightarrow> want" where
  "drain_want report w =
     (if wn_cursors w = [] then w
      else w\<lparr>wn_cursors := butlast (wn_cursors w) @
        [drain_cursor (stream_sample (wn_stream w) (ue_last_sample report))
           (stream_sample (wn_stream w) (ue_clipped_start report)) (last (wn_cursors w))]\<rparr>)"

definition device_ended :: "uplink_ended \<Rightarrow> mono_instant \<Rightarrow> uplink \<Rightarrow> uplink option" where
  "device_ended report now u =
     (if \<exists>z \<in> set (up_zombies u). zb_id z = ue_subscription report then
        Some (u\<lparr>up_zombies := update_first (\<lambda>z. zb_id z = ue_subscription report)
          (\<lambda>z. z\<lparr>zb_expires := min (zb_expires z) (mono_after now (uc_hole_wait (up_config u)))\<rparr>)
          (up_zombies u)\<rparr>)
      else case position (\<lambda>s. sb_id s = ue_subscription report) (up_subs u) of
        None \<Rightarrow> Some u
      | Some at \<Rightarrow>
          let s = up_subs u ! at in
          if \<not> is_active (sb_phase s) then Some u
          else case ue_reason report of
            EndedMute \<Rightarrow>
              Some (end_sub at (EndDevice report) LeavesGone now
                (u\<lparr>up_outbox := discard_chunks_of (sb_id s) (up_outbox u)\<rparr>))
          | EndedEpoch \<Rightarrow> Some (end_sub at (EndDevice report) LeavesGone now u)
          | EndedSession \<Rightarrow> Some (end_sub at (EndDevice report) LeavesGone now u)
          | _ \<Rightarrow>
              map_option (settle_subs now)
                (release_all now (u\<lparr>up_subs := (up_subs u)[at :=
                   s\<lparr>sb_wants := map (drain_want report) (sb_wants s),
                     sb_phase := Draining report (mono_after now (uc_hole_wait (up_config u)))\<rparr>]\<rparr>)))"

text \<open>Every subscription ends with the same cause and leaves nothing behind.\<close>

definition end_every :: "end_cause \<Rightarrow> uplink \<Rightarrow> uplink" where
  "end_every cause u =
     fold (\<lambda>s v. push_ended s cause v) (up_subs u)
       (u\<lparr>up_outbox := discard_chunks (up_outbox u), up_commands := [], up_zombies := [], up_subs := []\<rparr>)"

definition mute :: "uplink \<Rightarrow> uplink" where
  "mute u =
     (let v = end_every EndMuted (u\<lparr>up_muted := True\<rparr>)
      in v\<lparr>up_timeline := timeline_erase (up_timeline v)\<rparr>)"

definition unmute :: "uplink \<Rightarrow> uplink" where
  "unmute u = u\<lparr>up_muted := False\<rparr>"

definition session_lost :: "uplink \<Rightarrow> uplink" where
  "session_lost u =
     (let v = end_every EndSessionLost u
      in v\<lparr>up_timeline := timeline_clear (up_timeline v)\<rparr>)"

section \<open>Controller decisions\<close>

definition check_open :: "nat option \<Rightarrow> uplink \<Rightarrow> (open_error, nat) result" where
  "check_open requested u =
     (if up_muted u then Inl OpenMuted
      else case (tl_capture (up_timeline u), requested) of
        (None, None) \<Rightarrow> Inl NoCaptureEpoch
      | (Some current, None) \<Rightarrow> Inr current
      | (current, Some requested) \<Rightarrow>
          if current \<noteq> Some requested then Inl (StaleEpoch current requested) else Inr requested)"

definition others_want :: "stream_id \<Rightarrow> nat \<Rightarrow> uplink \<Rightarrow> bool" where
  "others_want stream epoch u \<longleftrightarrow>
     (\<exists>s \<in> set (up_subs u). wants_on stream epoch s)
     \<or> (\<exists>z \<in> set (up_zombies u). (stream, epoch) \<in> set (zb_streams z))"

definition start_spec_of :: "stream_id \<Rightarrow> stream_start \<Rightarrow> start_spec" where
  "start_spec_of stream start =
     (case start of
        StartLive \<Rightarrow> SpecLive
      | StartAt at \<Rightarrow> (case device_grid_start stream at of None \<Rightarrow> SpecMapped | Some at \<Rightarrow> SpecAt at))"

definition activate_grants :: "nat \<Rightarrow> stream_id \<Rightarrow> start_spec \<Rightarrow> grant list" where
  "activate_grants capture stream spec =
     (if spec = SpecLive then []
      else [\<lparr>gr_stream = stream,
             gr_grant = (if stream = Reference then EveryOpenEpoch else GrantEpoch capture)\<rparr>])"

definition claim_run :: "sub_key \<Rightarrow> stream_id \<Rightarrow> nat \<Rightarrow> start_spec \<Rightarrow> uplink \<Rightarrow> uplink" where
  "claim_run key stream epoch spec u =
     (if spec = SpecLive then u
      else
        let c = \<lparr>cl_key = key, cl_fresh = (\<not> others_want stream epoch u),
                 cl_floor = (case spec of SpecAt at \<Rightarrow> Some at | _ \<Rightarrow> None)\<rparr>
        in u\<lparr>up_timeline := timeline_update stream epoch
               (\<lambda>e. e\<lparr>ep_track := track_claim c (ep_track e)\<rparr>)
               (timeline_ensure stream epoch (up_timeline u))\<rparr>)"

text \<open>The loop of \<open>activate\<close> over the wanted streams.\<close>

fun activate_streams ::
    "sub_key \<Rightarrow> nat \<Rightarrow> (stream_id \<times> stream_start) list \<Rightarrow> uplink \<Rightarrow> uplink \<times> grant list \<times> want list" where
  "activate_streams key capture [] u = (u, [], [])"
| "activate_streams key capture ((stream, start) # streams) u =
     (let spec = start_spec_of stream start;
          epoch = (if stream = Reference then tl_reference (up_timeline u) else Some capture);
          (u1, cursors) = (case epoch of
             Some e \<Rightarrow> (claim_run key stream e spec u, [cursor_new e spec])
           | None \<Rightarrow> (u, []));
          (u2, grants, wants) = activate_streams key capture streams u1
      in (u2, activate_grants capture stream spec @ grants,
          \<lparr>wn_stream = stream, wn_cursors = cursors\<rparr> # wants))"

definition activate ::
    "subscription_id \<Rightarrow> owner \<Rightarrow> subscription_reason \<Rightarrow> nat \<Rightarrow> (stream_id \<times> stream_start) list
     \<Rightarrow> near_miss_plan option \<Rightarrow> mono_instant \<Rightarrow> uplink \<Rightarrow> uplink \<times> grant list" where
  "activate sid owner reason capture streams near_miss now u =
     (let key = up_next_key u;
          (u1, grants, wants) = activate_streams key capture streams (u\<lparr>up_next_key := key + 1\<rparr>)
      in (u1\<lparr>up_subs := up_subs u1 @
               [\<lparr>sb_key = key, sb_id = sid, sb_owner = owner, sb_reason = reason,
                 sb_generation = GENERATION_FIRST, sb_capture_epoch = capture, sb_wants = wants,
                 sb_phase = Active (mono_after now RENEW_INTERVAL), sb_near_miss = near_miss,
                 sb_overflowed = False\<rparr>]\<rparr>,
          grants))"

text \<open>\<open>BTreeMap::insert\<close> on a sorted association list.\<close>

fun btree_insert :: "stream_id \<Rightarrow> 'v \<Rightarrow> (stream_id \<times> 'v) list \<Rightarrow> (stream_id \<times> 'v) list" where
  "btree_insert k v [] = [(k, v)]"
| "btree_insert k v ((k', v') # m) =
     (if k < k' then (k, v) # (k', v') # m
      else if k = k' then (k, v) # m
      else (k', v') # btree_insert k v m)"

definition btree_of :: "(stream_id \<times> 'v) list \<Rightarrow> (stream_id \<times> 'v) list" where
  "btree_of xs = fold (\<lambda>(k, v). btree_insert k v) xs []"

definition candidate_streams :: "candidate_starts \<Rightarrow> (stream_id \<times> stream_start) list" where
  "candidate_streams starts =
     (let streams = btree_of [(Mic, StartAt (cs_mic starts)), (CellStream, StartAt (cs_cells starts)),
                              (Reference, StartAt (cs_reference starts))]
      in case cs_afe starts of
           Some afe \<Rightarrow> btree_insert AfeStream (StartAt afe) streams
         | None \<Rightarrow> streams)"

definition accept_candidate ::
    "candidate_open \<Rightarrow> mono_instant \<Rightarrow> uplink \<Rightarrow> uplink \<times> (open_error, grant list) result" where
  "accept_candidate candidate now u =
     (case check_open (Some (co_capture_epoch candidate)) u of
        Inl e \<Rightarrow> (u, Inl e)
      | Inr capture \<Rightarrow>
          if \<exists>s \<in> set (up_subs u). sb_id s = co_subscription candidate then (u, Inl DuplicateId)
          else
            let starts = candidate_starts_new (co_support_start candidate) (st_afe_metadata (up_terms u));
                (u', grants) = activate (co_subscription candidate)
                   (owner_of_subscription (co_subscription candidate)) SubCandidate capture
                   (candidate_streams starts) None now u
            in (u', Inr grants))"

definition convert_to_turn ::
    "subscription_id \<Rightarrow> owner \<Rightarrow> mono_instant \<Rightarrow> uplink \<Rightarrow> uplink \<times> (command_error, unit) result" where
  "convert_to_turn sid turn now u =
     (case position (\<lambda>s. sb_id s = sid) (up_subs u) of
        None \<Rightarrow> (u, Inl UnknownSubscription)
      | Some at \<Rightarrow>
          let s = up_subs u ! at in
          if \<not> is_active (sb_phase s) then (u, Inl Ending)
          else if sb_reason s \<noteq> SubCandidate then (u, Inl NotACandidate)
          else
            let generation = generation_next (sb_generation s);
                s' = s\<lparr>sb_generation := generation, sb_reason := SubTurn, sb_owner := turn,
                       sb_phase := Active (mono_after now RENEW_INTERVAL)\<rparr>
            in (send generation (CmdRenew \<lparr>ur_subscription = sb_id s, ur_ttl = SUBSCRIPTION_TTL,
                                            ur_conversion = Some turn\<rparr>)
                  (u\<lparr>up_subs := (up_subs u)[at := s']\<rparr>), Inr ()))"

definition open_with ::
    "subscription_id \<Rightarrow> open_reason \<Rightarrow> owner \<Rightarrow> (stream_id \<times> stream_start) list \<Rightarrow> near_miss_plan option
     \<Rightarrow> mono_instant \<Rightarrow> uplink \<Rightarrow> uplink \<times> (open_error, opened) result" where
  "open_with fresh reason owner streams near_miss now u =
     (case check_open None u of
        Inl e \<Rightarrow> (u, Inl e)
      | Inr capture \<Rightarrow>
          if streams = [] then (u, Inl NoStreams)
          else if AfeStream \<in> fst ` set streams \<and> \<not> st_afe_metadata (up_terms u) then (u, Inl AfeUnavailable)
          else
            let (u1, grants) = activate fresh owner (reason_of_open reason) capture streams near_miss now u
            in (send GENERATION_FIRST
                  (CmdOpen \<lparr>uo_subscription = fresh, uo_owner = owner, uo_reason = reason,
                            uo_streams = streams, uo_ttl = SUBSCRIPTION_TTL\<rparr>) u1,
                Inr \<lparr>op_subscription = fresh, op_grants = grants\<rparr>))"

definition uplink_open_sub ::
    "subscription_id \<Rightarrow> open_reason \<Rightarrow> owner \<Rightarrow> (stream_id \<times> stream_start) list \<Rightarrow> mono_instant \<Rightarrow> uplink
     \<Rightarrow> uplink \<times> (open_error, opened) result" where
  "uplink_open_sub fresh reason owner streams now u =
     (if reason = OpenNearMiss \<and> \<not> st_near_miss (up_terms u) then (u, Inl NearMissUnsupported)
      else open_with fresh reason owner streams None now u)"

definition open_button_turn ::
    "subscription_id \<Rightarrow> owner \<Rightarrow> sample \<Rightarrow> mono_instant \<Rightarrow> uplink \<Rightarrow> uplink \<times> (open_error, opened) result" where
  "open_button_turn fresh turn press now u =
     uplink_open_sub fresh OpenTurn turn
       (candidate_streams (candidate_starts_new press (st_afe_metadata (up_terms u)))) now u"

definition open_reply ::
    "subscription_id \<Rightarrow> owner \<Rightarrow> sample \<Rightarrow> mono_instant \<Rightarrow> uplink \<Rightarrow> uplink \<times> (open_error, opened) result" where
  "open_reply fresh expectation cells_from now u =
     (let streams = btree_of [(Mic, StartLive), (Reference, StartLive), (CellStream, StartAt cells_from)];
          streams = (if st_afe_metadata (up_terms u) then btree_insert AfeStream StartLive streams else streams)
      in uplink_open_sub fresh OpenReply expectation streams now u)"

definition open_diagnostic ::
    "subscription_id \<Rightarrow> owner \<Rightarrow> mono_instant \<Rightarrow> uplink \<Rightarrow> uplink \<times> (open_error, opened) result" where
  "open_diagnostic fresh mode now u =
     (let streams = btree_of [(Mic, StartLive)];
          streams = (if st_afe_metadata (up_terms u) then btree_insert AfeStream StartLive streams else streams)
      in uplink_open_sub fresh OpenDiagnostic mode streams now u)"

definition open_response ::
    "subscription_id \<Rightarrow> owner \<Rightarrow> sample \<Rightarrow> sample option \<Rightarrow> mono_instant \<Rightarrow> uplink
     \<Rightarrow> uplink \<times> (open_error, opened) result" where
  "open_response fresh turn afe_from mic_from now u =
     (let streams = btree_of [(AfeStream, StartAt afe_from)];
          streams = (case mic_from of Some mic \<Rightarrow> btree_insert Mic (StartAt mic) streams | None \<Rightarrow> streams)
      in uplink_open_sub fresh OpenTurn turn streams now u)"

definition open_near_miss ::
    "subscription_id \<Rightarrow> near_miss_open \<Rightarrow> mono_instant \<Rightarrow> uplink \<Rightarrow> uplink \<times> (open_error, opened) result" where
  "open_near_miss fresh nm now u =
     (if \<not> st_near_miss (up_terms u) then (u, Inl NearMissUnsupported)
      else case check_open (Some (no_capture_epoch nm)) u of
        Inl e \<Rightarrow> (u, Inl e)
      | Inr _ \<Rightarrow>
          let mic = cs_mic (candidate_starts_new (no_support_start nm) False);
              streams = btree_of [(Mic, StartAt mic)];
              streams = (if st_afe_metadata (up_terms u)
                 then btree_insert AfeStream (StartAt (sample_sub (no_support_start nm) NEAR_MISS_AFE_LEAD)) streams
                 else streams);
              plan = \<lparr>nm_mic_through = sample_add (no_support_end nm) NEAR_MISS_TAIL + 1,
                      nm_afe = st_afe_metadata (up_terms u)\<rparr>
          in open_with fresh OpenNearMiss (no_near_miss_id nm) streams (Some plan) now u)"

definition uplink_close_sub ::
    "subscription_id \<Rightarrow> close_reason \<Rightarrow> mono_instant \<Rightarrow> uplink \<Rightarrow> uplink \<times> (command_error, unit) result" where
  "uplink_close_sub sid reason now u =
     (case position (\<lambda>s. sb_id s = sid) (up_subs u) of
        None \<Rightarrow> (u, Inl UnknownSubscription)
      | Some at \<Rightarrow> (close_at at reason (EndClosed reason) now u, Inr ()))"

definition command_rejected ::
    "subscription_id \<Rightarrow> generation \<Rightarrow> string option \<Rightarrow> mono_instant \<Rightarrow> uplink \<Rightarrow> uplink" where
  "command_rejected sid generation code now u =
     (case position (\<lambda>s. sb_id s = sid) (up_subs u) of
        None \<Rightarrow> u
      | Some at \<Rightarrow>
          let s = up_subs u ! at in
          if generation < sb_generation s \<or> \<not> is_active (sb_phase s) then u
          else end_sub at (EndRejected code) LeavesGone now u)"

section \<open>Time\<close>

fun renewal_due :: "mono_instant \<Rightarrow> phase \<Rightarrow> bool" where
  "renewal_due now (Active next_renewal) \<longleftrightarrow> next_renewal \<le> now"
| "renewal_due now (Draining _ _) \<longleftrightarrow> False"

definition renew :: "mono_instant \<Rightarrow> uplink \<Rightarrow> uplink" where
  "renew now u =
     u\<lparr>up_subs := map (\<lambda>s. if renewal_due now (sb_phase s)
            then s\<lparr>sb_phase := Active (mono_after now RENEW_INTERVAL)\<rparr> else s) (up_subs u),
       up_commands := up_commands u @
         map (\<lambda>s. \<lparr>og_generation = sb_generation s,
                   og_command = CmdRenew \<lparr>ur_subscription = sb_id s, ur_ttl = SUBSCRIPTION_TTL,
                                          ur_conversion = None\<rparr>\<rparr>)
           (filter (\<lambda>s. renewal_due now (sb_phase s)) (up_subs u))\<rparr>"

definition expire_zombies :: "mono_instant \<Rightarrow> uplink \<Rightarrow> uplink" where
  "expire_zombies now u =
     (let v = fold (\<lambda>z v. drop_key (zb_key z) v)
                (filter (\<lambda>z. \<not> zb_expires z > now) (up_zombies u)) u
      in v\<lparr>up_zombies := filter (\<lambda>z. zb_expires z > now) (up_zombies u)\<rparr>)"

definition poll :: "mono_instant \<Rightarrow> uplink \<Rightarrow> uplink option" where
  "poll now u =
     map_option (\<lambda>v. settle_subs now (expire_zombies now v)) (release_all now (renew now u))"

definition sub_deadlines :: "duration_ns \<Rightarrow> sub \<Rightarrow> mono_instant list" where
  "sub_deadlines wait s =
     (case sb_phase s of Active next_renewal \<Rightarrow> next_renewal | Draining _ deadline \<Rightarrow> deadline)
     # List.map_filter (stall_deadline wait) (concat (map wn_cursors (sb_wants s)))"

definition next_deadline :: "uplink \<Rightarrow> mono_instant option" where
  "next_deadline u =
     (let all = concat (map (sub_deadlines (uc_hole_wait (up_config u))) (up_subs u))
                @ map zb_expires (up_zombies u)
      in if all = [] then None else Some (Min (set all)))"

end
