(* ===== verification/Uplink_Laws.thy ===== *)
theory Uplink_Laws
  imports Uplink
begin

text \<open>
  What every operation of a session's uplink respects: the session invariant, that no operation
  panics, that each subscription is open or reported ended exactly once, and that a muted session
  has forgotten its audio.
\<close>

section \<open>Accounts, invariant and laws\<close>

text \<open>The end notices in a queue, and every subscription that is open or whose end is queued.\<close>

fun ended_id :: "delivery \<Rightarrow> subscription_id option" where
  "ended_id (DeliverEnded e) = Some (en_subscription e)"
| "ended_id (DeliverChunk c) = None"

definition ended_ids :: "delivery list \<Rightarrow> subscription_id list" where
  "ended_ids q = List.map_filter ended_id q"

definition accounted :: "uplink \<Rightarrow> subscription_id multiset" where
  "accounted u = mset (map sb_id (up_subs u)) + mset (ended_ids (ob_queue (up_outbox u)))"

definition sub_keys :: "uplink \<Rightarrow> sub_key list" where
  "sub_keys u = map sb_key (up_subs u) @ map zb_key (up_zombies u)"

text \<open>
  The invariant of a session: the timeline and the outbox are well formed, no subscription is open
  while the mute is on, every live or lingering subscription has its own key, below the next, and
  only a cursor that has a position waits behind a hole.
\<close>

definition cursor_ok :: "cursor \<Rightarrow> bool" where
  "cursor_ok c \<longleftrightarrow> cu_stalled_since c \<noteq> None \<longrightarrow> cu_pos c \<noteq> None"

definition want_ok :: "want \<Rightarrow> bool" where
  "want_ok w \<longleftrightarrow> list_all cursor_ok (wn_cursors w)"

definition sub_ok :: "sub \<Rightarrow> bool" where
  "sub_ok s \<longleftrightarrow> list_all want_ok (sb_wants s)"

definition uplink_inv :: "uplink \<Rightarrow> bool" where
  "uplink_inv u \<longleftrightarrow>
     timeline_inv (up_timeline u) \<and> outbox_ok (up_outbox u) \<and> (up_muted u \<longrightarrow> up_subs u = [])
     \<and> distinct (sub_keys u) \<and> (\<forall>k \<in> set (sub_keys u). k < up_next_key u)
     \<and> list_all sub_ok (up_subs u)"

text \<open>
  What every operation that neither opens a subscription nor hands deliveries over respects: the
  invariant, each subscription being open or reported ended exactly once, erased epochs staying
  erased, and the mute.
\<close>

definition lawful :: "uplink \<Rightarrow> uplink \<Rightarrow> bool" where
  "lawful u u' \<longleftrightarrow> (uplink_inv u \<longrightarrow> uplink_inv u') \<and> accounted u' = accounted u
     \<and> tl_erased (up_timeline u) \<subseteq> tl_erased (up_timeline u') \<and> up_muted u' = up_muted u"

lemma want_ok_cursors [simp]: "want_ok (w\<lparr>wn_cursors := cs\<rparr>) = list_all cursor_ok cs"
  by (simp add: want_ok_def)

lemma lawful_refl [simp]: "lawful u u"
  by (simp add: lawful_def)

lemma lawful_trans: "lawful u v \<Longrightarrow> lawful v w \<Longrightarrow> lawful u w"
  by (auto simp: lawful_def)

lemma ended_ids_simps [simp]:
  "ended_ids [] = []" "ended_ids (xs @ ys) = ended_ids xs @ ended_ids ys"
  "ended_ids [DeliverEnded e] = [en_subscription e]" "ended_ids (map DeliverChunk cs) = []"
  by (simp_all add: ended_ids_def List.map_filter_def comp_def)

lemma ended_of_id [simp]: "en_subscription (ended_of s cause) = sb_id s"
  by (simp add: ended_of_def)

subsection \<open>Frames\<close>

lemma push_frame [simp]:
  "ob_queue (fst (push d ob)) = ob_queue ob @ [d]"
  "ob_max_bytes (fst (push d ob)) = ob_max_bytes ob" "ob_max_deliveries (fst (push d ob)) = ob_max_deliveries ob"
  by (simp_all add: push_def Let_def)

lemma drop_claims_frame [simp]:
  "tl_erased (drop_claims k t) = tl_erased t" "tl_capture (drop_claims k t) = tl_capture t"
  "tl_reference (drop_claims k t) = tl_reference t" "tl_config (drop_claims k t) = tl_config t"
  by (simp_all add: drop_claims_def)

lemma end_sub_frame [simp]:
  "up_subs (end_sub at cause lv now u) = remove_nth at (up_subs u)"
  "up_outbox (end_sub at cause lv now u) = fst (push (DeliverEnded (ended_of (up_subs u ! at) cause)) (up_outbox u))"
  "up_timeline (end_sub at cause lv now u) =
     (case lv of LeavesZombie \<Rightarrow> up_timeline u | LeavesGone \<Rightarrow> drop_claims (sb_key (up_subs u ! at)) (up_timeline u))"
  "up_zombies (end_sub at cause lv now u) =
     (case lv of LeavesZombie \<Rightarrow> up_zombies u @ [zombie_of (up_config u) now (up_subs u ! at)] | LeavesGone \<Rightarrow> up_zombies u)"
  "up_muted (end_sub at cause lv now u) = up_muted u" "up_next_key (end_sub at cause lv now u) = up_next_key u"
  "up_config (end_sub at cause lv now u) = up_config u" "up_terms (end_sub at cause lv now u) = up_terms u"
  by (simp_all add: end_sub_def Let_def push_ended_def retain_commands_def drop_key_def split: leaves.split)

lemma send_frame [simp]:
  "up_subs (send g c u) = up_subs u" "up_outbox (send g c u) = up_outbox u" "up_timeline (send g c u) = up_timeline u"
  "up_zombies (send g c u) = up_zombies u" "up_muted (send g c u) = up_muted u" "up_next_key (send g c u) = up_next_key u"
  "up_config (send g c u) = up_config u" "up_terms (send g c u) = up_terms u"
  by (simp_all add: send_def)

lemma keys_end_sub:
  assumes "at < length (up_subs u)"
  shows "mset (sub_keys (end_sub at cause lv now u)) \<subseteq># mset (sub_keys u)"
    and "lv = LeavesZombie \<Longrightarrow> mset (sub_keys (end_sub at cause lv now u)) = mset (sub_keys u)"
  using mset_remove_nth [OF assms, of sb_key]
  by (auto simp: sub_keys_def zombie_of_def split: leaves.split)
    (metis add_mset_add_single mset_subset_eq_add_left)

lemma keys_subset:
  assumes "mset xs \<subseteq># mset ys" "distinct ys"
  shows "distinct xs" "set xs \<subseteq> set ys"
proof -
  show "set xs \<subseteq> set ys" using assms(1) by (metis set_mset_mono set_mset_mset)
  show "distinct xs"
    using assms by (metis count_mset_0_iff distinct_count_atmost_1 le_zero_eq mset_subset_eq_count
        less_one linorder_not_less nat_less_le not_less_eq_eq One_nat_def)
qed

lemma end_sub_lawful:
  assumes "at < length (up_subs u)"
  shows "lawful u (end_sub at cause lv now u)"
proof -
  have "uplink_inv (end_sub at cause lv now u)" if inv: "uplink_inv u"
  proof -
    have d: "distinct (sub_keys u)" using inv by (simp add: uplink_inv_def)
    note ks = keys_subset [OF keys_end_sub(1) [OF assms] d, of cause lv now]
    then have "\<forall>k \<in> set (sub_keys (end_sub at cause lv now u)). k < up_next_key u"
      using inv unfolding uplink_inv_def by blast
    then show ?thesis
      using inv ks(1) assms unfolding uplink_inv_def
      by (auto simp: drop_claims_inv push_ok list_all_remove_nth remove_nth_def [of _ "[]"] split: leaves.split)
  qed
  moreover have "accounted (end_sub at cause lv now u) = accounted u"
    using mset_remove_nth [OF assms, of sb_id] by (simp add: accounted_def)
  moreover have "tl_erased (up_timeline (end_sub at cause lv now u)) = tl_erased (up_timeline u)"
    by (simp split: leaves.split)
  ultimately show ?thesis by (simp add: lawful_def)
qed

lemma send_lawful: "lawful u (send g c u)"
  by (simp add: lawful_def uplink_inv_def accounted_def sub_keys_def)

lemma close_at_lawful:
  assumes "at < length (up_subs u)"
  shows "lawful u (close_at at reason cause now u)"
  using assms end_sub_lawful [of at "send g c u" cause LeavesZombie now for g c] end_sub_lawful [OF assms]
  by (auto simp: close_at_def Let_def intro: lawful_trans [OF send_lawful])

subsection \<open>Settling\<close>

text \<open>Deliveries only ever join the queue; chunks alone change no account of the ends.\<close>

definition more_chunks :: "outbox \<Rightarrow> outbox \<Rightarrow> bool" where
  "more_chunks ob ob' \<longleftrightarrow> (\<exists>cs. ob_queue ob' = ob_queue ob @ map DeliverChunk cs) \<and> (outbox_ok ob \<longrightarrow> outbox_ok ob')"

lemma more_chunks_refl [simp]: "more_chunks ob ob"
  by (simp add: more_chunks_def)

lemma more_chunks_trans: "more_chunks a b \<Longrightarrow> more_chunks b c \<Longrightarrow> more_chunks a c"
  by (auto simp: more_chunks_def simp flip: map_append)

lemma more_chunks_push: "more_chunks ob (fst (push (DeliverChunk c) ob))"
  by (auto simp: more_chunks_def push_ok intro: exI [of _ "[c]"])

lemma more_chunks_ended: "more_chunks ob ob' \<Longrightarrow> ended_ids (ob_queue ob') = ended_ids (ob_queue ob)"
  by (auto simp: more_chunks_def)

lemma give_up_cursors_more:
  "give_up_cursors s st cs ob = (cs', ob') \<Longrightarrow> more_chunks ob ob' \<and> (list_all cursor_ok cs \<longrightarrow> list_all cursor_ok cs')"
proof (induction cs arbitrary: ob cs' ob')
  case (Cons c cs)
  obtain c1 ob1 where 1: "give_up_cursor s st c ob = (c1, ob1)" by fastforce
  have "more_chunks ob ob1 \<and> (cursor_ok c \<longrightarrow> cursor_ok c1)"
    using 1 more_chunks_push by (auto simp: give_up_cursor_def cursor_ok_def split: option.splits if_splits)
  then show ?case
    using Cons.prems 1 Cons.IH [of ob1] by (auto split: prod.splits intro: more_chunks_trans)
qed auto

lemma give_up_wants_more:
  "give_up_wants s ws ob = (ws', ob') \<Longrightarrow> more_chunks ob ob' \<and> (list_all want_ok ws \<longrightarrow> list_all want_ok ws')"
proof (induction ws arbitrary: ob ws' ob')
  case (Cons w ws)
  obtain cs ob1 where 1: "give_up_cursors s (wn_stream w) (wn_cursors w) ob = (cs, ob1)" by fastforce
  then show ?case
    using Cons.prems give_up_cursors_more [OF 1] Cons.IH [of ob1]
    by (auto simp: want_ok_def [of w] split: prod.splits intro: more_chunks_trans)
qed auto

text \<open>Changing subscriptions in place, and queueing chunks, respects the laws.\<close>

lemma in_place_lawful:
  assumes "map sb_id ss = map sb_id (up_subs u)" "map sb_key ss = map sb_key (up_subs u)"
    and "more_chunks (up_outbox u) ob" "list_all sub_ok (up_subs u) \<Longrightarrow> list_all sub_ok ss"
  shows "lawful u (u\<lparr>up_subs := ss, up_outbox := ob\<rparr>)"
proof -
  have empty: "ss = [] \<longleftrightarrow> up_subs u = []" using assms(1) by (metis list.map_disc_iff)
  show ?thesis
    using assms empty more_chunks_ended [OF assms(3)]
    by (auto simp: lawful_def uplink_inv_def accounted_def sub_keys_def more_chunks_def simp flip: mset_map)
qed

lemma give_up_drain_lawful: "at < length (up_subs u) \<Longrightarrow> lawful u (give_up_drain at u)"
proof -
  assume at: "at < length (up_subs u)"
  obtain ws ob where g: "give_up_wants (up_subs u ! at) (sb_wants (up_subs u ! at)) (up_outbox u) = (ws, ob)"
    by fastforce
  have "map sb_id ((up_subs u)[at := (up_subs u ! at)\<lparr>sb_wants := ws\<rparr>]) = map sb_id (up_subs u)"
    "map sb_key ((up_subs u)[at := (up_subs u ! at)\<lparr>sb_wants := ws\<rparr>]) = map sb_key (up_subs u)"
    using at by (simp_all add: map_update list_update_same_conv)
  moreover have "list_all sub_ok (up_subs u) \<Longrightarrow> list_all sub_ok ((up_subs u)[at := (up_subs u ! at)\<lparr>sb_wants := ws\<rparr>])"
    using give_up_wants_more [OF g] at by (auto simp: list_all_iff sub_ok_def dest!: set_update_subset_insert [THEN subsetD])
  ultimately show ?thesis
    using in_place_lawful give_up_wants_more [OF g] g by (simp add: give_up_drain_def)
qed

lemma settle_at_lawful:
  assumes "settle_at at now u = Some u'" "at < length (up_subs u)"
  shows "lawful u u'"
proof -
  have g: "length (up_subs (give_up_drain at u)) = length (up_subs u)"
    by (simp add: give_up_drain_def Let_def split: prod.split)
  have gave: "lawful u (end_sub at c lv now (give_up_drain at u))" for c lv
    using lawful_trans [OF give_up_drain_lawful [OF assms(2)] end_sub_lawful] g assms(2) by simp
  show ?thesis
    using assms gave
    by (auto simp: settle_at_def Let_def split: if_splits phase.splits intro: close_at_lawful end_sub_lawful)
qed

lemma settle_from_lawful: "lawful u (settle_from at now u)"
proof (induction at now u rule: settle_from.induct)
  case (1 at now u)
  show ?case
  proof (cases "at < length (up_subs u)")
    case True
    then show ?thesis
      using 1 settle_at_lawful [of at now u]
      by (subst settle_from.simps) (auto split: option.split intro: lawful_trans)
  qed (subst settle_from.simps, simp)
qed

lemma settle_subs_lawful: "lawful u (settle_subs now u)"
  by (simp add: settle_subs_def settle_from_lawful)


subsection \<open>Releasing\<close>

lemma release_total:
  assumes "source_safe src"
  shows "\<exists>c' ob' ok. release c src sub g ob config now = Some (c', ob', ok) \<and> more_chunks ob ob' \<and> cu_epoch c' = cu_epoch c
     \<and> (cursor_ok c \<longrightarrow> cursor_ok c')"
proof -
  obtain c' ob' ok where r: "release c src sub g ob config now = Some (c', ob', ok)"
     "case cu_pos c of None \<Rightarrow> c' = c \<and> ob' = ob \<and> ok
        | Some pos \<Rightarrow> \<exists>cs. release_result src sub g c pos ob c' ob' ok cs"
    using release_spec [OF assms] by blast
  have "more_chunks ob ob' \<and> cu_epoch c' = cu_epoch c \<and> (cursor_ok c \<longrightarrow> cursor_ok c')"
  proof (cases "cu_pos c")
    case None
    then show ?thesis using r(2) by simp
  next
    case (Some pos)
    then obtain cs where "release_result src sub g c pos ob c' ob' ok cs" using r(2) by auto
    then show ?thesis unfolding release_result_def more_chunks_def cursor_ok_def by auto
  qed
  then show ?thesis using r(1) by blast
qed

lemma source_of_safe:
  assumes "timeline_inv t" "timeline_get s e t = Some held"
  shows "source_safe (source_of s None held)"
  using timeline_inv_buffer [OF assms(1)] timeline_get_mem [OF assms(2)]
  by (simp add: source_safe_def source_of_def)

lemma release_cursors_total:
  assumes "timeline_inv t"
  shows "\<exists>cs' ob' ok. release_cursors t config now s stream cs ob = Some (cs', ob', ok) \<and> more_chunks ob ob'
     \<and> (list_all cursor_ok cs \<longrightarrow> list_all cursor_ok cs')"
proof (induction cs arbitrary: ob)
  case (Cons c cs)
  obtain c' ob1 ok1 where 1: "(case timeline_get stream (cu_epoch c) t of
              None \<Rightarrow> Some (c, ob, True)
            | Some held \<Rightarrow> release c (source_of stream None held) (sb_id s) (sb_generation s) ob config now)
       = Some (c', ob1, ok1)" "more_chunks ob ob1" "cursor_ok c \<Longrightarrow> cursor_ok c'"
    using release_total [OF source_of_safe [OF assms]]
    by (cases "timeline_get stream (cu_epoch c) t") (auto, blast)
  obtain cs' ob2 ok2 where 2: "release_cursors t config now s stream cs ob1 = Some (cs', ob2, ok2)" "more_chunks ob1 ob2"
      "list_all cursor_ok cs \<longrightarrow> list_all cursor_ok cs'"
    using Cons.IH by blast
  show ?case using 1 2 more_chunks_trans by auto
qed (auto intro: exI [of _ True])

lemma release_wants_total:
  assumes "timeline_inv t"
  shows "\<exists>ws' ob' ok. release_wants t config now s ws ob = Some (ws', ob', ok) \<and> more_chunks ob ob'
     \<and> (list_all want_ok ws \<longrightarrow> list_all want_ok ws')"
proof (induction ws arbitrary: ob)
  case (Cons w ws)
  obtain cs ob1 ok1 where 1: "release_cursors t config now s (wn_stream w) (wn_cursors w) ob = Some (cs, ob1, ok1)"
      "more_chunks ob ob1" "list_all cursor_ok (wn_cursors w) \<longrightarrow> list_all cursor_ok cs"
    using release_cursors_total [OF assms] by blast
  obtain ws' ob2 ok2 where 2: "release_wants t config now s ws ob1 = Some (ws', ob2, ok2)" "more_chunks ob1 ob2"
      "list_all want_ok ws \<longrightarrow> list_all want_ok ws'"
    using Cons.IH by blast
  show ?case using 1 2 more_chunks_trans by (auto simp: want_ok_def [of w])
qed (auto intro: exI [of _ True])

text \<open>A change of one subscription that keeps who it is and queues nothing but chunks.\<close>

definition tame :: "(sub \<Rightarrow> outbox \<Rightarrow> (sub \<times> outbox) option) \<Rightarrow> bool" where
  "tame f \<longleftrightarrow> (\<forall>s ob. \<exists>s' ob'. f s ob = Some (s', ob') \<and> more_chunks ob ob'
      \<and> sb_id s' = sb_id s \<and> sb_key s' = sb_key s \<and> (sub_ok s \<longrightarrow> sub_ok s'))"

lemma for_subs_tame:
  assumes "tame f"
  shows "\<exists>ss' ob'. for_subs f ss ob = Some (ss', ob') \<and> more_chunks ob ob'
     \<and> map sb_id ss' = map sb_id ss \<and> map sb_key ss' = map sb_key ss
     \<and> (list_all sub_ok ss \<longrightarrow> list_all sub_ok ss')"
proof (induction ss arbitrary: ob)
  case (Cons s ss)
  obtain s' ob1 where 1: "f s ob = Some (s', ob1)" "more_chunks ob ob1" "sb_id s' = sb_id s" "sb_key s' = sb_key s"
      "sub_ok s \<longrightarrow> sub_ok s'"
    using assms by (auto simp: tame_def) meson
  obtain ss' ob2 where 2: "for_subs f ss ob1 = Some (ss', ob2)" "more_chunks ob1 ob2"
      "map sb_id ss' = map sb_id ss" "map sb_key ss' = map sb_key ss"
      "list_all sub_ok ss \<longrightarrow> list_all sub_ok ss'" using Cons.IH by blast
  show ?case using 1 2 more_chunks_trans by auto
qed simp

lemma with_subs_lawful:
  assumes "tame f"
  shows "\<exists>u'. with_subs f u = Some u' \<and> lawful u u' \<and> up_timeline u' = up_timeline u"
  using for_subs_tame [OF assms, of "up_subs u" "up_outbox u"] in_place_lawful [of _ u]
  by (auto simp: with_subs_def)

lemma note_overflow_simps [simp]:
  "sb_id (note_overflow ok s) = sb_id s" "sb_key (note_overflow ok s) = sb_key s"
  "sub_ok (note_overflow ok s) = sub_ok s" "sb_wants (note_overflow ok s) = sb_wants s"
  "sb_phase (note_overflow ok s) = sb_phase s"
  by (simp_all add: note_overflow_def sub_ok_def)

lemma release_sub_tame: "timeline_inv t \<Longrightarrow> tame (release_sub t config now)"
  unfolding tame_def release_sub_def
proof (intro allI)
  fix s ob assume "timeline_inv t"
  then show "\<exists>s' ob'. map_option (\<lambda>(ws, ob', ok). (note_overflow ok (s\<lparr>sb_wants := ws\<rparr>), ob'))
       (release_wants t config now s (sb_wants s) ob) = Some (s', ob') \<and> more_chunks ob ob' \<and> sb_id s' = sb_id s \<and> sb_key s' = sb_key s
       \<and> (sub_ok s \<longrightarrow> sub_ok s')"
    using release_wants_total [of t config now s "sb_wants s" ob] by (auto simp: sub_ok_def)
qed

lemma release_all_lawful:
  assumes "timeline_inv (up_timeline u)"
  shows "\<exists>u'. release_all now u = Some u' \<and> lawful u u' \<and> up_timeline u' = up_timeline u"
  unfolding release_all_def by (rule with_subs_lawful [OF release_sub_tame [OF assms]])

lemma list_all_update_first:
  "list_all P xs \<Longrightarrow> (\<And>x. x \<in> set xs \<Longrightarrow> P x \<Longrightarrow> P (f x)) \<Longrightarrow> list_all P (update_first Q f xs)"
  by (induction xs) auto

lemma drop_cursor_ok:
  "sub_ok s \<Longrightarrow> sub_ok (s\<lparr>sb_wants := update_first P (\<lambda>w. w\<lparr>wn_cursors := remove_nth at (wn_cursors w)\<rparr>) (sb_wants s)\<rparr>)"
  by (auto simp: sub_ok_def want_ok_def intro!: list_all_update_first list_all_remove_nth)

lemma set_cursor_ok:
  "sub_ok s \<Longrightarrow> (\<And>c. cursor_ok c \<Longrightarrow> cursor_ok (f c)) \<Longrightarrow> sub_ok (s\<lparr>sb_wants := set_cursor stream e f (sb_wants s)\<rparr>)"
  by (auto simp: sub_ok_def want_ok_def set_cursor_def intro!: list_all_update_first)

lemma find_cursor_ok: "sub_ok s \<Longrightarrow> find_cursor (sb_wants s) stream e = Some c \<Longrightarrow> cursor_ok c"
  by (auto simp: sub_ok_def want_ok_def find_cursor_def list_all_iff dest!: find_mem split: option.splits)

lemma attribute_ok: "cursor_ok c \<Longrightarrow> cursor_ok (attribute a stream c)"
  by (auto simp: cursor_ok_def attribute_def settle_def split: attribution.splits start_spec.splits)

lemma on_packet_ok: "cursor_ok c \<Longrightarrow> cursor_ok (on_packet path first own stream c)"
  by (auto simp: cursor_ok_def on_packet_def settle_def split: option.splits)

lemma end_reference_tame:
  assumes "source_safe src"
  shows "tame (end_reference src config now e)"
  unfolding tame_def
proof (intro allI)
  fix s ob
  show "\<exists>s' ob'. end_reference src config now e s ob = Some (s', ob') \<and> more_chunks ob ob' \<and> sb_id s' = sb_id s \<and> sb_key s' = sb_key s
       \<and> (sub_ok s \<longrightarrow> sub_ok s')"
  proof (cases "find (\<lambda>w. wn_stream w = se_stream e) (sb_wants s)")
    case (Some w)
    show ?thesis
    proof (cases "position (\<lambda>c. cu_epoch c = se_epoch e) (wn_cursors w)")
      case at: (Some at)
      define c where "c = (let c = (wn_cursors w ! at)\<lparr>cu_target := None\<rparr>
        in if cu_pos c \<noteq> None then settle (se_final_sample e) CauseNotSent c else c)"
      obtain c' ob' ok where "release c src (sb_id s) (sb_generation s) ob config now = Some (c', ob', ok)"
          "more_chunks ob ob'" using release_total [OF assms] by blast
      then show ?thesis using Some at by (simp add: end_reference_def c_def Let_def drop_cursor_ok)
    qed (simp add: end_reference_def Some)
  qed (simp add: end_reference_def)
qed

lemma feed_tame:
  assumes "source_safe src"
  shows "tame (feed src config now path first)"
  unfolding tame_def
proof (intro allI)
  fix s ob
  show "\<exists>s' ob'. feed src config now path first s ob = Some (s', ob') \<and> more_chunks ob ob' \<and> sb_id s' = sb_id s \<and> sb_key s' = sb_key s
       \<and> (sub_ok s \<longrightarrow> sub_ok s')"
  proof (cases "find_cursor (sb_wants s) (sc_stream src) (sc_epoch src)")
    case (Some c)
    obtain c' ob' ok where "release (on_packet path first (sb_key s) (sc_stream src) c) src (sb_id s) (sb_generation s) ob config now
        = Some (c', ob', ok)" "more_chunks ob ob'"
        "cursor_ok (on_packet path first (sb_key s) (sc_stream src) c) \<longrightarrow> cursor_ok c'"
      using release_total [OF assms] by blast
    then show ?thesis
      using Some find_cursor_ok [OF _ Some] by (auto simp: feed_def intro!: set_cursor_ok on_packet_ok)
  qed (simp add: feed_def)
qed


subsection \<open>Device reports\<close>

lemma timeline_lawful:
  assumes "timeline_inv (up_timeline u) \<Longrightarrow> timeline_inv t" "tl_erased (up_timeline u) \<subseteq> tl_erased t"
  shows "lawful u (u\<lparr>up_timeline := t\<rparr>)"
  using assms by (auto simp: lawful_def uplink_inv_def accounted_def sub_keys_def)

lemma update_first_map: "(\<And>x. g (f x) = g x) \<Longrightarrow> map g (update_first P f xs) = map g xs"
  by (induction xs) auto

lemma subs_lawful:
  assumes "map sb_id ss = map sb_id (up_subs u)" "map sb_key ss = map sb_key (up_subs u)"
    and "list_all sub_ok (up_subs u) \<Longrightarrow> list_all sub_ok ss"
  shows "lawful u (u\<lparr>up_subs := ss\<rparr>)"
  using in_place_lawful [OF assms(1,2), of "up_outbox u"] assms(3) by simp

text \<open>Ending a list of subscriptions one after another.\<close>

definition end_one :: "end_cause \<Rightarrow> sub \<Rightarrow> uplink \<Rightarrow> uplink" where
  "end_one cause s v = push_ended s cause (retain_commands (sb_id s) (drop_key (sb_key s) v))"

lemma end_one_frame [simp]:
  "up_subs (end_one cause s v) = up_subs v" "up_zombies (end_one cause s v) = up_zombies v"
  "up_muted (end_one cause s v) = up_muted v" "up_next_key (end_one cause s v) = up_next_key v"
  "up_config (end_one cause s v) = up_config v" "up_terms (end_one cause s v) = up_terms v"
  "up_timeline (end_one cause s v) = drop_claims (sb_key s) (up_timeline v)"
  "up_outbox (end_one cause s v) = fst (push (DeliverEnded (ended_of s cause)) (up_outbox v))"
  by (simp_all add: end_one_def push_ended_def retain_commands_def drop_key_def)

lemma fold_end_one:
  "up_subs (fold (end_one cause) ss v) = up_subs v" "up_zombies (fold (end_one cause) ss v) = up_zombies v"
  "up_muted (fold (end_one cause) ss v) = up_muted v" "up_next_key (fold (end_one cause) ss v) = up_next_key v"
  "up_config (fold (end_one cause) ss v) = up_config v" "up_terms (fold (end_one cause) ss v) = up_terms v"
  "tl_erased (up_timeline (fold (end_one cause) ss v)) = tl_erased (up_timeline v)"
  "tl_capture (up_timeline (fold (end_one cause) ss v)) = tl_capture (up_timeline v)"
  "timeline_inv (up_timeline v) \<Longrightarrow> timeline_inv (up_timeline (fold (end_one cause) ss v))"
  "outbox_ok (up_outbox v) \<Longrightarrow> outbox_ok (up_outbox (fold (end_one cause) ss v))"
  "ob_queue (up_outbox (fold (end_one cause) ss v)) = ob_queue (up_outbox v) @ map (\<lambda>s. DeliverEnded (ended_of s cause)) ss"
  by (induction ss arbitrary: v) (simp_all add: drop_claims_inv push_ok)

lemma ended_ids_ended: "ended_ids (map (\<lambda>s. DeliverEnded (ended_of s cause)) ss) = map sb_id ss"
  by (simp add: ended_ids_def List.map_filter_def comp_def)

lemma fold_drop_key:
  "up_subs (fold (\<lambda>z. drop_key (zb_key z)) zs v) = up_subs v" "up_zombies (fold (\<lambda>z. drop_key (zb_key z)) zs v) = up_zombies v"
  "up_muted (fold (\<lambda>z. drop_key (zb_key z)) zs v) = up_muted v" "up_next_key (fold (\<lambda>z. drop_key (zb_key z)) zs v) = up_next_key v"
  "up_outbox (fold (\<lambda>z. drop_key (zb_key z)) zs v) = up_outbox v"
  "tl_erased (up_timeline (fold (\<lambda>z. drop_key (zb_key z)) zs v)) = tl_erased (up_timeline v)"
  "tl_capture (up_timeline (fold (\<lambda>z. drop_key (zb_key z)) zs v)) = tl_capture (up_timeline v)"
  "timeline_inv (up_timeline v) \<Longrightarrow> timeline_inv (up_timeline (fold (\<lambda>z. drop_key (zb_key z)) zs v))"
  by (induction zs arbitrary: v) (simp_all add: drop_key_def drop_claims_inv)

lemma end_all_alt:
  "end_all cause u = fold (\<lambda>z. drop_key (zb_key z)) (up_zombies u)
     ((fold (end_one cause) (up_subs u) (u\<lparr>up_subs := []\<rparr>))\<lparr>up_zombies := []\<rparr>)"
proof -
  have "(\<lambda>s v. push_ended s cause (retain_commands (sb_id s) (drop_key (sb_key s) v))) = end_one cause"
    by (simp add: end_one_def fun_eq_iff)
  then show ?thesis by (simp add: end_all_def Let_def fold_end_one)
qed

lemma end_all_lawful: "lawful u (end_all cause u)"
  by (auto simp: lawful_def uplink_inv_def accounted_def sub_keys_def end_all_alt fold_drop_key fold_end_one
      ended_ids_ended)

lemma end_all_frame [simp]:
  "up_subs (end_all cause u) = []" "up_zombies (end_all cause u) = []" "up_muted (end_all cause u) = up_muted u"
  "tl_erased (up_timeline (end_all cause u)) = tl_erased (up_timeline u)"
  by (simp_all add: end_all_alt fold_drop_key fold_end_one)

lemma set_capture_frame [simp]:
  "tl_erased (set_capture c t) = tl_erased t" "tl_capture (set_capture c t) = c"
  "tl_erased (set_reference c t) = tl_erased t" "tl_capture (set_reference c t) = tl_capture t"
  by (simp_all add: set_capture_def set_reference_def)

lemma timeline_ensure_frame [simp]:
  "tl_erased (timeline_ensure s e t) = tl_erased t" "tl_capture (timeline_ensure s e t) = tl_capture t"
  "tl_reference (timeline_ensure s e t) = tl_reference t"
  by (simp_all add: timeline_ensure_def Let_def)

lemma timeline_update_frame [simp]:
  "tl_erased (timeline_update s e f t) = tl_erased t" "tl_capture (timeline_update s e f t) = tl_capture t"
  "tl_reference (timeline_update s e f t) = tl_reference t"
  by (simp_all add: timeline_update_def)

lemma restart_reference_simps [simp]:
  "sb_id (restart_reference e s) = sb_id s" "sb_key (restart_reference e s) = sb_key s"
  by (simp_all add: restart_reference_def)

lemma restart_reference_ok: "sub_ok s \<Longrightarrow> sub_ok (restart_reference e s)"
  by (auto simp: restart_reference_def sub_ok_def want_ok_def cursor_ok_def cursor_new_def
      intro!: list_all_update_first)

lemma stream_opened_lawful: "lawful u (stream_opened m u)"
proof (cases "is_erased (so_stream m) (so_epoch m) (up_timeline u)")
  case False
  let ?e = "so_epoch m"
  show ?thesis
  proof (cases "so_stream m = Reference")
    case True
    let ?t = "timeline_ensure Reference ?e (set_reference (Some ?e) (up_timeline u))"
    have "lawful u (u\<lparr>up_timeline := ?t\<rparr>)"
      by (rule timeline_lawful) (auto simp: is_erased_def intro!: timeline_ensure_inv set_reference_inv)
    moreover have "lawful (u\<lparr>up_timeline := ?t\<rparr>) (u\<lparr>up_timeline := ?t, up_subs := map (restart_reference ?e) (up_subs u)\<rparr>)"
      using subs_lawful [of "map (restart_reference ?e) (up_subs u)" "u\<lparr>up_timeline := ?t\<rparr>"]
      by (simp add: comp_def list_all_iff restart_reference_ok)
    ultimately have "lawful u (u\<lparr>up_timeline := ?t, up_subs := map (restart_reference ?e) (up_subs u)\<rparr>)"
      by (rule lawful_trans)
    then show ?thesis using False True by (simp add: stream_opened_def Let_def)
  next
    case other: False
    have fresh: "?e \<notin> tl_erased (up_timeline u)" using False other by (simp add: is_erased_def)
    define v where "v = (if tl_capture (up_timeline u) \<noteq> Some ?e
        then (let v = end_all EndCaptureEpoch u in v\<lparr>up_timeline := set_capture (Some ?e) (up_timeline v)\<rparr>) else u)"
    have "lawful u ((end_all EndCaptureEpoch u)
        \<lparr>up_timeline := set_capture (Some ?e) (up_timeline (end_all EndCaptureEpoch u))\<rparr>)"
      using fresh by (intro lawful_trans [OF end_all_lawful timeline_lawful]) (auto intro: set_capture_inv)
    then have "lawful u v" by (simp add: v_def Let_def)
    moreover have "tl_erased (up_timeline v) = tl_erased (up_timeline u)" by (simp add: v_def Let_def)
    then have "lawful v (v\<lparr>up_timeline := timeline_ensure (so_stream m) ?e (up_timeline v)\<rparr>)"
      using fresh by (intro timeline_lawful) (auto simp: is_erased_def intro!: timeline_ensure_inv)
    ultimately have "lawful u (v\<lparr>up_timeline := timeline_ensure (so_stream m) ?e (up_timeline v)\<rparr>)"
      by (rule lawful_trans)
    moreover have "stream_opened m u = v\<lparr>up_timeline := timeline_ensure (so_stream m) ?e (up_timeline v)\<rparr>"
      unfolding v_def using False other by (simp add: stream_opened_def Let_def)
    ultimately show ?thesis by simp
  qed
qed (simp add: stream_opened_def)

lemma stream_ended_lawful:
  assumes "uplink_inv u"
  shows "\<exists>u'. stream_ended e now u = Some u' \<and> lawful u u'"
proof (cases "se_stream e = Reference")
  case False
  have "lawful u ((end_all EndCaptureEpoch u)\<lparr>up_timeline := set_capture None (up_timeline (end_all EndCaptureEpoch u))\<rparr>)"
    by (rule lawful_trans [OF end_all_lawful timeline_lawful]) (auto intro: set_capture_inv)
  then show ?thesis using False by (simp add: stream_ended_def Let_def)
next
  case True
  define v where "v = (if tl_reference (up_timeline u) = Some (se_epoch e)
      then u\<lparr>up_timeline := set_reference None (up_timeline u)\<rparr> else u)"
  have uv: "lawful u v" unfolding v_def by (auto intro!: timeline_lawful set_reference_inv)
  then have tv: "timeline_inv (up_timeline v)" using assms by (auto simp: lawful_def uplink_inv_def)
  show ?thesis
  proof (cases "timeline_get Reference (se_epoch e) (up_timeline v)")
    case None
    then show ?thesis using True uv by (auto simp: stream_ended_def Let_def v_def)
  next
    case (Some held)
    obtain w where w: "with_subs (end_reference (source_of Reference None held) (up_config v) now e) v = Some w" "lawful v w"
      using with_subs_lawful [OF end_reference_tame [OF source_of_safe [OF tv Some]]] by blast
    have "stream_ended e now u = Some (settle_subs now w)"
      using True Some w(1) by (simp add: stream_ended_def Let_def v_def split: if_splits)
    then show ?thesis using lawful_trans [OF lawful_trans [OF uv w(2)] settle_subs_lawful] by blast
  qed
qed

lemma attribute_all_map:
  "map sb_id (attribute_all at st e ss) = map sb_id ss" "map sb_key (attribute_all at st e ss) = map sb_key ss"
  by (induction at arbitrary: ss) (auto simp: attribute_all_def update_first_map)

lemma attribute_all_ok: "list_all sub_ok ss \<Longrightarrow> list_all sub_ok (attribute_all at st e ss)"
proof (induction at arbitrary: ss)
  case (Cons a at)
  have "list_all sub_ok (update_first (\<lambda>s. sb_key s = fst a)
      (\<lambda>s. s\<lparr>sb_wants := set_cursor st e (attribute (snd a) st) (sb_wants s)\<rparr>) ss)"
    using Cons.prems by (intro list_all_update_first set_cursor_ok attribute_ok)
  from Cons.IH [OF this] show ?case by (simp add: attribute_all_def split_def)
qed (simp add: attribute_all_def)

text \<open>The buffer and track a packet leaves behind.\<close>

lemma ingest_lawful:
  assumes inv: "uplink_inv u" and p: "packet_parse frame = Inr p"
  shows "\<exists>u' r. ingest p now u = Some (u', r) \<and> lawful u u'"
proof (cases "stream_of_kind (h_kind (p_header p))")
  case (Some stream)
  let ?e = "unat (h_epoch (p_header p))" and ?t = "up_timeline u"
  have tinv: "timeline_inv ?t" using inv by (simp add: uplink_inv_def)
  show ?thesis
  proof (cases "is_erased stream ?e ?t \<or> timeline_get stream ?e ?t = None")
    case True
    then show ?thesis using Some by (auto simp: ingest_def Let_def)
  next
    case False
    then obtain held where held: "timeline_get stream ?e ?t = Some held" "\<not> is_erased stream ?e ?t" by blast
    have hin: "held \<in> set (tl_stores ?t stream)" "ep_epoch held = ?e" using timeline_get_mem [OF held(1)] by auto
    have binv: "buffer_inv stream (ep_buffer held)" by (rule timeline_inv_buffer [OF tinv hin(1)])
    obtain tr cl where cl: "classify (unat (h_first_sample (p_header p))) (p_end_sample p)
        (contains_flags (h_flags (p_header p)) DISCONTINUITY) (ep_track held) = (tr, cl)" by fastforce
    define b where "b = (case cf_missing cl of Some sp \<Rightarrow> mark_missing sp (ep_buffer held) | None \<Rightarrow> ep_buffer held)"
    define wanted where "wanted = (\<exists>s \<in> set (up_subs u). wants_on stream ?e s)"
    obtain b' n where b': "(if wanted then store p b else (b, 0)) = (b', n)" by fastforce
    have "buffer_inv stream b" using binv by (auto simp: b_def mark_missing_inv(1) split: option.split)
    then have "buffer_inv stream b'" using store_inv [OF _ p Some] b' by (auto split: if_splits)
    then have b'inv: "buffer_inv stream (ep_buffer (held\<lparr>ep_buffer := b', ep_track := tr\<rparr>))" by simp
    define held' where "held' = held\<lparr>ep_buffer := b', ep_track := tr\<rparr>"
    define v where "v = u\<lparr>up_timeline := timeline_update stream ?e (\<lambda>_. held') ?t,
        up_subs := attribute_all (cf_attributed cl) stream ?e (up_subs u)\<rparr>"
    have "lawful u (u\<lparr>up_timeline := timeline_update stream ?e (\<lambda>_. held') ?t\<rparr>)"
      using hin(2) b'inv by (intro timeline_lawful timeline_update_inv) (simp_all add: held'_def)
    moreover have "lawful (u\<lparr>up_timeline := timeline_update stream ?e (\<lambda>_. held') ?t\<rparr>) v"
      using subs_lawful [of "attribute_all (cf_attributed cl) stream ?e (up_subs u)"
          "u\<lparr>up_timeline := timeline_update stream ?e (\<lambda>_. held') ?t\<rparr>"]
      by (simp add: v_def attribute_all_map attribute_all_ok)
    ultimately have uv: "lawful u v" by (rule lawful_trans)
    have safe: "source_safe (source_of stream (Some p) held')"
      using b'inv p Some by (auto simp: source_safe_def source_of_def held'_def)
    obtain w where w: "with_subs (feed (source_of stream (Some p) held') (up_config u) now (cf_path cl)
        (unat (h_first_sample (p_header p)))) v = Some w" "lawful v w"
      using with_subs_lawful [OF feed_tame [OF safe]] by blast
    have "ingest p now u = Some (settle_subs now w, if wanted then Stored n else Unwanted)"
      apply (simp add: ingest_def Let_def Some held cl split del: if_split)
      apply (simp only: b_def [symmetric] wanted_def [symmetric])
      apply (simp only: b' prod.case)
      apply (simp only: held'_def [symmetric] v_def [symmetric])
      apply (simp add: w(1))
      done
    then show ?thesis using lawful_trans [OF lawful_trans [OF uv w(2)] settle_subs_lawful] by blast
  qed
qed (simp add: ingest_def)

subsection \<open>Ends reported by the device\<close>

lemma filter_ended_ids: "ended_ids (filter (\<lambda>d. P d \<longrightarrow> is_ended_delivery d) q) = ended_ids q"
proof (induction q)
  case (Cons d q)
  then show ?case by (cases d) (auto simp: ended_ids_def List.map_filter_def)
qed simp

lemma filter_only_ended: "ended_ids (filter is_ended_delivery q) = ended_ids q"
  using filter_ended_ids [of "\<lambda>_. True" q] by simp

text \<open>The end of a muted subscription: its queued chunks go, then its end notice joins the queue.\<close>

lemma end_muted_lawful:
  assumes at: "at < length (up_subs u)"
  shows "lawful u (end_sub at cause LeavesGone now
     (u\<lparr>up_outbox := discard_chunks_of (sb_id (up_subs u ! at)) (up_outbox u)\<rparr>))"
    (is "lawful u (end_sub at cause LeavesGone now ?v)")
proof -
  have same: "sub_keys ?v = sub_keys u" by (simp add: sub_keys_def)
  have "uplink_inv (end_sub at cause LeavesGone now ?v)" if inv: "uplink_inv u"
  proof -
    have d: "distinct (sub_keys ?v)" using inv same by (simp add: uplink_inv_def)
    have at': "at < length (up_subs ?v)" using at by simp
    note ks = keys_subset [OF keys_end_sub(1) [OF at'] d, of cause LeavesGone now]
    have "\<forall>k \<in> set (sub_keys (end_sub at cause LeavesGone now ?v)). k < up_next_key u"
      using ks(2) inv same unfolding uplink_inv_def by auto
    moreover have "outbox_ok (up_outbox (end_sub at cause LeavesGone now ?v))"
      using inv discard_then_end_ok by (simp add: uplink_inv_def)
    ultimately show ?thesis
      using inv ks(1) at unfolding uplink_inv_def by (auto simp: drop_claims_inv list_all_remove_nth remove_nth_def [of _ "[]"])
  qed
  moreover have "accounted (end_sub at cause LeavesGone now ?v) = accounted u"
    using mset_remove_nth [OF at, of sb_id]
    by (simp add: accounted_def discard_chunks_of_def filter_ended_ids)
  ultimately show ?thesis by (simp add: lawful_def)
qed

lemma zombies_lawful: "map zb_key zs = map zb_key (up_zombies u) \<Longrightarrow> lawful u (u\<lparr>up_zombies := zs\<rparr>)"
  by (simp add: lawful_def uplink_inv_def accounted_def sub_keys_def)

lemma one_sub_lawful:
  assumes "at < length (up_subs u)" "sb_id s = sb_id (up_subs u ! at)" "sb_key s = sb_key (up_subs u ! at)"
    and "sub_ok (up_subs u ! at) \<Longrightarrow> sub_ok s"
  shows "lawful u (u\<lparr>up_subs := (up_subs u)[at := s]\<rparr>)"
proof (rule subs_lawful)
  show "list_all sub_ok ((up_subs u)[at := s])" if "list_all sub_ok (up_subs u)"
    using that assms(1,4) by (auto simp: list_all_iff dest!: set_update_subset_insert [THEN subsetD])
qed (use assms in \<open>simp_all add: map_update list_update_same_conv\<close>)

lemma drain_want_ok: "want_ok w \<Longrightarrow> want_ok (drain_want report w)"
proof (cases "wn_cursors w" rule: rev_cases)
  case (snoc cs c)
  then show "want_ok w \<Longrightarrow> want_ok (drain_want report w)"
    by (auto simp: want_ok_def drain_want_def drain_cursor_def cursor_ok_def settle_def Let_def split: option.splits)
qed (simp add: drain_want_def)

lemma device_ended_lawful:
  assumes inv: "uplink_inv u"
  shows "\<exists>u'. device_ended report now u = Some u' \<and> lawful u u'"
proof (cases "\<exists>z \<in> set (up_zombies u). zb_id z = ue_subscription report")
  case True
  then show ?thesis by (auto simp: device_ended_def intro!: zombies_lawful update_first_map)
next
  case nozombie: False
  show ?thesis
  proof (cases "position (\<lambda>s. sb_id s = ue_subscription report) (up_subs u)")
    case None
    then show ?thesis using nozombie by (simp add: device_ended_def)
  next
    case (Some at)
    then have at: "at < length (up_subs u)" using position_less by blast
    define v where "v = u\<lparr>up_subs := (up_subs u)[at := (up_subs u ! at)
       \<lparr>sb_wants := map (drain_want report) (sb_wants (up_subs u ! at)),
        sb_phase := Draining report (mono_after now (uc_hole_wait (up_config u)))\<rparr>]\<rparr>"
    have uv: "lawful u v" unfolding v_def
      by (rule one_sub_lawful [OF at]) (auto simp: sub_ok_def list_all_iff intro: drain_want_ok)
    then have "timeline_inv (up_timeline v)" using inv by (simp add: lawful_def uplink_inv_def)
    then obtain w where w: "release_all now v = Some w" "lawful v w" using release_all_lawful by blast
    have "lawful u (settle_subs now w)"
      by (rule lawful_trans [OF lawful_trans [OF uv w(2)] settle_subs_lawful])
    then show ?thesis
      using nozombie Some w(1) at
      by (auto simp: device_ended_def Let_def v_def [symmetric] end_muted_lawful end_sub_lawful
          split: uplink_ended_reason.split)
  qed
qed

subsection \<open>Mute and session loss\<close>

lemma fold_push_ended:
  "up_subs (fold (\<lambda>s. push_ended s cause) ss v) = up_subs v" "up_zombies (fold (\<lambda>s. push_ended s cause) ss v) = up_zombies v"
  "up_muted (fold (\<lambda>s. push_ended s cause) ss v) = up_muted v" "up_next_key (fold (\<lambda>s. push_ended s cause) ss v) = up_next_key v"
  "up_commands (fold (\<lambda>s. push_ended s cause) ss v) = up_commands v" "up_timeline (fold (\<lambda>s. push_ended s cause) ss v) = up_timeline v"
  "outbox_ok (up_outbox v) \<Longrightarrow> outbox_ok (up_outbox (fold (\<lambda>s. push_ended s cause) ss v))"
  "ob_queue (up_outbox (fold (\<lambda>s. push_ended s cause) ss v)) = ob_queue (up_outbox v) @ map (\<lambda>s. DeliverEnded (ended_of s cause)) ss"
  by (induction ss arbitrary: v) (simp_all add: push_ended_def push_ok)

lemma end_every_frame [simp]:
  "up_subs (end_every cause u) = []" "up_zombies (end_every cause u) = []" "up_commands (end_every cause u) = []"
  "up_muted (end_every cause u) = up_muted u" "up_timeline (end_every cause u) = up_timeline u"
  "ob_queue (up_outbox (end_every cause u)) = filter is_ended_delivery (ob_queue (up_outbox u))
     @ map (\<lambda>s. DeliverEnded (ended_of s cause)) (up_subs u)"
  by (simp_all add: end_every_def fold_push_ended discard_chunks_queue)

lemma end_every_lawful: "lawful u (end_every cause u)"
proof -
  have ok: "outbox_ok (up_outbox (end_every cause u))" if "outbox_ok (up_outbox u)"
    using outbox_exact_ok [OF discard_chunks_exact [OF that]] by (simp add: end_every_def fold_push_ended)
  have "accounted (end_every cause u) = accounted u"
    by (simp add: accounted_def filter_only_ended ended_ids_ended)
  then show ?thesis using ok by (auto simp: lawful_def uplink_inv_def sub_keys_def)
qed

lemma timeline_erase_erased: "tl_erased t \<subseteq> tl_erased (timeline_erase t)"
  by (auto simp: timeline_erase_def)

lemma timeline_clear_erased [simp]: "tl_erased (timeline_clear t) = tl_erased t"
  by (simp add: timeline_clear_def)

lemma session_lost_lawful: "lawful u (session_lost u)"
proof -
  have "lawful (end_every EndSessionLost u) (session_lost u)"
    unfolding session_lost_def Let_def
    by (rule timeline_lawful) (auto intro: timeline_clear_inv)
  then show ?thesis by (rule lawful_trans [OF end_every_lawful])
qed

subsection \<open>Time and commands\<close>

lemma expire_zombies_lawful: "lawful u (expire_zombies now u)"
proof -
  define v where "v = fold (\<lambda>z. drop_key (zb_key z)) (filter (\<lambda>z. \<not> zb_expires z > now) (up_zombies u)) u"
  have "expire_zombies now u = v\<lparr>up_zombies := filter (\<lambda>z. zb_expires z > now) (up_zombies u)\<rparr>"
    by (simp add: expire_zombies_def v_def Let_def)
  moreover have "distinct (map zb_key (up_zombies u)) \<Longrightarrow> distinct (map zb_key (filter P (up_zombies u)))" for P
    by (simp add: distinct_map_filter)
  ultimately show ?thesis
    by (auto simp: lawful_def uplink_inv_def accounted_def sub_keys_def v_def fold_drop_key)
qed

lemma renew_lawful: "lawful u (renew now u)"
  by (auto simp: lawful_def renew_def uplink_inv_def accounted_def sub_keys_def comp_def if_distrib [of sb_id]
      if_distrib [of sb_key] list_all_iff sub_ok_def cong: if_cong)

lemma poll_lawful:
  assumes inv: "uplink_inv u"
  shows "\<exists>u'. poll now u = Some u' \<and> lawful u u'"
proof -
  have "timeline_inv (up_timeline (renew now u))" using inv by (simp add: renew_def uplink_inv_def)
  then obtain w where w: "release_all now (renew now u) = Some w" "lawful (renew now u) w"
    using release_all_lawful by blast
  have "lawful u (settle_subs now (expire_zombies now w))"
    by (rule lawful_trans [OF lawful_trans [OF lawful_trans [OF renew_lawful w(2)] expire_zombies_lawful] settle_subs_lawful])
  then show ?thesis using w(1) by (simp add: poll_def)
qed

lemma convert_to_turn_lawful: "lawful u (fst (convert_to_turn sid turn now u))"
proof (cases "position (\<lambda>s. sb_id s = sid) (up_subs u)")
  case (Some at)
  then show ?thesis
    using position_less [OF Some]
    by (auto simp: convert_to_turn_def Let_def sub_ok_def intro!: lawful_trans [OF one_sub_lawful send_lawful])
qed (simp add: convert_to_turn_def)

lemma uplink_close_sub_lawful: "lawful u (fst (uplink_close_sub sid reason now u))"
  by (auto simp: uplink_close_sub_def intro!: close_at_lawful dest: position_less split: option.split)

lemma command_rejected_lawful: "lawful u (command_rejected sid generation code now u)"
  by (auto simp: command_rejected_def Let_def intro!: end_sub_lawful dest: position_less split: option.split)

subsection \<open>Opening\<close>

text \<open>What opening a subscription respects: the laws, with one more subscription accounted for.\<close>

definition opens_one :: "subscription_id \<Rightarrow> uplink \<Rightarrow> uplink \<Rightarrow> bool" where
  "opens_one sid u u' \<longleftrightarrow> (uplink_inv u \<longrightarrow> uplink_inv u') \<and> accounted u' = add_mset sid (accounted u)
     \<and> tl_erased (up_timeline u) \<subseteq> tl_erased (up_timeline u') \<and> \<not> up_muted u \<and> \<not> up_muted u'"

lemma opens_one_send: "opens_one sid u v \<Longrightarrow> opens_one sid u (send g c v)"
  using send_lawful [of v g c] by (auto simp: opens_one_def lawful_def)

lemma claim_run_frame [simp]:
  "up_subs (claim_run k s e spec u) = up_subs u" "up_zombies (claim_run k s e spec u) = up_zombies u"
  "up_muted (claim_run k s e spec u) = up_muted u" "up_next_key (claim_run k s e spec u) = up_next_key u"
  "up_outbox (claim_run k s e spec u) = up_outbox u" "up_terms (claim_run k s e spec u) = up_terms u"
  "tl_erased (up_timeline (claim_run k s e spec u)) = tl_erased (up_timeline u)"
  "tl_capture (up_timeline (claim_run k s e spec u)) = tl_capture (up_timeline u)"
  by (simp_all add: claim_run_def Let_def)

lemma claim_run_inv:
  assumes inv: "timeline_inv (up_timeline u)" and "s \<noteq> Reference \<Longrightarrow> e \<notin> tl_erased (up_timeline u)"
  shows "timeline_inv (up_timeline (claim_run k s e spec u))"
proof -
  have t: "timeline_inv (timeline_ensure s e (up_timeline u))"
    using assms by (intro timeline_ensure_inv) (auto simp: is_erased_def)
  show ?thesis
    using inv timeline_update_inv [OF t, of e "\<lambda>es. es\<lparr>ep_track := track_claim c (ep_track es)\<rparr>" s for c]
      timeline_inv_buffer [OF t]
    by (simp add: claim_run_def Let_def)
qed

lemma activate_streams_frame:
  "activate_streams k c ss u = (u', gs, ws) \<Longrightarrow>
     up_subs u' = up_subs u \<and> up_zombies u' = up_zombies u \<and> up_muted u' = up_muted u \<and> up_next_key u' = up_next_key u
     \<and> up_outbox u' = up_outbox u \<and> up_terms u' = up_terms u \<and> tl_erased (up_timeline u') = tl_erased (up_timeline u)
     \<and> (timeline_inv (up_timeline u) \<longrightarrow> c \<notin> tl_erased (up_timeline u) \<longrightarrow> timeline_inv (up_timeline u'))
     \<and> list_all want_ok ws"
proof (induction ss arbitrary: u gs ws)
  case (Cons x ss)
  obtain s start where x: "x = (s, start)" by force
  define u1 where "u1 = (case (if s = Reference then tl_reference (up_timeline u) else Some c) of
     Some e \<Rightarrow> claim_run k s e (start_spec_of s start) u | None \<Rightarrow> u)"
  obtain gs' ws' where r: "activate_streams k c ss u1 = (u', gs', ws')"
      and ws: "list_all want_ok ws' \<longrightarrow> list_all want_ok ws"
    using Cons.prems unfolding x u1_def by (auto simp: want_ok_def cursor_ok_def cursor_new_def Let_def split: option.splits prod.splits if_splits)
  have "up_subs u1 = up_subs u \<and> up_zombies u1 = up_zombies u \<and> up_muted u1 = up_muted u \<and> up_next_key u1 = up_next_key u
     \<and> up_outbox u1 = up_outbox u \<and> up_terms u1 = up_terms u \<and> tl_erased (up_timeline u1) = tl_erased (up_timeline u)"
    by (simp add: u1_def split: option.split)
  moreover have "timeline_inv (up_timeline u) \<Longrightarrow> c \<notin> tl_erased (up_timeline u) \<Longrightarrow> timeline_inv (up_timeline u1)"
    by (auto simp: u1_def split: option.split intro!: claim_run_inv)
  ultimately show ?case using Cons.IH [OF r] ws by simp
qed simp

lemma activate_opens_one:
  assumes "activate sid owner reason c ss nm now u = (u', gs)" "\<not> up_muted u" "tl_capture (up_timeline u) = Some c"
  shows "opens_one sid u u'"
proof -
  obtain u1 gs' ws where a: "activate_streams (up_next_key u) c ss (u\<lparr>up_next_key := up_next_key u + 1\<rparr>) = (u1, gs', ws)"
    by (metis prod_cases3)
  define new where "new = \<lparr>sb_key = up_next_key u, sb_id = sid, sb_owner = owner, sb_reason = reason,
                 sb_generation = GENERATION_FIRST, sb_capture_epoch = c, sb_wants = ws,
                 sb_phase = Active (mono_after now RENEW_INTERVAL), sb_near_miss = nm, sb_overflowed = False\<rparr>"
  note f = activate_streams_frame [OF a, simplified]
  have u': "u' = u1\<lparr>up_subs := up_subs u @ [new]\<rparr>"
    using assms(1) a f by (simp add: activate_def Let_def new_def)
  have keys: "mset (sub_keys u') = add_mset (up_next_key u) (mset (sub_keys u))"
    using f by (simp add: u' sub_keys_def new_def)
  have "uplink_inv u'" if inv: "uplink_inv u"
  proof -
    have "timeline_inv (up_timeline u1)"
      using f inv assms(3) by (auto simp: uplink_inv_def timeline_inv_def)
    moreover have "up_next_key u \<notin> set (sub_keys u)" using inv by (auto simp: uplink_inv_def)
    then have "distinct (sub_keys u')" "set (sub_keys u') = insert (up_next_key u) (set (sub_keys u))"
      using inv keys mset_eq_imp_distinct_iff [of "sub_keys u'" "up_next_key u # sub_keys u"]
        mset_eq_setD [of "sub_keys u'" "up_next_key u # sub_keys u"]
      by (auto simp: uplink_inv_def)
    ultimately show ?thesis
      using inv f assms(2) unfolding uplink_inv_def by (auto simp: u' less_Suc_eq new_def sub_ok_def)
  qed
  moreover have "accounted u' = add_mset sid (accounted u)"
    using f by (simp add: accounted_def u' new_def)
  ultimately show ?thesis using f assms(2) by (simp add: opens_one_def u')
qed

lemma check_open_ok: "check_open r u = Inr c \<Longrightarrow> \<not> up_muted u \<and> tl_capture (up_timeline u) = Some c"
  by (auto simp: check_open_def split: if_splits option.splits)

text \<open>The outcome of an opening operation: nothing happened, or one subscription was opened.\<close>

definition open_result :: "uplink \<Rightarrow> uplink \<times> (open_error, opened) result \<Rightarrow> bool" where
  "open_result u res \<longleftrightarrow> (case snd res of Inl e \<Rightarrow> fst res = u | Inr o' \<Rightarrow> opens_one (op_subscription o') u (fst res))"

lemma open_result_refused [simp]: "open_result u (u, Inl e)"
  by (simp add: open_result_def)

lemma open_with_opening: "open_result u (open_with fresh reason owner ss nm now u)"
proof (cases "check_open None u")
  case (Inr c)
  obtain v gs where a: "activate fresh owner (reason_of_open reason) c ss nm now u = (v, gs)" by fastforce
  have "opens_one fresh u v" using activate_opens_one [OF a] check_open_ok [OF Inr] by blast
  then show ?thesis by (simp add: open_with_def Inr a open_result_def opens_one_send)
qed (simp add: open_with_def)

lemma uplink_open_sub_opening: "open_result u (uplink_open_sub fresh reason owner ss now u)"
  by (simp add: uplink_open_sub_def open_with_opening)

lemma open_near_miss_opening: "open_result u (open_near_miss fresh nm now u)"
  by (simp add: open_near_miss_def Let_def open_with_opening split: sum.split)

lemmas opening_rules = open_with_opening uplink_open_sub_opening open_near_miss_opening

lemma accept_candidate_opens_one:
  "case accept_candidate cand now u of (u', Inl e) \<Rightarrow> u' = u | (u', Inr gs) \<Rightarrow> opens_one (co_subscription cand) u u'"
proof (cases "check_open (Some (co_capture_epoch cand)) u")
  case (Inr c)
  then show ?thesis
    using check_open_ok [OF Inr] activate_opens_one
    by (auto simp: accept_candidate_def Let_def split: prod.split)
qed (simp add: accept_candidate_def)

end
