(* ===== verification/Uplink_Sessions.thy ===== *)
theory Uplink_Sessions
  imports Uplink_Laws
begin

text \<open>
  Whole sessions of an uplink: any sequence of device frames, device reports, controller decisions
  and polls, with a record of which subscriptions were opened and what was delivered. The
  properties here hold for every such sequence from a new session.
\<close>

section \<open>Sessions\<close>

datatype session_op =
    OpStreamOpened stream_open
  | OpStreamEnded stream_end mono_instant
  | OpFrame "byte list" mono_instant
  | OpDeviceEnded uplink_ended mono_instant
  | OpMute
  | OpUnmute
  | OpSessionLost
  | OpCandidate candidate_open mono_instant
  | OpConvert subscription_id owner mono_instant
  | OpOpen subscription_id open_reason owner "(stream_id \<times> stream_start) list" mono_instant
  | OpButtonTurn subscription_id owner sample mono_instant
  | OpReply subscription_id owner sample mono_instant
  | OpDiagnostic subscription_id owner mono_instant
  | OpResponse subscription_id owner sample "sample option" mono_instant
  | OpNearMiss subscription_id near_miss_open mono_instant
  | OpClose subscription_id close_reason mono_instant
  | OpRejected subscription_id generation "string option" mono_instant
  | OpPoll mono_instant
  | OpTakeCommands
  | OpDrain

text \<open>The session with the subscriptions opened and the deliveries handed over so far.\<close>

record session =
  ss_uplink :: uplink
  ss_opened :: "subscription_id list"
  ss_delivered :: "delivery list"

definition session_new :: "uplink_config \<Rightarrow> session_terms \<Rightarrow> bool \<Rightarrow> session" where
  "session_new config terms muted =
     \<lparr>ss_uplink = uplink_new config terms muted, ss_opened = [], ss_delivered = []\<rparr>"

definition set_uplink :: "session \<Rightarrow> uplink \<Rightarrow> session" where
  "set_uplink s u = s\<lparr>ss_uplink := u\<rparr>"

definition note_open :: "session \<Rightarrow> uplink \<times> (open_error, opened) result \<Rightarrow> session" where
  "note_open s res =
     s\<lparr>ss_uplink := fst res,
       ss_opened := ss_opened s @ (case snd res of Inl _ \<Rightarrow> [] | Inr opened \<Rightarrow> [op_subscription opened])\<rparr>"

fun session_step :: "session_op \<Rightarrow> session \<Rightarrow> session option" where
  "session_step (OpStreamOpened m) s = Some (set_uplink s (stream_opened m (ss_uplink s)))"
| "session_step (OpStreamEnded m now) s = map_option (set_uplink s) (stream_ended m now (ss_uplink s))"
| "session_step (OpFrame frame now) s =
     (case packet_parse frame of
        Inl _ \<Rightarrow> Some s
      | Inr p \<Rightarrow> map_option (\<lambda>(u, _). set_uplink s u) (ingest p now (ss_uplink s)))"
| "session_step (OpDeviceEnded report now) s = map_option (set_uplink s) (device_ended report now (ss_uplink s))"
| "session_step OpMute s = Some (set_uplink s (mute (ss_uplink s)))"
| "session_step OpUnmute s = Some (set_uplink s (unmute (ss_uplink s)))"
| "session_step OpSessionLost s = Some (set_uplink s (session_lost (ss_uplink s)))"
| "session_step (OpCandidate c now) s =
     (case accept_candidate c now (ss_uplink s) of
        (u, Inl _) \<Rightarrow> Some (set_uplink s u)
      | (u, Inr _) \<Rightarrow> Some (s\<lparr>ss_uplink := u, ss_opened := ss_opened s @ [co_subscription c]\<rparr>))"
| "session_step (OpConvert sid turn now) s = Some (set_uplink s (fst (convert_to_turn sid turn now (ss_uplink s))))"
| "session_step (OpOpen fresh reason owner streams now) s =
     Some (note_open s (uplink_open_sub fresh reason owner streams now (ss_uplink s)))"
| "session_step (OpButtonTurn fresh turn press now) s =
     Some (note_open s (open_button_turn fresh turn press now (ss_uplink s)))"
| "session_step (OpReply fresh expectation cells_from now) s =
     Some (note_open s (open_reply fresh expectation cells_from now (ss_uplink s)))"
| "session_step (OpDiagnostic fresh mode now) s =
     Some (note_open s (open_diagnostic fresh mode now (ss_uplink s)))"
| "session_step (OpResponse fresh turn afe_from mic_from now) s =
     Some (note_open s (open_response fresh turn afe_from mic_from now (ss_uplink s)))"
| "session_step (OpNearMiss fresh nm now) s = Some (note_open s (open_near_miss fresh nm now (ss_uplink s)))"
| "session_step (OpClose sid reason now) s =
     Some (set_uplink s (fst (uplink_close_sub sid reason now (ss_uplink s))))"
| "session_step (OpRejected sid generation code now) s =
     Some (set_uplink s (command_rejected sid generation code now (ss_uplink s)))"
| "session_step (OpPoll now) s = map_option (set_uplink s) (poll now (ss_uplink s))"
| "session_step OpTakeCommands s = Some (set_uplink s (fst (take_commands (ss_uplink s))))"
| "session_step OpDrain s =
     map_option (\<lambda>(u, out). s\<lparr>ss_uplink := u, ss_delivered := ss_delivered s @ out\<rparr>)
       (uplink_drain [] (ss_uplink s))"

abbreviation session_run :: "session_op list \<Rightarrow> session \<Rightarrow> session option" where
  "session_run \<equiv> run_steps session_step"

section \<open>Invariant\<close>

text \<open>A timeline that holds no record at all, and a muted session that has forgotten its audio.\<close>

definition quiet :: "timeline \<Rightarrow> bool" where
  "quiet t \<longleftrightarrow> (\<forall>s. \<forall>e \<in> set (tl_stores t s). \<forall>q. record_at (ep_buffer e) q = None)"

definition forgotten :: "uplink \<Rightarrow> bool" where
  "forgotten u \<longleftrightarrow> up_subs u = [] \<and> up_zombies u = [] \<and> up_commands u = []
     \<and> list_all is_ended_delivery (ob_queue (up_outbox u)) \<and> quiet (up_timeline u)"

text \<open>Every subscription ever opened is open, or its end is queued, or its end was handed over.\<close>

definition session_inv :: "session \<Rightarrow> bool" where
  "session_inv s \<longleftrightarrow> uplink_inv (ss_uplink s) \<and> (up_muted (ss_uplink s) \<longrightarrow> forgotten (ss_uplink s))
     \<and> mset (ss_opened s) = accounted (ss_uplink s) + mset (ended_ids (ss_delivered s))"

text \<open>A session that opens a capture epoch and one subscription, for the examples below.\<close>

definition example_terms :: session_terms where
  "example_terms = \<lparr>st_afe_metadata = True, st_near_miss = True\<rparr>"

definition example_ops :: "session_op list" where
  "example_ops = [OpStreamOpened \<lparr>so_stream = CellStream, so_epoch = 9, so_reason = None\<rparr>,
     OpOpen ''sub'' OpenDiagnostic ''mode'' [(Mic, StartLive)] 5]"

section \<open>Lemmas\<close>

subsection \<open>A muted session stays silent\<close>

lemma quiet_ensure: "quiet t \<Longrightarrow> quiet (timeline_ensure s e t)"
  by (auto simp: quiet_def timeline_ensure_def Let_def epoch_stream_new_def dest: in_set_dropD)

lemma quiet_frames [simp]:
  "quiet (set_capture c t) = quiet t" "quiet (set_reference c t) = quiet t" "quiet (timeline_clear t)"
  "quiet (timeline_new config)" "quiet (timeline_erase t)"
  by (auto simp: quiet_def set_capture_def set_reference_def timeline_clear_def timeline_new_def
      timeline_erase_def epoch_stream_new_def)

lemma quiet_update:
  "quiet t \<Longrightarrow> (\<And>q. record_at (ep_buffer h) q = None) \<Longrightarrow> quiet (timeline_update s e (\<lambda>_. h) t)"
  by (auto simp: quiet_def timeline_update_def dest!: set_update_epoch)

lemma end_all_nothing: "up_subs u = [] \<Longrightarrow> up_zombies u = [] \<Longrightarrow> end_all cause u = u"
  by (simp add: end_all_def)

lemma settle_subs_nothing: "up_subs u = [] \<Longrightarrow> settle_subs now u = u"
  by (simp add: settle_subs_def settle_from.simps)

lemma with_subs_nothing: "up_subs u = [] \<Longrightarrow> with_subs f u = Some u"
  by (simp add: with_subs_def)

lemmas nothing_open = end_all_nothing settle_subs_nothing with_subs_nothing

lemma forgotten_stream_opened: "forgotten u \<Longrightarrow> forgotten (stream_opened m u)"
  by (simp add: forgotten_def stream_opened_def Let_def nothing_open quiet_ensure)

lemma forgotten_stream_ended: "forgotten u \<Longrightarrow> stream_ended m now u = Some u' \<Longrightarrow> forgotten u'"
  by (auto simp: forgotten_def stream_ended_def Let_def nothing_open split: option.splits if_splits)

lemma buffer_quiet_missing:
  "buffer_inv s b \<Longrightarrow> (\<And>q. record_at b q = None) \<Longrightarrow> record_at (mark_missing sp b) q = None"
  using mark_missing_inv(2) by simp

lemma forgotten_ingest:
  assumes f: "forgotten u" and inv: "uplink_inv u" and i: "ingest p now u = Some (u', r)"
  shows "forgotten u'"
proof (cases "stream_of_kind (h_kind (p_header p))")
  case None
  then show ?thesis using i f by (simp add: ingest_def)
next
  case (Some stream)
  let ?e = "unat (h_epoch (p_header p))"
  have none: "up_subs u = []" "quiet (up_timeline u)" using f by (simp_all add: forgotten_def)
  have attr: "attribute_all as st e [] = []" for as st e
    using attribute_all_map(1) [of as st e "[]"] by simp
  show ?thesis
  proof (cases "is_erased stream ?e (up_timeline u) \<or> timeline_get stream ?e (up_timeline u) = None")
    case True
    then show ?thesis using i f Some by (auto simp: ingest_def Let_def split: if_splits)
  next
    case False
    then obtain held where held: "timeline_get stream ?e (up_timeline u) = Some held" by blast
    have mem: "held \<in> set (tl_stores (up_timeline u) stream)" using timeline_get_mem [OF held] by simp
    have b: "buffer_inv stream (ep_buffer held)" "\<And>q. record_at (ep_buffer held) q = None"
      using timeline_inv_buffer [OF _ mem] inv mem none(2) by (auto simp: uplink_inv_def quiet_def)
    have q: "record_at (ep_buffer (held\<lparr>ep_buffer := case m of None \<Rightarrow> ep_buffer held
        | Some sp \<Rightarrow> mark_missing sp (ep_buffer held), ep_track := tr\<rparr>)) q = None" for m tr q
      using buffer_quiet_missing [OF b] b(2) by (simp split: option.split)
    obtain tr cl where cl: "classify (unat (h_first_sample (p_header p))) (p_end_sample p)
        (contains_flags (h_flags (p_header p)) DISCONTINUITY) (ep_track held) = (tr, cl)" by fastforce
    have "u' = u\<lparr>up_timeline := timeline_update stream ?e (\<lambda>_. held\<lparr>ep_buffer := case cf_missing cl of
          None \<Rightarrow> ep_buffer held | Some sp \<Rightarrow> mark_missing sp (ep_buffer held), ep_track := tr\<rparr>) (up_timeline u),
        up_subs := []\<rparr>"
      using i False held none(1) Some by (simp add: ingest_def Let_def attr nothing_open cl)
    then show ?thesis using f quiet_update [OF none(2) q] by (simp add: forgotten_def)
  qed
qed

lemma forgotten_rest:
  assumes "forgotten u"
  shows "device_ended report now u = Some u" "poll now u = Some u"
    "fst (convert_to_turn sid turn now u) = u" "fst (uplink_close_sub sid reason now u) = u"
    "command_rejected sid generation code now u = u" "fst (take_commands u) = u"
  using assms
  by (simp_all add: forgotten_def device_ended_def poll_def release_all_def renew_def expire_zombies_def
      nothing_open convert_to_turn_def uplink_close_sub_def command_rejected_def take_commands_def)

lemma muted_check_open: "up_muted u \<Longrightarrow> check_open r u = Inl OpenMuted"
  by (simp add: check_open_def)

lemma muted_opens_nothing:
  assumes "up_muted u"
  shows "accept_candidate c now u = (u, Inl OpenMuted)" "fst (open_with fresh reason owner ss nm now u) = u"
    "fst (uplink_open_sub fresh reason owner ss now u) = u" "fst (open_near_miss fresh n now u) = u"
    "open_with fresh reason owner ss nm now u = (u, Inl OpenMuted)"
  using assms
  by (simp_all add: muted_check_open accept_candidate_def open_with_def uplink_open_sub_def open_near_miss_def)

lemma forgotten_mute: "forgotten (mute u)"
  by (auto simp: forgotten_def mute_def Let_def list_all_iff)

lemma forgotten_session_lost: "forgotten u \<Longrightarrow> forgotten (session_lost u)"
  by (simp add: forgotten_def session_lost_def Let_def list_all_iff)

lemma uplink_drain_total:
  assumes "outbox_ok (up_outbox u)"
  shows "\<exists>accounts. uplink_drain [] u = Some (u\<lparr>up_outbox := (up_outbox u)\<lparr>ob_queue := [], ob_accounts := accounts\<rparr>\<rparr>,
     ob_queue (up_outbox u)) \<and> outbox_ok ((up_outbox u)\<lparr>ob_queue := [], ob_accounts := accounts\<rparr>)"
  using drain_total [OF assms, of "[]"] drain_ok by (auto simp: uplink_drain_def)

lemma mute_inv: "uplink_inv u \<Longrightarrow> uplink_inv (mute u)"
proof -
  assume inv: "uplink_inv u"
  have "outbox_ok (up_outbox (end_every EndMuted (u\<lparr>up_muted := True\<rparr>)))"
    using inv outbox_exact_ok [OF discard_chunks_exact]
    by (simp add: end_every_def fold_push_ended uplink_inv_def)
  then show ?thesis using inv by (simp add: mute_def Let_def uplink_inv_def sub_keys_def timeline_erase_inv)
qed

subsection \<open>Every operation keeps the session invariant\<close>

lemma lawful_session:
  assumes "session_inv s" "lawful (ss_uplink s) u" "up_muted u \<Longrightarrow> forgotten u"
  shows "session_inv (set_uplink s u)"
  using assms by (auto simp: session_inv_def lawful_def set_uplink_def)

lemma open_session:
  assumes inv: "session_inv s" and res: "open_result (ss_uplink s) res"
  shows "session_inv (note_open s res)"
proof (cases "snd res")
  case (Inl e)
  then show ?thesis using assms by (simp add: note_open_def open_result_def)
next
  case (Inr opened)
  then have o: "opens_one (op_subscription opened) (ss_uplink s) (fst res)" using res by (simp add: open_result_def)
  then show ?thesis using inv Inr by (simp add: session_inv_def note_open_def opens_one_def)
qed

lemma candidate_session:
  assumes inv: "session_inv s"
  shows "\<exists>s'. session_step (OpCandidate c now) s = Some s' \<and> session_inv s'"
proof (cases "accept_candidate c now (ss_uplink s)")
  case (Pair u res)
  then show ?thesis
    using inv accept_candidate_opens_one [where cand = c and now = now and u = "ss_uplink s"]
    by (cases res) (auto simp: session_inv_def set_uplink_def opens_one_def)
qed

lemma drain_session:
  assumes inv: "session_inv s"
  shows "\<exists>s'. session_step OpDrain s = Some s' \<and> session_inv s'"
proof -
  have "outbox_ok (up_outbox (ss_uplink s))" using inv by (simp add: session_inv_def uplink_inv_def)
  from uplink_drain_total [OF this] show ?thesis
    using inv by (auto simp: session_inv_def uplink_inv_def forgotten_def accounted_def sub_keys_def)
qed

lemma mute_session: "session_inv s \<Longrightarrow> session_inv (set_uplink s (mute (ss_uplink s)))"
  using mute_inv [of "ss_uplink s"] forgotten_mute [of "ss_uplink s"]
  by (simp add: session_inv_def set_uplink_def accounted_def mute_def Let_def filter_only_ended ended_ids_ended)

lemma unmute_session: "session_inv s \<Longrightarrow> session_inv (set_uplink s (unmute (ss_uplink s)))"
  by (auto simp: session_inv_def set_uplink_def unmute_def uplink_inv_def accounted_def sub_keys_def)

lemma take_commands_lawful: "lawful u (fst (take_commands u))"
  by (simp add: take_commands_def lawful_def uplink_inv_def accounted_def sub_keys_def)

lemmas op_laws = stream_opened_lawful session_lost_lawful convert_to_turn_lawful uplink_close_sub_lawful
  command_rejected_lawful take_commands_lawful

lemma lawful_muted: "lawful u u' \<Longrightarrow> up_muted u' = up_muted u"
  by (simp add: lawful_def)

text \<open>Where an operation obeys the laws and leaves a forgotten session forgotten, the invariant is kept.\<close>

lemma keeps_session:
  assumes inv: "session_inv s" and l: "lawful (ss_uplink s) u'" and "forgotten (ss_uplink s) \<Longrightarrow> forgotten u'"
  shows "session_inv (set_uplink s u')"
  using lawful_session [OF inv l] lawful_muted [OF l] assms(3) inv by (auto simp: session_inv_def)

lemma session_step_total:
  assumes inv: "session_inv s"
  shows "\<exists>s'. session_step op s = Some s' \<and> session_inv s'"
proof -
  have ui: "uplink_inv (ss_uplink s)" using inv by (simp add: session_inv_def)
  show ?thesis
  proof (cases op)
    case (OpStreamEnded m now)
    obtain u where "stream_ended m now (ss_uplink s) = Some u" "lawful (ss_uplink s) u"
      using stream_ended_lawful [OF ui] by blast
    then show ?thesis using keeps_session [OF inv] forgotten_stream_ended OpStreamEnded by auto
  next
    case (OpFrame frame now)
    show ?thesis
    proof (cases "packet_parse frame")
      case (Inr p)
      obtain u r where "ingest p now (ss_uplink s) = Some (u, r)" "lawful (ss_uplink s) u"
        using ingest_lawful [OF ui Inr] by blast
      then show ?thesis using keeps_session [OF inv] forgotten_ingest [OF _ ui] OpFrame Inr by auto
    qed (use inv OpFrame in simp)
  next
    case (OpDeviceEnded report now)
    obtain u where "device_ended report now (ss_uplink s) = Some u" "lawful (ss_uplink s) u"
      using device_ended_lawful [OF ui] by blast
    then show ?thesis using keeps_session [OF inv] forgotten_rest(1) [of "ss_uplink s" report now] OpDeviceEnded by auto
  next
    case (OpPoll now)
    obtain u where "poll now (ss_uplink s) = Some u" "lawful (ss_uplink s) u"
      using poll_lawful [OF ui] by blast
    then show ?thesis using keeps_session [OF inv] forgotten_rest(2) [of "ss_uplink s" now] OpPoll by auto
  qed (use inv in \<open>simp_all add: keeps_session op_laws forgotten_stream_opened forgotten_session_lost forgotten_rest
    mute_session unmute_session open_session opening_rules open_button_turn_def open_reply_def open_diagnostic_def
    open_response_def Let_def candidate_session [simplified] drain_session [simplified]\<close>)
qed

interpretation session_machine: total_machine session_step session_inv
  by unfold_locales (rule session_step_total)

lemma session_new_inv: "session_inv (session_new config terms muted)"
  by (simp add: session_inv_def session_new_def uplink_new_def uplink_inv_def accounted_def sub_keys_def
      timeline_new_inv outbox_ok_def entries_def forgotten_def)

subsection \<open>Erased epochs stay erased\<close>

definition erased_in :: "session \<Rightarrow> nat set" where
  "erased_in s = tl_erased (up_timeline (ss_uplink s))"

lemma open_result_erased: "open_result u res \<Longrightarrow> tl_erased (up_timeline u) \<subseteq> tl_erased (up_timeline (fst res))"
  by (auto simp: open_result_def opens_one_def split: sum.splits)

lemma lawful_erased: "lawful u u' \<Longrightarrow> tl_erased (up_timeline u) \<subseteq> tl_erased (up_timeline u')"
  by (simp add: lawful_def)

lemma note_open_erased: "x \<in> erased_in s \<Longrightarrow> open_result (ss_uplink s) res \<Longrightarrow> x \<in> erased_in (note_open s res)"
  using open_result_erased [of "ss_uplink s" res] by (auto simp: erased_in_def note_open_def)

lemma mute_erased: "tl_erased (up_timeline u) \<subseteq> tl_erased (up_timeline (mute u))"
  by (simp add: mute_def Let_def timeline_erase_erased)

lemma session_step_erased:
  assumes inv: "session_inv s" and step: "session_step op s = Some s'"
  shows "erased_in s \<subseteq> erased_in s'"
proof -
  have ui: "uplink_inv (ss_uplink s)" using inv by (simp add: session_inv_def)
  have l: "lawful (ss_uplink s) u \<Longrightarrow> x \<in> erased_in s \<Longrightarrow> x \<in> erased_in (set_uplink s u)" for u x
    using lawful_erased by (auto simp: erased_in_def set_uplink_def)
  show ?thesis
  proof (cases op)
    case (OpFrame frame now)
    then show ?thesis
      using step ingest_lawful [OF ui, of frame _ now] by (auto split: sum.splits dest: l)
  next
    case (OpCandidate c now)
    then show ?thesis
      using step accept_candidate_opens_one [where cand = c and now = now and u = "ss_uplink s"]
      by (auto simp: erased_in_def set_uplink_def opens_one_def split: prod.splits sum.splits)
  next
    case OpDrain
    then show ?thesis
      using step uplink_drain_total [of "ss_uplink s"] ui by (auto simp: erased_in_def uplink_inv_def)
  next
    case OpMute
    then show ?thesis using step mute_erased [of "ss_uplink s"] by (auto simp: erased_in_def set_uplink_def)
  next
    case OpUnmute
    then show ?thesis using step by (auto simp: erased_in_def set_uplink_def unmute_def)
  next
    case (OpStreamEnded m now)
    then show ?thesis using step stream_ended_lawful [OF ui, of m now] by (auto dest: l)
  next
    case (OpDeviceEnded r now)
    then show ?thesis using step device_ended_lawful [OF ui, of r now] by (auto dest: l)
  next
    case (OpPoll now)
    then show ?thesis using step poll_lawful [OF ui, of now] by (auto dest: l)
  qed (use step in
      \<open>auto simp: open_button_turn_def open_reply_def open_diagnostic_def open_response_def Let_def
        intro: l op_laws note_open_erased opening_rules\<close>)
qed

lemma session_run_erased:
  "session_inv s \<Longrightarrow> session_run ops s = Some s' \<Longrightarrow> erased_in s \<subseteq> erased_in s'"
  by (rule session_machine.run_mono [where R = "\<lambda>a b. erased_in a \<subseteq> erased_in b"])
    (auto dest: session_step_erased)

subsection \<open>The example session\<close>

lemmas session_eval = session_new_def uplink_new_def set_uplink_def stream_opened_def Let_def is_erased_def
  timeline_new_def set_capture_def end_all_def timeline_ensure_def note_open_def uplink_open_sub_def open_with_def
  check_open_def activate_def start_spec_of_def activate_grants_def claim_run_def cursor_new_def send_def

lemma run_steps_append:
  "run_steps f (xs @ ys) s = (case run_steps f xs s of None \<Rightarrow> None | Some s' \<Rightarrow> run_steps f ys s')"
  by (induction xs arbitrary: s) (simp_all split: option.split)

lemma witness_session:
  "\<exists>s. session_run example_ops (session_new uplink_config_default example_terms False) = Some s
     \<and> ss_opened s = [''sub''] \<and> tl_capture (up_timeline (ss_uplink s)) = Some 9"
  by (simp add: example_ops_def example_terms_def session_eval)

section \<open>Properties\<close>


text \<open>(C1) The privacy mute holds whatever happens before and after it: a session that is muted has no
  subscription, no lingering one and no command to send, hands over nothing but end notices, holds
  no audio record of any stream, and refuses every subscription.\<close>

theorem muted_session_holds_nothing:
  assumes "session_run ops (session_new config terms muted) = Some s" "up_muted (ss_uplink s)"
  shows "subscriptions (ss_uplink s) = [] \<and> up_zombies (ss_uplink s) = [] \<and> up_commands (ss_uplink s) = []
    \<and> (\<forall>d \<in> set (ob_queue (up_outbox (ss_uplink s))). \<exists>e. d = DeliverEnded e)
    \<and> (\<forall>stream epoch held q. timeline_get stream epoch (up_timeline (ss_uplink s)) = Some held \<longrightarrow>
          record_at (ep_buffer held) q = None)
    \<and> accept_candidate c now (ss_uplink s) = (ss_uplink s, Inl OpenMuted)
    \<and> open_with fresh reason owner streams nm now (ss_uplink s) = (ss_uplink s, Inl OpenMuted)"
proof -
  have "forgotten (ss_uplink s)"
    using session_machine.run_keeps [OF session_new_inv assms(1)] assms(2) by (simp add: session_inv_def)
  moreover have "\<exists>e. d = DeliverEnded e" if "is_ended_delivery d" for d using that by (cases d) auto
  ultimately show ?thesis
    using muted_opens_nothing [OF assms(2)] timeline_get_mem
    by (fastforce simp: forgotten_def subscriptions_def list_all_iff quiet_def)
qed

theorem muted_session_holds_nothing_witness:
  "\<exists>s. session_run (example_ops @ [OpMute]) (session_new uplink_config_default example_terms False) = Some s
     \<and> up_muted (ss_uplink s) \<and> subscriptions (ss_uplink s) = []"
proof -
  obtain s where s: "session_run (example_ops @ [OpMute]) (session_new uplink_config_default example_terms False) = Some s"
      "up_muted (ss_uplink s)"
    by (simp add: example_ops_def set_uplink_def mute_def Let_def)
  then show ?thesis using muted_session_holds_nothing [OF s] by blast
qed

text \<open>(C3) Every subscription ends exactly once: at any time, the subscriptions ever opened are, each
  with its multiplicity, those still open, those whose end notice waits in the outbox, and those
  whose end notice was handed over.\<close>

theorem subscriptions_end_exactly_once:
  assumes "session_run ops (session_new config terms muted) = Some s"
  shows "mset (ss_opened s) = mset (map sv_id (subscriptions (ss_uplink s)))
     + mset (ended_ids (ob_queue (up_outbox (ss_uplink s)))) + mset (ended_ids (ss_delivered s))"
proof -
  have "mset (ss_opened s) = accounted (ss_uplink s) + mset (ended_ids (ss_delivered s))"
    using session_machine.run_keeps [OF session_new_inv assms] by (simp add: session_inv_def)
  moreover have "map sv_id (subscriptions (ss_uplink s)) = map sb_id (up_subs (ss_uplink s))"
    by (simp add: subscriptions_def sub_view_def)
  ultimately show ?thesis by (simp add: accounted_def)
qed

theorem subscriptions_end_exactly_once_witness:
  "\<exists>s. session_run example_ops (session_new uplink_config_default example_terms False) = Some s
     \<and> ss_opened s = [''sub''] \<and> mset [''sub''] = mset (map sv_id (subscriptions (ss_uplink s)))
       + mset (ended_ids (ob_queue (up_outbox (ss_uplink s)))) + mset (ended_ids (ss_delivered s))"
proof -
  obtain s where s: "session_run example_ops (session_new uplink_config_default example_terms False) = Some s"
      "ss_opened s = [''sub'']"
    using witness_session by blast
  then show ?thesis using subscriptions_end_exactly_once [OF s(1)] by auto
qed

text \<open>(C7) A mute erases for good: a capture epoch the session kept or was capturing when it was muted is
  refused from then on. Whatever happens later, unmuting included, a packet of it is answered with
  \<open>ErasedEpoch\<close> and changes nothing.\<close>

theorem muted_epochs_stay_erased:
  assumes "session_run ops (session_new config terms muted) = Some s1"
    and "epoch \<in> set (epochs_of stream (up_timeline (ss_uplink s1))) \<or> tl_capture (up_timeline (ss_uplink s1)) = Some epoch"
    and "session_run (OpMute # later) s1 = Some s2"
    and "stream_of_kind (h_kind (p_header p)) = Some stream" "stream \<noteq> Reference" "unat (h_epoch (p_header p)) = epoch"
  shows "ingest p now (ss_uplink s2) = Some (ss_uplink s2, ErasedEpoch)"
proof -
  let ?m = "set_uplink s1 (mute (ss_uplink s1))"
  have inv: "session_inv ?m" using mute_session session_machine.run_keeps [OF session_new_inv assms(1)] .
  have "epoch \<in> erased_in ?m"
    using assms(2,5)
    by (cases stream) (auto simp: erased_in_def set_uplink_def mute_def Let_def timeline_erase_def epochs_of_def)
  then have "epoch \<in> erased_in s2" using session_run_erased [OF inv, of later s2] assms(3) by auto
  then show ?thesis using assms(4-6) by (simp add: ingest_def Let_def is_erased_def erased_in_def)
qed

theorem muted_epochs_stay_erased_witness:
  "\<exists>s p. session_run (example_ops @ [OpMute, OpUnmute]) (session_new uplink_config_default example_terms False) = Some s
     \<and> h_epoch (p_header p) = 9 \<and> ingest p 70 (ss_uplink s) = Some (ss_uplink s, ErasedEpoch)"
proof -
  obtain s1 where s1: "session_run example_ops (session_new uplink_config_default example_terms False) = Some s1"
      "tl_capture (up_timeline (ss_uplink s1)) = Some 9"
    using witness_session by blast
  obtain s2 where s2: "session_run [OpMute, OpUnmute] s1 = Some s2" by simp
  obtain frame p where p: "packet_parse frame = Inr p" "p_header p = witness_header"
    using witness_packet by blast
  have "ingest p 70 (ss_uplink s2) = Some (ss_uplink s2, ErasedEpoch)"
    by (rule muted_epochs_stay_erased [OF s1(1) _ s2, where epoch = 9 and stream = CellStream])
      (use s1(2) p(2) in \<open>simp_all add: witness_header_def\<close>)
  moreover have "session_run (example_ops @ [OpMute, OpUnmute]) (session_new uplink_config_default example_terms False) = Some s2"
    using s1(1) s2 by (simp add: run_steps_append)
  moreover have "h_epoch (p_header p) = 9" using p(2) by (simp add: witness_header_def)
  ultimately show ?thesis by blast
qed

text \<open>(C9) Converting a candidate into a turn takes effect at once and survives what is still under way for
  the candidate: the subscription now belongs to the turn under the next generation, one renewal
  announces it, a rejection of any command of the candidate's generation is ignored, a rejection of
  the conversion itself ends it, and it cannot be converted again.\<close>

theorem conversion_outlives_candidate:
  assumes "find (\<lambda>s. sb_id s = sid) (up_subs u) = Some s"
    and "is_active (sb_phase s)" "sb_reason s = SubCandidate" "sb_generation s < u32_max"
    and "convert_to_turn sid turn now u = (u', res)"
  shows "res = Inr ()
    \<and> subscription sid u' = Some ((sub_view s)\<lparr>sv_owner := turn, sv_reason := SubTurn, sv_generation := sb_generation s + 1\<rparr>)
    \<and> up_commands u' = up_commands u @ [\<lparr>og_generation = sb_generation s + 1,
        og_command = CmdRenew \<lparr>ur_subscription = sid, ur_ttl = SUBSCRIPTION_TTL, ur_conversion = Some turn\<rparr>\<rparr>]
    \<and> (g \<le> sb_generation s \<longrightarrow> command_rejected sid g code later u' = u')
    \<and> (sb_generation s < g \<longrightarrow> accounted (command_rejected sid g code later u') = accounted u
        \<and> length (up_subs (command_rejected sid g code later u')) < length (up_subs u))
    \<and> convert_to_turn sid other later u' = (u', Inl NotACandidate)"
proof -
  obtain at where at: "position (\<lambda>s. sb_id s = sid) (up_subs u) = Some at" "s = up_subs u ! at"
    using assms(1) by (auto simp: find_position split: option.splits)
  define s' where "s' = s\<lparr>sb_generation := sb_generation s + 1, sb_reason := SubTurn, sb_owner := turn,
      sb_phase := Active (mono_after now RENEW_INTERVAL)\<rparr>"
  have less: "at < length (up_subs u)" "sb_id s = sid" using position_less [OF at(1)] at(2) by auto
  have gen: "generation_next (sb_generation s) = sb_generation s + 1" using assms(4) by (simp add: generation_next_def)
  have u': "u' = send (sb_generation s + 1) (CmdRenew \<lparr>ur_subscription = sid, ur_ttl = SUBSCRIPTION_TTL,
      ur_conversion = Some turn\<rparr>) (u\<lparr>up_subs := (up_subs u)[at := s']\<rparr>)" and res: "res = Inr ()"
    using assms(2,3,5) at less(2) gen by (simp_all add: convert_to_turn_def s'_def Let_def)
  have at': "position (\<lambda>s. sb_id s = sid) (up_subs u') = Some at" "up_subs u' ! at = s'"
    using at(1) less by (simp_all add: u' position_update s'_def)
  have acc: "accounted u' = accounted u" using convert_to_turn_lawful [of u sid turn now] assms(5) by (simp add: lawful_def)
  have less': "at < length (up_subs u')" using less(1) by (simp add: u')
  show ?thesis
    using res at' acc less' end_sub_lawful [OF less'] less(1) assms(2)
    by (auto simp: subscription_def find_position command_rejected_def convert_to_turn_def s'_def sub_view_def Let_def
        u' lawful_def length_remove_nth send_def)
qed

theorem conversion_outlives_candidate_witness:
  "\<exists>u s u'. find (\<lambda>s. sb_id s = ''c'') (up_subs u) = Some s \<and> sb_reason s = SubCandidate
     \<and> convert_to_turn ''c'' ''turn'' 8 u = (u', Inr ())
     \<and> command_rejected ''c'' 1 None 9 u' = u' \<and> convert_to_turn ''c'' ''again'' 9 u' = (u', Inl NotACandidate)"
proof -
  define s where "s = \<lparr>sb_key = 0, sb_id = ''c'', sb_owner = ''c'', sb_reason = SubCandidate, sb_generation = 1,
     sb_capture_epoch = 9, sb_wants = [], sb_phase = Active 5, sb_near_miss = None, sb_overflowed = False\<rparr>"
  define u where "u = (uplink_new uplink_config_default example_terms False)\<lparr>up_subs := [s], up_next_key := 1\<rparr>"
  have h: "find (\<lambda>s. sb_id s = ''c'') (up_subs u) = Some s" "is_active (sb_phase s)" "sb_reason s = SubCandidate"
      "sb_generation s < u32_max" "sb_generation s = 1"
    by (simp_all add: u_def s_def u32_max_def)
  obtain u' res where c: "convert_to_turn ''c'' ''turn'' 8 u = (u', res)" by fastforce
  show ?thesis
    using conversion_outlives_candidate [OF h(1-4) c, of 1 None 9 "''again''"] h c by auto
qed

end
