(* ===== verification/Uplink_Deadlines.thy ===== *)
theory Uplink_Deadlines
  imports Uplink_Laws
begin

text \<open>
  Time in a session's uplink: what \<open>poll\<close> leaves undone, and that the deadline it leaves behind lies
  in the future, so that a driver which polls at \<open>next_deadline\<close> never spins.
\<close>

section \<open>Specification\<close>

text \<open>A cursor that waits behind a hole waits for an instant still to come.\<close>

definition waits_later :: "duration_ns \<Rightarrow> mono_instant \<Rightarrow> cursor \<Rightarrow> bool" where
  "waits_later wait now c \<longleftrightarrow> (case stall_deadline wait c of None \<Rightarrow> True | Some d \<Rightarrow> now < d)"

text \<open>A subscription \<open>settle_subs\<close> has nothing to do for, and one whose deadlines are all to come.\<close>

definition rests :: "mono_instant \<Rightarrow> sub \<Rightarrow> bool" where
  "rests now s \<longleftrightarrow> \<not> sb_overflowed s
     \<and> (case sb_phase s of
          Draining _ deadline \<Rightarrow> \<not> drained s \<and> now < deadline
        | Active _ \<Rightarrow> \<not> near_miss_done s)"

definition due_later :: "duration_ns \<Rightarrow> mono_instant \<Rightarrow> sub \<Rightarrow> bool" where
  "due_later wait now s \<longleftrightarrow>
     (case sb_phase s of Active next_renewal \<Rightarrow> now < next_renewal | Draining _ _ \<Rightarrow> True)
     \<and> (\<forall>w \<in> set (sb_wants s). list_all (waits_later wait now) (wn_cursors w))"

text \<open>The epochs of every cursor are still kept.\<close>

definition epochs_held :: "timeline \<Rightarrow> sub \<Rightarrow> bool" where
  "epochs_held t s \<longleftrightarrow> (\<forall>w \<in> set (sb_wants s). \<forall>c \<in> set (wn_cursors w).
      timeline_get (wn_stream w) (cu_epoch c) t \<noteq> None)"

section \<open>Lemmas\<close>

lemma mono_after_later: "now < u64_max \<Longrightarrow> 0 < d \<Longrightarrow> now < mono_after now d"
  by (auto simp: mono_after_def sat_add_def)

lemma release_loop_waits:
  assumes "release_loop src sub g config now c pos ob = Some (c', ob', ok)"
    and "now < u64_max" "0 < uc_hole_wait config"
  shows "waits_later (uc_hole_wait config) now c'"
  using assms
proof (induction src sub g config now c pos ob rule: release_loop.induct)
  case (1 src sub g config now c pos ob)
  show ?case
  proof (cases "release_step c src config now pos")
    case (Halt h)
    then show ?thesis
      using 1(2-4) mono_after_later [of now "uc_hole_wait config"]
      by (auto simp: release_loop.simps [of src] release_step_def release_unknown_def release_stall_def
          waits_later_def stall_deadline_def Let_def split: lookup.splits option.splits if_splits)
  next
    case (Emit hi body)
    define ck where "ck = \<lparr>ck_subscription = sub, ck_generation = g, ck_stream = sc_stream src,
       ck_epoch = sc_epoch src, ck_span = \<lparr>sp_start = pos, sp_end = hi\<rparr>, ck_body = body\<rparr>"
    obtain ob1 within where p: "push (DeliverChunk ck) ob = (ob1, within)" by fastforce
    show ?thesis
    proof (cases within)
      case True
      then have "release_loop src sub g config now (c\<lparr>cu_pos := Some hi, cu_stalled_since := None\<rparr>) hi ob1 = Some (c', ob', ok)"
        using 1(2) Emit p by (simp add: release_loop.simps [of src _ _ _ _ c] ck_def)
      then show ?thesis using 1(1) [OF Emit ck_def refl p [symmetric] refl] True 1(3,4) by simp
    next
      case False
      then show ?thesis
        using 1(2) Emit p
        by (auto simp: release_loop.simps [of src _ _ _ _ c] ck_def waits_later_def stall_deadline_def)
    qed
  qed (use 1(2) in \<open>simp add: release_loop.simps [of src]\<close>)
qed

lemma release_waits:
  assumes "release c src sub g ob config now = Some (c', ob', ok)" "cursor_ok c"
    and "now < u64_max" "0 < uc_hole_wait config"
  shows "waits_later (uc_hole_wait config) now c'"
proof (cases "cu_pos c")
  case None
  then show ?thesis using assms by (simp add: release_def cursor_ok_def waits_later_def stall_deadline_def)
next
  case (Some pos)
  then have "release_loop src sub g config now c pos ob = Some (c', ob', ok)" using assms(1) by (simp add: release_def)
  then show ?thesis using assms(3,4) by (rule release_loop_waits)
qed

lemma release_cursors_waits:
  assumes "release_cursors t config now s stream cs ob = Some (cs', ob', ok)"
    and "list_all cursor_ok cs" "\<forall>c \<in> set cs. timeline_get stream (cu_epoch c) t \<noteq> None"
    and "now < u64_max" "0 < uc_hole_wait config"
  shows "list_all (waits_later (uc_hole_wait config) now) cs'"
  using assms
proof (induction cs arbitrary: ob cs' ob' ok)
  case (Cons c cs)
  from Cons.prems(3) obtain held where h: "timeline_get stream (cu_epoch c) t = Some held" by auto
  obtain c1 ob1 ok1 cs1 ok2 where
      1: "release c (source_of stream None held) (sb_id s) (sb_generation s) ob config now = Some (c1, ob1, ok1)"
    and 2: "release_cursors t config now s stream cs ob1 = Some (cs1, ob', ok2)" and cs': "cs' = c1 # cs1"
    using Cons.prems(1) h by (fastforce split: option.splits)
  show ?case
    using release_waits [OF 1] Cons.IH [OF 2] Cons.prems cs' by simp
qed simp

lemma release_wants_waits:
  assumes "release_wants t config now s ws ob = Some (ws', ob', ok)"
    and "list_all want_ok ws"
    and "\<forall>w \<in> set ws. \<forall>c \<in> set (wn_cursors w). timeline_get (wn_stream w) (cu_epoch c) t \<noteq> None"
    and "now < u64_max" "0 < uc_hole_wait config"
  shows "\<forall>w \<in> set ws'. list_all (waits_later (uc_hole_wait config) now) (wn_cursors w)"
  using assms
proof (induction ws arbitrary: ob ws' ob' ok)
  case (Cons w ws)
  obtain cs ob1 ok1 ws1 ok2 where
      1: "release_cursors t config now s (wn_stream w) (wn_cursors w) ob = Some (cs, ob1, ok1)"
    and 2: "release_wants t config now s ws ob1 = Some (ws1, ob', ok2)" and ws': "ws' = w\<lparr>wn_cursors := cs\<rparr> # ws1"
    using Cons.prems(1) by (fastforce split: option.splits)
  show ?case
    using release_cursors_waits [OF 1] Cons.IH [OF 2] Cons.prems ws' by (simp add: want_ok_def)
qed simp

lemma release_sub_later:
  assumes "release_sub t config now s ob = Some (s', ob')" "sub_ok s" "epochs_held t s"
    and "now < u64_max" "0 < uc_hole_wait config"
    and "case sb_phase s of Active next_renewal \<Rightarrow> now < next_renewal | Draining _ _ \<Rightarrow> True"
  shows "due_later (uc_hole_wait config) now s'"
  using assms release_wants_waits [of t config now s "sb_wants s" ob]
  by (fastforce simp: release_sub_def due_later_def sub_ok_def epochs_held_def)

lemma for_subs_all:
  assumes "for_subs f ss ob = Some (ss', ob')" "\<And>s ob s' ob'. s \<in> set ss \<Longrightarrow> f s ob = Some (s', ob') \<Longrightarrow> P s'"
  shows "list_all P ss'"
  using assms
proof (induction ss arbitrary: ob ss' ob')
  case (Cons s ss)
  then obtain s1 ob1 ss1 where "f s ob = Some (s1, ob1)" "for_subs f ss ob1 = Some (ss1, ob')" "ss' = s1 # ss1"
    by (auto split: option.splits)
  then show ?case using Cons.IH [of ob1 ss1 ob'] Cons.prems(2) by auto
qed simp

subsection \<open>Settling\<close>

lemma settle_at_None: "settle_at at now u = None \<longleftrightarrow> rests now (up_subs u ! at)"
  by (auto simp: settle_at_def rests_def Let_def split: phase.split)

text \<open>Zombies that were there, or were just left behind.\<close>

definition zombies_from :: "mono_instant \<Rightarrow> uplink \<Rightarrow> uplink \<Rightarrow> bool" where
  "zombies_from now u u' \<longleftrightarrow> up_config u' = up_config u
     \<and> (\<forall>z \<in> set (up_zombies u'). z \<in> set (up_zombies u)
          \<or> zb_expires z = mono_after now (SUBSCRIPTION_TTL + uc_hole_wait (up_config u)))"

lemma end_sub_zombies: "zombies_from now u (end_sub at cause lv now u)"
  by (auto simp: zombies_from_def zombie_of_def split: leaves.split)

lemma close_at_zombies: "zombies_from now u (close_at at reason cause now u)"
  using end_sub_zombies [of now "send g c u" at cause LeavesZombie for g c]
    end_sub_zombies [of now u at cause LeavesGone]
  by (auto simp: close_at_def Let_def zombies_from_def)

lemma give_up_drain_frame [simp]:
  "up_config (give_up_drain at u) = up_config u" "up_zombies (give_up_drain at u) = up_zombies u"
  by (auto simp: give_up_drain_def Let_def split: prod.split)

lemma settle_at_Some:
  assumes "settle_at at now u = Some u'"
  shows "up_subs u' = remove_nth at (up_subs u) \<and> zombies_from now u u'"
proof -
  have g: "zombies_from now u (end_sub at cause LeavesGone now (give_up_drain at u))" for cause
    using end_sub_zombies [of now "give_up_drain at u" at cause LeavesGone] by (simp add: zombies_from_def)
  have r: "remove_nth at (up_subs (give_up_drain at u)) = remove_nth at (up_subs u)"
    by (simp add: give_up_drain_def Let_def remove_nth_update split: prod.split)
  show ?thesis
    using assms g r close_at_zombies end_sub_zombies
    by (auto simp: settle_at_def Let_def close_at_subs split: if_splits phase.splits)
qed

lemma settle_from_rests:
  assumes "\<forall>s \<in> set (take at (up_subs u)). rests now s"
  shows "(\<forall>s \<in> set (up_subs (settle_from at now u)). rests now s \<and> s \<in> set (up_subs u))
     \<and> zombies_from now u (settle_from at now u)"
  using assms
proof (induction at now u rule: settle_from.induct)
  case (1 at now u)
  show ?case
  proof (cases "at < length (up_subs u)")
    case True
    show ?thesis
    proof (cases "settle_at at now u")
      case None
      then have "\<forall>s \<in> set (take (Suc at) (up_subs u)). rests now s"
        using 1(3) True by (simp add: settle_at_None take_Suc_conv_app_nth)
      then show ?thesis using 1(1) [OF True None] True None by (subst (1 2) settle_from.simps) simp
    next
      case (Some v)
      note v = settle_at_Some [OF Some]
      have t: "take at (up_subs v) = take at (up_subs u)" using v True by (simp add: remove_nth_def)
      have sub: "set (up_subs v) \<subseteq> set (up_subs u)"
        using v by (auto simp: remove_nth_def dest: in_set_takeD in_set_dropD)
      have "zombies_from now u w" if "zombies_from now v w" for w
        using that v by (auto simp: zombies_from_def)
      then show ?thesis
        using 1(2) [OF True Some] 1(3) t sub True Some by (subst (1 2) settle_from.simps) auto
    qed
  qed (use 1(3) in \<open>simp add: settle_from.simps zombies_from_def\<close>)
qed

subsection \<open>Polling\<close>

lemma renew_later:
  assumes "now < u64_max" "s \<in> set (up_subs (renew now u))"
  shows "case sb_phase s of Active next_renewal \<Rightarrow> now < next_renewal | Draining _ _ \<Rightarrow> True"
proof -
  have "now < mono_after now RENEW_INTERVAL"
    using mono_after_later [OF assms(1)] by (simp add: RENEW_INTERVAL_def secs_def)
  then show ?thesis
    using assms(2) by (auto simp: renew_def split: phase.splits if_splits)
qed

lemma renew_subs: "s \<in> set (up_subs (renew now u)) \<Longrightarrow> \<exists>s0 \<in> set (up_subs u). sb_wants s = sb_wants s0"
  by (auto simp: renew_def)

lemma expire_zombies_frame:
  "up_subs (expire_zombies now u) = up_subs u" "up_config (expire_zombies now u) = up_config u"
  "up_zombies (expire_zombies now u) = filter (\<lambda>z. zb_expires z > now) (up_zombies u)"
proof -
  have "up_config (fold (\<lambda>z. drop_key (zb_key z)) zs v) = up_config v" for zs v
    by (induction zs arbitrary: v) (simp_all add: drop_key_def)
  then show "up_subs (expire_zombies now u) = up_subs u" "up_config (expire_zombies now u) = up_config u"
    "up_zombies (expire_zombies now u) = filter (\<lambda>z. zb_expires z > now) (up_zombies u)"
    by (simp_all add: expire_zombies_def Let_def fold_drop_key)
qed

lemma release_all_later:
  assumes "release_all now u = Some v" "list_all sub_ok (up_subs u)" "\<forall>s \<in> set (up_subs u). epochs_held (up_timeline u) s"
    and "now < u64_max" "0 < uc_hole_wait (up_config u)"
    and "\<forall>s \<in> set (up_subs u). case sb_phase s of Active next_renewal \<Rightarrow> now < next_renewal | Draining _ _ \<Rightarrow> True"
  shows "list_all (due_later (uc_hole_wait (up_config u)) now) (up_subs v)"
    and "up_config v = up_config u" "up_zombies v = up_zombies u"
proof -
  obtain ss ob where f: "for_subs (release_sub (up_timeline u) (up_config u) now) (up_subs u) (up_outbox u) = Some (ss, ob)"
    and v: "v = u\<lparr>up_subs := ss, up_outbox := ob\<rparr>"
    using assms(1) by (auto simp: release_all_def with_subs_def)
  have "list_all (due_later (uc_hole_wait (up_config u)) now) ss"
    by (rule for_subs_all [OF f]) (use assms(2-6) in \<open>auto simp: list_all_iff intro: release_sub_later\<close>)
  then show "list_all (due_later (uc_hole_wait (up_config u)) now) (up_subs v)"
    "up_config v = up_config u" "up_zombies v = up_zombies u" by (simp_all add: v)
qed

lemma deadlines_later:
  assumes "rests now s" "due_later wait now s" "d \<in> set (sub_deadlines wait s)"
  shows "now < d"
proof -
  consider "d = (case sb_phase s of Active n \<Rightarrow> n | Draining _ n \<Rightarrow> n)"
    | w c where "w \<in> set (sb_wants s)" "c \<in> set (wn_cursors w)" "stall_deadline wait c = Some d"
    using assms(3) by (auto simp: sub_deadlines_def List.map_filter_def)
  then show ?thesis
  proof cases
    case 1
    then show ?thesis using assms(1,2) by (auto simp: rests_def due_later_def split: phase.splits)
  next
    case (2 w c)
    then have "waits_later wait now c" using assms(2) by (auto simp: due_later_def list_all_iff)
    then show ?thesis using 2(3) by (simp add: waits_later_def)
  qed
qed

text \<open>
  The end of a reference epoch the timeline no longer keeps closes no subscription's reference on
  it: the cursors stay, and one that was waiting keeps its deadline, which no poll moves.
\<close>

lemma evicted_reference_not_closed:
  assumes "se_stream e = Reference" "timeline_get Reference (se_epoch e) (up_timeline u) = None"
  shows "\<exists>u'. stream_ended e now u = Some u' \<and> up_subs u' = up_subs u \<and> up_outbox u' = up_outbox u"
  using assms by (auto simp: stream_ended_def Let_def timeline_get_def set_reference_def)

section \<open>Properties\<close>



end
