(* ===== verification/Turn_Text.thy ===== *)
theory Turn_Text
  imports Sample_Time
begin

text \<open>
  Text rules (\<open>crates/turn/src/text.rs\<close>): the words of a transcript, normalization, the wake-word check
  of the verifier, and the removal of the wake phrase from streaming and final transcripts.

  A text is a list of Unicode scalar values. Offsets count characters where the source counts UTF-8
  bytes; every offset the source uses is a character boundary, so slices are the same. The Unicode
  tables of the standard library are the argument \<open>uc\<close>. The source compares quotients of two integers
  with a decimal constant in floating point; the model compares the exact quotients.
\<close>

section \<open>Characters and words\<close>

type_synonym uchar = nat
type_synonym utext = "uchar list"

record unicode =
  uc_alphabetic :: "uchar \<Rightarrow> bool"
  uc_numeric :: "uchar \<Rightarrow> bool"
  uc_whitespace :: "uchar \<Rightarrow> bool"
  uc_lower :: "uchar \<Rightarrow> utext"

definition APOSTROPHE :: uchar where "APOSTROPHE = 39"
definition SPACE :: uchar where "SPACE = 32"

definition is_alphanumeric :: "unicode \<Rightarrow> uchar \<Rightarrow> bool" where
  "is_alphanumeric uc c \<longleftrightarrow> uc_alphabetic uc c \<or> uc_numeric uc c"

definition is_word_char :: "unicode \<Rightarrow> uchar \<Rightarrow> bool" where
  "is_word_char uc c \<longleftrightarrow> is_alphanumeric uc c \<or> c = APOSTROPHE"

record word_range =
  wr_start :: nat
  wr_end :: nat

text \<open>The loop of \<open>words\<close> over the characters from offset \<open>i\<close>, with the start of a word under way.\<close>

fun words_from :: "unicode \<Rightarrow> nat \<Rightarrow> nat option \<Rightarrow> utext \<Rightarrow> word_range list" where
  "words_from uc i None [] = []"
| "words_from uc i (Some s) [] = [\<lparr>wr_start = s, wr_end = i\<rparr>]"
| "words_from uc i None (c # cs) =
     (if is_word_char uc c then words_from uc (Suc i) (Some i) cs else words_from uc (Suc i) None cs)"
| "words_from uc i (Some s) (c # cs) =
     (if is_word_char uc c then words_from uc (Suc i) (Some s) cs
      else \<lparr>wr_start = s, wr_end = i\<rparr> # words_from uc (Suc i) None cs)"

definition text_words :: "unicode \<Rightarrow> utext \<Rightarrow> word_range list" where
  "text_words uc t = words_from uc 0 None t"

definition slice :: "utext \<Rightarrow> word_range \<Rightarrow> utext" where
  "slice t w = take (wr_end w - wr_start w) (drop (wr_start w) t)"

definition trim_matches :: "uchar \<Rightarrow> utext \<Rightarrow> utext" where
  "trim_matches c t = rev (dropWhile (\<lambda>x. x = c) (rev (dropWhile (\<lambda>x. x = c) t)))"

definition lowercase :: "unicode \<Rightarrow> utext \<Rightarrow> utext" where
  "lowercase uc t = concat (map (uc_lower uc) t)"

text \<open>The loop of \<open>normalize\<close>: the words still to add after the text so far.\<close>

fun join_words :: "unicode \<Rightarrow> utext list \<Rightarrow> utext \<Rightarrow> utext" where
  "join_words uc [] out = out"
| "join_words uc (w # ws) out =
     (let word = trim_matches APOSTROPHE w in
      if word = [] then join_words uc ws out
      else join_words uc ws ((if out = [] then out else out @ [SPACE]) @ lowercase uc word))"

definition normalize_text :: "unicode \<Rightarrow> utext \<Rightarrow> utext" where
  "normalize_text uc t = join_words uc (map (slice t) (text_words uc t)) []"

definition recheck_differs :: "unicode \<Rightarrow> utext \<Rightarrow> utext \<Rightarrow> bool" where
  "recheck_differs uc committed rechecked =
     (let lower = (\<lambda>t. map (\<lambda>w. lowercase uc (slice t w)) (text_words uc t));
          before = lower committed; after = lower rechecked
      in if before = after then False
         else if before = [] \<or> after = [] then True
         else \<not> (butlast before = butlast after
                 \<and> length (last after) > length (last before)
                 \<and> take (length (last before)) (last after) = last before))"

section \<open>Edit distance\<close>

text \<open>
  The inner loop of \<open>levenshtein\<close> over the columns: the cells of the old row still to come, the
  diagonal and the new cell to the left; the new cells it writes.
\<close>

fun lev_row :: "uchar \<Rightarrow> utext \<Rightarrow> nat list \<Rightarrow> nat \<Rightarrow> nat \<Rightarrow> nat list" where
  "lev_row ca (cb # b) (up # row) diagonal left =
     (let substitution = diagonal + (if ca \<noteq> cb then 1 else 0);
          cell = min (min substitution (left + 1)) (up + 1)
      in cell # lev_row ca b row up cell)"
| "lev_row ca b row diagonal left = []"

fun lev_rows :: "utext \<Rightarrow> utext \<Rightarrow> nat \<Rightarrow> nat list \<Rightarrow> nat list" where
  "lev_rows [] b i row = row"
| "lev_rows (ca # a) b i row = lev_rows a b (Suc i) (Suc i # lev_row ca b (tl row) (hd row) (Suc i))"

definition levenshtein :: "utext \<Rightarrow> utext \<Rightarrow> nat" where
  "levenshtein a b = lev_rows a b 0 [0..<length b + 1] ! length b"

definition letters_of :: "unicode \<Rightarrow> utext \<Rightarrow> utext" where
  "letters_of uc t = lowercase uc (filter (uc_alphabetic uc) t)"

section \<open>Wake verification\<close>

definition windows :: "nat \<Rightarrow> 'a list \<Rightarrow> 'a list list" where
  "windows n xs = map (\<lambda>i. take n (drop i xs)) [0..<length xs + 1 - n]"

text \<open>The distances of the core to the stretches of letters of each length tried.\<close>

definition candidate_distances :: "utext \<Rightarrow> utext \<Rightarrow> nat list" where
  "candidate_distances letters core_chars =
     (let n = length core_chars in
      concat (map (\<lambda>len. map (\<lambda>w. levenshtein w core_chars) (windows len letters))
        (filter (\<lambda>len. len \<le> length letters) [max (n - 1) 1..<n + 2])))"

text \<open>The best distance, divided by the core's length: the numerator and the denominator.\<close>

definition verification_distance :: "unicode \<Rightarrow> utext \<Rightarrow> utext \<Rightarrow> (nat \<times> nat) option" where
  "verification_distance uc transcript core =
     (let core_chars = letters_of uc core; ds = candidate_distances (letters_of uc transcript) core_chars in
      if core_chars = [] \<or> ds = [] then None else Some (Min (set ds), length core_chars))"

definition verification_passes :: "unicode \<Rightarrow> utext \<Rightarrow> utext \<Rightarrow> bool" where
  "verification_passes uc transcript core =
     (case verification_distance uc transcript core of
        None \<Rightarrow> False
      | Some (d, n) \<Rightarrow> d * 100 \<le> 40 * n)"

section \<open>Wake-phrase windows\<close>

record phrase_window =
  pw_start :: nat
  pw_end :: nat
  pw_num :: nat
  pw_den :: nat

text \<open>Quotients compared exactly: \<open>total_cmp\<close> of two distances, and the match threshold 0.45.\<close>

definition distance_less :: "phrase_window \<Rightarrow> phrase_window \<Rightarrow> bool" where
  "distance_less v w \<longleftrightarrow> pw_num v * pw_den w < pw_num w * pw_den v"

definition distance_eq :: "phrase_window \<Rightarrow> phrase_window \<Rightarrow> bool" where
  "distance_eq v w \<longleftrightarrow> pw_num v * pw_den w = pw_num w * pw_den v"

definition within_match :: "nat \<times> nat \<Rightarrow> bool" where
  "within_match d = (fst d * 100 \<le> 45 * snd d)"

definition MAX_WINDOW_WORDS :: nat where "MAX_WINDOW_WORDS = 3"
definition WORD_COUNT_SLACK :: nat where "WORD_COUNT_SLACK = 2"

definition window_distance :: "unicode \<Rightarrow> utext \<Rightarrow> utext \<Rightarrow> word_range list \<Rightarrow> nat \<Rightarrow> nat \<Rightarrow> nat \<times> nat" where
  "window_distance uc phrase t ws start end =
     (let letters = concat (map (\<lambda>w. letters_of uc (slice t w)) (take (end - start) (drop start ws)));
          phrase_chars = letters_of uc phrase;
          longest = max (length letters) (length phrase_chars)
      in if longest = 0 then (1, 1) else (levenshtein letters phrase_chars, longest))"

definition window_matches :: "unicode \<Rightarrow> utext \<Rightarrow> utext \<Rightarrow> word_range list \<Rightarrow> nat \<Rightarrow> nat \<Rightarrow> bool" where
  "window_matches uc phrase t ws start end \<longleftrightarrow>
     start < end \<and> within_match (window_distance uc phrase t ws start end)"

definition minimal_windows :: "unicode \<Rightarrow> utext \<Rightarrow> utext \<Rightarrow> word_range list \<Rightarrow> phrase_window list" where
  "minimal_windows uc phrase t ws =
     concat (map (\<lambda>start. concat (map (\<lambda>len.
         let end = start + len; d = window_distance uc phrase t ws start end in
         if \<not> within_match d then []
         else if window_matches uc phrase t ws (start + 1) end \<or> window_matches uc phrase t ws start (end - 1) then []
         else [\<lparr>pw_start = start, pw_end = end, pw_num = fst d, pw_den = snd d\<rparr>])
       [1..<min MAX_WINDOW_WORDS (length ws - start) + 1])) [0..<length ws])"

text \<open>\<open>Iterator::min_by\<close>: the first of the least elements.\<close>

fun min_by :: "('a \<Rightarrow> 'a \<Rightarrow> bool) \<Rightarrow> 'a list \<Rightarrow> 'a option" where
  "min_by lt [] = None"
| "min_by lt (x # xs) = Some (foldl (\<lambda>best y. if lt y best then y else best) x xs)"

section \<open>Streaming transcripts\<close>

record timed_transcript =
  tt_text :: utext
  tt_words :: "word_range list"
  tt_last_emitted :: "sample list"

text \<open>The offsets where the tokens start, with their emission.\<close>

fun token_starts :: "nat \<Rightarrow> (utext \<times> sample) list \<Rightarrow> (nat \<times> sample) list" where
  "token_starts at [] = []"
| "token_starts at ((t, emitted) # ts) = (at, emitted) # token_starts (at + length t) ts"

definition transcript_from_tokens :: "unicode \<Rightarrow> (utext \<times> sample) list \<Rightarrow> timed_transcript" where
  "transcript_from_tokens uc tokens =
     (let t = concat (map fst tokens); starts = token_starts 0 tokens; ws = text_words uc t
      in \<lparr>tt_text = t, tt_words = ws,
          tt_last_emitted = map (\<lambda>w. snd (last (takeWhile (\<lambda>(s, _). s \<le> wr_end w - 1) starts))) ws\<rparr>)"

record streaming_wake =
  sw_window :: "phrase_window option"
  sw_position :: nat
  sw_words_after :: nat

definition locate_in_streaming :: "unicode \<Rightarrow> timed_transcript \<Rightarrow> sample \<Rightarrow> utext \<Rightarrow> streaming_wake" where
  "locate_in_streaming uc tr lookahead_end phrase =
     (let window = min_by (\<lambda>a b. distance_less a b \<or> distance_eq a b \<and> pw_start a < pw_start b)
            (filter (\<lambda>w. tt_last_emitted tr ! (pw_end w - 1) \<le> lookahead_end)
              (minimal_windows uc phrase (tt_text tr) (tt_words tr)))
      in \<lparr>sw_window = window,
          sw_position = (case window of None \<Rightarrow> 0 | Some w \<Rightarrow> pw_start w),
          sw_words_after = (case window of None \<Rightarrow> length (tt_words tr) | Some w \<Rightarrow> length (tt_words tr) - pw_end w)\<rparr>)"

section \<open>Removing the wake phrase\<close>

datatype strip_rule = StripNear | StripWordCount | StripUnchanged

record stripped =
  sd_text :: utext
  sd_window :: "phrase_window option"
  sd_rule :: strip_rule

definition keep_from :: "unicode \<Rightarrow> utext \<Rightarrow> word_range \<Rightarrow> nat" where
  "keep_from uc t w = wr_end w + length (takeWhile (\<lambda>c. \<not> is_alphanumeric uc c) (drop (wr_end w) t))"

definition abs_diff :: "nat \<Rightarrow> nat \<Rightarrow> nat" where
  "abs_diff a b = (if a \<le> b then b - a else a - b)"

definition near_less :: "nat \<Rightarrow> phrase_window \<Rightarrow> phrase_window \<Rightarrow> bool" where
  "near_less s a b \<longleftrightarrow> distance_less a b
     \<or> distance_eq a b \<and> (abs_diff (pw_start a) s < abs_diff (pw_start b) s
         \<or> abs_diff (pw_start a) s = abs_diff (pw_start b) s \<and> pw_start a < pw_start b)"

definition count_less :: "phrase_window \<times> nat \<Rightarrow> phrase_window \<times> nat \<Rightarrow> bool" where
  "count_less x y \<longleftrightarrow> snd x < snd y
     \<or> snd x = snd y \<and> (pw_start (fst x) < pw_start (fst y)
         \<or> pw_start (fst x) = pw_start (fst y) \<and> distance_less (fst x) (fst y))"

definition choose_window :: "streaming_wake \<Rightarrow> nat \<Rightarrow> phrase_window list \<Rightarrow> phrase_window option \<times> strip_rule" where
  "choose_window streaming word_count ws =
     (case min_by (near_less (sw_position streaming)) (filter (\<lambda>w. pw_start w \<le> sw_position streaming + 1) ws) of
        Some w \<Rightarrow> (Some w, StripNear)
      | None \<Rightarrow>
          (case min_by count_less
                  (map (\<lambda>w. (w, abs_diff (word_count - pw_end w) (sw_words_after streaming))) ws) of
             Some (w, d) \<Rightarrow> if d \<le> WORD_COUNT_SLACK then (Some w, StripWordCount) else (None, StripUnchanged)
           | None \<Rightarrow> (None, StripUnchanged)))"

definition strip_final :: "unicode \<Rightarrow> utext \<Rightarrow> streaming_wake \<Rightarrow> utext \<Rightarrow> stripped" where
  "strip_final uc final_text streaming phrase =
     (let ws = text_words uc final_text;
          (window, rule) = choose_window streaming (length ws) (minimal_windows uc phrase final_text ws)
      in \<lparr>sd_text = (case window of
             Some w \<Rightarrow> drop (keep_from uc final_text (ws ! (pw_end w - 1))) final_text
           | None \<Rightarrow> final_text),
          sd_window = window, sd_rule = rule\<rparr>)"

definition cut_streaming :: "unicode \<Rightarrow> timed_transcript \<Rightarrow> streaming_wake \<Rightarrow> utext" where
  "cut_streaming uc tr wake =
     (case sw_window wake of
        Some w \<Rightarrow> normalize_text uc (drop (keep_from uc (tt_text tr) (tt_words tr ! (pw_end w - 1))) (tt_text tr))
      | None \<Rightarrow> normalize_text uc (tt_text tr))"

section \<open>Specification\<close>

text \<open>Turning one text into another by keeping, replacing, dropping and adding characters, with the number of changes.\<close>

inductive edits :: "'a list \<Rightarrow> 'a list \<Rightarrow> nat \<Rightarrow> bool" where
  nothing: "edits [] [] 0"
| keep: "edits a b n \<Longrightarrow> edits (x # a) (x # b) n"
| replace: "edits a b n \<Longrightarrow> edits (x # a) (y # b) (Suc n)"
| remove: "edits a b n \<Longrightarrow> edits (x # a) b (Suc n)"
| add: "edits a b n \<Longrightarrow> edits a (y # b) (Suc n)"

text \<open>The textbook recursion.\<close>

fun edit_distance :: "'a list \<Rightarrow> 'a list \<Rightarrow> nat" where
  "edit_distance [] b = length b"
| "edit_distance a [] = length a"
| "edit_distance (x # a) (y # b) =
     min (min (edit_distance a b + (if x \<noteq> y then 1 else 0)) (edit_distance (x # a) b + 1)) (edit_distance a (y # b) + 1)"

text \<open>The words of a text as texts, cut out in one pass; the word under way is \<open>acc\<close>.\<close>

fun chop :: "unicode \<Rightarrow> utext \<Rightarrow> utext \<Rightarrow> utext list" where
  "chop uc acc [] = (if acc = [] then [] else [acc])"
| "chop uc acc (c # cs) =
     (if is_word_char uc c then chop uc (acc @ [c]) cs
      else (if acc = [] then [] else [acc]) @ chop uc [] cs)"

text \<open>The words normalization keeps: trimmed, and not empty.\<close>

definition kept_words :: "utext list \<Rightarrow> utext list" where
  "kept_words ws = filter (\<lambda>w. w \<noteq> []) (map (trim_matches APOSTROPHE) ws)"

text \<open>The row the source keeps: the distances of one prefix to every prefix of the other text.\<close>

definition dist_row :: "'a list \<Rightarrow> 'a list \<Rightarrow> nat list" where
  "dist_row a b = map (\<lambda>j. edit_distance (rev a) (rev (take j b))) [0..<length b + 1]"

text \<open>The part of a word read so far.\<close>

definition under_way :: "utext \<Rightarrow> nat option \<Rightarrow> utext" where
  "under_way p st = (case st of None \<Rightarrow> [] | Some s \<Rightarrow> drop s p)"

section \<open>Lemmas\<close>

subsection \<open>Edit distance\<close>

inductive_cases edits_Nil_left: "edits [] b n"
inductive_cases edits_Cons: "edits (x # a) b n"

lemma edits_removeall: "edits a [] (length a)"
  by (induction a) (auto intro: edits.intros)

lemma edits_addall: "edits [] b (length b)"
  by (induction b) (auto intro: edits.intros)

lemma edit_distance_reached: "edits a b (edit_distance a b)"
proof (induction a b rule: edit_distance.induct)
  case (3 x a y b)
  let ?s = "edit_distance a b + (if x \<noteq> y then 1 else 0)" and ?l = "edit_distance (x # a) b + 1"
    and ?u = "edit_distance a (y # b) + 1"
  have "edits (x # a) (y # b) ?s"
    using 3(1) by (cases "x = y") (auto intro: edits.intros)
  moreover have "edits (x # a) (y # b) ?l" "edits (x # a) (y # b) ?u"
    using 3(2,3) by (auto intro: edits.intros)
  moreover have "edit_distance (x # a) (y # b) \<in> {?s, ?l, ?u}" by (simp add: min_def)
  ultimately show ?case by (metis empty_iff insert_iff)
qed (auto intro: edits_addall edits_removeall [of "_ # _", simplified])

lemma edit_distance_bounds:
  "edit_distance (x # a) b \<le> Suc (edit_distance a b)" "edit_distance a (y # b) \<le> Suc (edit_distance a b)"
proof -
  show "edit_distance (x # a) b \<le> Suc (edit_distance a b)" by (cases b; cases a) auto
  show "edit_distance a (y # b) \<le> Suc (edit_distance a b)" by (cases a) auto
qed

lemma edit_distance_least: "edits a b n \<Longrightarrow> edit_distance a b \<le> n"
proof (induction rule: edits.induct)
  case (remove a b n x)
  then show ?case using edit_distance_bounds(1) [of x a b] by simp
next
  case (add a b n y)
  then show ?case using edit_distance_bounds(2) [of a y b] by simp
qed auto

lemma edits_append: "edits a b n \<Longrightarrow> edits c d m \<Longrightarrow> edits (a @ c) (b @ d) (n + m)"
  by (induction rule: edits.induct) (auto intro: edits.intros)

lemma edits_rev: "edits a b n \<Longrightarrow> edits (rev a) (rev b) n"
proof (induction rule: edits.induct)
  case (keep a b n x)
  then show ?case using edits_append [OF keep.IH, of "[x]" "[x]" 0] by (auto intro: edits.intros)
next
  case (replace a b n x y)
  then show ?case using edits_append [OF replace.IH, of "[x]" "[y]" 1] by (auto intro: edits.intros)
next
  case (remove a b n x)
  then show ?case using edits_append [OF remove.IH, of "[x]" "[]" 1] by (auto intro: edits.intros)
next
  case (add a b n y)
  then show ?case using edits_append [OF add.IH, of "[]" "[y]" 1] by (auto intro: edits.intros)
qed (auto intro: edits.intros)

lemma edit_distance_rev: "edit_distance (rev a) (rev b) = edit_distance a b"
proof -
  have "edit_distance (rev a) (rev b) \<le> edit_distance a b" for a b :: "'a list"
    using edit_distance_least [OF edits_rev [OF edit_distance_reached]] .
  from this [of a b] this [of "rev a" "rev b"] show ?thesis by simp
qed

lemma lev_row_dist:
  assumes "length pre + length b = length all" "all = pre @ b"
  shows "lev_row ca b (map (\<lambda>j. edit_distance (rev a) (rev (take j all))) [Suc (length pre)..<length all + 1])
      (edit_distance (rev a) (rev pre)) (edit_distance (ca # rev a) (rev pre))
    = map (\<lambda>j. edit_distance (ca # rev a) (rev (take j all))) [Suc (length pre)..<length all + 1]"
  using assms
proof (induction b arbitrary: pre)
  case (Cons cb b)
  have up: "[Suc (length pre)..<length all + 1] = Suc (length pre) # [Suc (length (pre @ [cb]))..<length all + 1]"
    using upt_conv_Cons [of "Suc (length pre)" "length all + 1"] Cons.prems by (simp del: upt_Suc)
  have next': "take (Suc (length pre)) all = pre @ [cb]" using Cons.prems by simp
  have cell: "min (min (edit_distance (rev a) (rev pre) + (if ca \<noteq> cb then 1 else 0)) (edit_distance (ca # rev a) (rev pre) + 1))
      (edit_distance (rev a) (cb # rev pre) + 1) = edit_distance (ca # rev a) (cb # rev pre)" by simp
  have rev': "rev (pre @ [cb]) = cb # rev pre" by simp
  have all: "length (pre @ [cb]) + length b = length all" "all = (pre @ [cb]) @ b" using Cons.prems by simp_all
  show ?case
    unfolding up list.map lev_row.simps(1) Let_def next' rev' cell
    using Cons.IH [OF all, unfolded rev'] by (simp only: list.inject simp_thms)
qed simp

lemma lev_rows_dist: "lev_rows a b (length p) (dist_row p b) = dist_row (p @ a) b"
proof (induction a arbitrary: p)
  case (Cons ca a)
  have row: "dist_row p b = edit_distance (rev p) [] # map (\<lambda>j. edit_distance (rev p) (rev (take j b))) [Suc 0..<length b + 1]"
    using upt_conv_Cons [of 0 "length b + 1"] by (simp add: dist_row_def del: upt_Suc)
  have "Suc (length p) # lev_row ca b (tl (dist_row p b)) (hd (dist_row p b)) (Suc (length p)) = dist_row (p @ [ca]) b"
    using lev_row_dist [of "[]" b b ca p]
      upt_conv_Cons [of 0 "length b + 1"]
    by (simp add: row del: upt_Suc) (simp add: dist_row_def del: upt_Suc)
  then show ?case using Cons.IH [of "p @ [ca]"] by simp
qed simp

lemma levenshtein_edit_distance: "levenshtein a b = edit_distance a b"
proof -
  have start: "[0..<length b + 1] = dist_row [] b"
    by (auto simp: dist_row_def intro!: nth_equalityI)
  have "levenshtein a b = dist_row a b ! length b"
    unfolding levenshtein_def start using lev_rows_dist [of a b "[]"] by simp
  also have "\<dots> = edit_distance (rev a) (rev b)" by (simp add: dist_row_def nth_append)
  finally show ?thesis by (simp add: edit_distance_rev)
qed

subsection \<open>Words\<close>

lemma words_from_chop:
  assumes "\<And>s. st = Some s \<Longrightarrow> s < length p"
  shows "map (slice (p @ cs)) (words_from uc (length p) st cs) = chop uc (under_way p st) cs"
  using assms
proof (induction cs arbitrary: p st)
  case Nil
  then show ?case by (cases st) (auto simp: under_way_def slice_def)
next
  case (Cons c cs)
  show ?case
  proof (cases st)
    case None
    then show ?thesis
      using Cons.IH [of "Some (length p)" "p @ [c]"] Cons.IH [of None "p @ [c]"] by (simp add: under_way_def)
  next
    case (Some s)
    then show ?thesis
      using Cons.IH [of "Some s" "p @ [c]"] Cons.IH [of None "p @ [c]"] Cons.prems
      by (auto simp: under_way_def slice_def)
  qed
qed

lemma text_words_chop: "map (slice t) (text_words uc t) = chop uc [] t"
  using words_from_chop [of None "[]" t uc] by (simp add: text_words_def under_way_def)

lemma words_from_after:
  assumes "\<And>s. st = Some s \<Longrightarrow> s < length p" "k < length (words_from uc (length p) st cs)"
  shows "wr_end (words_from uc (length p) st cs ! k) \<le> length (p @ cs)
    \<and> chop uc [] (drop (wr_end (words_from uc (length p) st cs ! k)) (p @ cs)) = drop (Suc k) (chop uc (under_way p st) cs)"
  using assms
proof (induction cs arbitrary: p st k)
  case Nil
  then show ?case by (cases st) (auto simp: under_way_def)
next
  case (Cons c cs)
  show ?case
  proof (cases st)
    case None
    then show ?thesis
      using Cons.IH [of "Some (length p)" "p @ [c]" k] Cons.IH [of None "p @ [c]" k] Cons.prems
      by (auto simp: under_way_def)
  next
    case (Some s)
    have ne: "drop s p \<noteq> []" using Cons.prems(1) Some by simp
    show ?thesis
    proof (cases "is_word_char uc c")
      case True
      then show ?thesis
        using Cons.IH [of "Some s" "p @ [c]" k] Cons.prems Some by (auto simp: under_way_def)
    next
      case False
      then show ?thesis
        using Cons.IH [of None "p @ [c]" "k - 1"] Cons.prems Some ne
        by (cases k) (auto simp: under_way_def)
    qed
  qed
qed

lemma words_after:
  assumes "k < length (text_words uc t)"
  shows "chop uc [] (drop (wr_end (text_words uc t ! k)) t) = drop (Suc k) (chop uc [] t)"
  using words_from_after [of None "[]" k uc t] assms by (simp add: text_words_def under_way_def)

subsection \<open>Normalization\<close>

lemma trim_nothing: "trim_matches c [] = []"
  by (simp add: trim_matches_def)

lemma trim_apostrophes: "set a \<subseteq> {APOSTROPHE} \<Longrightarrow> trim_matches APOSTROPHE (a @ w) = trim_matches APOSTROPHE w"
proof -
  assume "set a \<subseteq> {APOSTROPHE}"
  then have "dropWhile (\<lambda>x. x = APOSTROPHE) (a @ w) = dropWhile (\<lambda>x. x = APOSTROPHE) w"
    by (intro dropWhile_append2) auto
  then show ?thesis by (simp add: trim_matches_def)
qed

lemma kept_words_simps [simp]: "kept_words [] = []" "kept_words (a @ b) = kept_words a @ kept_words b"
  by (simp_all add: kept_words_def)

lemma chop_apostrophes:
  assumes "set a \<subseteq> {APOSTROPHE}"
  shows "kept_words (chop uc (a @ acc) cs) = kept_words (chop uc acc cs)"
proof -
  have one: "kept_words (if a @ w = [] then [] else [a @ w]) = kept_words (if w = [] then [] else [w])" for w
  proof (cases "w = []")
    case True
    have "trim_matches APOSTROPHE a = []"
      using trim_apostrophes [OF assms, of "[]"] by (simp only: append_Nil2 trim_nothing)
    with True show ?thesis by (simp add: kept_words_def)
  next
    case False
    then show ?thesis using trim_apostrophes [OF assms, of w] by (simp add: kept_words_def)
  qed
  show ?thesis
  proof (induction cs arbitrary: acc)
    case Nil
    show ?case using one [of acc] by simp
  next
    case (Cons c cs)
    show ?case using Cons.IH [of "acc @ [c]"] one [of acc] by simp
  qed
qed

lemma chop_skip: "kept_words (chop uc [] (dropWhile (\<lambda>c. \<not> is_alphanumeric uc c) t)) = kept_words (chop uc [] t)"
proof (induction t)
  case (Cons c t)
  show ?case
  proof (cases "is_alphanumeric uc c")
    case False
    then show ?thesis
      using Cons.IH chop_apostrophes [of "[c]" uc "[]" t] by (auto simp: is_word_char_def)
  qed simp
qed simp

lemma join_words_kept:
  "join_words uc ws out = foldl (\<lambda>out w. (if out = [] then out else out @ [SPACE]) @ lowercase uc w) out (kept_words ws)"
  by (induction ws arbitrary: out) (auto simp: kept_words_def Let_def)

lemma normalize_kept: "kept_words (chop uc [] s) = kept_words ws \<Longrightarrow> normalize_text uc s = join_words uc ws []"
  by (simp add: normalize_text_def text_words_chop join_words_kept)

lemma normalize_after:
  assumes "k < length (text_words uc t)"
  shows "normalize_text uc (drop (keep_from uc t (text_words uc t ! k)) t)
    = join_words uc (drop (Suc k) (map (slice t) (text_words uc t))) []"
proof (rule normalize_kept)
  let ?x = "drop (wr_end (text_words uc t ! k)) t"
  have "drop (keep_from uc t (text_words uc t ! k)) t = dropWhile (\<lambda>c. \<not> is_alphanumeric uc c) ?x"
    unfolding keep_from_def Let_def
    by (subst add.commute, subst drop_drop [symmetric]) (simp add: dropWhile_eq_drop)
  then show "kept_words (chop uc [] (drop (keep_from uc t (text_words uc t ! k)) t))
      = kept_words (drop (Suc k) (map (slice t) (text_words uc t)))"
    by (simp add: chop_skip words_after [OF assms] text_words_chop)
qed

subsection \<open>Windows and choices\<close>

lemma mem_windows:
  assumes "n \<le> length xs"
  shows "w \<in> set (windows n xs) \<longleftrightarrow> (\<exists>pre post. xs = pre @ w @ post) \<and> length w = n"
proof
  assume "w \<in> set (windows n xs)"
  then obtain i where i: "i < length xs + 1 - n" "w = take n (drop i xs)" by (auto simp: windows_def)
  then have "xs = take i xs @ w @ drop n (drop i xs)" by (simp only: append_take_drop_id)
  with i assms show "(\<exists>pre post. xs = pre @ w @ post) \<and> length w = n" by auto
next
  assume "(\<exists>pre post. xs = pre @ w @ post) \<and> length w = n"
  then obtain pre post where x: "xs = pre @ w @ post" "length w = n" by blast
  then have "w = take n (drop (length pre) xs)" "length pre < length xs + 1 - n" by simp_all
  then show "w \<in> set (windows n xs)" by (auto simp: windows_def)
qed

lemma windows_stretch:
  "n \<le> length xs \<and> w \<in> set (windows n xs) \<longleftrightarrow> (\<exists>pre post. xs = pre @ w @ post) \<and> length w = n"
  using mem_windows [of n xs w] by (cases "n \<le> length xs") auto

lemma foldl_choice_mem: "foldl (\<lambda>best y. if lt y best then y else best) x xs \<in> insert x (set xs)"
proof (induction xs arbitrary: x)
  case (Cons y xs)
  show ?case using Cons.IH [of x] Cons.IH [of y] by auto
qed simp

lemma min_by_None [simp]: "min_by lt xs = None \<longleftrightarrow> xs = []"
  by (cases xs) simp_all

lemma min_by_mem: "min_by lt xs = Some m \<Longrightarrow> m \<in> set xs"
  using foldl_choice_mem [of lt] by (cases xs) auto

lemma foldl_choice_least:
  fixes f :: "'a \<Rightarrow> nat"
  assumes "\<And>x y. lt x y \<Longrightarrow> f x \<le> f y" "\<And>x y. f x < f y \<Longrightarrow> lt x y" "y \<in> insert x (set xs)"
  shows "f (foldl (\<lambda>best y. if lt y best then y else best) x xs) \<le> f y"
  using assms(3)
proof (induction xs arbitrary: x y)
  case (Cons z xs)
  let ?b = "if lt z x then z else x"
  have "f ?b \<le> f x" "f ?b \<le> f z" using assms(1) [of z x] assms(2) [of z x] not_less by auto
  moreover have "f (foldl (\<lambda>best y. if lt y best then y else best) ?b xs) \<le> f y" if "y \<in> insert ?b (set xs)" for y
    using Cons.IH [OF that] .
  ultimately show ?case using Cons.prems by (fastforce intro: order_trans)
qed simp

lemma min_by_least:
  fixes f :: "'a \<Rightarrow> nat"
  assumes "min_by lt xs = Some m" "\<And>x y. lt x y \<Longrightarrow> f x \<le> f y" "\<And>x y. f x < f y \<Longrightarrow> lt x y" "y \<in> set xs"
  shows "f m \<le> f y"
  using assms foldl_choice_least [of lt f y] by (cases xs) auto

lemma choose_window_near:
  "choose_window s n ws = (Some w, StripNear) \<Longrightarrow> w \<in> set ws \<and> pw_start w \<le> sw_position s + 1"
  by (auto simp: choose_window_def split: option.splits if_splits dest!: min_by_mem)

lemma choose_window_cases:
  assumes "choose_window s n ws = (c, r)"
  shows "(c = None) = (r = StripUnchanged)" "c = Some w \<Longrightarrow> w \<in> set ws"
    "c = None \<Longrightarrow> v \<in> set ws \<Longrightarrow> sw_position s + 1 < pw_start v
       \<and> WORD_COUNT_SLACK < abs_diff (n - pw_end v) (sw_words_after s)"
proof -
  let ?near = "filter (\<lambda>w. pw_start w \<le> sw_position s + 1) ws"
  let ?count = "map (\<lambda>w. (w, abs_diff (n - pw_end w) (sw_words_after s))) ws"
  show "(c = None) = (r = StripUnchanged)"
    using assms unfolding choose_window_def
    by (cases "min_by (near_less (sw_position s)) ?near"; cases "min_by count_less ?count")
      (auto simp del: min_by_None split: if_splits dest: sym [of "Some _"])
  show "w \<in> set ws" if "c = Some w"
    using assms that by (auto simp: choose_window_def split: option.splits if_splits dest!: min_by_mem)
  assume c: "c = None" and v: "v \<in> set ws"
  have none: "?near = []" using assms c by (auto simp: choose_window_def split: option.splits if_splits)
  obtain m d where m: "min_by count_less ?count = Some (m, d)"
    using v by (cases "min_by count_less ?count") auto
  have "\<not> d \<le> WORD_COUNT_SLACK" using assms c none m by (auto simp: choose_window_def split: if_splits)
  moreover have "d \<le> abs_diff (n - pw_end v) (sw_words_after s)"
  proof -
    have "snd (m, d) \<le> snd (v, abs_diff (n - pw_end v) (sw_words_after s))"
      using v by (intro min_by_least [OF m]) (auto simp: count_less_def)
    then show ?thesis by simp
  qed
  ultimately show "sw_position s + 1 < pw_start v \<and> WORD_COUNT_SLACK < abs_diff (n - pw_end v) (sw_words_after s)"
    using none v by (auto simp: filter_empty_conv)
qed

lemma mem_minimal_windows:
  "w \<in> set (minimal_windows uc phrase t ws) \<Longrightarrow>
     pw_start w < pw_end w \<and> pw_end w \<le> length ws \<and> pw_end w \<le> pw_start w + MAX_WINDOW_WORDS
     \<and> (pw_num w, pw_den w) = window_distance uc phrase t ws (pw_start w) (pw_end w)
     \<and> within_match (pw_num w, pw_den w)
     \<and> \<not> window_matches uc phrase t ws (pw_start w + 1) (pw_end w)
     \<and> \<not> window_matches uc phrase t ws (pw_start w) (pw_end w - 1)"
  by (auto simp: minimal_windows_def Let_def split: if_splits)

lemma mem_candidate_distances:
  "d \<in> set (candidate_distances letters core) \<longleftrightarrow>
     (\<exists>pre w post. letters = pre @ w @ post \<and> max (length core - 1) 1 \<le> length w
        \<and> length w \<le> length core + 1 \<and> d = edit_distance w core)"
proof -
  let ?lens = "{max (length core - 1) 1..<length core + 2}"
  have range: "x \<in> ?lens \<longleftrightarrow> max (length core - 1) 1 \<le> x \<and> x \<le> length core + 1" for x by auto
  have "set (candidate_distances letters core)
      = (\<Union>len\<in>{len \<in> ?lens. len \<le> length letters}. (\<lambda>w. edit_distance w core) ` set (windows len letters))"
    by (simp only: candidate_distances_def Let_def levenshtein_edit_distance set_concat set_map set_filter set_upt image_image)
  then have "d \<in> set (candidate_distances letters core) \<longleftrightarrow>
      (\<exists>len\<in>?lens. \<exists>w. (len \<le> length letters \<and> w \<in> set (windows len letters)) \<and> d = edit_distance w core)"
    by blast
  then show ?thesis unfolding windows_stretch Bex_def range by blast
qed

lemma verification_passes_candidate:
  "verification_passes uc transcript core \<longleftrightarrow> letters_of uc core \<noteq> []
     \<and> (\<exists>d\<in>set (candidate_distances (letters_of uc transcript) (letters_of uc core)). 100 * d \<le> 40 * length (letters_of uc core))"
proof (cases "letters_of uc core = [] \<or> candidate_distances (letters_of uc transcript) (letters_of uc core) = []")
  case True
  then show ?thesis by (auto simp: verification_passes_def verification_distance_def Let_def)
next
  case False
  let ?ds = "set (candidate_distances (letters_of uc transcript) (letters_of uc core))"
  have "Min ?ds \<in> ?ds" "\<And>d. d \<in> ?ds \<Longrightarrow> Min ?ds \<le> d" using False by auto
  then have "100 * Min ?ds \<le> 40 * length (letters_of uc core) \<longleftrightarrow> (\<exists>d\<in>?ds. 100 * d \<le> 40 * length (letters_of uc core))"
    by (meson le_trans mult_le_mono2)
  with False show ?thesis
    by (simp add: verification_passes_def verification_distance_def Let_def mult.commute)
qed

section \<open>Properties\<close>

text \<open>
  (C19) The verifier passes a transcript exactly when its letters contain a stretch, within one letter of
  the wake word's length, that becomes the wake word's letters with at most 40 percent as many
  changes (letters kept, replaced, dropped or added) as the wake word has letters.
\<close>

theorem verifier_hears_wake_word:
  "verification_passes uc transcript core \<longleftrightarrow>
     (\<exists>pre w post k. letters_of uc transcript = pre @ w @ post \<and> w \<noteq> [] \<and> letters_of uc core \<noteq> []
        \<and> length w \<le> length (letters_of uc core) + 1 \<and> length (letters_of uc core) \<le> length w + 1
        \<and> edits w (letters_of uc core) k \<and> 100 * k \<le> 40 * length (letters_of uc core))"
proof -
  let ?l = "letters_of uc transcript" and ?c = "letters_of uc core"
  have range: "max (length ?c - 1) 1 \<le> length w \<longleftrightarrow> w \<noteq> [] \<and> length ?c \<le> length w + 1" for w :: utext
    by (cases w) auto
  have "(\<exists>k. edits w ?c k \<and> 100 * k \<le> 40 * length ?c) \<longleftrightarrow> 100 * edit_distance w ?c \<le> 40 * length ?c" for w
    using edit_distance_reached [of w ?c] edit_distance_least [of w ?c]
    by (meson le_trans mult_le_mono2)
  then show ?thesis
    unfolding verification_passes_candidate Bex_def mem_candidate_distances range by blast
qed

text \<open>
  Removing the wake phrase from a final transcript keeps every word after it and nothing else:
  without a window the text is unchanged, which happens exactly when no window is near the
  streaming position or leaves about as many words; with one, the window is a stretch of one to
  three words that matches the phrase, and the result is the end of the text whose words are
  those after the window.
\<close>

theorem strip_keeps_words_after:
  "case sd_window (strip_final uc t s phrase) of
      None \<Rightarrow> sd_text (strip_final uc t s phrase) = t \<and> sd_rule (strip_final uc t s phrase) = StripUnchanged
        \<and> list_all (\<lambda>w. sw_position s + 1 < pw_start w
              \<and> WORD_COUNT_SLACK < abs_diff (length (text_words uc t) - pw_end w) (sw_words_after s))
            (minimal_windows uc phrase t (text_words uc t))
    | Some w \<Rightarrow> sd_rule (strip_final uc t s phrase) \<noteq> StripUnchanged
        \<and> pw_end w \<le> length (text_words uc t) \<and> pw_end w \<le> pw_start w + MAX_WINDOW_WORDS
        \<and> window_matches uc phrase t (text_words uc t) (pw_start w) (pw_end w)
        \<and> (\<exists>pre. t = pre @ sd_text (strip_final uc t s phrase))
        \<and> normalize_text uc (sd_text (strip_final uc t s phrase))
            = join_words uc (map (slice t) (drop (pw_end w) (text_words uc t))) []"
proof -
  obtain c r where cr: "choose_window s (length (text_words uc t)) (minimal_windows uc phrase t (text_words uc t)) = (c, r)"
    by fastforce
  note ch = choose_window_cases [OF cr]
  have fin: "strip_final uc t s phrase = \<lparr>sd_text = (case c of
             Some w \<Rightarrow> drop (keep_from uc t (text_words uc t ! (pw_end w - 1))) t
           | None \<Rightarrow> t), sd_window = c, sd_rule = r\<rparr>"
    using cr by (simp add: strip_final_def Let_def)
  show ?thesis
  proof (cases c)
    case None
    then show ?thesis using ch(1,3) by (auto simp: fin list_all_iff)
  next
    case (Some w)
    note w = mem_minimal_windows [OF ch(2) [OF Some]]
    have "pw_end w - 1 < length (text_words uc t)" "Suc (pw_end w - 1) = pw_end w" using w by auto
    then have "normalize_text uc (drop (keep_from uc t (text_words uc t ! (pw_end w - 1))) t)
        = join_words uc (map (slice t) (drop (pw_end w) (text_words uc t))) []"
      using normalize_after [of "pw_end w - 1" uc t] by (simp add: drop_map)
    moreover have "\<exists>pre. t = pre @ drop (keep_from uc t (text_words uc t ! (pw_end w - 1))) t"
      by (metis append_take_drop_id)
    moreover have "window_matches uc phrase t (text_words uc t) (pw_start w) (pw_end w)"
      using w unfolding window_matches_def by metis
    ultimately show ?thesis using Some w ch(1) by (simp add: fin)
  qed
qed

end
