(* ===== verification/Turn_Evidence.thy ===== *)
theory Turn_Evidence
  imports Complex_Main Sample_Time Turn_Text
begin

text \<open>
  Evidence assembly (\<open>crates/turn/src/evidence.rs\<close>): loudness cells, speech probabilities, echo labels and
  recognizer results arrive in any order and are released in sample order, each cell once.

  Probabilities and the recognizer's seconds are \<open>f32\<close> values in the source and real numbers here; the
  source only compares the first, and the product of the second with 16000 is exact in \<open>f64\<close>. Cell
  indices and counts are natural numbers; the end of a cell wraps as in \<open>Sample_Time\<close>. A push returns
  the error and no assembler when the source refuses it before it changes anything.
\<close>

section \<open>Inputs\<close>

definition CELL_E_MIN :: int where "CELL_E_MIN = -12000"
definition CELL_E_MAX :: int where "CELL_E_MAX = 0"
definition FLAG_GAP :: u8 where "FLAG_GAP = 1"
definition FLAG_MUTED :: u8 where "FLAG_MUTED = 2"
definition TURN_SOURCES_KNOWN :: u8 where "TURN_SOURCES_KNOWN = 0x0F"
definition MAX_CELLS_AHEAD :: nat where "MAX_CELLS_AHEAD = 2000"

datatype cell_detail = EOutOfRange | ReservedFlagBits | UnknownSourceBits | GapCellE

datatype evidence_error =
    ForeignEpoch epoch epoch
  | OutsidePlan cell_index
  | TooFarAhead cell_index
  | Conflict cell_index
  | AsrOutOfOrder sample
  | InvalidCell cell_detail
  | InvalidProbability
  | InvalidPlan

record device_cell =
  dc_e_centi :: i16
  dc_gap :: bool
  dc_muted :: bool
  dc_source_mask :: u8

definition device_cell_from_wire :: "i16 \<Rightarrow> u8 \<Rightarrow> u8 \<Rightarrow> (evidence_error, device_cell) result" where
  "device_cell_from_wire e flags sources =
     (if \<not> (CELL_E_MIN \<le> sint e \<and> sint e \<le> CELL_E_MAX) then Inl (InvalidCell EOutOfRange)
      else if flags AND NOT (FLAG_GAP OR FLAG_MUTED) \<noteq> 0 then Inl (InvalidCell ReservedFlagBits)
      else if sources AND NOT TURN_SOURCES_KNOWN \<noteq> 0 then Inl (InvalidCell UnknownSourceBits)
      else
        let gap = flags AND FLAG_GAP \<noteq> 0 in
        if gap \<and> sint e \<noteq> CELL_E_MIN then Inl (InvalidCell GapCellE)
        else Inr \<lparr>dc_e_centi = e, dc_gap = gap, dc_muted = flags AND FLAG_MUTED \<noteq> 0, dc_source_mask = sources\<rparr>)"

definition device_cell_audio :: "i16 \<Rightarrow> u8 \<Rightarrow> device_cell" where
  "device_cell_audio e sources =
     \<lparr>dc_e_centi = word_of_int (max CELL_E_MIN (min CELL_E_MAX (sint e))), dc_gap = False, dc_muted = False,
      dc_source_mask = sources AND TURN_SOURCES_KNOWN\<rparr>"

datatype device_input = DeviceCellInput device_cell | DeviceUnknown

definition probability_new :: "real \<Rightarrow> real option" where
  "probability_new p = (if 0 \<le> p \<and> p \<le> 1 then Some p else None)"

datatype vad_input = VadProbability real | VadUnknown

definition vad_input_probability :: "real \<Rightarrow> (evidence_error, vad_input) result" where
  "vad_input_probability p = (case probability_new p of Some q \<Rightarrow> Inr (VadProbability q) | None \<Rightarrow> Inl InvalidProbability)"

fun vad_known :: "vad_input \<Rightarrow> real option" where
  "vad_known (VadProbability p) = Some p"
| "vad_known VadUnknown = None"

datatype echo_label = NoReference | EchoOnly | NearEndPresent | EchoUnknown

datatype reference_coverage = CoverageSilent | CoverageFull | CoveragePartial | CoverageMissing

record echo_cell =
  ec_label :: echo_label
  ec_coverage :: reference_coverage

definition ECHO_MISSING :: echo_cell where
  "ECHO_MISSING = \<lparr>ec_label = EchoUnknown, ec_coverage = CoverageMissing\<rparr>"

definition ECHO_SILENT_REFERENCE :: echo_cell where
  "ECHO_SILENT_REFERENCE = \<lparr>ec_label = NoReference, ec_coverage = CoverageSilent\<rparr>"

record token =
  tk_text :: utext
  tk_emitted :: sample

datatype asr_kind = AsrLive | AsrFinalized

record asr_observation =
  ao_through :: sample
  ao_tokens :: "token list"
  ao_trailing_blanks :: nat
  ao_kind :: asr_kind

definition asr_from_recognizer :: "sample \<Rightarrow> sample \<Rightarrow> utext list \<Rightarrow> real list \<Rightarrow> nat \<Rightarrow> asr_kind \<Rightarrow> asr_observation" where
  "asr_from_recognizer stream_start through tokens seconds blanks kind =
     \<lparr>ao_through = through,
      ao_tokens = map (\<lambda>(t, s). \<lparr>tk_text = t, tk_emitted = stream_start + min (nat (round (s * 16000))) u64_max\<rparr>)
        (zip tokens seconds),
      ao_trailing_blanks = blanks, ao_kind = kind\<rparr>"

record evidence_plan =
  ep_epoch :: epoch
  ep_cells_from :: cell_index
  ep_vad_from :: cell_index
  ep_analysis_from :: cell_index

section \<open>Cells\<close>

datatype cell_audio =
    Gap bool
  | Present "i16 option" "u8 option" vad_input echo_cell

definition cell_audio_from_inputs ::
    "device_input option \<Rightarrow> bool \<Rightarrow> vad_input option \<Rightarrow> echo_cell option \<Rightarrow> cell_audio" where
  "cell_audio_from_inputs device gap vad echo =
     (let present = (\<lambda>d. if gap then Gap False
            else Present (map_option dc_e_centi d) (map_option dc_source_mask d)
                   (case vad of Some v \<Rightarrow> v | None \<Rightarrow> VadUnknown) (case echo of Some e \<Rightarrow> e | None \<Rightarrow> ECHO_MISSING))
      in case device of
           Some (DeviceCellInput d) \<Rightarrow> if dc_gap d \<or> dc_muted d then Gap (dc_muted d) else present (Some d)
         | _ \<Rightarrow> present None)"

text \<open>The loudness in hundredths of a dB; the source divides by 100.\<close>

fun cell_energy :: "cell_audio \<Rightarrow> int option" where
  "cell_energy (Present (Some e) _ _ _) = Some (sint e)"
| "cell_energy _ = None"

fun cell_vad :: "cell_audio \<Rightarrow> real option" where
  "cell_vad (Present _ _ vad _) = vad_known vad"
| "cell_vad (Gap _) = None"

definition speech_positive :: "real \<Rightarrow> cell_audio \<Rightarrow> bool" where
  "speech_positive threshold a = (case cell_vad a of Some p \<Rightarrow> p \<ge> threshold | None \<Rightarrow> False)"

fun is_gap_audio :: "cell_audio \<Rightarrow> bool" where
  "is_gap_audio (Gap _) = True"
| "is_gap_audio (Present _ _ _ _) = False"

record cell_evidence =
  ce_cell :: cell_index
  ce_audio :: cell_audio

datatype released = ReleasedCell cell_evidence | ReleasedBlock asr_observation

section \<open>The assembler\<close>

record evidence_slot =
  sl_device :: "device_input option"
  sl_vad :: "vad_input option"
  sl_echo :: "echo_cell option"
  sl_gap :: bool

definition slot_default :: evidence_slot where
  "slot_default = \<lparr>sl_device = None, sl_vad = None, sl_echo = None, sl_gap = False\<rparr>"

record assembler =
  as_plan :: evidence_plan
  as_next :: cell_index
  as_slots :: "evidence_slot list"
  as_blocks :: "asr_observation list"
  as_last_through :: "sample option"
  as_asr_closed :: bool

definition assembler_new :: "evidence_plan \<Rightarrow> (evidence_error, assembler) result" where
  "assembler_new plan =
     (if ep_cells_from plan > ep_vad_from plan \<or> ep_vad_from plan > ep_analysis_from plan then Inl InvalidPlan
      else Inr \<lparr>as_plan = plan, as_next = ep_cells_from plan, as_slots = [], as_blocks = [],
                as_last_through = None, as_asr_closed = False\<rparr>)"

definition check_epoch :: "assembler \<Rightarrow> epoch \<Rightarrow> evidence_error option" where
  "check_epoch a e =
     (if e = ep_epoch (as_plan a) then None else Some (ForeignEpoch (ep_epoch (as_plan a)) e))"

definition check_range :: "assembler \<Rightarrow> cell_index \<Rightarrow> cell_index \<Rightarrow> nat \<Rightarrow> evidence_error option" where
  "check_range a from first n =
     (if first < from then Some (OutsidePlan first)
      else
        let last_cell = first + (n - 1) in
        if n > 0 \<and> last_cell \<ge> as_next a + MAX_CELLS_AHEAD then Some (TooFarAhead last_cell) else None)"

text \<open>The slot of a cell not yet released, growing the queue as needed, changed by \<open>f\<close>.\<close>

definition slot_update :: "cell_index \<Rightarrow> (evidence_slot \<Rightarrow> evidence_slot) \<Rightarrow> assembler \<Rightarrow> assembler" where
  "slot_update c f a =
     (let i = c - as_next a;
          slots = (if length (as_slots a) \<le> i
                   then as_slots a @ replicate (i + 1 - length (as_slots a)) slot_default else as_slots a)
      in a\<lparr>as_slots := slots[i := f (slots ! i)]\<rparr>)"

text \<open>The cells of a batch that are not released yet, with their values.\<close>

definition pending :: "cell_index \<Rightarrow> cell_index \<Rightarrow> 'v list \<Rightarrow> (cell_index \<times> 'v) list" where
  "pending nxt first values = drop (nxt - first) (zip [first..<first + length values] values)"

definition conflicts :: "assembler \<Rightarrow> (evidence_slot \<Rightarrow> 'v option) \<Rightarrow> cell_index \<times> 'v \<Rightarrow> bool" where
  "conflicts a get cv =
     (let i = fst cv - as_next a in
      i < length (as_slots a) \<and> (case get (as_slots a ! i) of Some held \<Rightarrow> held \<noteq> snd cv | None \<Rightarrow> False))"

definition apply_inputs ::
    "(evidence_slot \<Rightarrow> 'v option) \<Rightarrow> ('v option \<Rightarrow> evidence_slot \<Rightarrow> evidence_slot) \<Rightarrow> cell_index \<Rightarrow> 'v list \<Rightarrow> assembler
      \<Rightarrow> (evidence_error, assembler) result" where
  "apply_inputs get put first values a =
     (let cvs = pending (as_next a) first values in
      case List.find (conflicts a get) cvs of
        Some (cell, _) \<Rightarrow> Inl (Conflict cell)
      | None \<Rightarrow> Inr (fold (\<lambda>(cell, v). slot_update cell (put (Some v))) cvs a))"

definition push_inputs ::
    "(evidence_slot \<Rightarrow> 'v option) \<Rightarrow> ('v option \<Rightarrow> evidence_slot \<Rightarrow> evidence_slot) \<Rightarrow> cell_index \<Rightarrow> epoch \<Rightarrow> cell_index \<Rightarrow> 'v list \<Rightarrow> assembler
      \<Rightarrow> (evidence_error, assembler) result" where
  "push_inputs get put from e first values a =
     (case check_epoch a e of Some err \<Rightarrow> Inl err | None \<Rightarrow>
      case check_range a from first (length values) of Some err \<Rightarrow> Inl err | None \<Rightarrow>
      apply_inputs get put first values a)"

definition push_device_cells :: "epoch \<Rightarrow> cell_index \<Rightarrow> device_input list \<Rightarrow> assembler \<Rightarrow> (evidence_error, assembler) result" where
  "push_device_cells e first cells a =
     push_inputs sl_device (\<lambda>v s. s\<lparr>sl_device := v\<rparr>) (ep_cells_from (as_plan a)) e first cells a"

definition push_vad :: "epoch \<Rightarrow> cell_index \<Rightarrow> vad_input list \<Rightarrow> assembler \<Rightarrow> (evidence_error, assembler) result" where
  "push_vad e first vad a =
     push_inputs sl_vad (\<lambda>v s. s\<lparr>sl_vad := v\<rparr>) (ep_vad_from (as_plan a)) e first vad a"

definition push_echo :: "epoch \<Rightarrow> cell_index \<Rightarrow> echo_cell list \<Rightarrow> assembler \<Rightarrow> (evidence_error, assembler) result" where
  "push_echo e first echo a =
     push_inputs sl_echo (\<lambda>v s. s\<lparr>sl_echo := v\<rparr>) (ep_analysis_from (as_plan a)) e first echo a"

definition mark_gap :: "epoch \<Rightarrow> sample_span \<Rightarrow> assembler \<Rightarrow> (evidence_error, assembler) result" where
  "mark_gap e hole a =
     (case check_epoch a e of
        Some err \<Rightarrow> Inl err
      | None \<Rightarrow>
          if sample_span_is_empty hole then Inr a
          else
            let first = max (max (sample_cell (ss_start hole)) (as_next a)) (ep_cells_from (as_plan a));
                last_cell = sample_cell (ss_end hole - 1)
            in if last_cell < first then Inr a
               else (case check_range a first first (last_cell - first + 1) of
                       Some err \<Rightarrow> Inl err
                     | None \<Rightarrow> Inr (fold (\<lambda>c. slot_update c (\<lambda>s. s\<lparr>sl_gap := True\<rparr>)) [first..<last_cell + 1] a)))"

definition push_asr :: "epoch \<Rightarrow> asr_observation \<Rightarrow> assembler \<Rightarrow> (evidence_error, assembler) result" where
  "push_asr e obs a =
     (case check_epoch a e of Some err \<Rightarrow> Inl err | None \<Rightarrow>
      if ao_through obs \<le> cell_start (ep_analysis_from (as_plan a))
         \<or> \<not> (case as_last_through a of None \<Rightarrow> True | Some t \<Rightarrow> ao_through obs > t)
      then Inl (AsrOutOfOrder (ao_through obs))
      else Inr (a\<lparr>as_last_through := Some (ao_through obs), as_blocks := as_blocks a @ [obs]\<rparr>))"

definition device_gap :: "evidence_slot \<Rightarrow> bool" where
  "device_gap s = (case sl_device s of Some (DeviceCellInput d) \<Rightarrow> dc_gap d \<or> dc_muted d | _ \<Rightarrow> False)"

definition front_ready :: "assembler \<Rightarrow> bool" where
  "front_ready a =
     (case as_slots a of
        [] \<Rightarrow> False
      | s # _ \<Rightarrow>
          let c = as_next a;
              asr_covers = c < ep_analysis_from (as_plan a) \<or> as_asr_closed a
                \<or> (case as_last_through a of Some t \<Rightarrow> t \<ge> cell_end c | None \<Rightarrow> False)
          in sl_gap s \<or> device_gap s
             \<or> sl_device s \<noteq> None \<and> (c < ep_vad_from (as_plan a) \<or> sl_vad s \<noteq> None)
               \<and> (c < ep_analysis_from (as_plan a) \<or> sl_echo s \<noteq> None) \<and> asr_covers)"

text \<open>One round of the loop of \<open>release\<close>: the released item and the new assembler, or \<open>None\<close> at its end.\<close>

definition release_one :: "assembler \<Rightarrow> (released \<times> assembler) option" where
  "release_one a =
     (if as_blocks a \<noteq> [] \<and> cell_end (as_next a) > ao_through (hd (as_blocks a))
      then Some (ReleasedBlock (hd (as_blocks a)), a\<lparr>as_blocks := tl (as_blocks a)\<rparr>)
      else if \<not> front_ready a then None
      else
        let s = hd (as_slots a); c = as_next a;
            audio = cell_audio_from_inputs (sl_device s) (sl_gap s) (sl_vad s) (sl_echo s)
        in Some (ReleasedCell \<lparr>ce_cell = c, ce_audio = audio\<rparr>,
             a\<lparr>as_slots := tl (as_slots a), as_next := cell_next c,
               as_asr_closed := (as_asr_closed a \<or> c \<ge> ep_analysis_from (as_plan a) \<and> is_gap_audio audio)\<rparr>))"

text \<open>The loop, with the released items added to \<open>out\<close>.\<close>

function release_evidence :: "released list \<times> assembler \<Rightarrow> released list \<times> assembler" where
  "release_evidence (out, a) =
     (case release_one a of
        None \<Rightarrow> (out, a)
      | Some (r, b) \<Rightarrow> release_evidence (out @ [r], b))"
  by pat_completeness auto
termination
  by (relation "measure (\<lambda>(out, a). length (as_blocks a) + length (as_slots a))")
    (auto simp: release_one_def front_ready_def Let_def split: if_splits list.splits)

declare release_evidence.simps [simp del]

section \<open>Runs\<close>

datatype evidence_op =
    PushDevice epoch cell_index "device_input list"
  | PushVad epoch cell_index "vad_input list"
  | PushEcho epoch cell_index "echo_cell list"
  | MarkGap epoch sample_span
  | PushAsr epoch asr_observation
  | ReleaseReady

text \<open>The pushes; a refused push leaves the assembler as it was.\<close>

fun evidence_push :: "evidence_op \<Rightarrow> assembler \<Rightarrow> (evidence_error, assembler) result" where
  "evidence_push (PushDevice e first cells) a = push_device_cells e first cells a"
| "evidence_push (PushVad e first vad) a = push_vad e first vad a"
| "evidence_push (PushEcho e first echo) a = push_echo e first echo a"
| "evidence_push (MarkGap e hole) a = mark_gap e hole a"
| "evidence_push (PushAsr e obs) a = push_asr e obs a"
| "evidence_push ReleaseReady a = Inr a"

definition evidence_step :: "evidence_op \<Rightarrow> released list \<times> assembler \<Rightarrow> released list \<times> assembler" where
  "evidence_step op s =
     (if op = ReleaseReady then release_evidence s
      else (fst s, case evidence_push op (snd s) of Inl _ \<Rightarrow> snd s | Inr b \<Rightarrow> b))"

definition evidence_run :: "evidence_plan \<Rightarrow> evidence_op list \<Rightarrow> (evidence_error, released list \<times> assembler) result" where
  "evidence_run plan ops =
     (case assembler_new plan of Inl e \<Rightarrow> Inl e | Inr a \<Rightarrow> Inr (fold evidence_step ops ([], a)))"

section \<open>Specification\<close>

text \<open>The cells and the recognizer results among released items.\<close>

fun cells_of :: "released list \<Rightarrow> cell_evidence list" where
  "cells_of [] = []"
| "cells_of (ReleasedCell c # rs) = c # cells_of rs"
| "cells_of (ReleasedBlock b # rs) = cells_of rs"

fun blocks_of :: "released list \<Rightarrow> asr_observation list" where
  "blocks_of [] = []"
| "blocks_of (ReleasedCell c # rs) = blocks_of rs"
| "blocks_of (ReleasedBlock b # rs) = b # blocks_of rs"

text \<open>
  The place of an item in sample order: a cell stands at its end, and a result that covers through
  the same sample right after it.
\<close>

fun sample_key :: "released \<Rightarrow> nat" where
  "sample_key (ReleasedCell c) = 2 * cell_end (ce_cell c)"
| "sample_key (ReleasedBlock b) = 2 * ao_through b + 1"

text \<open>What holds between an item and any later one: sample order, but a result may come after a later cell.\<close>

fun released_before :: "released \<Rightarrow> released \<Rightarrow> bool" where
  "released_before (ReleasedCell c) (ReleasedBlock b) = True"
| "released_before x y = (sample_key x < sample_key y)"

fun utterance_gap :: "evidence_plan \<Rightarrow> released \<Rightarrow> bool" where
  "utterance_gap p (ReleasedCell c) \<longleftrightarrow> ep_analysis_from p \<le> ce_cell c \<and> is_gap_audio (ce_audio c)"
| "utterance_gap p (ReleasedBlock b) \<longleftrightarrow> False"

text \<open>Cells whose end does not wrap around, and the next one's.\<close>

definition cell_fits :: "cell_index \<Rightarrow> bool" where
  "cell_fits c \<longleftrightarrow> (c + 2) * CELL_SAMPLES \<le> u64_max"

definition plan_ordered :: "evidence_plan \<Rightarrow> bool" where
  "plan_ordered p \<longleftrightarrow> ep_cells_from p \<le> ep_vad_from p \<and> ep_vad_from p \<le> ep_analysis_from p"

text \<open>The results a run has accepted, released or not.\<close>

definition accepted_blocks :: "released list \<times> assembler \<Rightarrow> asr_observation list" where
  "accepted_blocks s = blocks_of (fst s) @ as_blocks (snd s)"

text \<open>What holds of the released items and the assembler whatever the evidence.\<close>

definition structure_ok :: "released list \<times> assembler \<Rightarrow> bool" where
  "structure_ok s =
     (let out = fst s; a = snd s; p = as_plan a in
      plan_ordered p
      \<and> ep_cells_from p \<le> as_next a
      \<and> map ce_cell (cells_of out) = [ep_cells_from p..<as_next a]
      \<and> sorted_wrt (\<lambda>x y. ao_through x < ao_through y) (accepted_blocks s)
      \<and> list_all (\<lambda>b. cell_start (ep_analysis_from p) < ao_through b) (accepted_blocks s)
      \<and> as_last_through a = (if accepted_blocks s = [] then None else Some (ao_through (last (accepted_blocks s))))
      \<and> (as_asr_closed a \<longleftrightarrow> list_ex (utterance_gap p) out))"

definition order_ok :: "released list \<times> assembler \<Rightarrow> bool" where
  "order_ok s =
     (let out = fst s; a = snd s; p = as_plan a in
      sorted_wrt released_before out
      \<and> sorted_wrt (\<lambda>x y. sample_key x < sample_key y) (takeWhile (\<lambda>r. \<not> utterance_gap p r) out)
      \<and> list_all (\<lambda>b. ao_through b < cell_end (as_next a)) (blocks_of out)
      \<and> (\<not> as_asr_closed a \<longrightarrow>
           list_all (\<lambda>c. list_all (\<lambda>b. cell_end (ce_cell c) \<le> ao_through b) (as_blocks a)
             \<and> (ep_analysis_from p \<le> ce_cell c \<longrightarrow>
                 (case as_last_through a of None \<Rightarrow> False | Some t \<Rightarrow> cell_end (ce_cell c) \<le> t)))
           (cells_of out)))"

definition evidence_inv :: "released list \<times> assembler \<Rightarrow> bool" where
  "evidence_inv s \<longleftrightarrow> structure_ok s
     \<and> (cell_fits (as_next (snd s)) \<and> cell_fits (ep_analysis_from (as_plan (snd s))) \<longrightarrow> order_ok s)"

text \<open>What a cell not yet released holds so far.\<close>

definition held_slot :: "assembler \<Rightarrow> cell_index \<Rightarrow> evidence_slot" where
  "held_slot a c = (if as_next a \<le> c \<and> c - as_next a < length (as_slots a) then as_slots a ! (c - as_next a) else slot_default)"

text \<open>A plan and a run with evidence out of order, a foreign echo result and a gap at the end.\<close>

definition witness_plan :: evidence_plan where
  "witness_plan = \<lparr>ep_epoch = 9, ep_cells_from = 4, ep_vad_from = 5, ep_analysis_from = 5\<rparr>"

definition witness_asr :: asr_observation where
  "witness_asr = \<lparr>ao_through = 3072, ao_tokens = [], ao_trailing_blanks = 0, ao_kind = AsrLive\<rparr>"

definition witness_audio :: device_input where
  "witness_audio = DeviceCellInput \<lparr>dc_e_centi = 0, dc_gap = False, dc_muted = False, dc_source_mask = 1\<rparr>"

definition witness_evidence_ops :: "evidence_op list" where
  "witness_evidence_ops =
     [PushAsr 9 witness_asr, PushVad 9 5 [VadUnknown, VadUnknown], ReleaseReady,
      PushDevice 9 4 [DeviceUnknown, witness_audio, DeviceUnknown], PushEcho 9 5 [ECHO_MISSING],
      PushEcho 8 6 [ECHO_SILENT_REFERENCE], ReleaseReady,
      MarkGap 9 \<lparr>ss_start = 3100, ss_end = 3200\<rparr>, ReleaseReady]"

definition witness_released :: "released list" where
  "witness_released =
     [ReleasedCell \<lparr>ce_cell = 4, ce_audio = Present None None VadUnknown ECHO_MISSING\<rparr>,
      ReleasedCell \<lparr>ce_cell = 5, ce_audio = Present (Some 0) (Some 1) VadUnknown ECHO_MISSING\<rparr>,
      ReleasedBlock witness_asr, ReleasedCell \<lparr>ce_cell = 6, ce_audio = Gap False\<rparr>]"

section \<open>Lemmas\<close>

lemma cells_of_append [simp]: "cells_of (xs @ ys) = cells_of xs @ cells_of ys"
  by (induction xs rule: cells_of.induct) simp_all

lemma blocks_of_append [simp]: "blocks_of (xs @ ys) = blocks_of xs @ blocks_of ys"
  by (induction xs rule: blocks_of.induct) simp_all

lemma mem_cells_of: "c \<in> set (cells_of xs) \<longleftrightarrow> ReleasedCell c \<in> set xs"
  by (induction xs rule: cells_of.induct) auto

lemma mem_blocks_of: "b \<in> set (blocks_of xs) \<longleftrightarrow> ReleasedBlock b \<in> set xs"
  by (induction xs rule: blocks_of.induct) auto

lemma cell_end_fits: "cell_fits c \<Longrightarrow> d \<le> Suc c \<Longrightarrow> cell_end d = (d + 1) * 512"
  unfolding cell_end_def by (subst wrap64_id) (auto simp: cell_fits_def CELL_SAMPLES_def)

lemma cell_start_fits: "cell_fits c \<Longrightarrow> d \<le> Suc c \<Longrightarrow> cell_start d = d * 512"
  unfolding cell_start_def by (subst wrap64_id) (auto simp: cell_fits_def CELL_SAMPLES_def)

lemma cell_fits_mono: "cell_fits c \<Longrightarrow> d \<le> c \<Longrightarrow> cell_fits d"
  by (auto simp: cell_fits_def CELL_SAMPLES_def)

subsection \<open>Slots\<close>

lemma slot_update_other [simp]:
  "as_plan (slot_update c f a) = as_plan a" "as_next (slot_update c f a) = as_next a"
  "as_blocks (slot_update c f a) = as_blocks a" "as_last_through (slot_update c f a) = as_last_through a"
  "as_asr_closed (slot_update c f a) = as_asr_closed a"
  by (simp_all add: slot_update_def Let_def)

lemma held_slot_update:
  assumes "as_next a \<le> c"
  shows "held_slot (slot_update c f a) d = (if d = c then f (held_slot a c) else held_slot a d)"
proof (cases "as_next a \<le> d")
  case True
  then show ?thesis using assms
    by (auto simp: held_slot_def slot_update_def Let_def nth_append nth_list_update)
next
  case False
  then show ?thesis using assms by (auto simp: held_slot_def)
qed

lemma fold_slot_update_other [simp]:
  "as_plan (fold (\<lambda>x. slot_update (c x) (f x)) xs a) = as_plan a"
  "as_next (fold (\<lambda>x. slot_update (c x) (f x)) xs a) = as_next a"
  "as_blocks (fold (\<lambda>x. slot_update (c x) (f x)) xs a) = as_blocks a"
  "as_last_through (fold (\<lambda>x. slot_update (c x) (f x)) xs a) = as_last_through a"
  "as_asr_closed (fold (\<lambda>x. slot_update (c x) (f x)) xs a) = as_asr_closed a"
  by (induction xs arbitrary: a) simp_all

lemma fold_held_slot:
  assumes "\<forall>x \<in> set xs. as_next a \<le> c x" "distinct (map c xs)"
  shows "held_slot (fold (\<lambda>x. slot_update (c x) (f x)) xs a) d
    = (case List.find (\<lambda>x. c x = d) xs of Some x \<Rightarrow> f x (held_slot a d) | None \<Rightarrow> held_slot a d)"
  using assms
proof (induction xs arbitrary: a)
  case (Cons x xs)
  have tl: "\<forall>y \<in> set xs. as_next (slot_update (c x) (f x) a) \<le> c y" "distinct (map c xs)" using Cons.prems by auto
  have "List.find (\<lambda>y. c y = c x) xs = None" using Cons.prems(2) by (auto simp: find_None_iff image_iff)
  moreover have "held_slot (slot_update (c x) (f x) a) d = (if d = c x then f x (held_slot a d) else held_slot a d)"
    using Cons.prems(1) by (simp add: held_slot_update)
  ultimately show ?case using Cons.IH [OF tl] by (auto split: option.splits)
qed simp

lemma pending_mem:
  "(c, v) \<in> set (pending nxt first vs) \<longleftrightarrow> nxt \<le> c \<and> first \<le> c \<and> c < first + length vs \<and> v = vs ! (c - first)"
proof -
  have "(c, v) \<in> set (pending nxt first vs)
      \<longleftrightarrow> (\<exists>i < length vs - (nxt - first). c = first + (nxt - first + i) \<and> v = vs ! (nxt - first + i))"
    by (auto simp: pending_def in_set_conv_nth)
  also have "\<dots> \<longleftrightarrow> nxt \<le> c \<and> first \<le> c \<and> c < first + length vs \<and> v = vs ! (c - first)"
    by (auto intro!: exI [of _ "c - first - (nxt - first)"])
  finally show ?thesis .
qed

lemma pending_distinct: "distinct (map fst (pending nxt first vs))"
  by (simp add: pending_def drop_map [symmetric] distinct_drop)

text \<open>An accepted push sets the input of exactly the cells of the batch that are not released yet.\<close>

lemma push_inputs_accepted:
  assumes "push_inputs get put from e first vs a = Inr b"
  shows "as_plan b = as_plan a" "as_next b = as_next a" "as_blocks b = as_blocks a"
    "as_last_through b = as_last_through a" "as_asr_closed b = as_asr_closed a"
    "held_slot b c = (if as_next a \<le> c \<and> first \<le> c \<and> c < first + length vs
       then put (Some (vs ! (c - first))) (held_slot a c) else held_slot a c)"
    "from \<le> first"
proof -
  let ?ps = "pending (as_next a) first vs"
  have b: "b = fold (\<lambda>x. slot_update (fst x) (put (Some (snd x)))) ?ps a" and lo: "from \<le> first"
    using assms by (auto simp: push_inputs_def apply_inputs_def Let_def check_range_def case_prod_unfold split: option.splits if_splits)
  show "as_plan b = as_plan a" "as_next b = as_next a" "as_blocks b = as_blocks a"
    "as_last_through b = as_last_through a" "as_asr_closed b = as_asr_closed a" "from \<le> first"
    using lo by (simp_all add: b)
  have "\<forall>x \<in> set ?ps. as_next a \<le> fst x" using pending_mem [of _ _ "as_next a" first vs] by auto
  note held = fold_held_slot [OF this pending_distinct, of "\<lambda>x. put (Some (snd x))" c, folded b]
  show "held_slot b c = (if as_next a \<le> c \<and> first \<le> c \<and> c < first + length vs
       then put (Some (vs ! (c - first))) (held_slot a c) else held_slot a c)"
  proof (cases "List.find (\<lambda>x. fst x = c) ?ps")
    case None
    then have "\<not> (as_next a \<le> c \<and> first \<le> c \<and> c < first + length vs)"
      using pending_mem [of c "vs ! (c - first)" "as_next a" first vs] by (auto simp: find_None_iff)
    then show ?thesis using held None by auto
  next
    case (Some x)
    then have "x \<in> set ?ps" "fst x = c" by (auto simp: find_Some_iff in_set_conv_nth)
    then have "as_next a \<le> c \<and> first \<le> c \<and> c < first + length vs" "snd x = vs ! (c - first)"
      using pending_mem [of "fst x" "snd x" "as_next a" first vs] by auto
    then show ?thesis using held Some by simp
  qed
qed

subsection \<open>The released order\<close>

lemma structure_okD:
  assumes "structure_ok (out, a)"
  shows "plan_ordered (as_plan a)" "ep_cells_from (as_plan a) \<le> as_next a"
    "map ce_cell (cells_of out) = [ep_cells_from (as_plan a)..<as_next a]"
    "sorted_wrt (\<lambda>x y. ao_through x < ao_through y) (blocks_of out @ as_blocks a)"
    "\<And>b. b \<in> set (blocks_of out @ as_blocks a) \<Longrightarrow> cell_start (ep_analysis_from (as_plan a)) < ao_through b"
    "as_last_through a = (if blocks_of out @ as_blocks a = [] then None else Some (ao_through (last (blocks_of out @ as_blocks a))))"
    "as_asr_closed a \<longleftrightarrow> list_ex (utterance_gap (as_plan a)) out"
  using assms by (auto simp: structure_ok_def Let_def accepted_blocks_def list_all_iff)

lemma order_okD:
  assumes "order_ok (out, a)"
  shows "sorted_wrt released_before out"
    "sorted_wrt (\<lambda>x y. sample_key x < sample_key y) (takeWhile (\<lambda>r. \<not> utterance_gap (as_plan a) r) out)"
    "ReleasedBlock b \<in> set out \<Longrightarrow> ao_through b < cell_end (as_next a)"
    "\<not> as_asr_closed a \<Longrightarrow> ReleasedCell c \<in> set out \<Longrightarrow> b \<in> set (as_blocks a) \<Longrightarrow> cell_end (ce_cell c) \<le> ao_through b"
    "\<not> as_asr_closed a \<Longrightarrow> ReleasedCell c \<in> set out \<Longrightarrow> ep_analysis_from (as_plan a) \<le> ce_cell c
       \<Longrightarrow> \<exists>t. as_last_through a = Some t \<and> cell_end (ce_cell c) \<le> t"
  using assms
  by (auto simp: order_ok_def Let_def list_all_iff mem_cells_of [symmetric] mem_blocks_of [symmetric] split: option.splits)

lemma released_cells:
  assumes "structure_ok (out, a)" "c \<in> set (cells_of out)"
  shows "ce_cell c < as_next a" "ep_cells_from (as_plan a) \<le> ce_cell c"
proof -
  have "ce_cell c \<in> set (map ce_cell (cells_of out))" using assms(2) by simp
  then show "ce_cell c < as_next a" "ep_cells_from (as_plan a) \<le> ce_cell c"
    unfolding structure_okD(3) [OF assms(1)] by simp_all
qed

lemma front_ready_waits:
  assumes "front_ready a" "\<not> as_asr_closed a" "ep_analysis_from (as_plan a) \<le> as_next a"
    "\<not> is_gap_audio (cell_audio_from_inputs (sl_device (hd (as_slots a))) (sl_gap (hd (as_slots a)))
       (sl_vad (hd (as_slots a))) (sl_echo (hd (as_slots a))))"
  shows "\<exists>t. as_last_through a = Some t \<and> cell_end (as_next a) \<le> t"
  using assms
  by (auto simp: front_ready_def Let_def device_gap_def cell_audio_from_inputs_def
      split: list.splits option.splits device_input.splits if_splits)

lemma sorted_takeWhile_snoc:
  assumes "sorted_wrt P (takeWhile Q xs)" "(\<forall>y\<in>set xs. Q y) \<Longrightarrow> \<forall>y\<in>set xs. P y x"
  shows "sorted_wrt P (takeWhile Q (xs @ [x]))"
proof (cases "\<forall>y\<in>set xs. Q y")
  case True
  have all: "takeWhile Q xs = xs" using True by (simp add: takeWhile_eq_all_conv)
  have "takeWhile Q (xs @ [x]) = xs @ takeWhile Q [x]" using takeWhile_append2 [of xs Q "[x]"] True by blast
  then show ?thesis using assms(1) [unfolded all] assms(2) [OF True] by (cases "Q x") (auto simp: sorted_wrt_append)
next
  case False
  then obtain y where "y \<in> set xs" "\<not> Q y" by blast
  then show ?thesis using assms(1) by (simp add: takeWhile_append1)
qed

lemma release_block_order:
  assumes "structure_ok (out, a)" "order_ok (out, a)" "cell_fits (as_next a)"
    "as_blocks a = b # bs" "ao_through b < cell_end (as_next a)"
  shows "order_ok (out @ [ReleasedBlock b], a\<lparr>as_blocks := bs\<rparr>)"
proof -
  note st = structure_okD [OF assms(1)]
  have earlier: "released_before r (ReleasedBlock b)" if "r \<in> set out" for r
    by (cases r) (use that st(4) assms(4) in \<open>auto simp: sorted_wrt_append mem_blocks_of\<close>)
  have key: "sample_key r < sample_key (ReleasedBlock b)" if "r \<in> set out" "\<not> as_asr_closed a" for r
    by (cases r)
      (use that earlier [OF that(1)] assms(4) order_okD(4) [OF assms(2), of _ b] in \<open>fastforce simp: less_Suc_eq_le\<close>)+
  have "sorted_wrt (\<lambda>x y. sample_key x < sample_key y)
      (takeWhile (\<lambda>r. \<not> utterance_gap (as_plan a) r) (out @ [ReleasedBlock b]))"
    using key st(7) by (intro sorted_takeWhile_snoc [OF order_okD(2) [OF assms(2)]]) (auto simp: list_ex_iff)
  then show ?thesis
    using assms(2,4,5) earlier by (auto simp: order_ok_def Let_def sorted_wrt_append list_all_iff)
qed

lemma release_cell_order:
  assumes "structure_ok (out, a)" "order_ok (out, a)" "cell_fits (Suc (as_next a))"
    "front_ready a" "\<And>b bs. as_blocks a = b # bs \<Longrightarrow> cell_end (as_next a) \<le> ao_through b"
    "c = \<lparr>ce_cell = as_next a, ce_audio = cell_audio_from_inputs (sl_device (hd (as_slots a)))
       (sl_gap (hd (as_slots a))) (sl_vad (hd (as_slots a))) (sl_echo (hd (as_slots a)))\<rparr>"
  shows "order_ok (out @ [ReleasedCell c], a\<lparr>as_slots := ss, as_next := Suc (as_next a),
      as_asr_closed := (as_asr_closed a \<or> utterance_gap (as_plan a) (ReleasedCell c))\<rparr>)"
proof -
  note st = structure_okD [OF assms(1)] and ends = cell_end_fits [OF assms(3)]
  have key: "sample_key r < sample_key (ReleasedCell c)" if "r \<in> set out" for r
  proof (cases r)
    case (ReleasedCell d)
    then have "ce_cell d < as_next a" using released_cells(1) [OF assms(1)] that by (simp add: mem_cells_of)
    then show ?thesis using ReleasedCell assms(6) by (simp add: ends)
  next
    case (ReleasedBlock b)
    then show ?thesis using that assms(6) order_okD(3) [OF assms(2), of b] by simp
  qed
  have before: "released_before r (ReleasedCell c)" if "r \<in> set out" for r
    using key [OF that] by (cases r) simp_all
  have sorted: "sorted_wrt (\<lambda>x y. sample_key x < sample_key y)
      (takeWhile (\<lambda>r. \<not> utterance_gap (as_plan a) r) (out @ [ReleasedCell c]))"
    using key by (intro sorted_takeWhile_snoc [OF order_okD(2) [OF assms(2)]]) blast
  have pend: "cell_end (as_next a) \<le> ao_through b" if "b \<in> set (as_blocks a)" for b
    using that assms(5) st(4) by (cases "as_blocks a") (fastforce simp: sorted_wrt_append)+
  have later: "cell_end (as_next a) < cell_end (Suc (as_next a))" by (simp add: ends)
  show ?thesis
    using assms(2,6) sorted before pend later front_ready_waits [OF assms(4)]
    by (fastforce simp: order_ok_def Let_def sorted_wrt_append list_all_iff)
qed

lemma release_one_inv:
  assumes "evidence_inv (out, a)" "release_one a = Some (r, b)"
  shows "evidence_inv (out @ [r], b)"
proof -
  have st: "structure_ok (out, a)" and ord: "cell_fits (as_next a) \<Longrightarrow> cell_fits (ep_analysis_from (as_plan a)) \<Longrightarrow> order_ok (out, a)"
    using assms(1) by (simp_all add: evidence_inv_def)
  show ?thesis
  proof (cases "as_blocks a \<noteq> [] \<and> cell_end (as_next a) > ao_through (hd (as_blocks a))")
    case True
    then obtain x xs where bs: "as_blocks a = x # xs" by (cases "as_blocks a") auto
    have rb: "r = ReleasedBlock x" "b = a\<lparr>as_blocks := xs\<rparr>" using assms(2) True bs by (auto simp: release_one_def)
    have "structure_ok (out @ [r], b)"
      using st bs by (auto simp: structure_ok_def Let_def accepted_blocks_def rb)
    then show ?thesis
      using release_block_order [OF st _ _ bs] ord True bs by (auto simp: evidence_inv_def rb)
  next
    case False
    then have fr: "front_ready a" using assms(2) by (auto simp: release_one_def split: if_splits)
    define c where "c = \<lparr>ce_cell = as_next a, ce_audio = cell_audio_from_inputs (sl_device (hd (as_slots a)))
       (sl_gap (hd (as_slots a))) (sl_vad (hd (as_slots a))) (sl_echo (hd (as_slots a)))\<rparr>"
    have rb: "r = ReleasedCell c" "b = a\<lparr>as_slots := tl (as_slots a), as_next := Suc (as_next a),
        as_asr_closed := (as_asr_closed a \<or> utterance_gap (as_plan a) (ReleasedCell c))\<rparr>"
      using assms(2) False fr by (auto simp: release_one_def Let_def c_def cell_next_def)
    have "structure_ok (out @ [r], b)"
      using st by (auto simp: structure_ok_def Let_def accepted_blocks_def rb c_def)
    moreover have "order_ok (out @ [r], b)" if "cell_fits (Suc (as_next a))" "cell_fits (ep_analysis_from (as_plan a))"
      unfolding rb using False ord cell_fits_mono [OF that(1)] that(2)
      by (intro release_cell_order [OF st _ that(1) fr _ c_def]) auto
    ultimately show ?thesis by (simp add: evidence_inv_def rb)
  qed
qed

lemma release_evidence_inv: "evidence_inv s \<Longrightarrow> evidence_inv (release_evidence s)"
proof (induction s rule: release_evidence.induct)
  case (1 out a)
  then show ?case
    by (subst release_evidence.simps) (auto split: option.splits dest: release_one_inv)
qed

lemma evidence_inv_same:
  assumes "evidence_inv (out, a)" "as_plan b = as_plan a" "as_next b = as_next a" "as_blocks b = as_blocks a"
    "as_last_through b = as_last_through a" "as_asr_closed b = as_asr_closed a"
  shows "evidence_inv (out, b)"
proof -
  have acc: "accepted_blocks (out, b) = accepted_blocks (out, a)" by (simp add: accepted_blocks_def assms)
  from assms(1) show ?thesis
    unfolding evidence_inv_def structure_ok_def order_ok_def Let_def fst_conv snd_conv assms(2-6) acc .
qed

lemma mark_gap_accepted:
  assumes "mark_gap e hole a = Inr b"
  shows "as_plan b = as_plan a" "as_next b = as_next a" "as_blocks b = as_blocks a"
    "as_last_through b = as_last_through a" "as_asr_closed b = as_asr_closed a"
  using assms by (auto simp: mark_gap_def Let_def split: option.splits if_splits)

lemma push_asr_accepted:
  assumes "push_asr e obs a = Inr b"
  shows "b = a\<lparr>as_last_through := Some (ao_through obs), as_blocks := as_blocks a @ [obs]\<rparr>"
    "cell_start (ep_analysis_from (as_plan a)) < ao_through obs"
    "as_last_through a = Some t \<Longrightarrow> t < ao_through obs"
  using assms by (auto simp: push_asr_def split: option.splits if_splits)

lemma accepted_through_le_last:
  assumes "structure_ok (out, a)" "b \<in> set (blocks_of out @ as_blocks a)"
  shows "\<exists>t. as_last_through a = Some t \<and> ao_through b \<le> t"
proof -
  let ?bs = "blocks_of out @ as_blocks a"
  obtain ys z where z: "?bs = ys @ [z]" using assms(2) by (metis empty_iff empty_set rev_exhaust)
  then have "as_last_through a = Some (ao_through z)" using structure_okD(6) [OF assms(1)] by simp
  moreover have "ao_through b \<le> ao_through z"
    using structure_okD(4) [OF assms(1)] assms(2) unfolding z by (auto simp: sorted_wrt_append)
  ultimately show ?thesis by blast
qed

lemma structure_ok_snoc:
  assumes "structure_ok (out, a)" "cell_start (ep_analysis_from (as_plan a)) < ao_through obs"
    "\<And>b. b \<in> set (blocks_of out @ as_blocks a) \<Longrightarrow> ao_through b < ao_through obs"
  shows "structure_ok (out, a\<lparr>as_last_through := Some (ao_through obs), as_blocks := as_blocks a @ [obs]\<rparr>)"
proof -
  have "sorted_wrt (\<lambda>x y. ao_through x < ao_through y) ((blocks_of out @ as_blocks a) @ [obs])"
    using structure_okD(4) [OF assms(1)] assms(3) unfolding sorted_wrt_append [of _ _ "[obs]"] by simp
  then show ?thesis using assms(1,2) by (simp add: structure_ok_def Let_def accepted_blocks_def)
qed

lemma push_asr_inv:
  assumes "evidence_inv (out, a)" "push_asr e obs a = Inr b"
  shows "evidence_inv (out, b)"
proof -
  note b = push_asr_accepted [OF assms(2)]
  have st: "structure_ok (out, a)" and ord: "cell_fits (as_next a) \<Longrightarrow> cell_fits (ep_analysis_from (as_plan a)) \<Longrightarrow> order_ok (out, a)"
    using assms(1) by (simp_all add: evidence_inv_def)
  have "structure_ok (out, b)"
    unfolding b(1) by (rule structure_ok_snoc [OF st b(2)]) (use b(3) accepted_through_le_last [OF st] in fastforce)
  moreover have "order_ok (out, b)" if fits: "cell_fits (as_next a)" "cell_fits (ep_analysis_from (as_plan a))"
  proof -
    have later: "cell_end (ce_cell c) \<le> ao_through obs" if c: "c \<in> set (cells_of out)" "\<not> as_asr_closed a" for c
    proof (cases "ep_analysis_from (as_plan a) \<le> ce_cell c")
      case True
      then show ?thesis
        using order_okD(5) [OF ord [OF fits] c(2), of c] c(1) b(3) by (fastforce simp: mem_cells_of)
    next
      case False
      have "ce_cell c < as_next a" using released_cells(1) [OF st c(1)] .
      then have "cell_end (ce_cell c) = (ce_cell c + 1) * 512" using cell_end_fits [OF fits(1)] by simp
      also have "\<dots> \<le> cell_start (ep_analysis_from (as_plan a))"
        using False cell_start_fits [OF fits(2)] by simp
      finally show ?thesis using b(2) by simp
    qed
    show ?thesis
      using ord [OF fits] later by (auto simp: order_ok_def Let_def list_all_iff b(1) split: option.splits)
  qed
  ultimately show ?thesis by (auto simp: evidence_inv_def b(1))
qed

lemma evidence_push_inv:
  assumes "evidence_inv (out, a)" "evidence_push op a = Inr b"
  shows "evidence_inv (out, b)"
proof (cases op)
  case (PushDevice e first cells)
  then show ?thesis using assms
    by (auto simp: push_device_cells_def dest: push_inputs_accepted(1-5) intro: evidence_inv_same)
next
  case (PushVad e first vad)
  then show ?thesis using assms
    by (auto simp: push_vad_def dest: push_inputs_accepted(1-5) intro: evidence_inv_same)
next
  case (PushEcho e first echo)
  then show ?thesis using assms
    by (auto simp: push_echo_def dest: push_inputs_accepted(1-5) intro: evidence_inv_same)
next
  case (MarkGap e hole)
  then show ?thesis using assms by (auto dest: mark_gap_accepted intro: evidence_inv_same)
next
  case (PushAsr e obs)
  then show ?thesis using assms by (auto intro: push_asr_inv)
next
  case ReleaseReady
  then show ?thesis using assms by simp
qed

lemma evidence_step_inv: "evidence_inv s \<Longrightarrow> evidence_inv (evidence_step op s)"
  by (cases s) (auto simp: evidence_step_def release_evidence_inv split: sum.splits dest: evidence_push_inv)

interpretation evidence_machine: invariant_machine evidence_step evidence_inv
  by unfold_locales (rule evidence_step_inv)

lemma assembler_new_inv:
  assumes "assembler_new plan = Inr a"
  shows "evidence_inv ([], a)" "as_plan a = plan"
  using assms
  by (auto simp: assembler_new_def evidence_inv_def structure_ok_def order_ok_def Let_def accepted_blocks_def
      plan_ordered_def split: if_splits)

lemma evidence_run_inv: "evidence_run plan ops = Inr s \<Longrightarrow> evidence_inv s"
  using evidence_machine.run_inv assembler_new_inv(1) by (auto simp: evidence_run_def split: sum.splits)

section \<open>Properties\<close>

text \<open>
  (C18) Whatever evidence arrives and in whatever order, the cells are released consecutively from the
  first cell of the plan, each once; recognizer results cover more and more, and no cell that ends
  at or before the sample a result covers comes after it; up to the first gap of the utterance
  everything is in sample order. (Cell numbers are below 2^55, where a cell's end fits 64 bits.)
\<close>

theorem evidence_released_in_order:
  assumes "evidence_run plan ops = Inr (out, a)" "cell_fits (as_next a)" "cell_fits (ep_analysis_from (as_plan a))"
  shows "map ce_cell (cells_of out) = [ep_cells_from (as_plan a)..<as_next a]
    \<and> sorted_wrt released_before out
    \<and> sorted_wrt (\<lambda>x y. sample_key x < sample_key y) (takeWhile (\<lambda>r. \<not> utterance_gap (as_plan a) r) out)"
proof -
  have "structure_ok (out, a)" "order_ok (out, a)"
    using evidence_run_inv [OF assms(1)] assms(2,3) by (simp_all add: evidence_inv_def)
  then show ?thesis using structure_okD(3) order_okD(1,2) by blast
qed

lemmas evidence_eval = evidence_run_def assembler_new_def evidence_step_def push_device_cells_def push_vad_def
  push_echo_def push_inputs_def check_epoch_def check_range_def apply_inputs_def pending_def conflicts_def
  slot_update_def mark_gap_def push_asr_def release_evidence.simps release_one_def front_ready_def device_gap_def
  cell_audio_from_inputs_def cell_end_def cell_start_def cell_next_def sample_cell_def sample_span_is_empty_def
  CELL_SAMPLES_def wrap64_def slot_default_def MAX_CELLS_AHEAD_def Let_def

lemmas witness_evidence_defs = witness_plan_def witness_evidence_ops_def witness_asr_def witness_audio_def witness_released_def

lemma witness_evidence_run:
  "evidence_run witness_plan witness_evidence_ops = Inr (witness_released, \<lparr>as_plan = witness_plan, as_next = 7, as_slots = [],
     as_blocks = [], as_last_through = Some 3072, as_asr_closed = True\<rparr>)"
  by (simp add: witness_evidence_defs evidence_eval)

theorem evidence_released_in_order_witness:
  "map ce_cell (cells_of witness_released) = [4..<7] \<and> sorted_wrt released_before witness_released
    \<and> sorted_wrt (\<lambda>x y. sample_key x < sample_key y)
        (takeWhile (\<lambda>r. \<not> utterance_gap witness_plan r) witness_released)"
  using evidence_released_in_order [OF witness_evidence_run]
  by (simp add: cell_fits_def u64_max_def CELL_SAMPLES_def witness_plan_def)

end
