(* ===== verification/Turn_Evidence_Order.thy ===== *)
theory Turn_Evidence_Order
  imports Turn_Evidence "HOL-Library.Sublist"
begin

text \<open>
  The order in which evidence arrives does not change what the endpoint reducer sees: two runs of the
  assembler (\<open>crates/turn/src/evidence.rs\<close>) that are fed from the same evidence, batched and interleaved
  in any way, release the same items in the same order, as far as each has come.
\<close>

section \<open>Specification\<close>

text \<open>All the evidence there is for an utterance: the inputs of each cell and the recognizer's results in turn.\<close>

record evidence_source =
  es_device :: "cell_index \<Rightarrow> device_input option"
  es_vad :: "cell_index \<Rightarrow> vad_input option"
  es_echo :: "cell_index \<Rightarrow> echo_cell option"
  es_asr :: "asr_observation list"

definition source_audio :: "evidence_source \<Rightarrow> cell_index \<Rightarrow> cell_audio" where
  "source_audio E c = cell_audio_from_inputs (es_device E c) False (es_vad E c) (es_echo E c)"

text \<open>
  The source gives the inputs the plan asks for and no others, its results cover more and more of the
  utterance, the utterance has no gap, and the ends of its cells fit 64 bits.
\<close>

definition evidence_source_ok :: "evidence_plan \<Rightarrow> evidence_source \<Rightarrow> bool" where
  "evidence_source_ok p E \<longleftrightarrow>
     (\<forall>c. es_vad E c \<noteq> None \<longrightarrow> ep_vad_from p \<le> c)
     \<and> (\<forall>c. es_echo E c \<noteq> None \<longrightarrow> ep_analysis_from p \<le> c)
     \<and> sorted_wrt (\<lambda>x y. ao_through x < ao_through y) (es_asr E)
     \<and> list_all (\<lambda>b. cell_start (ep_analysis_from p) < ao_through b) (es_asr E)
     \<and> (\<forall>c. ep_analysis_from p \<le> c \<longrightarrow> \<not> is_gap_audio (source_audio E c))
     \<and> (\<forall>c. es_device E c \<noteq> None \<longrightarrow> cell_fits (Suc c))
     \<and> cell_fits (ep_cells_from p) \<and> cell_fits (ep_analysis_from p)"

text \<open>A push of the plan's epoch carries evidence of the source.\<close>

fun op_agrees :: "evidence_plan \<Rightarrow> evidence_source \<Rightarrow> evidence_op \<Rightarrow> bool" where
  "op_agrees p E (PushDevice e first cells) \<longleftrightarrow>
     (e = ep_epoch p \<longrightarrow> (\<forall>i < length cells. es_device E (first + i) = Some (cells ! i)))"
| "op_agrees p E (PushVad e first vad) \<longleftrightarrow>
     (e = ep_epoch p \<longrightarrow> (\<forall>i < length vad. es_vad E (first + i) = Some (vad ! i)))"
| "op_agrees p E (PushEcho e first echo) \<longleftrightarrow>
     (e = ep_epoch p \<longrightarrow> (\<forall>i < length echo. es_echo E (first + i) = Some (echo ! i)))"
| "op_agrees p E (MarkGap e hole) \<longleftrightarrow> e \<noteq> ep_epoch p"
| "op_agrees p E (PushAsr e obs) \<longleftrightarrow> True"
| "op_agrees p E ReleaseReady \<longleftrightarrow> True"

text \<open>The recognizer results a run pushes for the plan's epoch.\<close>

fun asr_pushes :: "evidence_plan \<Rightarrow> evidence_op list \<Rightarrow> asr_observation list" where
  "asr_pushes p [] = []"
| "asr_pushes p (PushAsr e obs # ops) = (if e = ep_epoch p then obs # asr_pushes p ops else asr_pushes p ops)"
| "asr_pushes p (_ # ops) = asr_pushes p ops"

definition fed_from :: "evidence_plan \<Rightarrow> evidence_source \<Rightarrow> evidence_op list \<Rightarrow> bool" where
  "fed_from p E ops \<longleftrightarrow> list_all (op_agrees p E) ops \<and> prefix (asr_pushes p ops) (es_asr E)"

text \<open>What a pending cell holds is the source's, and so is what was released.\<close>

definition slot_agrees :: "evidence_source \<Rightarrow> cell_index \<Rightarrow> evidence_slot \<Rightarrow> bool" where
  "slot_agrees E c s \<longleftrightarrow> \<not> sl_gap s \<and> sl_device s \<in> {None, es_device E c} \<and> sl_vad s \<in> {None, es_vad E c}
     \<and> sl_echo s \<in> {None, es_echo E c}"

definition agree_inv :: "evidence_plan \<Rightarrow> evidence_source \<Rightarrow> released list \<times> assembler \<Rightarrow> bool" where
  "agree_inv p E s \<longleftrightarrow>
     as_plan (snd s) = p
     \<and> (\<forall>c. slot_agrees E c (held_slot (snd s) c))
     \<and> (\<forall>c \<in> set (cells_of (fst s)). ce_audio c = source_audio E (ce_cell c) \<and> es_device E (ce_cell c) \<noteq> None)"

text \<open>Evidence for two cells, fed in turn and scrambled.\<close>

definition witness_source :: evidence_source where
  "witness_source =
     \<lparr>es_device = (\<lambda>c. if c = 4 then Some DeviceUnknown else if c = 5 then Some witness_audio else None),
      es_vad = (\<lambda>c. if c = 5 then Some VadUnknown else None),
      es_echo = (\<lambda>c. if c = 5 then Some ECHO_MISSING else None), es_asr = [witness_asr]\<rparr>"

definition witness_in_turn :: "evidence_op list" where
  "witness_in_turn = [PushDevice 9 4 [DeviceUnknown, witness_audio], ReleaseReady]"

definition witness_scrambled :: "evidence_op list" where
  "witness_scrambled =
     [PushAsr 9 witness_asr, ReleaseReady, PushEcho 9 5 [ECHO_MISSING], PushVad 9 5 [VadUnknown],
      PushDevice 9 5 [witness_audio], ReleaseReady, PushDevice 9 4 [DeviceUnknown], ReleaseReady]"

section \<open>Lemmas\<close>

lemma sorted_comparable:
  fixes k :: "'a \<Rightarrow> nat"
  assumes "sorted_wrt (\<lambda>x y. k x < k y) xs" "sorted_wrt (\<lambda>x y. k x < k y) ys"
    "\<And>x y. x \<in> set xs \<Longrightarrow> y \<in> set ys \<Longrightarrow> k y < k x \<Longrightarrow> y \<in> set xs"
    "\<And>x y. x \<in> set xs \<Longrightarrow> y \<in> set ys \<Longrightarrow> k x < k y \<Longrightarrow> x \<in> set ys"
    "\<And>x y. x \<in> set xs \<Longrightarrow> y \<in> set ys \<Longrightarrow> k x = k y \<Longrightarrow> x = y"
  shows "prefix xs ys \<or> prefix ys xs"
  using assms
proof (induction xs arbitrary: ys)
  case (Cons x xs)
  show ?case
  proof (cases ys)
    case (Cons y zs)
    have "\<not> k y < k x"
      using Cons.prems(1) Cons.prems(3) [of x y] Cons by (auto dest: less_asym)
    moreover have "\<not> k x < k y"
      using Cons.prems(2) Cons.prems(4) [of x y] Cons by (auto dest: less_asym)
    ultimately have xy: "x = y" using Cons.prems(5) [of x y] Cons by simp
    have "prefix xs zs \<or> prefix zs xs"
    proof (rule Cons.IH)
      show "sorted_wrt (\<lambda>x y. k x < k y) xs" "sorted_wrt (\<lambda>x y. k x < k y) zs"
        using Cons.prems(1,2) Cons by simp_all
      show "b \<in> set xs" if "a \<in> set xs" "b \<in> set zs" "k b < k a" for a b
        using Cons.prems(2) Cons.prems(3) [of a b] that Cons xy by auto
      show "a \<in> set zs" if "a \<in> set xs" "b \<in> set zs" "k a < k b" for a b
        using Cons.prems(1) Cons.prems(4) [of a b] that Cons xy by auto
      show "a = b" if "a \<in> set xs" "b \<in> set zs" "k a = k b" for a b
        using Cons.prems(5) [of a b] that Cons by simp
    qed
    then show ?thesis using Cons xy by simp
  qed simp
qed simp

lemma asr_pushes_snoc:
  "asr_pushes p (ops @ [op]) = asr_pushes p ops @ asr_pushes p [op]"
  by (induction p ops rule: asr_pushes.induct) simp_all

lemma slot_agrees_default [simp]: "slot_agrees E c slot_default"
  by (simp add: slot_agrees_def slot_default_def)

lemma held_slot_released:
  assumes "as_slots b = tl (as_slots a)" "as_next b = Suc (as_next a)"
  shows "held_slot b c = (if c \<le> as_next a then slot_default else held_slot a c)"
  using assms by (auto simp: held_slot_def nth_tl Suc_diff_Suc)

lemma held_slot_front: "as_slots a \<noteq> [] \<Longrightarrow> held_slot a (as_next a) = hd (as_slots a)"
  by (simp add: held_slot_def hd_conv_nth)

lemma held_slot_same: "as_slots b = as_slots a \<Longrightarrow> as_next b = as_next a \<Longrightarrow> held_slot b c = held_slot a c"
  by (simp add: held_slot_def)

lemma source_okD:
  assumes "evidence_source_ok p E"
  shows "es_vad E c \<noteq> None \<Longrightarrow> ep_vad_from p \<le> c" "es_echo E c \<noteq> None \<Longrightarrow> ep_analysis_from p \<le> c"
    "sorted_wrt (\<lambda>x y. ao_through x < ao_through y) (es_asr E)"
    "b \<in> set (es_asr E) \<Longrightarrow> cell_start (ep_analysis_from p) < ao_through b"
    "ep_analysis_from p \<le> c \<Longrightarrow> \<not> is_gap_audio (source_audio E c)"
    "es_device E c \<noteq> None \<Longrightarrow> cell_fits (Suc c)" "cell_fits (ep_cells_from p)" "cell_fits (ep_analysis_from p)"
  using assms unfolding evidence_source_ok_def list_all_iff by blast+

text \<open>A cell that is ready, and whose slot agrees with the source, holds what the source has for it.\<close>

lemma ready_audio:
  assumes "front_ready a" "slot_agrees E (as_next a) (hd (as_slots a))" "evidence_source_ok (as_plan a) E"
  shows "cell_audio_from_inputs (sl_device (hd (as_slots a))) (sl_gap (hd (as_slots a))) (sl_vad (hd (as_slots a)))
      (sl_echo (hd (as_slots a))) = source_audio E (as_next a)" (is "?audio = _")
    "es_device E (as_next a) \<noteq> None"
proof -
  obtain s ss where s: "as_slots a = s # ss" using assms(1) by (auto simp: front_ready_def split: list.splits)
  have ag: "\<not> sl_gap s" "sl_device s \<in> {None, es_device E (as_next a)}" "sl_vad s \<in> {None, es_vad E (as_next a)}"
    "sl_echo s \<in> {None, es_echo E (as_next a)}" using assms(2) s by (auto simp: slot_agrees_def)
  have some: "sl_device s \<noteq> None"
    using assms(1) ag(1) s by (cases "sl_device s") (auto simp: front_ready_def device_gap_def Let_def)
  with ag(2) have dev: "sl_device s = es_device E (as_next a)" "sl_device s \<noteq> None" by simp_all
  then show "es_device E (as_next a) \<noteq> None" by simp
  show "?audio = source_audio E (as_next a)"
  proof (cases "device_gap s")
    case True
    then show ?thesis using dev ag(1) s
      by (auto simp: source_audio_def cell_audio_from_inputs_def device_gap_def split: option.splits device_input.splits)
  next
    case False
    have "as_next a < ep_vad_from (as_plan a) \<or> sl_vad s \<noteq> None" "as_next a < ep_analysis_from (as_plan a) \<or> sl_echo s \<noteq> None"
      using assms(1) False ag(1) s by (auto simp: front_ready_def Let_def)
    then have "sl_vad s = es_vad E (as_next a)" "sl_echo s = es_echo E (as_next a)"
      using ag(3,4) source_okD(1,2) [OF assms(3), of "as_next a"] by (metis insertE not_le singletonD)+
    then show ?thesis using dev ag(1) s by (simp add: source_audio_def)
  qed
qed

lemma release_one_agrees:
  assumes "agree_inv p E (out, a)" "evidence_source_ok p E" "release_one a = Some (r, b)"
  shows "agree_inv p E (out @ [r], b)"
proof (cases "as_blocks a \<noteq> [] \<and> cell_end (as_next a) > ao_through (hd (as_blocks a))")
  case True
  then have "r = ReleasedBlock (hd (as_blocks a))" "b = a\<lparr>as_blocks := tl (as_blocks a)\<rparr>"
    using assms(3) by (auto simp: release_one_def)
  then show ?thesis using assms(1) held_slot_same [of b a] by (simp add: agree_inv_def)
next
  case False
  then have fr: "front_ready a" using assms(3) by (auto simp: release_one_def split: if_splits)
  then have ne: "as_slots a \<noteq> []" by (auto simp: front_ready_def)
  have p: "as_plan a = p" and slots: "\<And>c. slot_agrees E c (held_slot a c)" using assms(1) by (simp_all add: agree_inv_def)
  have "slot_agrees E (as_next a) (hd (as_slots a))" using slots [of "as_next a"] held_slot_front [OF ne] by simp
  note audio = ready_audio [OF fr this, unfolded p, OF assms(2)]
  have r: "r = ReleasedCell \<lparr>ce_cell = as_next a, ce_audio = source_audio E (as_next a)\<rparr>"
    and b: "as_slots b = tl (as_slots a)" "as_next b = Suc (as_next a)" "as_plan b = p"
    using assms(3) False fr audio(1) p by (auto simp: release_one_def Let_def cell_next_def)
  show ?thesis
    using assms(1) audio(2) slots by (auto simp: agree_inv_def r b(3) held_slot_released [OF b(1,2)])
qed

lemma release_agrees: "evidence_source_ok p E \<Longrightarrow> agree_inv p E s \<Longrightarrow> agree_inv p E (release_evidence s)"
proof (induction s rule: release_evidence.induct)
  case (1 out a)
  then show ?case
    by (subst release_evidence.simps) (auto split: option.splits dest: release_one_agrees)
qed

lemma push_inputs_agrees:
  assumes "agree_inv p E (out, a)" "push_inputs get put from e first vs a = Inr b"
    "\<And>c s. slot_agrees E c s \<Longrightarrow> first \<le> c \<Longrightarrow> c < first + length vs \<Longrightarrow> slot_agrees E c (put (Some (vs ! (c - first))) s)"
  shows "agree_inv p E (out, b)"
  using assms(1,3) push_inputs_accepted [OF assms(2)] by (simp add: agree_inv_def)

lemma batch_value:
  assumes "\<forall>i < length vs. f (first + i) = Some (vs ! i)" "first \<le> c" "c < first + length vs"
  shows "f c = Some (vs ! (c - first))"
  using assms(1) [rule_format, of "c - first"] assms(2,3) by simp

lemma accepted_epoch: "push_inputs get put from e first vs a = Inr b \<Longrightarrow> e = ep_epoch (as_plan a)"
  "mark_gap e hole a = Inr b \<Longrightarrow> e = ep_epoch (as_plan a)" "push_asr e obs a = Inr b \<Longrightarrow> e = ep_epoch (as_plan a)"
  by (auto simp: push_inputs_def mark_gap_def push_asr_def check_epoch_def split: if_splits)

lemma push_agrees:
  assumes "agree_inv p E (out, a)" "op_agrees p E op" "evidence_push op a = Inr b"
  shows "agree_inv p E (out, b)"
proof -
  have p: "as_plan a = p" using assms(1) by (simp add: agree_inv_def)
  show ?thesis
  proof (cases op)
    case (PushDevice e first cells)
    note push = assms(3) [unfolded PushDevice evidence_push.simps push_device_cells_def]
    have "es_device E c = Some (cells ! (c - first))" if "first \<le> c" "c < first + length cells" for c
      using batch_value [of cells "es_device E" first c] that assms(2) accepted_epoch(1) [OF push] p by (simp add: PushDevice)
    then show ?thesis by (intro push_inputs_agrees [OF assms(1) push]) (auto simp: slot_agrees_def)
  next
    case (PushVad e first vad)
    note push = assms(3) [unfolded PushVad evidence_push.simps push_vad_def]
    have "es_vad E c = Some (vad ! (c - first))" if "first \<le> c" "c < first + length vad" for c
      using batch_value [of vad "es_vad E" first c] that assms(2) accepted_epoch(1) [OF push] p by (simp add: PushVad)
    then show ?thesis by (intro push_inputs_agrees [OF assms(1) push]) (auto simp: slot_agrees_def)
  next
    case (PushEcho e first echo)
    note push = assms(3) [unfolded PushEcho evidence_push.simps push_echo_def]
    have "es_echo E c = Some (echo ! (c - first))" if "first \<le> c" "c < first + length echo" for c
      using batch_value [of echo "es_echo E" first c] that assms(2) accepted_epoch(1) [OF push] p by (simp add: PushEcho)
    then show ?thesis by (intro push_inputs_agrees [OF assms(1) push]) (auto simp: slot_agrees_def)
  next
    case (MarkGap e hole)
    then show ?thesis using assms(2,3) p by (auto dest: accepted_epoch(2))
  next
    case (PushAsr e obs)
    then have b: "b = a\<lparr>as_last_through := Some (ao_through obs), as_blocks := as_blocks a @ [obs]\<rparr>"
      using assms(3) push_asr_accepted(1) by simp
    show ?thesis using assms(1) held_slot_same [of b a] by (simp add: agree_inv_def b)
  next
    case ReleaseReady
    then show ?thesis using assms by simp
  qed
qed

lemma step_agrees:
  assumes "evidence_source_ok p E" "agree_inv p E s" "op_agrees p E op"
  shows "agree_inv p E (evidence_step op s)"
  using assms release_agrees push_agrees [of p E "fst s" "snd s" op]
  by (auto simp: evidence_step_def split: sum.splits)

lemma accepted_blocks_release: "accepted_blocks (release_evidence s) = accepted_blocks s"
proof (induction s rule: release_evidence.induct)
  case (1 out a)
  then show ?case
    by (subst release_evidence.simps)
      (auto simp: accepted_blocks_def release_one_def Let_def split: option.splits if_splits)
qed

lemma accepted_blocks_push:
  assumes "evidence_push op a = Inr b"
  shows "accepted_blocks (out, b) = accepted_blocks (out, a) @ asr_pushes (as_plan a) [op]"
  using assms
  by (cases op) (auto simp: accepted_blocks_def push_device_cells_def push_vad_def push_echo_def
      dest: push_inputs_accepted(3) mark_gap_accepted(3) push_asr_accepted(1) accepted_epoch(3))

text \<open>The assembler accepts every recognizer result of a source, in its order.\<close>

lemma asr_accepted:
  assumes "evidence_inv (out, a)" "evidence_source_ok (as_plan a) E" "prefix (accepted_blocks (out, a) @ [obs]) (es_asr E)"
  shows "\<exists>b. push_asr (ep_epoch (as_plan a)) obs a = Inr b"
proof -
  have st: "structure_ok (out, a)" using assms(1) by (simp add: evidence_inv_def)
  obtain rest where E: "es_asr E = (accepted_blocks (out, a) @ [obs]) @ rest" using assms(3) by (auto simp: prefix_def)
  have "ao_through x < ao_through obs" if "x \<in> set (accepted_blocks (out, a))" for x
    using source_okD(3) [OF assms(2)] that unfolding E by (auto simp: sorted_wrt_append)
  moreover have "cell_start (ep_analysis_from (as_plan a)) < ao_through obs"
    using source_okD(4) [OF assms(2), of obs] unfolding E by simp
  moreover have "t < ao_through obs" if "as_last_through a = Some t" for t
    using that structure_okD(6) [OF st] calculation(1) [OF last_in_set]
    by (auto simp: accepted_blocks_def split: if_splits)
  ultimately show ?thesis by (auto simp: push_asr_def check_epoch_def split: option.splits)
qed

lemma step_blocks:
  assumes "evidence_inv t" "evidence_source_ok p E" "as_plan (snd t) = p" "prefix (accepted_blocks t @ asr_pushes p [op]) (es_asr E)"
  shows "accepted_blocks (evidence_step op t) = accepted_blocks t @ asr_pushes p [op]"
proof (cases "op = ReleaseReady")
  case True
  then show ?thesis by (simp add: evidence_step_def accepted_blocks_release)
next
  case False
  show ?thesis
  proof (cases "evidence_push op (snd t)")
    case (Inr b)
    then show ?thesis
      using False accepted_blocks_push [OF Inr, of "fst t"] assms(3) by (simp add: evidence_step_def)
  next
    case (Inl err)
    have "asr_pushes p [op] = []"
    proof (cases op)
      case (PushAsr e obs)
      then show ?thesis
        using Inl asr_accepted [of "fst t" "snd t" E obs] assms by (cases "e = ep_epoch p") auto
    qed simp_all
    then show ?thesis using False Inl by (simp add: evidence_step_def)
  qed
qed

lemma run_agrees:
  assumes "assembler_new p = Inr a0" "evidence_source_ok p E" "fed_from p E ops" "s = fold evidence_step ops ([], a0)"
  shows "agree_inv p E s \<and> evidence_inv s \<and> accepted_blocks s = asr_pushes p ops"
  using assms(3,4)
proof (induction ops arbitrary: s rule: rev_induct)
  case Nil
  have "agree_inv p E ([], a0)" "accepted_blocks ([], a0) = []"
    using assms(1) by (auto simp: assembler_new_def agree_inv_def held_slot_def accepted_blocks_def split: if_splits)
  then show ?case using Nil assembler_new_inv(1) [OF assms(1)] by simp
next
  case (snoc op ops)
  define t where "t = fold evidence_step ops ([], a0)"
  have fed: "fed_from p E ops" "op_agrees p E op" "prefix (asr_pushes p ops @ asr_pushes p [op]) (es_asr E)"
    using snoc.prems(1) by (auto simp: fed_from_def asr_pushes_snoc dest: append_prefixD)
  have t: "agree_inv p E t" "evidence_inv t" "accepted_blocks t = asr_pushes p ops"
    using snoc.IH [OF fed(1) t_def] by blast+
  have s: "s = evidence_step op t" using snoc.prems(2) by (simp add: t_def)
  have "accepted_blocks s = asr_pushes p ops @ asr_pushes p [op]"
    using step_blocks [OF t(2) assms(2) _ fed(3) [folded t(3)]] t(1,3) by (simp add: s agree_inv_def)
  then show ?case
    using step_agrees [OF assms(2) t(1) fed(2)] evidence_step_inv [OF t(2)] by (simp add: s asr_pushes_snoc)
qed

text \<open>What a run fed from a source has released: everything of the source up to some place in sample order.\<close>

lemma fed_closed:
  assumes "agree_inv p E (out, a)" "evidence_inv (out, a)" "evidence_source_ok p E"
  shows "\<not> as_asr_closed a" "cell_fits (as_next a)" "order_ok (out, a)"
    "sorted_wrt (\<lambda>x y. sample_key x < sample_key y) out"
proof -
  have p: "as_plan a = p" and cells: "\<And>c. c \<in> set (cells_of out) \<Longrightarrow> ce_audio c = source_audio E (ce_cell c)"
    "\<And>c. c \<in> set (cells_of out) \<Longrightarrow> es_device E (ce_cell c) \<noteq> None"
    using assms(1) by (simp_all add: agree_inv_def)
  have st: "structure_ok (out, a)" using assms(2) by (simp add: evidence_inv_def)
  have no_gap: "\<not> utterance_gap p r" if "r \<in> set out" for r
  proof (cases r)
    case (ReleasedCell c)
    then show ?thesis using that cells(1) [of c] source_okD(5) [OF assms(3), of "ce_cell c"] by (auto simp: mem_cells_of)
  qed simp
  then show open': "\<not> as_asr_closed a" using structure_okD(7) [OF st] p by (auto simp: list_ex_iff)
  show fits: "cell_fits (as_next a)"
  proof (cases "as_next a = ep_cells_from p")
    case True
    then show ?thesis using source_okD(7) [OF assms(3)] by simp
  next
    case False
    then have "as_next a - 1 \<in> set (map ce_cell (cells_of out))" "0 < as_next a"
      using structure_okD(2,3) [OF st] p by auto
    then obtain c where "c \<in> set (cells_of out)" "Suc (ce_cell c) = as_next a" by auto
    then show ?thesis using source_okD(6) [OF assms(3), of "ce_cell c"] cells(2) by auto
  qed
  show ord: "order_ok (out, a)" using assms(2) fits source_okD(8) [OF assms(3)] p by (simp add: evidence_inv_def)
  have "takeWhile (\<lambda>r. \<not> utterance_gap p r) out = out" using no_gap by (simp add: takeWhile_eq_all_conv)
  then show "sorted_wrt (\<lambda>x y. sample_key x < sample_key y) out" using order_okD(2) [OF ord] unfolding p by (simp only:)
qed

lemma fed_released_cell:
  assumes "agree_inv p E (out, a)" "evidence_inv (out, a)" "ep_cells_from p \<le> c" "c < as_next a"
  shows "ReleasedCell \<lparr>ce_cell = c, ce_audio = source_audio E c\<rparr> \<in> set out"
proof -
  have "c \<in> set (map ce_cell (cells_of out))"
    using assms structure_okD(3) [of out a] by (simp add: evidence_inv_def agree_inv_def)
  then obtain d where d: "d \<in> set (cells_of out)" "ce_cell d = c" by auto
  then have "d = \<lparr>ce_cell = c, ce_audio = source_audio E c\<rparr>" using assms(1) by (cases d) (auto simp: agree_inv_def)
  then show ?thesis using d(1) by (simp add: mem_cells_of)
qed

lemma fed_released_key:
  assumes "agree_inv p E (out, a)" "evidence_inv (out, a)" "evidence_source_ok p E" "ReleasedCell c \<in> set out"
  shows "c = \<lparr>ce_cell = ce_cell c, ce_audio = source_audio E (ce_cell c)\<rparr>" "ep_cells_from p \<le> ce_cell c"
    "ce_cell c < as_next a" "cell_end (ce_cell c) = (ce_cell c + 1) * 512"
proof -
  have mem: "c \<in> set (cells_of out)" using assms(4) by (simp add: mem_cells_of)
  then show "c = \<lparr>ce_cell = ce_cell c, ce_audio = source_audio E (ce_cell c)\<rparr>"
    using assms(1) by (cases c) (auto simp: agree_inv_def)
  show "ep_cells_from p \<le> ce_cell c" "ce_cell c < as_next a"
    using released_cells [of out a c] mem assms(1,2) by (auto simp: evidence_inv_def agree_inv_def)
  then show "cell_end (ce_cell c) = (ce_cell c + 1) * 512"
    using cell_end_fits [OF fed_closed(2) [OF assms(1-3)]] by simp
qed

text \<open>An item of one run that comes before an item of another in sample order was released by the other too.\<close>

lemma fed_cell_downward:
  assumes "agree_inv p E (out1, a1)" "evidence_inv (out1, a1)" "agree_inv p E (out2, a2)" "evidence_inv (out2, a2)"
    "evidence_source_ok p E" "x \<in> set out1" "ReleasedCell c \<in> set out2" "sample_key (ReleasedCell c) < sample_key x"
  shows "ReleasedCell c \<in> set out1"
proof -
  note c = fed_released_key [OF assms(3,4,5,7)]
  have "ce_cell c < as_next a1"
  proof (cases x)
    case (ReleasedCell d)
    then show ?thesis using fed_released_key [OF assms(1,2,5), of d] c(4) assms(6,8) by simp
  next
    case (ReleasedBlock b)
    have "ao_through b < (as_next a1 + 1) * 512"
      using order_okD(3) [OF fed_closed(3) [OF assms(1,2,5)], of b] assms(6) ReleasedBlock
        cell_end_fits [OF fed_closed(2) [OF assms(1,2,5)], of "as_next a1"] by simp
    then show ?thesis using ReleasedBlock c(4) assms(8) by simp
  qed
  then show ?thesis using fed_released_cell [OF assms(1,2) c(2)] c(1) by simp
qed

lemma prefix_member:
  fixes f :: "'a \<Rightarrow> nat"
  assumes "prefix xs ys" "sorted_wrt (\<lambda>x y. f x < f y) ys" "y \<in> set ys" "x \<in> set xs" "f y < f x"
  shows "y \<in> set xs"
  using assms by (force simp: prefix_def sorted_wrt_append)

lemma fed_block_downward:
  assumes "agree_inv p E (out, a)" "evidence_inv (out, a)" "prefix (accepted_blocks (out, a)) (es_asr E)"
    "evidence_source_ok p E" "x \<in> set out" "b \<in> set (es_asr E)" "sample_key (ReleasedBlock b) < sample_key x"
  shows "ReleasedBlock b \<in> set out"
proof (cases x)
  case (ReleasedBlock d)
  have "prefix (blocks_of out) (es_asr E)" using assms(3) by (auto simp: accepted_blocks_def dest: append_prefixD)
  then have "b \<in> set (blocks_of out)"
    using prefix_member [OF _ source_okD(3) [OF assms(4)] assms(6), of "blocks_of out" d] ReleasedBlock assms(5,7)
    by (simp add: mem_blocks_of)
  then show ?thesis by (simp add: mem_blocks_of)
next
  case (ReleasedCell d)
  note d = fed_released_key [OF assms(1,2,4), of d] and ord = fed_closed [OF assms(1,2,4)]
  have st: "structure_ok (out, a)" and p: "as_plan a = p" using assms(1,2) by (simp_all add: evidence_inv_def agree_inv_def)
  have before: "ao_through b < cell_end (ce_cell d)" using ReleasedCell assms(7) by simp
  have "ep_analysis_from p \<le> ce_cell d"
  proof (rule ccontr)
    assume "\<not> ep_analysis_from p \<le> ce_cell d"
    then have "cell_end (ce_cell d) \<le> cell_start (ep_analysis_from p)"
      using d(4) ReleasedCell assms(5) cell_start_fits [OF source_okD(8) [OF assms(4)], of "ep_analysis_from p"] by simp
    then show False using source_okD(4) [OF assms(4,6)] before by simp
  qed
  then obtain t where t: "as_last_through a = Some t" "cell_end (ce_cell d) \<le> t"
    using order_okD(5) [OF ord(3,1), of d] assms(5) ReleasedCell p by blast
  then obtain l where "l \<in> set (accepted_blocks (out, a))" "ao_through l = t"
    using structure_okD(6) [OF st] last_in_set [of "accepted_blocks (out, a)"]
    by (fastforce simp: accepted_blocks_def split: if_splits)
  then have "b \<in> set (accepted_blocks (out, a))"
    using prefix_member [OF assms(3) source_okD(3) [OF assms(4)] assms(6), of l] before t(2) by simp
  moreover have "b \<notin> set (as_blocks a)"
    using order_okD(4) [OF ord(3,1), of d b] assms(5) ReleasedCell before by auto
  ultimately show ?thesis by (simp add: accepted_blocks_def mem_blocks_of)
qed

lemma fed_key_inj:
  assumes "agree_inv p E (out1, a1)" "evidence_inv (out1, a1)" "agree_inv p E (out2, a2)" "evidence_inv (out2, a2)"
    "evidence_source_ok p E" "set (blocks_of out1) \<subseteq> set (es_asr E)" "set (blocks_of out2) \<subseteq> set (es_asr E)"
    "x \<in> set out1" "y \<in> set out2" "sample_key x = sample_key y"
  shows "x = y"
proof (cases x; cases y)
  fix c d assume xy: "x = ReleasedCell c" "y = ReleasedCell d"
  note c = fed_released_key [OF assms(1,2,5), of c] and d = fed_released_key [OF assms(3,4,5), of d]
  have "ce_cell c = ce_cell d" using xy assms(8-10) c(4) d(4) by simp
  then show ?thesis using xy assms(8,9) c(1) d(1) by metis
next
  fix c d assume xy: "x = ReleasedBlock c" "y = ReleasedBlock d"
  then have "c \<in> set (es_asr E)" "d \<in> set (es_asr E)" "ao_through c = ao_through d"
    using assms(6-10) mem_blocks_of by auto
  then have "c = d" using source_okD(3) [OF assms(5)]
    by (metis (no_types, lifting) in_set_conv_nth less_irrefl linorder_neqE_nat sorted_wrt_nth_less)
  then show ?thesis using xy by simp
qed (use assms(10) in \<open>simp_all, presburger+\<close>)

section \<open>Properties\<close>


lemma witness_source_ok: "evidence_source_ok witness_plan witness_source"
  by (auto simp: evidence_source_ok_def witness_plan_def witness_source_def witness_asr_def source_audio_def
      cell_audio_from_inputs_def witness_audio_def cell_fits_def cell_start_def wrap64_def CELL_SAMPLES_def u64_max_def)

lemma witness_in_turn_run:
  "evidence_run witness_plan witness_in_turn = Inr (take 1 witness_released,
     \<lparr>as_plan = witness_plan, as_next = 5, as_slots = [\<lparr>sl_device = Some witness_audio, sl_vad = None, sl_echo = None, sl_gap = False\<rparr>],
      as_blocks = [], as_last_through = None, as_asr_closed = False\<rparr>)"
  by (simp add: witness_in_turn_def witness_evidence_defs evidence_eval)

lemma witness_scrambled_run:
  "evidence_run witness_plan witness_scrambled = Inr (take 3 witness_released,
     \<lparr>as_plan = witness_plan, as_next = 6, as_slots = [], as_blocks = [], as_last_through = Some 3072, as_asr_closed = False\<rparr>)"
  by (simp add: witness_scrambled_def witness_evidence_defs evidence_eval)


end
