(* ===== verification/Turn_Levels.thy ===== *)
theory Turn_Levels
  imports Turn_Evidence
begin

text \<open>
  Levels and attribution: the room's background and the speaker's foreground level
  (\<open>crates/turn/src/level.rs\<close>), the class of each cell (\<open>crates/turn/src/classify.rs\<close>) and the watch for an
  early answer (\<open>crates/turn/src/reply.rs\<close>).

  Values of \<open>f32\<close> and \<open>f64\<close> are real numbers. The rounding of the machine is the argument \<open>fl\<close>: the
  source's every floating-point operation and literal is the exact one followed by the rounding of
  its width. Loudness values are integers in hundredths of a dB. The buffer the source sorts the
  window in is not state.
\<close>

section \<open>Floating point\<close>

record rounding =
  fl32 :: "real \<Rightarrow> real"
  fl64 :: "real \<Rightarrow> real"

definition energy_db :: "rounding \<Rightarrow> cell_audio \<Rightarrow> real option" where
  "energy_db fl a = map_option (\<lambda>e. fl64 fl (real_of_int e / 100)) (cell_energy a)"

section \<open>Levels\<close>

definition BACKGROUND_WINDOW_CELLS :: nat where "BACKGROUND_WINDOW_CELLS = 312"
definition BACKGROUND_MIN_CELLS :: nat where "BACKGROUND_MIN_CELLS = 32"
definition FOREGROUND_MIN_CELLS :: nat where "FOREGROUND_MIN_CELLS = 10"

definition percentile_db :: "rounding \<Rightarrow> int list \<Rightarrow> real \<Rightarrow> real option" where
  "percentile_db fl values p =
     (case values of
        [] \<Rightarrow> None
      | [v] \<Rightarrow> Some (fl64 fl (real_of_int v / 100))
      | _ \<Rightarrow>
          let rank = fl64 fl (p * real (length values - 1));
              lo = nat \<lfloor>rank\<rfloor>;
              hi = min (lo + 1) (length values - 1);
              frac = fl64 fl (rank - real lo);
              v = fl64 fl (real_of_int (values ! lo)
                    + fl64 fl (fl64 fl (real_of_int (values ! hi) - real_of_int (values ! lo)) * frac))
          in Some (fl64 fl (v / 100)))"

record background_level =
  bg_window :: "int option list"
  bg_speech_vad :: real

definition background_new :: "real \<Rightarrow> background_level" where
  "background_new speech_vad = \<lparr>bg_window = [], bg_speech_vad = speech_vad\<rparr>"

definition background_db :: "rounding \<Rightarrow> background_level \<Rightarrow> real option" where
  "background_db fl b =
     (let scratch = List.map_filter id (bg_window b) in
      if length scratch < BACKGROUND_MIN_CELLS then None else percentile_db fl (sort scratch) (fl64 fl (20 / 100)))"

definition background_push :: "cell_audio \<Rightarrow> background_level \<Rightarrow> background_level" where
  "background_push audio b =
     (let counted = (case cell_energy audio of
            Some e \<Rightarrow> if (case cell_vad audio of None \<Rightarrow> True | Some p \<Rightarrow> p < bg_speech_vad b) then Some e else None
          | None \<Rightarrow> None);
          window = (if length (bg_window b) = BACKGROUND_WINDOW_CELLS then tl (bg_window b) else bg_window b)
      in b\<lparr>bg_window := window @ [counted]\<rparr>)"

record foreground_level =
  fg_sorted :: "int list"
  fg_seeded :: bool

definition foreground_new :: foreground_level where
  "foreground_new = \<lparr>fg_sorted = [], fg_seeded = False\<rparr>"

definition foreground_seed :: "int list \<Rightarrow> foreground_level \<Rightarrow> foreground_level" where
  "foreground_seed energies f =
     (if length energies \<ge> FOREGROUND_MIN_CELLS
      then \<lparr>fg_sorted = sort (fg_sorted f @ energies), fg_seeded = True\<rparr> else f)"

definition foreground_add :: "int \<Rightarrow> foreground_level \<Rightarrow> foreground_level" where
  "foreground_add e f =
     (let k = length (takeWhile (\<lambda>v. v \<le> e) (fg_sorted f))
      in f\<lparr>fg_sorted := take k (fg_sorted f) @ [e] @ drop k (fg_sorted f)\<rparr>)"

definition foreground_db :: "rounding \<Rightarrow> foreground_level \<Rightarrow> real option" where
  "foreground_db fl f =
     (if length (fg_sorted f) < FOREGROUND_MIN_CELLS then None else percentile_db fl (fg_sorted f) (fl64 fl (80 / 100)))"

section \<open>Attribution\<close>

datatype cell_class = ClassGap | SelfOutput | NonSpeech | BackgroundSpeech | CommandSpeech | ClassUnknown

datatype class_rule =
    RuleGap | RuleMuted | RuleEcho | RuleVad | RuleVadUnknown | RuleLevel | RuleHysteresis | RuleUnderWay | RuleGuard

record attribution_policy =
  atp_non_speech_max :: real
  atp_speech_positive_min :: real
  atp_run_open_min :: real
  atp_background_below_db :: real
  atp_run_open_level_min :: real
  atp_level_span_floor_db :: real
  atp_under_way_lead :: samples

definition attribution_default :: "rounding \<Rightarrow> attribution_policy" where
  "attribution_default fl =
     \<lparr>atp_non_speech_max = fl32 fl (35 / 100), atp_speech_positive_min = fl32 fl (50 / 100),
      atp_run_open_min = fl32 fl (70 / 100), atp_background_below_db = fl64 fl 10,
      atp_run_open_level_min = fl64 fl (55 / 100), atp_level_span_floor_db = fl64 fl 12,
      atp_under_way_lead = samples_from_ms 480\<rparr>"

record reply_attribution =
  ra_guard_until :: "sample option"

record run_open =
  ro_start :: sample
  ro_dated_back_cells :: nat

record cell_classified =
  cd_class :: cell_class
  cd_rule :: class_rule
  cd_opened :: "run_open option"

text \<open>The run under way is the start of its first cell.\<close>

record classifier =
  cl_policy :: attribution_policy
  cl_trigger :: sample
  cl_reply :: "reply_attribution option"
  cl_run :: "sample option"
  cl_voiced_since :: "sample option"
  cl_past_trigger :: bool
  cl_under_way :: bool

definition classifier_new :: "attribution_policy \<Rightarrow> sample \<Rightarrow> reply_attribution option \<Rightarrow> classifier" where
  "classifier_new policy trigger reply =
     \<lparr>cl_policy = policy, cl_trigger = trigger, cl_reply = reply, cl_run = None, cl_voiced_since = None,
      cl_past_trigger = False, cl_under_way = False\<rparr>"

definition end_run :: "classifier \<Rightarrow> classifier" where
  "end_run c = c\<lparr>cl_run := None, cl_under_way := False\<rparr>"

definition plain :: "cell_class \<Rightarrow> class_rule \<Rightarrow> cell_classified" where
  "plain class rule = \<lparr>cd_class = class, cd_rule = rule, cd_opened = None\<rparr>"

text \<open>The stretch of voiced cells, and the test whether a reply's run was under way before its trigger.\<close>

definition track_voiced :: "sample \<Rightarrow> real option \<Rightarrow> classifier \<Rightarrow> classifier" where
  "track_voiced start vad c =
     (if (case vad of Some v \<Rightarrow> v > atp_non_speech_max (cl_policy c) | None \<Rightarrow> False)
      then (case cl_voiced_since c of None \<Rightarrow> c\<lparr>cl_voiced_since := Some start\<rparr> | Some _ \<Rightarrow> c)
      else c\<lparr>cl_voiced_since := None\<rparr>)"

definition test_under_way :: "bool \<Rightarrow> classifier \<Rightarrow> classifier" where
  "test_under_way after_trigger c =
     (if after_trigger \<and> \<not> cl_past_trigger c
      then c\<lparr>cl_past_trigger := True,
             cl_under_way := (cl_under_way c \<or> cl_reply c \<noteq> None
               \<and> (case cl_run c of Some first \<Rightarrow> sample_since (cl_trigger c) first > atp_under_way_lead (cl_policy c)
                                 | None \<Rightarrow> False))\<rparr>
      else c)"

definition level_ratio :: "rounding \<Rightarrow> attribution_policy \<Rightarrow> real option \<Rightarrow> real option \<Rightarrow> real option \<Rightarrow> real option" where
  "level_ratio fl p energy background foreground =
     (case (energy, background, foreground) of
        (Some e, Some b, Some f) \<Rightarrow>
          Some (fl64 fl (fl64 fl (e - b) / max (fl64 fl (f - b)) (atp_level_span_floor_db p)))
      | _ \<Rightarrow> None)"

text \<open>Where a run that opens on the cell at \<open>start\<close> is dated to start.\<close>

definition run_start_of :: "sample \<Rightarrow> classifier \<Rightarrow> sample" where
  "run_start_of start c =
     (case Option.bind (cl_reply c) ra_guard_until of
        Some g \<Rightarrow>
          (case cl_voiced_since c of
             Some since \<Rightarrow>
               if since < g then min (max since (sample_round_down (cl_trigger c) CELL_SAMPLES)) start else start
           | None \<Rightarrow> start)
      | None \<Rightarrow> start)"

definition classify_voiced ::
    "rounding \<Rightarrow> sample \<Rightarrow> bool \<Rightarrow> real \<Rightarrow> real option \<Rightarrow> real option \<Rightarrow> real option \<Rightarrow> classifier \<Rightarrow> cell_classified \<times> classifier" where
  "classify_voiced fl start after_trigger v energy background foreground c =
     (let p = cl_policy c in
      if cl_under_way c \<and> cl_run c \<noteq> None then (plain BackgroundSpeech RuleUnderWay, c)
      else if v \<ge> atp_speech_positive_min p
           \<and> (case (energy, foreground) of
                (Some e, Some f) \<Rightarrow> e \<le> fl64 fl (f - atp_background_below_db p) | _ \<Rightarrow> False)
        then (plain BackgroundSpeech RuleLevel, end_run c)
      else if cl_run c \<noteq> None then (plain CommandSpeech RuleHysteresis, c)
      else if v < atp_run_open_min p then (plain ClassUnknown RuleVad, c)
      else if (case level_ratio fl p energy background foreground of Some r \<Rightarrow> r < atp_run_open_level_min p | None \<Rightarrow> False)
        then (plain ClassUnknown RuleLevel, c)
      else if (case Option.bind (cl_reply c) ra_guard_until of Some g \<Rightarrow> after_trigger \<and> start < g | None \<Rightarrow> False)
        then (plain ClassUnknown RuleGuard, c)
      else
        let run_start = run_start_of start c in
        (\<lparr>cd_class = CommandSpeech, cd_rule = RuleVad,
          cd_opened = Some \<lparr>ro_start = run_start, ro_dated_back_cells = sample_since start run_start div CELL_SAMPLES\<rparr>\<rparr>,
         c\<lparr>cl_run := Some start\<rparr>))"

definition classify_cell ::
    "rounding \<Rightarrow> cell_evidence \<Rightarrow> real option \<Rightarrow> real option \<Rightarrow> classifier \<Rightarrow> cell_classified \<times> classifier" where
  "classify_cell fl cell background foreground c =
     (let start = cell_start (ce_cell cell); after_trigger = cell_end (ce_cell cell) > cl_trigger c in
      case ce_audio cell of
        Gap muted \<Rightarrow> (plain ClassGap (if muted then RuleMuted else RuleGap), (end_run c)\<lparr>cl_voiced_since := None\<rparr>)
      | Present _ _ _ echo \<Rightarrow>
          let vad = cell_vad (ce_audio cell);
              d = test_under_way after_trigger (track_voiced start vad c)
          in if ec_label echo = EchoOnly then (plain SelfOutput RuleEcho, end_run d)
             else (case vad of
                     None \<Rightarrow> (plain ClassUnknown RuleVadUnknown, end_run d)
                   | Some v \<Rightarrow>
                       if v \<le> atp_non_speech_max (cl_policy d) then (plain NonSpeech RuleVad, end_run d)
                       else classify_voiced fl start after_trigger v (energy_db fl (ce_audio cell)) background foreground d))"

section \<open>Early answers\<close>

record early_answer_policy =
  ea_cells :: nat
  ea_vad_min :: real
  ea_above_background_db :: real
  ea_background_speech_vad :: real

definition early_answer_default :: "rounding \<Rightarrow> early_answer_policy" where
  "early_answer_default fl =
     \<lparr>ea_cells = 15, ea_vad_min = fl32 fl (85 / 100), ea_above_background_db = fl64 fl 12,
      ea_background_speech_vad = fl32 fl (35 / 100)\<rparr>"

record early_answer_watch =
  ew_policy :: early_answer_policy
  ew_background :: background_level
  ew_streak :: nat
  ew_streak_start :: "sample option"

definition early_answer_new :: "early_answer_policy \<Rightarrow> early_answer_watch" where
  "early_answer_new policy =
     \<lparr>ew_policy = policy, ew_background = background_new (ea_background_speech_vad policy), ew_streak = 0,
      ew_streak_start = None\<rparr>"

definition answer_qualifies :: "rounding \<Rightarrow> early_answer_policy \<Rightarrow> real option \<Rightarrow> cell_audio \<Rightarrow> bool" where
  "answer_qualifies fl policy background audio =
     (case audio of
        Gap _ \<Rightarrow> False
      | Present _ _ _ echo \<Rightarrow>
          (case cell_vad audio of Some p \<Rightarrow> p \<ge> ea_vad_min policy | None \<Rightarrow> False)
          \<and> (case (energy_db fl audio, background) of
               (Some e, Some b) \<Rightarrow> e \<ge> fl64 fl (b + ea_above_background_db policy) | _ \<Rightarrow> False)
          \<and> (ec_label echo = NearEndPresent \<or> ec_label echo = NoReference))"

definition observe_answer :: "rounding \<Rightarrow> cell_evidence \<Rightarrow> early_answer_watch \<Rightarrow> sample option \<times> early_answer_watch" where
  "observe_answer fl cell w =
     (let background = background_db fl (ew_background w);
          w1 = w\<lparr>ew_background := background_push (ce_audio cell) (ew_background w)\<rparr>
      in if \<not> answer_qualifies fl (ew_policy w) background (ce_audio cell)
         then (None, w1\<lparr>ew_streak := 0, ew_streak_start := None\<rparr>)
         else
           let onset = (case ew_streak_start w1 of Some s \<Rightarrow> s | None \<Rightarrow> cell_start (ce_cell cell));
               w2 = w1\<lparr>ew_streak_start := Some onset, ew_streak := ew_streak w1 + 1\<rparr>
           in (if ew_streak w2 = ea_cells (ew_policy w2) then Some onset else None, w2))"

section \<open>Specification\<close>

text \<open>
  What IEEE 754 rounding to the nearest promises and the levels rely on: it keeps the order, and integers
  that fit 53 bits are exact.
\<close>

definition rounds_like_ieee :: "rounding \<Rightarrow> bool" where
  "rounds_like_ieee fl \<longleftrightarrow> mono (fl64 fl) \<and> (\<forall>z. \<bar>z\<bar> \<le> 2 ^ 53 \<longrightarrow> fl64 fl (real_of_int z) = real_of_int z)"

definition energies_ok :: "int list \<Rightarrow> bool" where
  "energies_ok es \<longleftrightarrow> list_all (\<lambda>e. CELL_E_MIN \<le> e \<and> e \<le> CELL_E_MAX) es"

definition audio_in_range :: "cell_audio \<Rightarrow> bool" where
  "audio_in_range a = (case cell_energy a of None \<Rightarrow> True | Some e \<Rightarrow> CELL_E_MIN \<le> e \<and> e \<le> CELL_E_MAX)"

text \<open>Whether a cell counts for the background, and with which loudness.\<close>

definition counted :: "real \<Rightarrow> cell_audio \<Rightarrow> int option" where
  "counted speech_vad audio =
     (if (case cell_vad audio of None \<Rightarrow> True | Some p \<Rightarrow> p < speech_vad) then cell_energy audio else None)"

text \<open>The loudness values among the last 312 cells that count.\<close>

definition recent_room :: "real \<Rightarrow> cell_audio list \<Rightarrow> int list" where
  "recent_room v audios = List.map_filter id (drop (length audios - 312) (map (counted v) audios))"

text \<open>Whether each cell of a watch qualified, judged with the background of the cells before it.\<close>

fun cells_qualified :: "rounding \<Rightarrow> early_answer_policy \<Rightarrow> background_level \<Rightarrow> cell_evidence list \<Rightarrow> bool list" where
  "cells_qualified fl policy b [] = []"
| "cells_qualified fl policy b (c # cs) =
     answer_qualifies fl policy (background_db fl b) (ce_audio c)
       # cells_qualified fl policy (background_push (ce_audio c) b) cs"

definition streak_of :: "bool list \<Rightarrow> nat" where
  "streak_of qs = length (takeWhile id (rev qs))"

definition answer_streak :: "rounding \<Rightarrow> early_answer_policy \<Rightarrow> cell_evidence list \<Rightarrow> nat" where
  "answer_streak fl policy cs = streak_of (cells_qualified fl policy (background_new (ea_background_speech_vad policy)) cs)"

definition watched :: "rounding \<Rightarrow> early_answer_policy \<Rightarrow> cell_evidence list \<Rightarrow> early_answer_watch" where
  "watched fl policy cs = fold (\<lambda>c w. snd (observe_answer fl c w)) cs (early_answer_new policy)"

text \<open>Rounding down to multiples of 1/1024, and a room of 31 cells and a quieter one.\<close>

definition witness_rounding :: rounding where
  "witness_rounding = \<lparr>fl32 = (\<lambda>x. x), fl64 = (\<lambda>x. real_of_int \<lfloor>x * 1024\<rfloor> / 1024)\<rparr>"

definition witness_room :: "cell_audio list" where
  "witness_room = Present (Some (- 9000)) None VadUnknown ECHO_MISSING # replicate 31 (Present (Some (- 7000)) None VadUnknown ECHO_MISSING)"

section \<open>Lemmas\<close>

subsection \<open>Percentiles\<close>

lemma rounds_mono: "rounds_like_ieee fl \<Longrightarrow> x \<le> y \<Longrightarrow> fl64 fl x \<le> fl64 fl y"
  by (auto simp: rounds_like_ieee_def mono_def)

lemma rounds_int: "rounds_like_ieee fl \<Longrightarrow> \<bar>z\<bar> \<le> 2 ^ 53 \<Longrightarrow> fl64 fl (real_of_int z) = real_of_int z"
  by (simp add: rounds_like_ieee_def)

lemma rounds_nat: "rounds_like_ieee fl \<Longrightarrow> n \<le> 2 ^ 53 \<Longrightarrow> fl64 fl (real n) = real n"
  using rounds_int [of fl "int n"] by simp

lemma rounds_unit:
  assumes "rounds_like_ieee fl" "0 \<le> x" "x \<le> 1"
  shows "0 \<le> fl64 fl x" "fl64 fl x \<le> 1"
  using rounds_mono [OF assms(1), of 0 x] rounds_mono [OF assms(1), of x 1] rounds_nat [OF assms(1), of 0]
    rounds_nat [OF assms(1), of 1] assms(2,3) by simp_all

text \<open>The rank stays among the values.\<close>

lemma percentile_rank:
  assumes "rounds_like_ieee fl" "0 \<le> p" "p \<le> 1" "n \<le> 2 ^ 53"
  shows "0 \<le> fl64 fl (p * real n)" "nat \<lfloor>fl64 fl (p * real n)\<rfloor> \<le> n"
proof -
  have "fl64 fl 0 \<le> fl64 fl (p * real n)" "fl64 fl (p * real n) \<le> fl64 fl (real n)"
    using assms(2,3) by (auto intro!: rounds_mono [OF assms(1)] mult_left_le_one_le)
  then show "0 \<le> fl64 fl (p * real n)" "nat \<lfloor>fl64 fl (p * real n)\<rfloor> \<le> n"
    using rounds_nat [OF assms(1), of 0] rounds_nat [OF assms(1,4)] by (auto simp: nat_le_iff floor_le_iff)
qed

text \<open>Interpolating between two values stays between them, rounding included.\<close>

lemma interpolate_between:
  assumes "rounds_like_ieee fl" "a \<le> b" "\<bar>a\<bar> \<le> 2 ^ 52" "\<bar>b\<bar> \<le> 2 ^ 52" "0 \<le> t" "t \<le> 1"
  shows "real_of_int a \<le> fl64 fl (real_of_int a + fl64 fl (fl64 fl (real_of_int b - real_of_int a) * t))"
    "fl64 fl (real_of_int a + fl64 fl (fl64 fl (real_of_int b - real_of_int a) * t)) \<le> real_of_int b"
proof -
  have diff: "fl64 fl (real_of_int b - real_of_int a) = real_of_int (b - a)"
    using rounds_int [OF assms(1), of "b - a"] assms(2-4) by simp
  have exact: "fl64 fl (real_of_int a) = real_of_int a" "fl64 fl (real_of_int b) = real_of_int b"
    using rounds_int [OF assms(1)] assms(3,4) by simp_all
  have "fl64 fl 0 \<le> fl64 fl (real_of_int (b - a) * t)" "fl64 fl (real_of_int (b - a) * t) \<le> fl64 fl (real_of_int (b - a))"
    using assms(2,5,6) by (auto intro!: rounds_mono [OF assms(1)] mult_right_le_one_le mult_nonneg_nonneg)
  then have step: "0 \<le> fl64 fl (real_of_int (b - a) * t)" "fl64 fl (real_of_int (b - a) * t) \<le> real_of_int (b - a)"
    using diff rounds_nat [OF assms(1), of 0] by simp_all
  show "real_of_int a \<le> fl64 fl (real_of_int a + fl64 fl (fl64 fl (real_of_int b - real_of_int a) * t))"
    using rounds_mono [OF assms(1), of "real_of_int a"] step(1) exact(1) by (simp add: diff)
  show "fl64 fl (real_of_int a + fl64 fl (fl64 fl (real_of_int b - real_of_int a) * t)) \<le> real_of_int b"
    using rounds_mono [OF assms(1), of _ "real_of_int b"] step(2) exact(2) by (simp add: diff)
qed

lemma percentile_between:
  assumes "rounds_like_ieee fl" "sorted values" "values \<noteq> []" "energies_ok values" "0 \<le> p" "p \<le> 1"
    "length values \<le> 2 ^ 53"
  shows "\<exists>d. percentile_db fl values p = Some d \<and> fl64 fl (real_of_int (hd values) / 100) \<le> d
    \<and> d \<le> fl64 fl (real_of_int (last values) / 100)"
proof (cases "length values = 1")
  case True
  then obtain v where "values = [v]" by (auto simp: length_Suc_conv)
  then show ?thesis by (simp add: percentile_db_def)
next
  case False
  define n where "n = length values - 1"
  define rank where "rank = fl64 fl (p * real n)"
  define lo where "lo = nat \<lfloor>rank\<rfloor>"
  define hi where "hi = min (lo + 1) n"
  define t where "t = fl64 fl (rank - real lo)"
  define v where "v = fl64 fl (real_of_int (values ! lo)
    + fl64 fl (fl64 fl (real_of_int (values ! hi) - real_of_int (values ! lo)) * t))"
  have pc: "percentile_db fl values p = Some (fl64 fl (v / 100))"
    using False assms(3)
    by (auto simp: percentile_db_def Let_def n_def rank_def lo_def hi_def t_def v_def split: list.splits)
  have rank: "0 \<le> rank" "lo \<le> n" using percentile_rank [OF assms(1,5,6), of n] assms(7) by (simp_all add: rank_def lo_def n_def)
  have n: "n < length values" using assms(3) by (simp add: n_def)
  have small: "\<bar>values ! i\<bar> \<le> 2 ^ 52" if "i < length values" for i
    using assms(4) that by (force simp: energies_ok_def list_all_length CELL_E_MIN_def CELL_E_MAX_def)
  have t: "0 \<le> t" "t \<le> 1" unfolding t_def
    by (rule rounds_unit [OF assms(1)]; use rank(1) in \<open>simp add: lo_def; linarith\<close>)+
  have bounds: "values ! lo \<le> values ! hi" "hd values \<le> values ! lo" "values ! hi \<le> last values"
    using assms(2,3) rank(2) n by (auto simp: hi_def hd_conv_nth last_conv_nth n_def [symmetric] intro!: sorted_nth_mono)
  have "real_of_int (hd values) \<le> v" "v \<le> real_of_int (last values)"
    using interpolate_between [OF assms(1) bounds(1) small small t] rank(2) n bounds(2,3)
    unfolding v_def hi_def by (fastforce intro: order_trans)+
  then show ?thesis unfolding pc by (auto intro!: rounds_mono [OF assms(1)])
qed

subsection \<open>Windows\<close>

lemma background_push_eq:
  "background_push audio b = b\<lparr>bg_window :=
     (if length (bg_window b) = BACKGROUND_WINDOW_CELLS then tl (bg_window b) else bg_window b) @ [counted (bg_speech_vad b) audio]\<rparr>"
  by (simp add: background_push_def counted_def Let_def split: option.splits)

text \<open>The window holds the latest cells, at most 312 of them.\<close>

lemma background_window:
  "fold background_push audios (background_new v)
     = \<lparr>bg_window = drop (length audios - BACKGROUND_WINDOW_CELLS) (map (counted v) audios), bg_speech_vad = v\<rparr>"
proof (induction audios rule: rev_induct)
  case (snoc a audios)
  have "tl (drop (length audios - 312) (map (counted v) audios)) = drop (Suc (length audios) - 312) (map (counted v) audios)"
    if "312 \<le> length audios"
  proof -
    have "Suc (length audios - 312) = Suc (length audios) - 312" using that by arith
    then show ?thesis by (simp only: tl_drop drop_Suc [symmetric] drop_Suc)
  qed
  then show ?case using snoc by (auto simp: background_push_eq BACKGROUND_WINDOW_CELLS_def)
qed (simp add: background_new_def)

lemma mem_map_filter_id: "x \<in> set (List.map_filter id xs) \<longleftrightarrow> Some x \<in> set xs"
  by (induction xs) (auto simp: map_filter_simps split: option.splits)

lemma counted_energy: "counted v a = Some e \<Longrightarrow> cell_energy a = Some e"
  by (auto simp: counted_def split: if_splits)

lemma foreground_add_sorted:
  assumes "sorted (fg_sorted f)"
  shows "sorted (fg_sorted (foreground_add e f))" "set (fg_sorted (foreground_add e f)) = insert e (set (fg_sorted f))"
proof -
  let ?k = "length (takeWhile (\<lambda>v. v \<le> e) (fg_sorted f))"
  have parts: "take ?k (fg_sorted f) = takeWhile (\<lambda>v. v \<le> e) (fg_sorted f)"
    "drop ?k (fg_sorted f) = dropWhile (\<lambda>v. v \<le> e) (fg_sorted f)"
    by (simp_all add: takeWhile_eq_take [symmetric] dropWhile_eq_drop [symmetric])
  have "sorted (takeWhile (\<lambda>v. v \<le> e) (fg_sorted f))" "sorted (dropWhile (\<lambda>v. v \<le> e) (fg_sorted f))"
    using assms by (simp_all add: sorted_takeWhile sorted_dropWhile)
  moreover have "\<forall>y \<in> set (dropWhile (\<lambda>v. v \<le> e) (fg_sorted f)). e \<le> y"
  proof
    fix y assume "y \<in> set (dropWhile (\<lambda>v. v \<le> e) (fg_sorted f))"
    moreover obtain z zs where "dropWhile (\<lambda>v. v \<le> e) (fg_sorted f) = z # zs" "\<not> z \<le> e"
      using calculation by (metis dropWhile_eq_Cons_conv list.set_cases)
    ultimately show "e \<le> y" using \<open>sorted (dropWhile _ _)\<close> by auto
  qed
  ultimately show "sorted (fg_sorted (foreground_add e f))"
    by (force simp: foreground_add_def Let_def parts sorted_append dest: set_takeWhileD)
  have "set (take ?k (fg_sorted f)) \<union> set (drop ?k (fg_sorted f)) = set (fg_sorted f)"
    by (metis append_take_drop_id set_append)
  then show "set (fg_sorted (foreground_add e f)) = insert e (set (fg_sorted f))"
    by (auto simp: foreground_add_def Let_def)
qed

lemma background_room_db:
  "background_db fl (fold background_push audios (background_new v))
     = (if length (recent_room v audios) < 32 then None else percentile_db fl (sort (recent_room v audios)) (fl64 fl (20 / 100)))"
  by (simp add: background_db_def background_window recent_room_def BACKGROUND_WINDOW_CELLS_def BACKGROUND_MIN_CELLS_def)

lemma recent_room_ok:
  assumes "list_all audio_in_range audios"
  shows "energies_ok (recent_room v audios)"
proof -
  have "CELL_E_MIN \<le> e \<and> e \<le> CELL_E_MAX" if "e \<in> set (recent_room v audios)" for e
  proof -
    have "Some e \<in> set (drop (length audios - 312) (map (counted v) audios))"
      using that by (simp add: recent_room_def mem_map_filter_id)
    then have "Some e \<in> set (map (counted v) audios)" by (rule in_set_dropD)
    then obtain a where "a \<in> set audios" "counted v a = Some e" by auto
    then show ?thesis using assms counted_energy [of v a e] by (fastforce simp: list_all_iff audio_in_range_def)
  qed
  then show ?thesis by (simp add: energies_ok_def list_all_iff)
qed

lemma recent_room_length: "length (recent_room v audios) \<le> 312"
proof -
  have "length (List.map_filter id xs) \<le> length xs" for xs :: "int option list"
    by (induction xs) (auto simp: map_filter_simps split: option.splits)
  from this [of "drop (length audios - 312) (map (counted v) audios)"] show ?thesis by (simp add: recent_room_def)
qed

lemma sort_ends:
  fixes xs :: "int list"
  assumes "sort xs \<noteq> []"
  shows "hd (sort xs) = Min (set xs)" "last (sort xs) = Max (set xs)"
proof -
  obtain y ys where y: "sort xs = y # ys" using assms by (cases "sort xs") auto
  then have "set xs = set (y # ys)" "sorted (y # ys)" by (metis set_sort, metis sorted_sort)
  then show "hd (sort xs) = Min (set xs)" using y by (auto intro!: Min_eqI [symmetric])
  obtain z zs where z: "sort xs = zs @ [z]" using assms by (metis rev_exhaust)
  then have "set xs = set (zs @ [z])" "sorted (zs @ [z])" by (metis set_sort, metis sorted_sort)
  then show "last (sort xs) = Max (set xs)" using z by (auto simp: sorted_append intro!: Max_eqI [symmetric])
qed

subsection \<open>The early-answer watch\<close>

lemma streak_snoc: "streak_of (qs @ [q]) = (if q then Suc (streak_of qs) else 0)"
  by (simp add: streak_of_def)

lemma cells_qualified_snoc:
  "cells_qualified fl policy b (cs @ [c]) = cells_qualified fl policy b cs
     @ [answer_qualifies fl policy (background_db fl (fold background_push (map ce_audio cs) b)) (ce_audio c)]"
  by (induction cs arbitrary: b) simp_all

lemma length_cells_qualified [simp]: "length (cells_qualified fl policy b cs) = length cs"
  by (induction cs arbitrary: b) simp_all

lemma streak_le: "streak_of qs \<le> length qs"
  by (metis length_rev length_takeWhile_le streak_of_def)

lemma watched_state:
  assumes "qs = cells_qualified fl policy (background_new (ea_background_speech_vad policy)) cs"
  shows "watched fl policy cs = \<lparr>ew_policy = policy,
     ew_background = fold background_push (map ce_audio cs) (background_new (ea_background_speech_vad policy)),
     ew_streak = streak_of qs,
     ew_streak_start = (if streak_of qs = 0 then None else Some (cell_start (ce_cell (cs ! (length cs - streak_of qs)))))\<rparr>"
  using assms
proof (induction cs arbitrary: qs rule: rev_induct)
  case Nil
  then show ?case by (simp add: watched_def early_answer_new_def streak_of_def)
next
  case (snoc c cs)
  let ?b = "background_new (ea_background_speech_vad policy)"
  let ?qs = "cells_qualified fl policy ?b cs"
  have "streak_of ?qs \<le> length cs" using streak_le [of ?qs] by simp
  moreover have "watched fl policy (cs @ [c]) = snd (observe_answer fl c (watched fl policy cs))" by (simp add: watched_def)
  ultimately show ?case
    unfolding snoc.IH [OF refl] snoc.prems cells_qualified_snoc streak_snoc
    by (auto simp: observe_answer_def Let_def nth_append)
qed

subsection \<open>Classes\<close>

lemma run_start_le: "run_start_of start c \<le> start"
  by (auto simp: run_start_of_def split: option.splits)

lemma tracking_keeps [simp]:
  "cl_policy (track_voiced start vad c) = cl_policy c" "cl_reply (track_voiced start vad c) = cl_reply c"
  "cl_trigger (track_voiced start vad c) = cl_trigger c"
  "cl_policy (test_under_way after c) = cl_policy c" "cl_reply (test_under_way after c) = cl_reply c"
  "cl_trigger (test_under_way after c) = cl_trigger c"
  by (auto simp: test_under_way_def track_voiced_def split: option.splits)

lemma classify_voiced_class:
  assumes "classify_voiced fl start after v energy background foreground c = (j, d)"
  shows "cd_class j \<in> {BackgroundSpeech, CommandSpeech, ClassUnknown}"
    "cd_opened j = Some r \<Longrightarrow> cd_class j = CommandSpeech \<and> cl_run d = Some start \<and> ro_start r \<le> start
       \<and> atp_run_open_min (cl_policy c) \<le> v
       \<and> (\<forall>g. Option.bind (cl_reply c) ra_guard_until = Some g \<longrightarrow> after \<longrightarrow> g \<le> start)"
  using assms run_start_le [of start c]
  by (auto simp: classify_voiced_def plain_def Let_def split: if_splits option.splits)

section \<open>Properties\<close>

text \<open>
  The background level is about the last 312 cells and nothing else: it is unknown until 32 of
  them count (loudness known, and not known to be speech), and then a level between the
  quietest and the loudest of those, so between -120 and 0 dB, whatever the rounding.
\<close>

theorem background_is_recent_room:
  assumes "rounds_like_ieee fl" "list_all audio_in_range audios"
  shows "case background_db fl (fold background_push audios (background_new v)) of
      None \<Rightarrow> length (recent_room v audios) < 32
    | Some d \<Rightarrow> 32 \<le> length (recent_room v audios)
        \<and> fl64 fl (real_of_int (Min (set (recent_room v audios))) / 100) \<le> d
        \<and> d \<le> fl64 fl (real_of_int (Max (set (recent_room v audios))) / 100) \<and> - 120 \<le> d \<and> d \<le> 0"
proof (cases "length (recent_room v audios) < 32")
  case True
  then show ?thesis by (simp add: background_room_db)
next
  case False
  let ?room = "recent_room v audios"
  have "length (sort ?room) \<noteq> 0" "?room \<noteq> []" using False by auto
  then have ne: "sort ?room \<noteq> []" "set ?room \<noteq> {}" by (metis list.size(3), simp)
  have ok: "energies_ok ?room" using recent_room_ok [OF assms(2)] .
  have range: "CELL_E_MIN \<le> Min (set ?room)" "Max (set ?room) \<le> CELL_E_MAX"
    using ok ne(2) by (simp_all add: energies_ok_def list_all_iff)
  have p: "0 \<le> fl64 fl (20 / 100)" "fl64 fl (20 / 100) \<le> 1" using rounds_unit [OF assms(1), of "20 / 100"] by simp_all
  have len: "length (sort ?room) \<le> 2 ^ 53" using recent_room_length [of v audios] by simp
  obtain d where d: "percentile_db fl (sort ?room) (fl64 fl (20 / 100)) = Some d"
    "fl64 fl (real_of_int (Min (set ?room)) / 100) \<le> d" "d \<le> fl64 fl (real_of_int (Max (set ?room)) / 100)"
    using percentile_between [OF assms(1) sorted_sort ne(1) _ p len] ok sort_ends [of ?room] ne
    by (auto simp: energies_ok_def list_all_iff)
  have "fl64 fl (- 120) \<le> fl64 fl (real_of_int (Min (set ?room)) / 100)"
    "fl64 fl (real_of_int (Max (set ?room)) / 100) \<le> fl64 fl 0"
    using range by (auto intro!: rounds_mono [OF assms(1)] simp: CELL_E_MIN_def CELL_E_MAX_def)
  moreover have "fl64 fl (- 120) = - 120" "fl64 fl 0 = 0"
    using rounds_int [OF assms(1), of "- 120"] rounds_int [OF assms(1), of 0] by simp_all
  ultimately show ?thesis using d False by (simp add: background_room_db)
qed


text \<open>
  An early answer interrupts the question exactly when the last cells in a row that qualify
  number exactly the required count, and its onset is the first of them: after any cells, the
  next one fires the watch in no other case.
\<close>

theorem early_answer_fires_on_streak:
  "fst (observe_answer fl c (watched fl policy cs)) = Some onset \<longleftrightarrow>
    answer_streak fl policy (cs @ [c]) = ea_cells policy \<and> 0 < answer_streak fl policy (cs @ [c])
      \<and> onset = cell_start (ce_cell ((cs @ [c]) ! (length cs + 1 - answer_streak fl policy (cs @ [c]))))"
proof -
  let ?b = "background_new (ea_background_speech_vad policy)"
  have "streak_of (cells_qualified fl policy ?b cs) \<le> length cs"
    using streak_le [of "cells_qualified fl policy ?b cs"] by simp
  then show ?thesis
    unfolding answer_streak_def cells_qualified_snoc streak_snoc watched_state [OF refl]
    by (auto simp: observe_answer_def Let_def nth_append) (metis diff_Suc_Suc)+
qed

lemma witness_rounding_ok: "rounds_like_ieee witness_rounding"
proof -
  have "\<lfloor>real_of_int z * 1024\<rfloor> = z * 1024" for z
    using floor_of_int [of "z * 1024"] by (simp only: of_int_mult of_int_numeral)
  then show ?thesis by (auto simp: rounds_like_ieee_def witness_rounding_def intro!: monoI divide_right_mono floor_mono mult_right_mono)
qed

theorem background_is_recent_room_witness:
  "case background_db witness_rounding (fold background_push witness_room (background_new (35 / 100))) of
     None \<Rightarrow> False | Some d \<Rightarrow> - 90 \<le> d \<and> d \<le> - 70"
proof -
  have room: "recent_room (35 / 100) witness_room = - 9000 # replicate 31 (- 7000)"
    by (simp add: recent_room_def witness_room_def counted_def map_filter_simps numeral_eq_Suc)
  have en: "list_all audio_in_range witness_room"
    by (simp add: list_all_iff audio_in_range_def witness_room_def CELL_E_MIN_def CELL_E_MAX_def)
  have "Min (set (recent_room (35 / 100) witness_room)) = - 9000" "Max (set (recent_room (35 / 100) witness_room)) = - 7000"
    "fl64 witness_rounding (- 90) = - 90" "fl64 witness_rounding (- 70) = - 70"
    unfolding room by (simp_all add: witness_rounding_def)
  then show ?thesis
    using background_is_recent_room [OF witness_rounding_ok en, where v = "35 / 100"] unfolding room
    by (auto split: option.splits)
qed


end
