(* ===== verification/Turn_Asr.thy ===== *)
theory Turn_Asr
  imports Turn_Evidence
begin

text \<open>
  Streaming text as endpoint evidence (\<open>crates/turn/src/asr.rs\<close>): the text an utterance is judged on, from
  the live results, the decode made in each pause and the pause server's words; and when the pause
  decode is due. With it the vocabularies of \<open>crates/turn/src/completeness.rs\<close> and
  \<open>crates/turn/src/pause.rs\<close>.
\<close>

section \<open>Vocabularies\<close>

datatype text_class = Complete | Extendable | NeedsMore | TextUnknown

text \<open>The local grammar is an argument: a function from a text to its class. This one judges nothing.\<close>

definition no_grammar :: "utext \<Rightarrow> text_class" where
  "no_grammar t = TextUnknown"

datatype recognizer_error = Unavailable | Failed | RecognizerTimeout | NotAsked

record recognizer_answer =
  rc_text :: utext
  rc_outcome :: "(recognizer_error, text_class) result"

datatype text_source = SourceStreaming | SourceKroko | SourceServer

datatype server_failure = ServerTimeout | ServerFailed utext

record pause_server_answer =
  psa_pause :: sample
  psa_outcome :: "(server_failure, utext) result"

datatype pause_error = PauseSuperseded | PauseTimeout | PauseFailed utext

text \<open>The stored texts \<open>superseded\<close> and \<open>timeout\<close>.\<close>

definition SUPERSEDED_TEXT :: utext where "SUPERSEDED_TEXT = map of_char ''superseded''"
definition TIMEOUT_TEXT :: utext where "TIMEOUT_TEXT = map of_char ''timeout''"

fun pause_error_str :: "pause_error \<Rightarrow> utext" where
  "pause_error_str PauseSuperseded = SUPERSEDED_TEXT"
| "pause_error_str PauseTimeout = TIMEOUT_TEXT"
| "pause_error_str (PauseFailed what) = what"

definition pause_error_parse :: "utext \<Rightarrow> pause_error" where
  "pause_error_parse t =
     (if t = SUPERSEDED_TEXT then PauseSuperseded else if t = TIMEOUT_TEXT then PauseTimeout else PauseFailed t)"

fun pause_error_from :: "server_failure \<Rightarrow> pause_error" where
  "pause_error_from ServerTimeout = PauseTimeout"
| "pause_error_from (ServerFailed what) = PauseFailed what"

record pause_words =
  pz_text :: "utext option"
  pz_ms :: "nat option"
  pz_judged :: "utext option"
  pz_at :: "sample option"
  pz_error :: "pause_error option"

definition pause_words_default :: pause_words where
  "pause_words_default = \<lparr>pz_text = None, pz_ms = None, pz_judged = None, pz_at = None, pz_error = None\<rparr>"

definition pause_is_open :: "pause_words \<Rightarrow> bool" where
  "pause_is_open w \<longleftrightarrow> pz_text w = None \<and> pz_error w = None"

record pause_record =
  pr_through :: sample
  pr_kroko :: pause_words
  pr_server :: "pause_words option"

section \<open>The text tracker\<close>

definition BLANK_FRAME_SAMPLES :: nat where "BLANK_FRAME_SAMPLES = 640"
definition FINALIZE_AFTER_CELLS :: nat where "FINALIZE_AFTER_CELLS = 10"

record wake_cut =
  wc_lookahead_end :: sample
  wc_phrase :: utext

datatype trailing_quiet = Blanks nat | QuietAudio samples

fun quiet_samples :: "trailing_quiet \<Rightarrow> samples" where
  "quiet_samples (Blanks n) = n * BLANK_FRAME_SAMPLES"
| "quiet_samples (QuietAudio s) = s"

record standing =
  sg_through :: sample
  sg_tokens :: "token list"
  sg_server :: "utext option"

record text_tracker =
  tx_wake :: "wake_cut option"
  tx_current :: "token list"
  tx_standing :: "standing option"
  tx_unsettled :: bool
  tx_live_blanks :: nat
  tx_streaming_text :: utext
  tx_prefix :: utext
  tx_prefix_sample :: "sample option"
  tx_progress_sample :: sample
  tx_trigger :: sample
  tx_command_words :: "sample list"

definition trim_text :: "unicode \<Rightarrow> utext \<Rightarrow> utext" where
  "trim_text uc t = rev (dropWhile (uc_whitespace uc) (rev (dropWhile (uc_whitespace uc) t)))"

definition token_texts_prefix :: "token list \<Rightarrow> token list \<Rightarrow> bool" where
  "token_texts_prefix short long \<longleftrightarrow>
     length short \<le> length long \<and> list_all2 (\<lambda>a b. tk_text a = tk_text b) short (take (length short) long)"

definition tracker_new :: "sample \<Rightarrow> wake_cut option \<Rightarrow> text_tracker" where
  "tracker_new trigger wake =
     \<lparr>tx_wake = wake, tx_current = [], tx_standing = None, tx_unsettled = False, tx_live_blanks = 0,
      tx_streaming_text = [], tx_prefix = [], tx_prefix_sample = None, tx_progress_sample = trigger,
      tx_trigger = trigger, tx_command_words = []\<rparr>"

definition set_tokens :: "token list \<Rightarrow> text_tracker \<Rightarrow> text_tracker" where
  "set_tokens tokens x = (if tokens \<noteq> tx_current x then x\<lparr>tx_current := tokens, tx_unsettled := True\<rparr> else x)"

text \<open>Applies a block's result; whether it ended a standing pause decode.\<close>

definition take_result :: "asr_observation \<Rightarrow> text_tracker \<Rightarrow> bool \<times> text_tracker" where
  "take_result obs x =
     (case ao_kind obs of
        AsrFinalized \<Rightarrow>
          (False, set_tokens (ao_tokens obs)
             (x\<lparr>tx_standing := Some \<lparr>sg_through = ao_through obs, sg_tokens = ao_tokens obs, sg_server = None\<rparr>,
                tx_unsettled := True\<rparr>))
      | AsrLive \<Rightarrow>
          let y = x\<lparr>tx_live_blanks := ao_trailing_blanks obs\<rparr> in
          (case tx_standing y of
             Some st \<Rightarrow>
               if token_texts_prefix (ao_tokens obs) (sg_tokens st) then (False, y)
               else (True, set_tokens (ao_tokens obs) (y\<lparr>tx_standing := None, tx_unsettled := True\<rparr>))
           | None \<Rightarrow> (False, set_tokens (ao_tokens obs) y)))"

definition stand_server :: "sample \<Rightarrow> utext \<Rightarrow> text_tracker \<Rightarrow> bool \<times> text_tracker" where
  "stand_server pause words x =
     (case tx_standing x of
        Some st \<Rightarrow>
          if sg_through st = pause
          then (True, x\<lparr>tx_standing := Some (st\<lparr>sg_server := Some words\<rparr>), tx_unsettled := True\<rparr>) else (False, x)
      | None \<Rightarrow> (False, x))"

definition server_words :: "text_tracker \<Rightarrow> utext option" where
  "server_words x = Option.bind (tx_standing x) sg_server"

text \<open>The transcript of the current tokens, the judged prefix and the number of words before the command.\<close>

definition current_transcript :: "unicode \<Rightarrow> text_tracker \<Rightarrow> timed_transcript" where
  "current_transcript uc x = transcript_from_tokens uc (map (\<lambda>t. (tk_text t, tk_emitted t)) (tx_current x))"

definition judged_prefix :: "unicode \<Rightarrow> text_tracker \<Rightarrow> utext \<times> nat" where
  "judged_prefix uc x =
     (let transcript = current_transcript uc x in
      case tx_wake x of
        Some wc \<Rightarrow>
          let found = locate_in_streaming uc transcript (wc_lookahead_end wc) (wc_phrase wc) in
          (case server_words x of
             Some words \<Rightarrow> normalize_text uc (sd_text (strip_final uc words found (wc_phrase wc)))
           | None \<Rightarrow> cut_streaming uc transcript found,
           case sw_window found of None \<Rightarrow> 0 | Some w \<Rightarrow> pw_end w)
      | None \<Rightarrow>
          (normalize_text uc (case server_words x of Some words \<Rightarrow> words | None \<Rightarrow> tt_text transcript), 0))"

definition settle_text :: "unicode \<Rightarrow> sample \<Rightarrow> text_tracker \<Rightarrow> bool \<times> text_tracker" where
  "settle_text uc through x =
     (if \<not> tx_unsettled x then (False, x)
      else
        let transcript = current_transcript uc x;
            (prefix, first_command_word) = judged_prefix uc x;
            y = x\<lparr>tx_unsettled := False,
                  tx_command_words := filter (\<lambda>e. e > tx_trigger x) (drop first_command_word (tt_last_emitted transcript)),
                  tx_streaming_text := trim_text uc (tt_text transcript)\<rparr>
        in if prefix = tx_prefix y then (False, y)
           else (True, y\<lparr>tx_prefix := prefix, tx_progress_sample := through,
                         tx_prefix_sample := (if prefix \<noteq> [] then Some through else None)\<rparr>))"

definition heard_text :: "text_tracker \<Rightarrow> utext" where
  "heard_text x = (case server_words x of Some words \<Rightarrow> words | None \<Rightarrow> tx_streaming_text x)"

definition tracker_source :: "text_tracker \<Rightarrow> text_source" where
  "tracker_source x =
     (case tx_standing x of
        Some st \<Rightarrow> if sg_server st \<noteq> None then SourceServer else SourceKroko
      | None \<Rightarrow> SourceStreaming)"

definition last_command_word_by :: "sample \<Rightarrow> text_tracker \<Rightarrow> sample option" where
  "last_command_word_by by_sample x = List.find (\<lambda>e. e \<le> by_sample) (rev (tx_command_words x))"

definition finalized_standing :: "text_tracker \<Rightarrow> bool" where
  "finalized_standing x = (tx_standing x \<noteq> None)"

definition trailing_quiet_of :: "sample \<Rightarrow> sample \<Rightarrow> text_tracker \<Rightarrow> trailing_quiet" where
  "trailing_quiet_of through last_speech_positive_end x =
     (if tx_standing x \<noteq> None then QuietAudio (sample_since through last_speech_positive_end)
      else Blanks (tx_live_blanks x))"

section \<open>The pause decode\<close>

record pause_finalizer =
  pf_speech_positive_min :: real
  pf_last_speech_end :: "sample option"
  pf_analysed_through :: "sample option"
  pf_armed :: bool

definition finalizer_new :: "real \<Rightarrow> pause_finalizer" where
  "finalizer_new m = \<lparr>pf_speech_positive_min = m, pf_last_speech_end = None, pf_analysed_through = None, pf_armed = False\<rparr>"

definition observe_cell :: "cell_index \<Rightarrow> real option \<Rightarrow> pause_finalizer \<Rightarrow> pause_finalizer" where
  "observe_cell cell vad f =
     (let g = f\<lparr>pf_analysed_through := Some (cell_end cell)\<rparr> in
      if (case vad of Some p \<Rightarrow> p \<ge> pf_speech_positive_min f | None \<Rightarrow> False)
      then g\<lparr>pf_last_speech_end := Some (cell_end cell), pf_armed := True\<rparr> else g)"

definition finalize_due :: "pause_finalizer \<Rightarrow> bool \<times> pause_finalizer" where
  "finalize_due f =
     (case (pf_last_speech_end f, pf_analysed_through f) of
        (Some speech_end, Some through) \<Rightarrow>
          if pf_armed f \<and> whole_cells (sample_since through speech_end) \<ge> FINALIZE_AFTER_CELLS
          then (True, f\<lparr>pf_armed := False\<rparr>) else (False, f)
      | _ \<Rightarrow> (False, f))"

section \<open>Specification\<close>

text \<open>What the policy does with the tracker between two evaluations of a text.\<close>

datatype tracker_op = TakeResult asr_observation | StandServer sample utext | SettleAt sample

fun tracker_step :: "unicode \<Rightarrow> tracker_op \<Rightarrow> text_tracker \<Rightarrow> text_tracker" where
  "tracker_step uc (TakeResult obs) x = snd (take_result obs x)"
| "tracker_step uc (StandServer pause words) x = snd (stand_server pause words x)"
| "tracker_step uc (SettleAt through) x = snd (settle_text uc through x)"

text \<open>The derived texts worked out afresh from the tokens and the server's words.\<close>

definition settled_ok :: "unicode \<Rightarrow> text_tracker \<Rightarrow> bool" where
  "settled_ok uc x \<longleftrightarrow>
     tx_prefix x = fst (judged_prefix uc x)
     \<and> tx_command_words x = filter (\<lambda>e. e > tx_trigger x) (drop (snd (judged_prefix uc x)) (tt_last_emitted (current_transcript uc x)))
     \<and> tx_streaming_text x = trim_text uc (tt_text (current_transcript uc x))"

definition tracker_inv :: "unicode \<Rightarrow> text_tracker \<Rightarrow> bool" where
  "tracker_inv uc x \<longleftrightarrow> (\<not> tx_unsettled x \<longrightarrow> settled_ok uc x) \<and> (tx_prefix_sample x = None \<longleftrightarrow> tx_prefix x = [])
     \<and> (\<forall>t. tx_prefix_sample x = Some t \<longrightarrow> tx_progress_sample x = t)"

datatype finalizer_op = ObserveCell cell_index "real option" | AskDue

fun finalizer_step :: "finalizer_op \<Rightarrow> pause_finalizer \<Rightarrow> pause_finalizer" where
  "finalizer_step (ObserveCell c vad) f = observe_cell c vad f"
| "finalizer_step AskDue f = snd (finalize_due f)"

fun speech_op :: "real \<Rightarrow> finalizer_op \<Rightarrow> bool" where
  "speech_op m (ObserveCell c (Some p)) \<longleftrightarrow> p \<ge> m"
| "speech_op m _ \<longleftrightarrow> False"

text \<open>A decode is due 320 ms into a pause, as seen from the cells observed.\<close>

fun last_end :: "(finalizer_op \<Rightarrow> bool) \<Rightarrow> finalizer_op list \<Rightarrow> sample option" where
  "last_end P [] = None"
| "last_end P (x # xs) =
     (case last_end P xs of
        Some t \<Rightarrow> Some t
      | None \<Rightarrow> (case x of ObserveCell c vad \<Rightarrow> if P x then Some (cell_end c) else None | AskDue \<Rightarrow> None))"

definition paused :: "real \<Rightarrow> finalizer_op list \<Rightarrow> bool" where
  "paused m h =
     (case (last_end (speech_op m) h, last_end (\<lambda>_. True) h) of
        (Some speech_end, Some through) \<Rightarrow> (through - speech_end) div CELL_SAMPLES \<ge> FINALIZE_AFTER_CELLS
      | _ \<Rightarrow> False)"

text \<open>Whether a decode was already asked for in the pause a history ends with.\<close>

fun asked_in_pause :: "real \<Rightarrow> finalizer_op list \<Rightarrow> finalizer_op list \<Rightarrow> bool" where
  "asked_in_pause m h [] = False"
| "asked_in_pause m h (x # xs) =
     (asked_in_pause m (h @ [x]) xs \<or> x = AskDue \<and> paused m h \<and> \<not> list_ex (speech_op m) xs)"

section \<open>Lemmas\<close>

lemma current_same [simp]:
  "current_transcript uc (x\<lparr>tx_unsettled := u\<rparr>) = current_transcript uc x"
  "current_transcript uc (x\<lparr>tx_live_blanks := n\<rparr>) = current_transcript uc x"
  "current_transcript uc (x\<lparr>tx_command_words := w\<rparr>) = current_transcript uc x"
  "current_transcript uc (x\<lparr>tx_streaming_text := t\<rparr>) = current_transcript uc x"
  "current_transcript uc (x\<lparr>tx_prefix := p\<rparr>) = current_transcript uc x"
  "current_transcript uc (x\<lparr>tx_prefix_sample := ps\<rparr>) = current_transcript uc x"
  "current_transcript uc (x\<lparr>tx_progress_sample := s\<rparr>) = current_transcript uc x"
  by (simp_all add: current_transcript_def)

lemma judged_same [simp]:
  "judged_prefix uc (x\<lparr>tx_unsettled := u\<rparr>) = judged_prefix uc x"
  "judged_prefix uc (x\<lparr>tx_live_blanks := n\<rparr>) = judged_prefix uc x"
  "judged_prefix uc (x\<lparr>tx_command_words := w\<rparr>) = judged_prefix uc x"
  "judged_prefix uc (x\<lparr>tx_streaming_text := t\<rparr>) = judged_prefix uc x"
  "judged_prefix uc (x\<lparr>tx_prefix := p\<rparr>) = judged_prefix uc x"
  "judged_prefix uc (x\<lparr>tx_prefix_sample := ps\<rparr>) = judged_prefix uc x"
  "judged_prefix uc (x\<lparr>tx_progress_sample := s\<rparr>) = judged_prefix uc x"
  by (simp_all add: judged_prefix_def server_words_def cong: option.case_cong)

lemma settle_ok: "tracker_inv uc x \<Longrightarrow> tracker_inv uc (snd (settle_text uc through x)) \<and> settled_ok uc (snd (settle_text uc through x))"
  by (auto simp: tracker_inv_def settle_text_def settled_ok_def Let_def case_prod_unfold)

lemma set_tokens_inv: "tracker_inv uc x \<Longrightarrow> tracker_inv uc (set_tokens ts x)"
  by (simp add: set_tokens_def tracker_inv_def)

lemma take_result_inv: "tracker_inv uc x \<Longrightarrow> tracker_inv uc (snd (take_result obs x))"
proof (cases "ao_kind obs")
  case AsrFinalized
  assume "tracker_inv uc x"
  then show ?thesis using AsrFinalized
    by (auto simp: take_result_def tracker_inv_def set_tokens_def)
next
  case AsrLive
  assume inv: "tracker_inv uc x"
  then have live: "tracker_inv uc (x\<lparr>tx_live_blanks := ao_trailing_blanks obs\<rparr>)"
    by (simp add: tracker_inv_def settled_ok_def)
  moreover have "tracker_inv uc (x\<lparr>tx_live_blanks := ao_trailing_blanks obs, tx_standing := None, tx_unsettled := True\<rparr>)"
    using inv by (simp add: tracker_inv_def)
  ultimately show ?thesis using AsrLive
    by (auto simp: take_result_def Let_def intro!: set_tokens_inv split: option.splits)
qed

lemma stand_server_inv: "tracker_inv uc x \<Longrightarrow> tracker_inv uc (snd (stand_server pause words x))"
  by (auto simp: stand_server_def tracker_inv_def split: option.splits)

lemma tracker_step_inv: "tracker_inv uc x \<Longrightarrow> tracker_inv uc (tracker_step uc op x)"
  by (cases op) (simp_all add: take_result_inv stand_server_inv settle_ok)

interpretation tracker_machine: invariant_machine "tracker_step uc" "tracker_inv uc" for uc
  by unfold_locales (rule tracker_step_inv)

lemma normalize_nothing: "normalize_text uc [] = []"
  by (simp add: normalize_text_def text_words_def)

lemma tracker_new_inv: "tracker_inv uc (tracker_new trigger wake)"
  by (auto simp: tracker_inv_def tracker_new_def settled_ok_def judged_prefix_def current_transcript_def
      transcript_from_tokens_def text_words_def locate_in_streaming_def minimal_windows_def cut_streaming_def
      server_words_def normalize_nothing trim_text_def Let_def split: option.splits)

subsection \<open>The pause decode\<close>

lemma last_end_snoc:
  "last_end P (h @ [x]) = (case x of ObserveCell c vad \<Rightarrow> if P x then Some (cell_end c) else last_end P h | AskDue \<Rightarrow> last_end P h)"
  by (induction h) (auto split: option.splits finalizer_op.splits)

lemma asked_snoc:
  "asked_in_pause m h (xs @ [x]) \<longleftrightarrow> asked_in_pause m h xs \<and> \<not> speech_op m x \<or> x = AskDue \<and> paused m (h @ xs)"
  by (induction xs arbitrary: h) auto

lemma speech_seen: "last_end (speech_op m) h \<noteq> None \<longleftrightarrow> list_ex (speech_op m) h"
  by (induction h) (auto split: option.splits finalizer_op.splits)

lemma speech_analysed: "last_end (speech_op m) h = Some t \<Longrightarrow> last_end (\<lambda>_. True) h \<noteq> None"
  by (induction h) (auto split: option.splits finalizer_op.splits if_splits)

lemma finalizer_state:
  "fold finalizer_step h (finalizer_new m) = \<lparr>pf_speech_positive_min = m, pf_last_speech_end = last_end (speech_op m) h,
     pf_analysed_through = last_end (\<lambda>_. True) h, pf_armed = (list_ex (speech_op m) h \<and> \<not> asked_in_pause m [] h)\<rparr>"
proof (induction h rule: rev_induct)
  case Nil
  then show ?case by (simp add: finalizer_new_def)
next
  case (snoc x h)
  show ?case
  proof (cases x)
    case (ObserveCell c vad)
    then show ?thesis using snoc
      by (auto simp: last_end_snoc asked_snoc observe_cell_def Let_def split: option.splits)
  next
    case AskDue
    then show ?thesis using snoc speech_seen [of m h] speech_analysed [of m h]
      by (auto simp: last_end_snoc asked_snoc finalize_due_def paused_def whole_cells_def sample_since_def split: option.splits)
  qed
qed

section \<open>Properties\<close>

text \<open>
  (C20) The judged text is always up to date: the tracker works texts out only when something changed,
  but whatever results and server words it took, after settling its prefix, command words and
  streaming text are those worked out afresh from the current tokens and the standing server
  words, and the prefix's sample is missing exactly while the prefix is empty.
\<close>

theorem judged_text_is_fresh:
  "let x = fold (tracker_step uc) (ops @ [SettleAt through]) (tracker_new trigger wake) in
   tx_prefix x = fst (judged_prefix uc x)
   \<and> tx_command_words x = filter (\<lambda>e. e > tx_trigger x) (drop (snd (judged_prefix uc x)) (tt_last_emitted (current_transcript uc x)))
   \<and> tx_streaming_text x = trim_text uc (tt_text (current_transcript uc x))
   \<and> (tx_prefix_sample x = None \<longleftrightarrow> tx_prefix x = [])"
proof -
  let ?y = "fold (tracker_step uc) ops (tracker_new trigger wake)"
  have "tracker_inv uc ?y" using tracker_machine.run_inv [OF tracker_new_inv] .
  from settle_ok [OF this, of through] show ?thesis by (auto simp: Let_def settled_ok_def tracker_inv_def)
qed

text \<open>
  The pause decode is asked for once per pause: after any cells and askings, asking answers yes
  exactly when 10 whole cells have been analysed past the last speech and no asking since that
  speech has answered for the pause.
\<close>

theorem pause_decode_once_per_pause:
  "fst (finalize_due (fold finalizer_step h (finalizer_new m))) \<longleftrightarrow> paused m h \<and> \<not> asked_in_pause m [] h"
  using speech_seen [of m h]
  by (auto simp: finalizer_state finalize_due_def paused_def whole_cells_def sample_since_def split: option.splits)

end
