(* ===== verification/Turn_Policy.thy ===== *)
theory Turn_Policy
  imports Turn_Levels Turn_Asr
begin

text \<open>
  The data of the endpoint policy: its configuration, the specification of a turn, the decisions it
  makes (the types of \<open>crates/turn/src/endpoint.rs\<close>) and the trace it keeps
  (\<open>crates/turn/src/trace.rs\<close>). Counts of cells, \<open>u32\<close> in the source, are natural numbers: an utterance has
  fewer than a thousand cells.
\<close>

section \<open>Configuration\<close>

record endpoint_policy =
  np_pause_complete :: samples
  np_pause_extendable :: samples
  np_pause_needs_more :: samples
  np_lookahead :: samples
  np_revoke_command_cells :: nat
  np_min_command :: samples
  np_vote_cells :: nat
  np_vote_quiet_min :: nat
  np_trailing_blanks_min :: nat
  np_no_input :: samples
  np_reply_no_input :: samples
  np_max_utterance :: samples
  np_max_extended_utterance :: samples
  np_no_progress :: samples
  np_ha_reply_pause :: samples
  np_background_share_percent :: nat
  np_reply_span_lead :: samples
  np_reply_guard :: samples
  np_asr_word_margin :: samples
  np_evidence_stall_ms :: nat
  np_reply_wall_ms :: nat
  np_recognizer_limit_ms :: nat

definition ASR_WORD_MARGIN_MS :: nat where "ASR_WORD_MARGIN_MS = 64"

definition endpoint_default :: endpoint_policy where
  "endpoint_default =
     \<lparr>np_pause_complete = samples_from_ms 608, np_pause_extendable = samples_from_ms 1216,
      np_pause_needs_more = samples_from_ms 1792, np_lookahead = samples_from_ms 192, np_revoke_command_cells = 4,
      np_min_command = samples_from_ms 192, np_vote_cells = 19, np_vote_quiet_min = 15, np_trailing_blanks_min = 10,
      np_no_input = samples_from_ms 5000, np_reply_no_input = samples_from_ms 7000,
      np_max_utterance = samples_from_ms 15000, np_max_extended_utterance = samples_from_ms 30000,
      np_no_progress = samples_from_ms 3000, np_ha_reply_pause = samples_from_ms 1024,
      np_background_share_percent = 80, np_reply_span_lead = samples_from_ms 300,
      np_reply_guard = samples_from_ms 320, np_asr_word_margin = samples_from_ms ASR_WORD_MARGIN_MS,
      np_evidence_stall_ms = 3000, np_reply_wall_ms = 10000, np_recognizer_limit_ms = 2000\<rparr>"

fun pause_for :: "endpoint_policy \<Rightarrow> text_class \<Rightarrow> samples" where
  "pause_for p Complete = np_pause_complete p"
| "pause_for p Extendable = np_pause_extendable p"
| "pause_for p NeedsMore = np_pause_needs_more p"
| "pause_for p TextUnknown = np_pause_needs_more p"

record turn_config =
  tc_endpoint :: endpoint_policy
  tc_attribution :: attribution_policy
  tc_extended_utterances :: bool
  tc_recognizer_available :: bool
  tc_pause_server :: bool

record wake_anchor =
  wa_support_start :: sample
  wa_candidate_open :: sample
  wa_phrase :: utext

datatype reply_origin = Expectation | HaConversation

record reply_spec =
  rs_origin :: reply_origin
  rs_guard_until :: "sample option"
  rs_no_input_at :: sample
  rs_wall_deadline :: mono_instant

definition millis :: "nat \<Rightarrow> duration_ns" where
  "millis ms = ms * 1000000"

definition reply_at_drain :: "reply_origin \<Rightarrow> sample \<Rightarrow> mono_instant \<Rightarrow> endpoint_policy \<Rightarrow> reply_spec" where
  "reply_at_drain origin trigger opened_at policy =
     \<lparr>rs_origin = origin, rs_guard_until = Some (sample_add trigger (np_reply_guard policy)),
      rs_no_input_at = sample_add trigger (np_reply_no_input policy),
      rs_wall_deadline = mono_after opened_at (millis (np_reply_wall_ms policy))\<rparr>"

definition reply_at_early_answer :: "reply_origin \<Rightarrow> sample \<Rightarrow> mono_instant \<Rightarrow> endpoint_policy \<Rightarrow> reply_spec" where
  "reply_at_early_answer origin onset opened_at policy =
     \<lparr>rs_origin = origin, rs_guard_until = None, rs_no_input_at = sample_add onset (np_reply_no_input policy),
      rs_wall_deadline = mono_after opened_at (millis (np_reply_wall_ms policy))\<rparr>"

datatype turn_kind = WakeTurn wake_anchor | ButtonTurn | ReplyTurn reply_spec

record turn_spec =
  ts_epoch :: epoch
  ts_start :: sample
  ts_trigger :: sample
  ts_cells_from :: cell_index
  ts_vad_from :: cell_index
  ts_kind :: turn_kind

definition evidence_plan_of :: "turn_spec \<Rightarrow> evidence_plan" where
  "evidence_plan_of s =
     (let analysis_from = sample_cell (ts_start s) in
      \<lparr>ep_epoch = ts_epoch s, ep_cells_from = min (ts_cells_from s) analysis_from,
       ep_vad_from = min (ts_vad_from s) analysis_from, ep_analysis_from = analysis_from\<rparr>)"

section \<open>Decisions\<close>

datatype route = RouteA | RouteB | RouteR | RouteFallback

datatype turn_close_reason = NoInput | TooLong | Retry | Interrupted | AudioOverrun | Muted | SessionLost

datatype close_cause =
    CauseLimit | CauseNoProgress | CauseGap | CauseMutedCell | CauseMute | CauseSessionLost | CauseOverrun
  | CauseWorkerError | CauseDiscontinuity | CauseEvidenceStalled | CauseReplyWallClock

datatype end_bound = BoundCell | BoundAsrWord

record commit =
  co_route :: route
  co_boundary :: sample
  co_span :: sample_span
  co_end_bound :: end_bound
  co_last_word :: "sample option"
  co_at :: sample
  co_text :: utext
  co_class :: "text_class option"
  co_recheck :: bool
  co_source :: text_source

record span_end =
  se_end :: sample
  se_bound :: end_bound
  se_last_word :: "sample option"

record reply_reopen =
  rr_start :: sample
  rr_trigger :: sample
  rr_no_input_at :: sample

datatype decision =
    CommandStarted sample
  | AskRecognizer utext
  | EndPending route sample sample
  | EndRevoked sample sample
  | Commit commit
  | Close turn_close_reason "sample option"
  | ReopenReply reply_reopen

section \<open>The trace\<close>

datatype trace_kind = TraceWake | TraceButton | TraceReply | TraceHaReply

record trace_segment =
  sm_class :: cell_class
  sm_rule :: class_rule
  sm_start :: sample
  sm_end :: sample

record evidence_counts =
  en_cells :: nat
  en_gap :: nat
  en_vad_unknown :: nat
  en_loudness_unknown :: nat
  en_echo_no_reference :: nat
  en_echo_only :: nat
  en_echo_near_end :: nat
  en_echo_unknown :: nat
  en_reference_incomplete :: nat
  en_background_available :: nat

definition evidence_counts_default :: evidence_counts where
  "evidence_counts_default =
     \<lparr>en_cells = 0, en_gap = 0, en_vad_unknown = 0, en_loudness_unknown = 0, en_echo_no_reference = 0, en_echo_only = 0,
      en_echo_near_end = 0, en_echo_unknown = 0, en_reference_incomplete = 0, en_background_available = 0\<rparr>"

record text_change =
  xc_text :: utext
  xc_grammar :: "text_class option"
  xc_at :: sample
  xc_source :: text_source

record recognizer_record =
  rz_text :: utext
  rz_asked_at :: sample
  rz_class :: "text_class option"
  rz_applied_at :: "sample option"
  rz_round_trip_ms :: "nat option"
  rz_error :: "recognizer_error option"

record route_evidence =
  rv_class :: "text_class option"
  rv_command_ms :: nat
  rv_quiet_votes :: "nat option"
  rv_trailing_quiet_ms :: "nat option"
  rv_finalized :: bool
  rv_pause_ms :: nat
  rv_required_ms :: nat
  rv_prefix_sample :: "sample option"
  rv_speech_positive_after :: "(nat \<times> nat) option"

datatype endpoint_event =
    EventPending route sample sample route_evidence
  | EventRevoked sample sample nat
  | EventCommit commit
  | EventClose turn_close_reason close_cause "sample option"
  | EventReopen sample

record utterance_trace =
  ut_config :: turn_config
  ut_kind :: trace_kind
  ut_epoch :: epoch
  ut_start :: sample
  ut_trigger :: sample
  ut_guard_until :: "sample option"
  ut_command_start :: "sample option"
  ut_answer_start :: "sample option"
  ut_foreground_db :: "real option"
  ut_foreground_seeded :: bool
  ut_command_cells :: nat
  ut_evidence :: evidence_counts
  ut_segments :: "trace_segment list"
  ut_streaming_text :: utext
  ut_heard :: utext
  ut_text :: "text_change list"
  ut_finalized_at :: "sample list"
  ut_pauses :: "pause_record list"
  ut_recognizer :: "recognizer_record list"
  ut_endpoint :: "endpoint_event list"
  ut_frontier :: "sample option"

definition push_cell :: "cell_class \<Rightarrow> class_rule \<Rightarrow> sample \<Rightarrow> sample \<Rightarrow> trace_segment list \<Rightarrow> trace_segment list" where
  "push_cell class rule start stop segments =
     (if segments \<noteq> [] \<and> sm_class (last segments) = class \<and> sm_rule (last segments) = rule \<and> sm_end (last segments) = start
      then butlast segments @ [(last segments)\<lparr>sm_end := stop\<rparr>]
      else segments @ [\<lparr>sm_class = class, sm_rule = rule, sm_start = start, sm_end = stop\<rparr>])"

section \<open>The policy\<close>

record cell_record =
  cr_class :: cell_class
  cr_speech_positive :: bool
  cr_end :: sample

record judged =
  ju_text :: utext
  ju_class :: "text_class option"

record pending_end =
  pe_route :: route
  pe_boundary :: sample
  pe_since :: sample
  pe_judged :: judged

record asked =
  ak_text :: utext
  ak_at :: mono_instant
  ak_record :: nat

record server_arrival =
  va_answer :: pause_server_answer
  va_from :: sample
  va_at :: mono_instant

text \<open>The buffer for released evidence is not state: it is empty between operations.\<close>

record turn_policy =
  tp_config :: turn_config
  tp_spec :: turn_spec
  tp_evidence :: assembler
  tp_classifier :: classifier
  tp_background :: background_level
  tp_foreground :: foreground_level
  tp_seed :: "int list option"
  tp_text :: text_tracker
  tp_class :: "text_class option"
  tp_grammar_class :: "text_class option"
  tp_answers :: "(utext \<times> text_class) list"
  tp_asked :: "asked list"
  tp_arrived :: "(recognizer_answer \<times> mono_instant) list"
  tp_server_asked :: "(sample \<times> mono_instant) list"
  tp_server_arrived :: "server_arrival list"
  tp_kroko_texts :: "utext list"
  tp_server_texts :: "utext list"
  tp_cells :: "cell_record list"
  tp_frontier :: "sample option"
  tp_command_cells :: nat
  tp_dated_back_cells :: nat
  tp_command_ends :: "sample list"
  tp_command_start :: "sample option"
  tp_run_start :: "sample option"
  tp_last_speech_positive_end :: "sample option"
  tp_pending :: "pending_end option"
  tp_reply_gap_end :: "sample option"
  tp_last_progress :: mono_instant
  tp_finished :: bool
  tp_trace :: utterance_trace

abbreviation policy_values :: "turn_policy \<Rightarrow> endpoint_policy" where
  "policy_values p \<equiv> tc_endpoint (tp_config p)"

definition reply_of :: "turn_policy \<Rightarrow> reply_spec option" where
  "reply_of p = (case ts_kind (tp_spec p) of ReplyTurn r \<Rightarrow> Some r | _ \<Rightarrow> None)"

definition is_reply :: "turn_policy \<Rightarrow> bool" where
  "is_reply p = (reply_of p \<noteq> None)"

definition is_ha_reply :: "turn_policy \<Rightarrow> bool" where
  "is_ha_reply p = (case reply_of p of Some r \<Rightarrow> rs_origin r = HaConversation | None \<Rightarrow> False)"

definition turn_policy_new :: "turn_config \<Rightarrow> turn_spec \<Rightarrow> mono_instant \<Rightarrow> (evidence_error, turn_policy) result" where
  "turn_policy_new config spec now =
     (case assembler_new (evidence_plan_of spec) of
        Inl e \<Rightarrow> Inl e
      | Inr evidence \<Rightarrow>
          let reply = (case ts_kind spec of ReplyTurn r \<Rightarrow> Some \<lparr>ra_guard_until = rs_guard_until r\<rparr> | _ \<Rightarrow> None);
              wake = (case ts_kind spec of
                        WakeTurn w \<Rightarrow> Some \<lparr>wc_lookahead_end = sample_add (wa_candidate_open w) (samples_from_ms 480),
                                             wc_phrase = wa_phrase w\<rparr>
                      | _ \<Rightarrow> None);
              kind = (case ts_kind spec of
                        WakeTurn _ \<Rightarrow> TraceWake
                      | ButtonTurn \<Rightarrow> TraceButton
                      | ReplyTurn r \<Rightarrow> if rs_origin r = HaConversation then TraceHaReply else TraceReply);
              trace = \<lparr>ut_config = config, ut_kind = kind, ut_epoch = ts_epoch spec, ut_start = ts_start spec,
                       ut_trigger = ts_trigger spec, ut_guard_until = Option.bind reply ra_guard_until,
                       ut_command_start = None, ut_answer_start = None, ut_foreground_db = None,
                       ut_foreground_seeded = False, ut_command_cells = 0, ut_evidence = evidence_counts_default,
                       ut_segments = [], ut_streaming_text = [], ut_heard = [], ut_text = [], ut_finalized_at = [],
                       ut_pauses = [], ut_recognizer = [], ut_endpoint = [], ut_frontier = None\<rparr>
          in Inr \<lparr>tp_config = config, tp_spec = spec, tp_evidence = evidence,
                  tp_classifier = classifier_new (tc_attribution config) (ts_trigger spec) reply,
                  tp_background = background_new (atp_non_speech_max (tc_attribution config)),
                  tp_foreground = foreground_new, tp_seed = Some [], tp_text = tracker_new (ts_trigger spec) wake,
                  tp_class = None, tp_grammar_class = None, tp_answers = [], tp_asked = [], tp_arrived = [],
                  tp_server_asked = [], tp_server_arrived = [], tp_kroko_texts = [], tp_server_texts = [],
                  tp_cells = [], tp_frontier = None, tp_command_cells = 0, tp_dated_back_cells = 0,
                  tp_command_ends = [], tp_command_start = None, tp_run_start = None,
                  tp_last_speech_positive_end = None, tp_pending = None, tp_reply_gap_end = None,
                  tp_last_progress = now, tp_finished = False, tp_trace = trace\<rparr>)"

end
