(* ===== verification/Turn_Endpoint.thy ===== *)
theory Turn_Endpoint
  imports Turn_Policy
begin

text \<open>
  The operations of the endpoint policy (\<open>TurnPolicy\<close> in \<open>crates/turn/src/endpoint.rs\<close>): each takes the policy and
  returns it changed, with the decisions it appended. The grammar is an argument (a function from texts to
  classes), as are the Unicode tables \<open>uc\<close> and the rounding \<open>fl\<close>.
\<close>

type_synonym step = "turn_policy \<times> decision list"

section \<open>Queries\<close>

text \<open>Any command speech after the trigger.\<close>

definition command_start_any :: "turn_policy \<Rightarrow> sample option" where
  "command_start_any p =
     (if tp_command_cells p > 0
      then Some (case tp_command_start p of Some s \<Rightarrow> s | None \<Rightarrow> ts_trigger (tp_spec p)) else None)"

definition turn_deadline :: "turn_policy \<Rightarrow> mono_instant option" where
  "turn_deadline p =
     (if tp_finished p then None
      else
        let stall = mono_after (tp_last_progress p) (millis (np_evidence_stall_ms (policy_values p))) in
        case reply_of p of
          Some r \<Rightarrow> Some (if command_start_any p = None then min stall (rs_wall_deadline r) else stall)
        | None \<Rightarrow> Some stall)"

definition command_ms :: "turn_policy \<Rightarrow> samples" where
  "command_ms p = (tp_command_cells p + tp_dated_back_cells p) * CELL_SAMPLES"

definition command_cells_since :: "sample \<Rightarrow> turn_policy \<Rightarrow> nat" where
  "command_cells_since since p =
     length (filter (\<lambda>c. cr_class c = CommandSpeech) (takeWhile (\<lambda>c. cr_end c > since) (rev (tp_cells p))))"

definition last_command_end_by :: "sample \<Rightarrow> turn_policy \<Rightarrow> sample option" where
  "last_command_end_by t p =
     (let i = length (takeWhile (\<lambda>e. e \<le> t) (tp_command_ends p)) in
      if i = 0 then None else Some (tp_command_ends p ! (i - 1)))"

definition judged_now :: "turn_policy \<Rightarrow> judged" where
  "judged_now p = \<lparr>ju_text = tx_prefix (tp_text p), ju_class = tp_class p\<rparr>"

section \<open>Ending\<close>

definition note_event :: "endpoint_event \<Rightarrow> turn_policy \<Rightarrow> turn_policy" where
  "note_event e p = p\<lparr>tp_trace := (tp_trace p)\<lparr>ut_endpoint := ut_endpoint (tp_trace p) @ [e]\<rparr>\<rparr>"

definition close :: "turn_close_reason \<Rightarrow> close_cause \<Rightarrow> turn_policy \<Rightarrow> step" where
  "close reason cause p =
     (if tp_finished p then (p, [])
      else (note_event (EventClose reason cause (tp_frontier p)) (p\<lparr>tp_finished := True\<rparr>), [Close reason (tp_frontier p)]))"

definition reopen :: "sample \<Rightarrow> turn_policy \<Rightarrow> step" where
  "reopen gap_end p =
     (case reply_of p of
        None \<Rightarrow> (p, [])
      | Some r \<Rightarrow>
          (note_event (EventReopen gap_end) (p\<lparr>tp_finished := True\<rparr>),
           [ReopenReply \<lparr>rr_start = gap_end, rr_trigger = max gap_end (ts_trigger (tp_spec p)),
                         rr_no_input_at = rs_no_input_at r\<rparr>]))"

definition span_end_of :: "sample \<Rightarrow> sample \<Rightarrow> turn_policy \<Rightarrow> span_end" where
  "span_end_of boundary decided p =
     (let v = policy_values p;
          cell_bound = sample_add boundary (np_lookahead v);
          last_word = last_command_word_by decided (tp_text p)
      in case map_option (\<lambda>w. sample_add w (np_asr_word_margin v)) last_word of
           Some word \<Rightarrow>
             if word > cell_bound then \<lparr>se_end = word, se_bound = BoundAsrWord, se_last_word = last_word\<rparr>
             else \<lparr>se_end = cell_bound, se_bound = BoundCell, se_last_word = last_word\<rparr>
         | None \<Rightarrow> \<lparr>se_end = cell_bound, se_bound = BoundCell, se_last_word = last_word\<rparr>)"

definition commit_of :: "route \<Rightarrow> sample \<Rightarrow> span_end \<Rightarrow> sample \<Rightarrow> judged \<Rightarrow> turn_policy \<Rightarrow> commit" where
  "commit_of route boundary e frontier j p =
     (let start = (if is_reply p
                   then (case ut_answer_start (tp_trace p) of
                           Some a \<Rightarrow> max (sample_sub a (np_reply_span_lead (policy_values p))) (ts_start (tp_spec p))
                         | None \<Rightarrow> ts_start (tp_spec p))
                   else ts_start (tp_spec p))
      in \<lparr>co_route = route, co_boundary = boundary, co_span = sample_span_new start (min (se_end e) frontier),
          co_end_bound = se_bound e, co_last_word = se_last_word e, co_at = frontier, co_text = ju_text j,
          co_class = ju_class j, co_recheck = (route = RouteB \<or> route = RouteFallback),
          co_source = (if ju_text j \<in> set (tp_server_texts p) then SourceServer
                       else if ju_text j \<in> set (tp_kroko_texts p) then SourceKroko else SourceStreaming)\<rparr>)"

definition commit_end :: "route \<Rightarrow> sample \<Rightarrow> span_end \<Rightarrow> sample \<Rightarrow> judged \<Rightarrow> turn_policy \<Rightarrow> step" where
  "commit_end route boundary e frontier j p =
     (let c = commit_of route boundary e frontier j p
      in (note_event (EventCommit c) (p\<lparr>tp_finished := True\<rparr>), [Commit c]))"

section \<open>Cells\<close>

definition count_evidence :: "cell_audio \<Rightarrow> real option \<Rightarrow> evidence_counts \<Rightarrow> evidence_counts" where
  "count_evidence audio background e0 =
     (let e = e0\<lparr>en_cells := en_cells e0 + 1,
                 en_background_available := en_background_available e0 + (if background \<noteq> None then 1 else 0)\<rparr>
      in case audio of
           Gap _ \<Rightarrow> e\<lparr>en_gap := en_gap e + 1\<rparr>
         | Present energy _ vad echo \<Rightarrow>
             let e1 = e\<lparr>en_loudness_unknown := en_loudness_unknown e + (if energy = None then 1 else 0),
                        en_vad_unknown := en_vad_unknown e + (if vad = VadUnknown then 1 else 0)\<rparr>;
                 e2 = (case ec_label echo of
                         NoReference \<Rightarrow> e1\<lparr>en_echo_no_reference := en_echo_no_reference e1 + 1\<rparr>
                       | EchoOnly \<Rightarrow> e1\<lparr>en_echo_only := en_echo_only e1 + 1\<rparr>
                       | NearEndPresent \<Rightarrow> e1\<lparr>en_echo_near_end := en_echo_near_end e1 + 1\<rparr>
                       | EchoUnknown \<Rightarrow> e1\<lparr>en_echo_unknown := en_echo_unknown e1 + 1\<rparr>)
             in if ec_coverage echo = CoveragePartial \<or> ec_coverage echo = CoverageMissing
                then e2\<lparr>en_reference_incomplete := en_reference_incomplete e2 + 1\<rparr> else e2)"

text \<open>\<open>F\<close> is seeded once, when the cells reach the trigger.\<close>

definition seed_at_trigger :: "bool \<Rightarrow> turn_policy \<Rightarrow> turn_policy" where
  "seed_at_trigger after_trigger p =
     (case tp_seed p of
        Some seed \<Rightarrow>
          if after_trigger
          then let f = foreground_seed seed (tp_foreground p)
               in p\<lparr>tp_seed := None, tp_foreground := f,
                    tp_trace := (tp_trace p)\<lparr>ut_foreground_seeded := fg_seeded f\<rparr>\<rparr>
          else p
      | None \<Rightarrow> p)"

text \<open>Classifies a cell of the utterance and records it.\<close>

definition judge_cell :: "rounding \<Rightarrow> cell_evidence \<Rightarrow> real option \<Rightarrow> turn_policy \<Rightarrow> cell_class \<times> turn_policy" where
  "judge_cell fl cell background p =
     (let start = cell_start (ce_cell cell); stop = cell_end (ce_cell cell);
          after_trigger = stop > ts_trigger (tp_spec p);
          (j, cl) = classify_cell fl cell background (foreground_db fl (tp_foreground p)) (tp_classifier p);
          tr = tp_trace p;
          positive = speech_positive (atp_speech_positive_min (tc_attribution (tp_config p))) (ce_audio cell)
      in (cd_class j,
          p\<lparr>tp_classifier := cl,
            tp_trace := tr\<lparr>ut_evidence := count_evidence (ce_audio cell) background (ut_evidence tr),
                           ut_segments := push_cell (cd_class j) (cd_rule j) start stop (ut_segments tr),
                           ut_frontier := Some stop\<rparr>,
            tp_frontier := Some stop,
            tp_last_speech_positive_end := (if positive then Some stop else tp_last_speech_positive_end p),
            tp_cells := tp_cells p @ [\<lparr>cr_class = cd_class j, cr_speech_positive = positive, cr_end = stop\<rparr>],
            tp_run_start := (case cd_opened j of Some r \<Rightarrow> Some (ro_start r) | None \<Rightarrow> tp_run_start p),
            tp_dated_back_cells := tp_dated_back_cells p
              + (case cd_opened j of Some r \<Rightarrow> if after_trigger then ro_dated_back_cells r else 0 | None \<Rightarrow> 0)\<rparr>))"

definition collect_seed :: "cell_evidence \<Rightarrow> turn_policy \<Rightarrow> turn_policy" where
  "collect_seed cell p =
     (case (ts_kind (tp_spec p), cell_energy (ce_audio cell), tp_seed p) of
        (WakeTurn w, Some centi, Some seed) \<Rightarrow>
          if cell_start (ce_cell cell) \<ge> wa_support_start w
             \<and> (case cell_vad (ce_audio cell) of Some v \<Rightarrow> v \<ge> atp_non_speech_max (tc_attribution (tp_config p)) | None \<Rightarrow> False)
          then p\<lparr>tp_seed := Some (seed @ [centi])\<rparr> else p
      | _ \<Rightarrow> p)"

definition command_cell :: "rounding \<Rightarrow> cell_evidence \<Rightarrow> turn_policy \<Rightarrow> step" where
  "command_cell fl cell p =
     (let start = cell_start (ce_cell cell); stop = cell_end (ce_cell cell);
          f = (case cell_energy (ce_audio cell) of Some e \<Rightarrow> foreground_add e (tp_foreground p) | None \<Rightarrow> tp_foreground p);
          n = tp_command_cells p + 1;
          first_after = tp_command_start p = None \<and> start \<ge> ts_trigger (tp_spec p);
          tr = tp_trace p;
          answer = (if n = 1 then (case tp_run_start p of Some s \<Rightarrow> Some s | None \<Rightarrow> Some start) else ut_answer_start tr)
      in (p\<lparr>tp_foreground := f, tp_command_cells := n, tp_command_ends := tp_command_ends p @ [stop],
            tp_command_start := (if first_after then Some start else tp_command_start p),
            tp_trace := tr\<lparr>ut_foreground_db := foreground_db fl f, ut_command_cells := n, ut_answer_start := answer,
                           ut_command_start := (if first_after then Some start else ut_command_start tr)\<rparr>\<rparr>,
          if n = 1 then [CommandStarted start] else []))"

definition gap_cell :: "sample \<Rightarrow> bool \<Rightarrow> turn_policy \<Rightarrow> step" where
  "gap_cell stop muted p =
     (if is_reply p \<and> tp_command_cells p = 0 then (p\<lparr>tp_reply_gap_end := Some stop\<rparr>, [])
      else if muted then close Muted CauseMutedCell p else close Interrupted CauseGap p)"

definition on_cell :: "rounding \<Rightarrow> cell_evidence \<Rightarrow> turn_policy \<Rightarrow> step" where
  "on_cell fl cell p0 =
     (let start = cell_start (ce_cell cell); stop = cell_end (ce_cell cell);
          background = background_db fl (tp_background p0);
          p = p0\<lparr>tp_background := background_push (ce_audio cell) (tp_background p0)\<rparr>
      in if start < sample_round_down (ts_start (tp_spec p)) CELL_SAMPLES then (p, [])
         else (case tp_reply_gap_end p of
             Some gap_end \<Rightarrow>
               (case ce_audio cell of
                  Gap _ \<Rightarrow> (p\<lparr>tp_reply_gap_end := Some stop\<rparr>, [])
                | Present _ _ _ _ \<Rightarrow> reopen gap_end p)
           | None \<Rightarrow>
               let after_trigger = stop > ts_trigger (tp_spec p);
                   (class, q) = judge_cell fl cell background (seed_at_trigger after_trigger p)
               in (case ce_audio cell of
                     Gap muted \<Rightarrow> gap_cell stop muted q
                   | Present _ _ _ _ \<Rightarrow>
                       if \<not> after_trigger then (collect_seed cell q, [])
                       else if class = CommandSpeech then command_cell fl cell q else (q, []))))"

section \<open>Answers\<close>

definition recognizer_answer_in :: "recognizer_answer \<Rightarrow> mono_instant \<Rightarrow> turn_policy \<Rightarrow> turn_policy" where
  "recognizer_answer_in answer now p =
     (if tp_finished p then p else p\<lparr>tp_arrived := tp_arrived p @ [(answer, now)]\<rparr>)"

definition pause_server_asked :: "sample \<Rightarrow> mono_instant \<Rightarrow> turn_policy \<Rightarrow> turn_policy" where
  "pause_server_asked pause now p =
     (if tp_finished p then p else p\<lparr>tp_server_asked := tp_server_asked p @ [(pause, now)]\<rparr>)"

definition pause_server_answer_in :: "pause_server_answer \<Rightarrow> mono_instant \<Rightarrow> turn_policy \<Rightarrow> turn_policy" where
  "pause_server_answer_in answer now p =
     (if tp_finished p then p
      else
        let from_block = (case as_last_through (tp_evidence p) of
              Some pushed \<Rightarrow> if pushed \<ge> psa_pause answer then pushed + 1 else psa_pause answer
            | None \<Rightarrow> psa_pause answer)
        in p\<lparr>tp_server_arrived := tp_server_arrived p @ [\<lparr>va_answer = answer, va_from = from_block, va_at = now\<rparr>]\<rparr>)"

definition server_ms :: "sample \<Rightarrow> mono_instant \<Rightarrow> turn_policy \<Rightarrow> nat option" where
  "server_ms pause now p =
     map_option (\<lambda>(_, asked_at). mono_since now asked_at div 1000000)
       (List.find (\<lambda>(q, _). q = pause) (rev (tp_server_asked p)))"

definition supersede_server :: "mono_instant \<Rightarrow> turn_policy \<Rightarrow> turn_policy" where
  "supersede_server now p =
     p\<lparr>tp_trace := (tp_trace p)\<lparr>ut_pauses := map (\<lambda>r.
         case (pr_server r, server_ms (pr_through r) now p) of
           (Some s, Some ms) \<Rightarrow>
             if pause_is_open s then r\<lparr>pr_server := Some (s\<lparr>pz_ms := Some ms, pz_error := Some PauseSuperseded\<rparr>)\<rparr> else r
         | _ \<Rightarrow> r) (ut_pauses (tp_trace p))\<rparr>\<rparr>"

text \<open>Changes the last element that satisfies the condition.\<close>

fun update_first_match :: "('a \<Rightarrow> bool) \<Rightarrow> ('a \<Rightarrow> 'a) \<Rightarrow> 'a list \<Rightarrow> 'a list" where
  "update_first_match P f [] = []"
| "update_first_match P f (x # xs) = (if P x then f x # xs else x # update_first_match P f xs)"

definition update_last :: "('a \<Rightarrow> bool) \<Rightarrow> ('a \<Rightarrow> 'a) \<Rightarrow> 'a list \<Rightarrow> 'a list" where
  "update_last P f xs = rev (update_first_match P f (rev xs))"

text \<open>One due answer of the pause server; whether its words stand.\<close>

definition take_arrival :: "unicode \<Rightarrow> server_arrival \<Rightarrow> bool \<times> turn_policy \<Rightarrow> bool \<times> turn_policy" where
  "take_arrival uc arrival st =
     (let (stood, p) = st;
          pause = psa_pause (va_answer arrival);
          ms = server_ms pause (va_at arrival) p;
          set_server = (\<lambda>s. update_last (\<lambda>r. pr_through r = pause) (\<lambda>r. r\<lparr>pr_server := Some s\<rparr>));
          with_server = (\<lambda>s q. q\<lparr>tp_trace := (tp_trace q)\<lparr>ut_pauses := set_server s (ut_pauses (tp_trace q))\<rparr>\<rparr>)
      in case Option.bind (List.find (\<lambda>r. pr_through r = pause) (rev (ut_pauses (tp_trace p)))) pr_server of
           None \<Rightarrow> (stood, p)
         | Some server \<Rightarrow>
             if \<not> pause_is_open server then (stood, p)
             else (case psa_outcome (va_answer arrival) of
                     Inr t \<Rightarrow>
                       let words = trim_text uc t;
                           q = with_server (server\<lparr>pz_ms := ms, pz_text := Some words\<rparr>) p
                       in if words \<noteq> []
                          then let (ok, x) = stand_server pause words (tp_text q) in (stood \<or> ok, q\<lparr>tp_text := x\<rparr>)
                          else (stood, q)
                   | Inl failure \<Rightarrow> (stood, with_server (server\<lparr>pz_ms := ms, pz_error := Some (pause_error_from failure)\<rparr>) p)))"

definition take_server_answers :: "unicode \<Rightarrow> sample \<Rightarrow> turn_policy \<Rightarrow> bool \<times> turn_policy" where
  "take_server_answers uc through p =
     (let due = filter (\<lambda>a. va_from a \<le> through) (tp_server_arrived p);
          waiting = filter (\<lambda>a. \<not> va_from a \<le> through) (tp_server_arrived p)
      in fold (take_arrival uc) due (False, p\<lparr>tp_server_arrived := waiting\<rparr>))"

definition refresh_class :: "turn_policy \<Rightarrow> turn_policy" where
  "refresh_class p =
     p\<lparr>tp_class := (case tp_grammar_class p of
         None \<Rightarrow> None
       | Some TextUnknown \<Rightarrow>
           Some (case List.find (\<lambda>(t, _). t = tx_prefix (tp_text p)) (tp_answers p) of Some (_, c) \<Rightarrow> c | None \<Rightarrow> TextUnknown)
       | Some c \<Rightarrow> Some c)\<rparr>"

definition set_recognizer :: "(recognizer_record list \<Rightarrow> recognizer_record list) \<Rightarrow> turn_policy \<Rightarrow> turn_policy" where
  "set_recognizer f p = p\<lparr>tp_trace := (tp_trace p)\<lparr>ut_recognizer := f (ut_recognizer (tp_trace p))\<rparr>\<rparr>"

definition apply_answer :: "sample \<Rightarrow> recognizer_answer \<times> mono_instant \<Rightarrow> turn_policy \<Rightarrow> turn_policy" where
  "apply_answer block arrived p =
     (let (answer, at_time) = arrived in
      case List.find (\<lambda>k. ak_text k = rc_text answer) (tp_asked p) of
        None \<Rightarrow>
          set_recognizer (\<lambda>rs. rs @ [\<lparr>rz_text = rc_text answer, rz_asked_at = block, rz_class = None, rz_applied_at = None,
              rz_round_trip_ms = None, rz_error = Some NotAsked\<rparr>]) p
      | Some k \<Rightarrow>
          let round_trip = mono_since at_time (ak_at k);
              rec = ut_recognizer (tp_trace p) ! ak_record k;
              timed = rec\<lparr>rz_round_trip_ms := Some (round_trip div 1000000)\<rparr>;
              put = (\<lambda>r. set_recognizer (\<lambda>rs. rs[ak_record k := r]) p)
          in if rz_applied_at rec \<noteq> None \<or> rz_error rec \<noteq> None then p
             else if round_trip > millis (np_recognizer_limit_ms (policy_values p))
               then put (timed\<lparr>rz_error := Some RecognizerTimeout\<rparr>)
             else (case rc_outcome answer of
                     Inr class \<Rightarrow>
                       let q = put (timed\<lparr>rz_class := Some class, rz_applied_at := Some block\<rparr>)
                       in q\<lparr>tp_answers := tp_answers q @ [(rc_text answer, class)]\<rparr>
                   | Inl e \<Rightarrow> put (timed\<lparr>rz_error := Some e\<rparr>)))"

definition apply_answers :: "sample \<Rightarrow> turn_policy \<Rightarrow> turn_policy" where
  "apply_answers block p = refresh_class (fold (apply_answer block) (tp_arrived p) (p\<lparr>tp_arrived := []\<rparr>))"

section \<open>Routes\<close>

definition route_evidence_of :: "samples \<Rightarrow> samples \<Rightarrow> turn_policy \<Rightarrow> route_evidence" where
  "route_evidence_of pause required p =
     \<lparr>rv_class = tp_class p, rv_command_ms = samples_as_ms (command_ms p), rv_quiet_votes = None,
      rv_trailing_quiet_ms = None, rv_finalized = False, rv_pause_ms = samples_as_ms pause,
      rv_required_ms = samples_as_ms required, rv_prefix_sample = None, rv_speech_positive_after = None\<rparr>"

fun votes_quiet :: "bool \<Rightarrow> cell_class \<Rightarrow> bool" where
  "votes_quiet background_quiet NonSpeech = True"
| "votes_quiet background_quiet SelfOutput = True"
| "votes_quiet background_quiet BackgroundSpeech = background_quiet"
| "votes_quiet background_quiet _ = False"

definition quiet_votes :: "text_class \<Rightarrow> turn_policy \<Rightarrow> nat" where
  "quiet_votes class p =
     length (filter (\<lambda>c. votes_quiet (class = NeedsMore \<or> class = TextUnknown) (cr_class c))
       (take (np_vote_cells (policy_values p)) (rev (tp_cells p))))"

definition route_a :: "sample \<Rightarrow> sample \<Rightarrow> sample \<Rightarrow> turn_policy \<Rightarrow> (route \<times> sample \<times> route_evidence) option" where
  "route_a frontier through last_cmd_end p =
     (case tp_class p of
        None \<Rightarrow> None
      | Some class \<Rightarrow>
          let v = policy_values p;
              quiet = quiet_votes class p;
              trailing = trailing_quiet_of through
                (case tp_last_speech_positive_end p of Some t \<Rightarrow> t | None \<Rightarrow> ts_start (tp_spec p)) (tp_text p);
              pause = sample_since frontier last_cmd_end;
              required = pause_for v class
          in if command_ms p < np_min_command v \<or> tx_prefix (tp_text p) = [] then None
             else if quiet < np_vote_quiet_min v then None
             else if quiet_samples trailing < quiet_samples (Blanks (np_trailing_blanks_min v)) then None
             else if pause < required then None
             else Some (RouteA, last_cmd_end, (route_evidence_of pause required p)\<lparr>rv_quiet_votes := Some quiet,
                    rv_trailing_quiet_ms := Some (samples_as_ms (quiet_samples trailing)),
                    rv_finalized := finalized_standing (tp_text p)\<rparr>))"

definition speech_after :: "sample \<Rightarrow> turn_policy \<Rightarrow> cell_record list" where
  "speech_after ps p = filter cr_speech_positive (takeWhile (\<lambda>c. cr_end c > ps) (rev (tp_cells p)))"

definition route_b :: "sample \<Rightarrow> turn_policy \<Rightarrow> (route \<times> sample \<times> route_evidence) option" where
  "route_b frontier p =
     (if tp_class p \<noteq> Some Complete then None
      else case tx_prefix_sample (tp_text p) of
        None \<Rightarrow> None
      | Some ps \<Rightarrow>
          let v = policy_values p;
              pause = sample_since frontier ps;
              positive = length (speech_after ps p);
              background = length (filter (\<lambda>c. cr_class c = BackgroundSpeech) (speech_after ps p))
          in if pause < np_pause_complete v then None
             else if positive = 0 \<or> background * 100 < positive * np_background_share_percent v then None
             else map_option (\<lambda>boundary. (RouteB, boundary, (route_evidence_of pause (np_pause_complete v) p)
                      \<lparr>rv_prefix_sample := Some ps, rv_speech_positive_after := Some (positive, background)\<rparr>))
                    (last_command_end_by ps p))"

definition route_r :: "sample \<Rightarrow> sample \<Rightarrow> turn_policy \<Rightarrow> (route \<times> sample \<times> route_evidence) option" where
  "route_r frontier last_cmd_end p =
     (let pause = sample_since frontier last_cmd_end; required = np_ha_reply_pause (policy_values p) in
      if pause \<ge> required then Some (RouteR, last_cmd_end, route_evidence_of pause required p) else None)"

definition choose_route :: "sample \<Rightarrow> sample \<Rightarrow> turn_policy \<Rightarrow> (route \<times> sample \<times> route_evidence) option" where
  "choose_route frontier through p =
     (let last_cmd_end = last (tp_command_ends p) in
      if is_ha_reply p then route_r frontier last_cmd_end p
      else (case route_a frontier through last_cmd_end p of Some r \<Rightarrow> Some r | None \<Rightarrow> route_b frontier p))"

section \<open>Evaluation\<close>

definition no_input_limit :: "turn_policy \<Rightarrow> sample" where
  "no_input_limit p =
     (case reply_of p of
        Some r \<Rightarrow> rs_no_input_at r
      | None \<Rightarrow> sample_add (ts_trigger (tp_spec p)) (np_no_input (policy_values p)))"

definition max_length :: "turn_policy \<Rightarrow> samples" where
  "max_length p =
     (if tc_extended_utterances (tp_config p) then np_max_extended_utterance (policy_values p)
      else np_max_utterance (policy_values p))"

definition long_from :: "turn_policy \<Rightarrow> sample option" where
  "long_from p = (if is_reply p then command_start_any p else Some (ts_trigger (tp_spec p)))"

definition evaluate_pending :: "sample \<Rightarrow> pending_end \<Rightarrow> turn_policy \<Rightarrow> step" where
  "evaluate_pending frontier pd p =
     (let v = policy_values p; after = command_cells_since (pe_since pd) p in
      if after \<ge> np_revoke_command_cells v
      then (note_event (EventRevoked (pe_boundary pd) frontier after) (p\<lparr>tp_pending := None\<rparr>),
            [EndRevoked (pe_boundary pd) frontier])
      else
        let e = span_end_of (pe_boundary pd) (pe_since pd) p in
        if sample_since frontier (max (pe_since pd) (se_end e)) \<ge> np_lookahead v
        then commit_end (pe_route pd) (pe_boundary pd) e frontier (pe_judged pd) (p\<lparr>tp_pending := None\<rparr>)
        else (p, []))"

definition evaluate_no_progress :: "sample \<Rightarrow> sample \<Rightarrow> turn_policy \<Rightarrow> step" where
  "evaluate_no_progress frontier command_start p =
     (let progress = max (tx_progress_sample (tp_text p)) command_start in
      if sample_since frontier progress \<ge> np_no_progress (policy_values p)
      then (case (case (tp_class p, tx_prefix_sample (tp_text p)) of
                    (Some Complete, Some ps) \<Rightarrow> last_command_end_by ps p | _ \<Rightarrow> None) of
              Some b \<Rightarrow> commit_end RouteFallback b (span_end_of b frontier p) frontier (judged_now p) p
            | None \<Rightarrow> close Retry CauseNoProgress p)
      else (p, []))"

definition evaluate :: "sample \<Rightarrow> sample \<Rightarrow> turn_policy \<Rightarrow> step" where
  "evaluate frontier through p =
     (let command = command_start_any p in
      if command = None \<and> frontier \<ge> no_input_limit p then close NoInput CauseLimit p
      else if (case long_from p of Some t \<Rightarrow> sample_since frontier t \<ge> max_length p | None \<Rightarrow> False)
        then close TooLong CauseLimit p
      else case tp_pending p of
        Some pd \<Rightarrow> evaluate_pending frontier pd p
      | None \<Rightarrow>
          (case command of
             None \<Rightarrow> (p, [])
           | Some command_start \<Rightarrow>
               (case choose_route frontier through p of
                  Some (route, boundary, evidence) \<Rightarrow>
                    (note_event (EventPending route boundary frontier evidence)
                       (p\<lparr>tp_pending := Some \<lparr>pe_route = route, pe_boundary = boundary, pe_since = frontier,
                                              pe_judged = judged_now p\<rparr>\<rparr>),
                     [EndPending route boundary frontier])
                | None \<Rightarrow> evaluate_no_progress frontier command_start p)))"

section \<open>Blocks\<close>

definition add_text :: "utext \<Rightarrow> utext list \<Rightarrow> utext list" where
  "add_text t ts = (if t \<in> set ts then ts else ts @ [t])"

definition update_last_pause :: "(pause_record \<Rightarrow> pause_record) \<Rightarrow> turn_policy \<Rightarrow> turn_policy" where
  "update_last_pause f p =
     p\<lparr>tp_trace := (tp_trace p)\<lparr>ut_pauses := (let ps = ut_pauses (tp_trace p) in
         if ps = [] then [] else butlast ps @ [f (last ps)])\<rparr>\<rparr>"

text \<open>Takes a block's result and the answers due by it; whether server words stood and whether the prefix changed.\<close>

definition take_block :: "unicode \<Rightarrow> asr_observation \<Rightarrow> mono_instant \<Rightarrow> turn_policy \<Rightarrow> bool \<times> bool \<times> turn_policy" where
  "take_block uc obs now p0 =
     (let through = ao_through obs;
          finalized = (ao_kind obs = AsrFinalized);
          p1 = (if finalized
                then supersede_server now (p0\<lparr>tp_trace := (tp_trace p0)\<lparr>ut_finalized_at := ut_finalized_at (tp_trace p0) @ [through]\<rparr>\<rparr>)
                else p0);
          p2 = apply_answers through p1;
          (ended, x) = take_result obs (tp_text p2);
          p3 = p2\<lparr>tp_text := x\<rparr>;
          p4 = (if ended then supersede_server now p3 else p3);
          p5 = (if finalized
                then p4\<lparr>tp_trace := (tp_trace p4)\<lparr>ut_pauses := ut_pauses (tp_trace p4)
                       @ [\<lparr>pr_through = through,
                           pr_kroko = pause_words_default\<lparr>pz_text := Some (trim_text uc (concat (map tk_text (ao_tokens obs))))\<rparr>,
                           pr_server = (if tc_pause_server (tp_config p4) then Some pause_words_default else None)\<rparr>]\<rparr>\<rparr>
                else p4);
          (stood, p6) = take_server_answers uc through p5;
          (changed, y) = settle_text uc through (tp_text p6)
      in (stood, changed, p6\<lparr>tp_text := y\<rparr>))"

definition note_judged :: "sample \<Rightarrow> bool \<Rightarrow> bool \<Rightarrow> turn_policy \<Rightarrow> turn_policy" where
  "note_judged through finalized stood p =
     (let prefix = tx_prefix (tp_text p);
          p1 = (if finalized \<and> \<not> stood \<and> ut_pauses (tp_trace p) \<noteq> []
                then (update_last_pause (\<lambda>r. r\<lparr>pr_kroko := (pr_kroko r)\<lparr>pz_judged := Some prefix, pz_at := Some through\<rparr>\<rparr>) p)
                       \<lparr>tp_kroko_texts := add_text prefix (tp_kroko_texts p)\<rparr>
                else p);
          server = (if ut_pauses (tp_trace p1) = [] then None else pr_server (last (ut_pauses (tp_trace p1))))
      in case server of
           Some s \<Rightarrow>
             if stood \<and> pz_at s = None
             then (update_last_pause (\<lambda>r. r\<lparr>pr_server := Some (s\<lparr>pz_judged := Some prefix, pz_at := Some through\<rparr>)\<rparr>) p1)
                    \<lparr>tp_server_texts := add_text prefix (tp_server_texts p1)\<rparr>
             else p1
         | None \<Rightarrow> p1)"

text \<open>Judges a changed prefix; whether the sentence matcher is to be asked about it.\<close>

definition judge_text :: "(utext \<Rightarrow> text_class) \<Rightarrow> sample \<Rightarrow> bool \<Rightarrow> turn_policy \<Rightarrow> bool \<times> turn_policy" where
  "judge_text grammar through changed p =
     (if \<not> changed then (False, p)
      else
        let prefix = tx_prefix (tp_text p);
            class = (if prefix \<noteq> [] then Some (grammar prefix) else None);
            ask = (class = Some TextUnknown \<and> tc_recognizer_available (tp_config p) \<and> \<not> is_ha_reply p
                   \<and> \<not> list_ex (\<lambda>k. ak_text k = prefix) (tp_asked p));
            change = \<lparr>xc_text = prefix, xc_grammar = class, xc_at = through, xc_source = tracker_source (tp_text p)\<rparr>
        in (ask, refresh_class (p\<lparr>tp_grammar_class := class,
                   tp_trace := (tp_trace p)\<lparr>ut_text := ut_text (tp_trace p) @ [change]\<rparr>\<rparr>)))"

definition ask_matcher :: "sample \<Rightarrow> mono_instant \<Rightarrow> turn_policy \<Rightarrow> step" where
  "ask_matcher through now p =
     (let prefix = tx_prefix (tp_text p);
          q = p\<lparr>tp_asked := tp_asked p @ [\<lparr>ak_text = prefix, ak_at = now, ak_record = length (ut_recognizer (tp_trace p))\<rparr>]\<rparr>
      in (set_recognizer (\<lambda>rs. rs @ [\<lparr>rz_text = prefix, rz_asked_at = through, rz_class = None, rz_applied_at = None,
             rz_round_trip_ms = None, rz_error = None\<rparr>]) q, [AskRecognizer prefix]))"

definition on_block ::
    "unicode \<Rightarrow> (utext \<Rightarrow> text_class) \<Rightarrow> asr_observation \<Rightarrow> mono_instant \<Rightarrow> turn_policy \<Rightarrow> step" where
  "on_block uc grammar obs now p0 =
     (let through = ao_through obs;
          (stood, changed, p1) = take_block uc obs now p0;
          (ask, p2) = judge_text grammar through changed (note_judged through (ao_kind obs = AsrFinalized) stood p1);
          p3 = p2\<lparr>tp_trace := (tp_trace p2)\<lparr>ut_streaming_text := tx_streaming_text (tp_text p2), ut_heard := heard_text (tp_text p2)\<rparr>\<rparr>;
          (p4, ds) = (case (tp_reply_gap_end p3, tp_frontier p3) of
                        (None, Some frontier) \<Rightarrow> evaluate frontier through p3 | _ \<Rightarrow> (p3, []));
          (p5, es) = (if ask \<and> \<not> tp_finished p4 then ask_matcher through now p4 else (p4, []))
      in (p5, ds @ es))"

section \<open>Operations of the runtime\<close>

definition on_released ::
    "unicode \<Rightarrow> rounding \<Rightarrow> (utext \<Rightarrow> text_class) \<Rightarrow> mono_instant \<Rightarrow> released \<Rightarrow> step \<Rightarrow> step" where
  "on_released uc fl grammar now item s =
     (let (p, out) = s in
      if tp_finished p then s
      else let (q, ds) = (case item of
                  ReleasedCell cell \<Rightarrow> on_cell fl cell p
                | ReleasedBlock obs \<Rightarrow> on_block uc grammar obs now (p\<lparr>tp_last_progress := now\<rparr>))
           in (q, out @ ds))"

definition advance_turn :: "unicode \<Rightarrow> rounding \<Rightarrow> (utext \<Rightarrow> text_class) \<Rightarrow> mono_instant \<Rightarrow> turn_policy \<Rightarrow> step" where
  "advance_turn uc fl grammar now p =
     (if tp_finished p then (p, [])
      else let (items, evidence) = release_evidence ([], tp_evidence p)
           in fold (on_released uc fl grammar now) items (p\<lparr>tp_evidence := evidence\<rparr>, []))"

definition on_timer :: "mono_instant \<Rightarrow> turn_policy \<Rightarrow> step" where
  "on_timer now p =
     (if tp_finished p then (p, [])
      else if (case reply_of p of Some r \<Rightarrow> command_start_any p = None \<and> now \<ge> rs_wall_deadline r | None \<Rightarrow> False)
        then close NoInput CauseReplyWallClock p
      else if mono_since now (tp_last_progress p) \<ge> millis (np_evidence_stall_ms (policy_values p))
        then close Interrupted CauseEvidenceStalled p
      else (p, []))"

definition turn_mute :: "turn_policy \<Rightarrow> step" where
  "turn_mute p = close Muted CauseMute p"

definition turn_session_lost :: "turn_policy \<Rightarrow> step" where
  "turn_session_lost p = close SessionLost CauseSessionLost p"

definition turn_audio_overrun :: "turn_policy \<Rightarrow> step" where
  "turn_audio_overrun p = close AudioOverrun CauseOverrun p"

definition turn_worker_error :: "turn_policy \<Rightarrow> step" where
  "turn_worker_error p = close Interrupted CauseWorkerError p"

definition turn_discontinuity :: "turn_policy \<Rightarrow> step" where
  "turn_discontinuity p = close Interrupted CauseDiscontinuity p"

end
