(* ===== verification/Turn_Protocol.thy ===== *)
theory Turn_Protocol
  imports Turn_Endpoint
begin

text \<open>
  What the runtime may rely on: the decisions of a turn (\<open>crates/turn/src/endpoint.rs\<close>) follow a small protocol,
  whatever evidence, answers, timers and failures arrive, and whatever the grammar says. The protocol is an
  abstract machine; the policy refines it.
\<close>

section \<open>Specification\<close>

text \<open>Everything the runtime can do to a turn.\<close>

datatype turn_op =
    Feed evidence_op
  | Advance mono_instant
  | RecognizerAnswered recognizer_answer mono_instant
  | ServerAsked sample mono_instant
  | ServerAnswered pause_server_answer mono_instant
  | Timer mono_instant
  | MuteTurn
  | LoseSession
  | Overrun
  | WorkerError
  | Discontinuity

definition feed_evidence :: "evidence_op \<Rightarrow> turn_policy \<Rightarrow> turn_policy" where
  "feed_evidence op p = (case evidence_push op (tp_evidence p) of Inl _ \<Rightarrow> p | Inr a \<Rightarrow> p\<lparr>tp_evidence := a\<rparr>)"

fun turn_op_step :: "unicode \<Rightarrow> rounding \<Rightarrow> (utext \<Rightarrow> text_class) \<Rightarrow> turn_op \<Rightarrow> turn_policy \<Rightarrow> step" where
  "turn_op_step uc fl grammar (Feed op) p = (feed_evidence op p, [])"
| "turn_op_step uc fl grammar (Advance now) p = advance_turn uc fl grammar now p"
| "turn_op_step uc fl grammar (RecognizerAnswered answer now) p = (recognizer_answer_in answer now p, [])"
| "turn_op_step uc fl grammar (ServerAsked pause now) p = (pause_server_asked pause now p, [])"
| "turn_op_step uc fl grammar (ServerAnswered answer now) p = (pause_server_answer_in answer now p, [])"
| "turn_op_step uc fl grammar (Timer now) p = on_timer now p"
| "turn_op_step uc fl grammar MuteTurn p = turn_mute p"
| "turn_op_step uc fl grammar LoseSession p = turn_session_lost p"
| "turn_op_step uc fl grammar Overrun p = turn_audio_overrun p"
| "turn_op_step uc fl grammar WorkerError p = turn_worker_error p"
| "turn_op_step uc fl grammar Discontinuity p = turn_discontinuity p"

definition turn_step :: "unicode \<Rightarrow> rounding \<Rightarrow> (utext \<Rightarrow> text_class) \<Rightarrow> turn_op \<Rightarrow> step \<Rightarrow> step" where
  "turn_step uc fl grammar op s = (let (q, ds) = turn_op_step uc fl grammar op (fst s) in (q, snd s @ ds))"

text \<open>
  The protocol: command speech starts once, each text is asked about once, a provisional end is set
  only after command speech and is either revoked or committed after the lookahead, and one
  commit, close or reopening ends the turn.
\<close>

record protocol_state =
  ps_started :: bool
  ps_asked :: "utext list"
  ps_end :: "(route \<times> sample \<times> sample) option"
  ps_done :: bool

definition protocol_init :: protocol_state where
  "protocol_init = \<lparr>ps_started = False, ps_asked = [], ps_end = None, ps_done = False\<rparr>"

fun protocol_step :: "samples \<Rightarrow> decision \<Rightarrow> protocol_state \<Rightarrow> protocol_state option" where
  "protocol_step la (CommandStarted t) s =
     (if ps_done s \<or> ps_started s then None else Some (s\<lparr>ps_started := True\<rparr>))"
| "protocol_step la (AskRecognizer t) s =
     (if ps_done s \<or> t \<in> set (ps_asked s) then None else Some (s\<lparr>ps_asked := ps_asked s @ [t]\<rparr>))"
| "protocol_step la (EndPending r b t) s =
     (if ps_done s \<or> \<not> ps_started s \<or> ps_end s \<noteq> None then None else Some (s\<lparr>ps_end := Some (r, b, t)\<rparr>))"
| "protocol_step la (EndRevoked b t) s =
     (case ps_end s of
        Some (r, boundary, since) \<Rightarrow> if ps_done s \<or> b \<noteq> boundary then None else Some (s\<lparr>ps_end := None\<rparr>)
      | None \<Rightarrow> None)"
| "protocol_step la (Commit c) s =
     (if ps_done s \<or> \<not> ps_started s then None
      else if (case ps_end s of
                 Some (r, b, since) \<Rightarrow> co_route c = r \<and> co_boundary c = b \<and> la \<le> co_at c - since
               | None \<Rightarrow> co_route c = RouteFallback)
        then Some (s\<lparr>ps_end := None, ps_done := True\<rparr>) else None)"
| "protocol_step la (Close r t) s = (if ps_done s then None else Some (s\<lparr>ps_done := True\<rparr>))"
| "protocol_step la (ReopenReply r) s =
     (if ps_done s \<or> ps_started s then None else Some (s\<lparr>ps_done := True\<rparr>))"

definition protocol_run :: "samples \<Rightarrow> decision list \<Rightarrow> protocol_state \<Rightarrow> protocol_state option" where
  "protocol_run la ds s = run_steps (protocol_step la) ds s"

text \<open>The state of the protocol a policy is in.\<close>

definition protocol_of :: "turn_policy \<Rightarrow> protocol_state" where
  "protocol_of p =
     \<lparr>ps_started = (tp_command_cells p > 0), ps_asked = map ak_text (tp_asked p),
      ps_end = map_option (\<lambda>e. (pe_route e, pe_boundary e, pe_since e)) (tp_pending p), ps_done = tp_finished p\<rparr>"

text \<open>What every policy satisfies.\<close>

definition command_end_cells :: "turn_policy \<Rightarrow> sample list" where
  "command_end_cells p =
     map cr_end (filter (\<lambda>c. cr_class c = CommandSpeech \<and> cr_end c > ts_trigger (tp_spec p)) (tp_cells p))"

definition turn_inv :: "turn_policy \<Rightarrow> bool" where
  "turn_inv p \<longleftrightarrow>
     tp_command_cells p = length (tp_command_ends p)
     \<and> tp_command_ends p = command_end_cells p
     \<and> (tp_reply_gap_end p \<noteq> None \<longrightarrow> tp_command_cells p = 0 \<and> is_reply p)
     \<and> (\<forall>e. tp_pending p = Some e \<longrightarrow> pe_boundary e \<in> set (tp_command_ends p)
          \<and> (pe_route e = RouteB \<longrightarrow> ju_class (pe_judged e) = Some Complete) \<and> pe_route e \<noteq> RouteFallback)
     \<and> list_all (\<lambda>k. ak_record k < length (ut_recognizer (tp_trace p))) (tp_asked p)"

text \<open>An operation refines the protocol and keeps the invariant.\<close>

definition refines :: "turn_policy \<Rightarrow> step \<Rightarrow> bool" where
  "refines p s \<longleftrightarrow>
     turn_inv (fst s) \<and> tp_config (fst s) = tp_config p \<and> tp_spec (fst s) = tp_spec p
     \<and> protocol_run (np_lookahead (policy_values p)) (snd s) (protocol_of p) = Some (protocol_of (fst s))"

definition turn_run_ok :: "step \<Rightarrow> bool" where
  "turn_run_ok s \<longleftrightarrow>
     turn_inv (fst s)
     \<and> protocol_run (np_lookahead (policy_values (fst s))) (snd s) protocol_init = Some (protocol_of (fst s))"

fun terminal :: "decision \<Rightarrow> bool" where
  "terminal (Commit c) = True"
| "terminal (Close r t) = True"
| "terminal (ReopenReply r) = True"
| "terminal _ = False"

text \<open>What the parts of a block that decide nothing keep.\<close>

definition keeps :: "turn_policy \<Rightarrow> turn_policy \<Rightarrow> bool" where
  "keeps p q \<longleftrightarrow>
     tp_config q = tp_config p \<and> tp_spec q = tp_spec p \<and> tp_cells q = tp_cells p \<and> tp_frontier q = tp_frontier p
     \<and> tp_evidence q = tp_evidence p \<and> tp_command_cells q = tp_command_cells p \<and> tp_command_ends q = tp_command_ends p
     \<and> tp_command_start q = tp_command_start p \<and> tp_pending q = tp_pending p \<and> tp_reply_gap_end q = tp_reply_gap_end p
     \<and> tp_finished q = tp_finished p \<and> tp_asked q = tp_asked p \<and> tp_last_progress q = tp_last_progress p
     \<and> ut_endpoint (tp_trace q) = ut_endpoint (tp_trace p) \<and> ut_answer_start (tp_trace q) = ut_answer_start (tp_trace p)
     \<and> length (ut_recognizer (tp_trace p)) \<le> length (ut_recognizer (tp_trace q))"

text \<open>A block: what decides nothing, then the evaluation, then the question to the sentence matcher.\<close>

definition evaluated :: "sample \<Rightarrow> turn_policy \<Rightarrow> step" where
  "evaluated through p =
     (case (tp_reply_gap_end p, tp_frontier p) of (None, Some frontier) \<Rightarrow> evaluate frontier through p | _ \<Rightarrow> (p, []))"

definition matched :: "bool \<Rightarrow> sample \<Rightarrow> mono_instant \<Rightarrow> step \<Rightarrow> step" where
  "matched ask through now e =
     (let s = (if ask \<and> \<not> tp_finished (fst e) then ask_matcher through now (fst e) else (fst e, [])) in (fst s, snd e @ snd s))"

text \<open>A reply turn that is muted after a block of silence.\<close>

definition witness_turn_config :: turn_config where
  "witness_turn_config =
     \<lparr>tc_endpoint = endpoint_default\<lparr>np_lookahead := 512, np_ha_reply_pause := 512\<rparr>,
      tc_attribution = \<lparr>atp_non_speech_max = 1 / 4, atp_speech_positive_min = 1 / 2, atp_run_open_min = 3 / 4,
        atp_background_below_db = 10, atp_run_open_level_min = 1 / 2, atp_level_span_floor_db = 12,
        atp_under_way_lead = 7680\<rparr>,
      tc_extended_utterances = False, tc_recognizer_available = True, tc_pause_server = False\<rparr>"

definition witness_turn_spec :: turn_spec where
  "witness_turn_spec =
     \<lparr>ts_epoch = 9, ts_start = 0, ts_trigger = 0, ts_cells_from = 0, ts_vad_from = 0,
      ts_kind = ReplyTurn \<lparr>rs_origin = HaConversation, rs_guard_until = None, rs_no_input_at = 112000,
        rs_wall_deadline = 10000000000\<rparr>\<rparr>"

definition witness_result :: "sample \<Rightarrow> asr_observation" where
  "witness_result through = \<lparr>ao_through = through, ao_tokens = [], ao_trailing_blanks = 0, ao_kind = AsrLive\<rparr>"

definition witness_turn_ops :: "turn_op list" where
  "witness_turn_ops = [Feed (PushAsr 9 (witness_result 1024)), Advance 5, Timer 6, MuteTurn, LoseSession]"

definition witness_policy :: turn_policy where
  "witness_policy = (case turn_policy_new witness_turn_config witness_turn_spec 0 of Inr p \<Rightarrow> p)"

definition witness_unicode :: unicode where
  "witness_unicode = \<lparr>uc_alphabetic = (\<lambda>c. 97 \<le> c \<and> c \<le> 122), uc_numeric = (\<lambda>c. 48 \<le> c \<and> c \<le> 57),
     uc_whitespace = (\<lambda>c. c = 32), uc_lower = (\<lambda>c. [c])\<rparr>"

section \<open>Lemmas\<close>

lemma frame_simps [simp]:
  "command_end_cells (p\<lparr>tp_finished := x_finished\<rparr>) = command_end_cells p" "reply_of (p\<lparr>tp_finished := x_finished\<rparr>) = reply_of p"
  "is_reply (p\<lparr>tp_finished := x_finished\<rparr>) = is_reply p"
  "command_end_cells (p\<lparr>tp_pending := x_pending\<rparr>) = command_end_cells p" "reply_of (p\<lparr>tp_pending := x_pending\<rparr>) = reply_of p"
  "is_reply (p\<lparr>tp_pending := x_pending\<rparr>) = is_reply p"
  "command_end_cells (p\<lparr>tp_trace := x_trace\<rparr>) = command_end_cells p" "reply_of (p\<lparr>tp_trace := x_trace\<rparr>) = reply_of p"
  "is_reply (p\<lparr>tp_trace := x_trace\<rparr>) = is_reply p"
  "command_end_cells (p\<lparr>tp_reply_gap_end := x_reply_gap_end\<rparr>) = command_end_cells p" "reply_of (p\<lparr>tp_reply_gap_end := x_reply_gap_end\<rparr>) = reply_of p"
  "is_reply (p\<lparr>tp_reply_gap_end := x_reply_gap_end\<rparr>) = is_reply p"
  "command_end_cells (p\<lparr>tp_background := x_background\<rparr>) = command_end_cells p" "reply_of (p\<lparr>tp_background := x_background\<rparr>) = reply_of p"
  "is_reply (p\<lparr>tp_background := x_background\<rparr>) = is_reply p"
  "command_end_cells (p\<lparr>tp_last_progress := x_last_progress\<rparr>) = command_end_cells p" "reply_of (p\<lparr>tp_last_progress := x_last_progress\<rparr>) = reply_of p"
  "is_reply (p\<lparr>tp_last_progress := x_last_progress\<rparr>) = is_reply p"
  "command_end_cells (p\<lparr>tp_asked := x_asked\<rparr>) = command_end_cells p" "reply_of (p\<lparr>tp_asked := x_asked\<rparr>) = reply_of p"
  "is_reply (p\<lparr>tp_asked := x_asked\<rparr>) = is_reply p"
  "command_end_cells (p\<lparr>tp_evidence := x_evidence\<rparr>) = command_end_cells p" "reply_of (p\<lparr>tp_evidence := x_evidence\<rparr>) = reply_of p"
  "is_reply (p\<lparr>tp_evidence := x_evidence\<rparr>) = is_reply p"
  by (simp_all add: command_end_cells_def reply_of_def is_reply_def)

lemma keeps_refl [simp]: "keeps p p"
  by (simp add: keeps_def)

lemma keeps_trans [trans]: "keeps p q \<Longrightarrow> keeps q r \<Longrightarrow> keeps p r"
  by (simp add: keeps_def)

lemma keeps_inv: "keeps p q \<Longrightarrow> turn_inv p \<Longrightarrow> turn_inv q"
  by (auto simp: keeps_def turn_inv_def command_end_cells_def is_reply_def reply_of_def list_all_iff)

lemma keeps_protocol: "keeps p q \<Longrightarrow> protocol_of q = protocol_of p"
  by (simp add: keeps_def protocol_of_def)

lemma protocol_run_append:
  "protocol_run la (ds @ es) s = (case protocol_run la ds s of None \<Rightarrow> None | Some t \<Rightarrow> protocol_run la es t)"
  unfolding protocol_run_def by (induction ds arbitrary: s) (auto split: option.splits)

lemma protocol_run_nil [simp]: "protocol_run la [] s = Some s"
  by (simp add: protocol_run_def)

lemma protocol_run_one: "protocol_run la [d] s = protocol_step la d s"
  by (simp add: protocol_run_def split: option.splits)

lemma refines_keeps: "turn_inv p \<Longrightarrow> keeps p q \<Longrightarrow> refines p (q, [])"
  using keeps_inv [of p q] keeps_protocol [of p q] by (simp add: refines_def keeps_def)

lemma refines_trans:
  assumes "refines p (q, ds)" "refines q (r, es)"
  shows "refines p (r, ds @ es)"
  using assms by (simp add: refines_def protocol_run_append)

lemma refines_steps: "refines p s \<Longrightarrow> refines (fst s) t \<Longrightarrow> refines p (fst t, snd s @ snd t)"
  using refines_trans [of p "fst s" "snd s" "fst t" "snd t"] by simp

lemma refines_via:
  assumes "turn_inv p" "keeps p q" "turn_inv q \<Longrightarrow> refines q s"
  shows "refines p s"
  using assms keeps_inv [OF assms(2,1)] keeps_protocol [OF assms(2)] by (simp add: refines_def keeps_def)

subsection \<open>Parts that decide nothing\<close>

lemma supersede_keeps: "keeps p (supersede_server now p)"
  by (simp add: keeps_def supersede_server_def)

lemma set_recognizer_keeps:
  "(\<And>rs. length rs \<le> length (f rs)) \<Longrightarrow> keeps p (set_recognizer f p)"
  by (simp add: keeps_def set_recognizer_def)

lemma apply_answer_keeps: "keeps p (apply_answer block arrived p)"
  by (auto simp: apply_answer_def Let_def keeps_def set_recognizer_def split: prod.splits option.splits sum.splits)

lemma fold_keeps:
  assumes "\<And>x p. keeps p (f x p)"
  shows "keeps p (fold f xs p)"
proof (induction xs arbitrary: p)
  case (Cons x xs)
  show ?case using keeps_trans [OF assms [of p x] Cons.IH] by simp
qed simp

lemma refresh_keeps: "keeps p (refresh_class p)"
  by (simp add: keeps_def refresh_class_def)

lemma apply_answers_keeps: "keeps p (apply_answers block p)"
proof -
  have "keeps p (p\<lparr>tp_arrived := []\<rparr>)" by (simp add: keeps_def)
  also have "keeps (p\<lparr>tp_arrived := []\<rparr>) (fold (apply_answer block) (tp_arrived p) (p\<lparr>tp_arrived := []\<rparr>))"
    by (rule fold_keeps) (rule apply_answer_keeps)
  also have "keeps (fold (apply_answer block) (tp_arrived p) (p\<lparr>tp_arrived := []\<rparr>)) (apply_answers block p)"
    by (simp add: apply_answers_def refresh_keeps)
  finally show ?thesis .
qed

lemma take_arrival_keeps: "keeps p (snd (take_arrival uc a (b, p)))"
  by (auto simp: take_arrival_def Let_def keeps_def split: option.splits sum.splits prod.splits)

lemma take_server_answers_keeps: "keeps p (snd (take_server_answers uc through p))"
proof -
  have "keeps q (snd (fold (take_arrival uc) xs (b, q)))" for xs b q
  proof (induction xs arbitrary: b q)
    case (Cons x xs)
    obtain c r where cr: "take_arrival uc x (b, q) = (c, r)" by fastforce
    then have "keeps q r" using take_arrival_keeps [of q uc x b] by simp
    then show ?case using Cons.IH [of r c] keeps_trans by (simp add: cr)
  qed simp
  from this [of "p\<lparr>tp_server_arrived := filter (\<lambda>a. \<not> va_from a \<le> through) (tp_server_arrived p)\<rparr>"]
  have "keeps (p\<lparr>tp_server_arrived := filter (\<lambda>a. \<not> va_from a \<le> through) (tp_server_arrived p)\<rparr>) (snd (take_server_answers uc through p))"
    by (simp add: take_server_answers_def Let_def)
  then show ?thesis by (rule keeps_trans [rotated]) (simp add: keeps_def)
qed

lemma take_block_keeps:
  assumes "take_block uc obs now p = (stood, changed, q)"
  shows "keeps p q"
proof -
  define p1 where "p1 = (if ao_kind obs = AsrFinalized
      then supersede_server now (p\<lparr>tp_trace := (tp_trace p)\<lparr>ut_finalized_at := ut_finalized_at (tp_trace p) @ [ao_through obs]\<rparr>\<rparr>) else p)"
  define p2 where "p2 = apply_answers (ao_through obs) p1"
  define p3 where "p3 = p2\<lparr>tp_text := snd (take_result obs (tp_text p2))\<rparr>"
  define p4 where "p4 = (if fst (take_result obs (tp_text p2)) then supersede_server now p3 else p3)"
  define p5 where "p5 = (if ao_kind obs = AsrFinalized
      then p4\<lparr>tp_trace := (tp_trace p4)\<lparr>ut_pauses := ut_pauses (tp_trace p4)
             @ [\<lparr>pr_through = ao_through obs,
                 pr_kroko = pause_words_default\<lparr>pz_text := Some (trim_text uc (concat (map tk_text (ao_tokens obs))))\<rparr>,
                 pr_server = (if tc_pause_server (tp_config p4) then Some pause_words_default else None)\<rparr>]\<rparr>\<rparr>
      else p4)"
  define p6 where "p6 = snd (take_server_answers uc (ao_through obs) p5)"
  have q: "q = p6\<lparr>tp_text := snd (settle_text uc (ao_through obs) (tp_text p6))\<rparr>"
    using assms
    by (auto simp: take_block_def Let_def p6_def p5_def p4_def p3_def p2_def p1_def case_prod_unfold)
  have "keeps p (p\<lparr>tp_trace := (tp_trace p)\<lparr>ut_finalized_at := ut_finalized_at (tp_trace p) @ [ao_through obs]\<rparr>\<rparr>)"
    by (simp add: keeps_def)
  from keeps_trans [OF this supersede_keeps] have "keeps p p1" by (simp add: p1_def)
  also have "keeps p1 p2" unfolding p2_def by (rule apply_answers_keeps)
  also have "keeps p2 p3" by (simp add: p3_def keeps_def)
  also have "keeps p3 p4" by (simp add: p4_def supersede_keeps)
  also have "keeps p4 p5" by (simp add: p5_def keeps_def)
  also have "keeps p5 p6" unfolding p6_def by (rule take_server_answers_keeps)
  also have "keeps p6 q" by (simp add: q keeps_def)
  finally show ?thesis .
qed

lemma note_judged_keeps: "keeps p (note_judged through finalized stood p)"
  by (auto simp: note_judged_def Let_def keeps_def update_last_pause_def split: option.splits)

lemma judge_text_keeps: "judge_text grammar through changed p = (ask, q) \<Longrightarrow> keeps p q"
  by (auto simp: judge_text_def Let_def keeps_def refresh_class_def split: if_splits)

lemma seed_keeps: "keeps p (seed_at_trigger after p)"
  by (auto simp: seed_at_trigger_def Let_def keeps_def split: option.splits)

lemma collect_seed_keeps: "keeps p (collect_seed cell p)"
  by (auto simp: collect_seed_def keeps_def split: turn_kind.splits option.splits)

subsection \<open>Ending\<close>

lemma note_event_simps [simp]:
  "tp_config (note_event e p) = tp_config p" "tp_spec (note_event e p) = tp_spec p"
  "tp_finished (note_event e p) = tp_finished p" "protocol_of (note_event e p) = protocol_of p"
  "turn_inv (note_event e p) = turn_inv p"
  by (simp_all add: note_event_def protocol_of_def turn_inv_def)

lemma finish_inv: "turn_inv p \<Longrightarrow> turn_inv (p\<lparr>tp_finished := True\<rparr>)"
  by (auto simp: turn_inv_def)

lemma close_refines: "turn_inv p \<Longrightarrow> refines p (close reason cause p)"
  by (simp add: close_def refines_def finish_inv protocol_run_one) (simp add: protocol_of_def)

lemma reopen_refines:
  assumes "turn_inv p" "\<not> tp_finished p" "tp_reply_gap_end p \<noteq> None"
  shows "refines p (reopen gap_end p)"
proof -
  have "tp_command_cells p = 0" using assms(1,3) by (auto simp: turn_inv_def)
  then show ?thesis
    using assms finish_inv [OF assms(1)]
    by (cases "reply_of p") (simp_all add: reopen_def refines_def protocol_run_one, simp add: protocol_of_def)
qed

lemma commit_refines:
  assumes "turn_inv p" "\<not> tp_finished p" "tp_command_cells p > 0" "tp_pending p = None"
    "route = RouteFallback"
  shows "refines p (commit_end route boundary e frontier j p)"
  using assms finish_inv [OF assms(1)]
  by (simp add: commit_end_def Let_def refines_def protocol_run_one) (simp add: protocol_of_def commit_of_def Let_def)

subsection \<open>Evaluation\<close>

lemma pending_inv: "turn_inv p \<Longrightarrow> turn_inv (p\<lparr>tp_pending := None\<rparr>)"
  by (auto simp: turn_inv_def)

lemma evaluate_pending_refines:
  assumes "turn_inv p" "\<not> tp_finished p" "tp_pending p = Some pd"
  shows "refines p (evaluate_pending frontier pd p)"
proof -
  have started: "tp_command_cells p > 0" using assms(1,3) by (auto simp: turn_inv_def)
  have inv: "turn_inv (p\<lparr>tp_pending := None\<rparr>)" "turn_inv (p\<lparr>tp_pending := None, tp_finished := True\<rparr>)"
    using pending_inv [OF assms(1)] finish_inv [OF pending_inv [OF assms(1)]] by simp_all
  show ?thesis
    using assms inv started
    by (auto simp: evaluate_pending_def commit_end_def Let_def refines_def protocol_run_one)
      (auto simp: protocol_of_def commit_of_def Let_def sample_since_def)
qed

lemma last_command_end_mem: "last_command_end_by t p = Some b \<Longrightarrow> b \<in> set (tp_command_ends p) \<and> b \<le> t"
proof -
  let ?i = "length (takeWhile (\<lambda>e. e \<le> t) (tp_command_ends p))"
  assume "last_command_end_by t p = Some b"
  then have i: "?i \<noteq> 0" "b = tp_command_ends p ! (?i - 1)" by (auto simp: last_command_end_by_def Let_def split: if_splits)
  then have "b = takeWhile (\<lambda>e. e \<le> t) (tp_command_ends p) ! (?i - 1)" by (simp add: takeWhile_nth)
  then have "b \<in> set (takeWhile (\<lambda>e. e \<le> t) (tp_command_ends p))" using i(1) by (metis diff_less nth_mem zero_less_one bot_nat_0.not_eq_extremum)
  then show ?thesis by (auto dest: set_takeWhileD)
qed

lemma choose_route_boundary:
  assumes "choose_route frontier through p = Some (route, boundary, ev)" "tp_command_ends p \<noteq> []"
  shows "boundary \<in> set (tp_command_ends p)" "route = RouteB \<Longrightarrow> tp_class p = Some Complete" "route \<noteq> RouteFallback"
  using assms last_command_end_mem [of _ p]
  by (auto simp: choose_route_def route_r_def route_a_def route_b_def Let_def split: if_splits option.splits)

lemma evaluate_refines:
  assumes "turn_inv p" "\<not> tp_finished p"
  shows "refines p (evaluate frontier through p)"
proof -
  have ends: "tp_command_ends p \<noteq> []" if "command_start_any p \<noteq> None"
    using that assms(1) by (auto simp: command_start_any_def turn_inv_def split: if_splits)
  have set: "refines p (note_event ev (p\<lparr>tp_pending := Some \<lparr>pe_route = route, pe_boundary = boundary, pe_since = frontier,
        pe_judged = judged_now p\<rparr>\<rparr>), [EndPending route boundary frontier])"
    if "choose_route frontier through p = Some (route, boundary, e)" "command_start_any p \<noteq> None" "tp_pending p = None"
    for route boundary e ev
    using choose_route_boundary [OF that(1) ends [OF that(2)]] assms that(2,3)
    by (auto simp: refines_def protocol_run_one)
      (auto simp: protocol_of_def turn_inv_def judged_now_def command_start_any_def split: if_splits)
  have fallback: "refines p (evaluate_no_progress frontier c p)" if "command_start_any p = Some c" "tp_pending p = None" for c
  proof -
    have "tp_command_cells p > 0" using that(1) by (auto simp: command_start_any_def split: if_splits)
    then show ?thesis
      using assms that(2) commit_refines [OF assms] close_refines [OF assms(1)] refines_keeps [OF assms(1) keeps_refl]
      by (auto simp: evaluate_no_progress_def Let_def split: option.splits text_class.splits)
  qed
  show ?thesis
    unfolding evaluate_def Let_def
    using close_refines [OF assms(1)] evaluate_pending_refines [OF assms] set fallback refines_keeps [OF assms(1) keeps_refl]
    by (auto split: option.splits)
qed

subsection \<open>Cells\<close>

lemma classify_gap: "ce_audio cell = Gap m \<Longrightarrow> cd_class (fst (classify_cell fl cell b f c)) = ClassGap"
  by (simp add: classify_cell_def plain_def Let_def)

lemma judge_cell_keeps:
  assumes "judge_cell fl cell b p = (cls, q)"
  shows "\<exists>r. cr_class r = cls \<and> cr_end r = cell_end (ce_cell cell)
      \<and> keeps (p\<lparr>tp_cells := tp_cells p @ [r], tp_frontier := Some (cell_end (ce_cell cell))\<rparr>) q"
    "ce_audio cell = Gap m \<Longrightarrow> cls = ClassGap"
proof -
  obtain j cl where j: "classify_cell fl cell b (foreground_db fl (tp_foreground p)) (tp_classifier p) = (j, cl)" by fastforce
  show "\<exists>r. cr_class r = cls \<and> cr_end r = cell_end (ce_cell cell)
      \<and> keeps (p\<lparr>tp_cells := tp_cells p @ [r], tp_frontier := Some (cell_end (ce_cell cell))\<rparr>) q"
    using assms by (auto simp: judge_cell_def Let_def j keeps_def)
  show "ce_audio cell = Gap m \<Longrightarrow> cls = ClassGap"
    using assms classify_gap [of cell m fl b] by (auto simp: judge_cell_def Let_def case_prod_unfold)
qed

lemma quiet_cell_inv:
  assumes "turn_inv p" "cr_class r \<noteq> CommandSpeech \<or> cr_end r \<le> ts_trigger (tp_spec p)"
  shows "turn_inv (p\<lparr>tp_cells := tp_cells p @ [r], tp_frontier := f\<rparr>)"
  using assms by (auto simp: turn_inv_def command_end_cells_def is_reply_def reply_of_def)

lemma gap_cell_refines:
  assumes "turn_inv p"
  shows "refines p (gap_cell stop muted p)"
proof (cases "is_reply p \<and> tp_command_cells p = 0")
  case True
  then have "turn_inv (p\<lparr>tp_reply_gap_end := Some stop\<rparr>)" using assms by (auto simp: turn_inv_def)
  then show ?thesis using True by (simp add: gap_cell_def refines_def protocol_of_def)
next
  case False
  then have "gap_cell stop muted p = (if muted then close Muted CauseMutedCell p else close Interrupted CauseGap p)"
    unfolding gap_cell_def by (rule if_not_P)
  then show ?thesis using close_refines [OF assms] by simp
qed

lemma command_cell_refines:
  assumes "turn_inv p" "\<not> tp_finished p" "tp_reply_gap_end p = None" "cr_class r = CommandSpeech"
    "cr_end r = cell_end (ce_cell cell)" "ts_trigger (tp_spec p) < cell_end (ce_cell cell)"
    "keeps (p\<lparr>tp_cells := tp_cells p @ [r], tp_frontier := f\<rparr>) q"
  shows "refines p (command_cell fl cell q)"
proof -
  let ?s = "command_cell fl cell q"
  have s: "tp_config (fst ?s) = tp_config p" "tp_spec (fst ?s) = tp_spec p" "tp_cells (fst ?s) = tp_cells p @ [r]"
    "tp_command_cells (fst ?s) = tp_command_cells p + 1" "tp_command_ends (fst ?s) = tp_command_ends p @ [cr_end r]"
    "tp_pending (fst ?s) = tp_pending p" "tp_reply_gap_end (fst ?s) = None" "tp_asked (fst ?s) = tp_asked p"
    "tp_finished (fst ?s) = False" "length (ut_recognizer (tp_trace p)) \<le> length (ut_recognizer (tp_trace (fst ?s)))"
    "snd ?s = (if tp_command_cells p = 0 then [CommandStarted (cell_start (ce_cell cell))] else [])"
    using assms(2,3,5,7) by (auto simp: command_cell_def Let_def keeps_def)
  have "turn_inv (fst ?s)"
    using assms(1,4-6) by (auto simp: turn_inv_def s command_end_cells_def list_all_iff intro: order.strict_trans2 [OF _ s(10)])
  moreover have "protocol_of (fst ?s) = (protocol_of p)\<lparr>ps_started := True\<rparr>"
    using assms(2) by (simp add: protocol_of_def s)
  ultimately show ?thesis
    using assms(2) by (auto simp: refines_def s protocol_run_one) (auto simp: protocol_of_def)
qed

lemma on_cell_refines:
  assumes "turn_inv p" "\<not> tp_finished p"
  shows "refines p (on_cell fl cell p)"
proof -
  define start where "start = cell_start (ce_cell cell)"
  define stop where "stop = cell_end (ce_cell cell)"
  define p1 where "p1 = p\<lparr>tp_background := background_push (ce_audio cell) (tp_background p)\<rparr>"
  define after where "after = (stop > ts_trigger (tp_spec p1))"
  define p2 where "p2 = seed_at_trigger after p1"
  obtain cls q where q: "judge_cell fl cell (background_db fl (tp_background p)) p2 = (cls, q)" by fastforce
  have k1: "keeps p p1" by (simp add: p1_def keeps_def)
  have k2: "keeps p1 p2" unfolding p2_def by (rule seed_keeps)
  have p1: "turn_inv p1" "\<not> tp_finished p1" using keeps_inv [OF k1 assms(1)] assms(2) by (simp_all add: p1_def)
  have p2: "turn_inv p2" "\<not> tp_finished p2" "tp_spec p2 = tp_spec p1" using keeps_inv [OF k2 p1(1)] p1(2) k2 by (simp_all add: keeps_def)
  obtain r where r: "cr_class r = cls" "cr_end r = stop"
    "keeps (p2\<lparr>tp_cells := tp_cells p2 @ [r], tp_frontier := Some stop\<rparr>) q"
    using judge_cell_keeps(1) [OF q] by (auto simp: stop_def)
  let ?mid = "p2\<lparr>tp_cells := tp_cells p2 @ [r], tp_frontier := Some stop\<rparr>"
  have mid: "refines p2 (?mid, [])" if "cls \<noteq> CommandSpeech \<or> \<not> after"
    using quiet_cell_inv [OF p2(1), of r "Some stop"] that r(1,2) p2(3)
    by (auto simp: refines_def protocol_of_def after_def)
  have q_quiet: "refines p2 s" if "cls \<noteq> CommandSpeech \<or> \<not> after" "turn_inv q \<Longrightarrow> refines q s" for s
  proof -
    have "turn_inv ?mid" using mid [OF that(1)] by (simp add: refines_def)
    from refines_via [OF this r(3) that(2)] have "refines ?mid s" .
    then show ?thesis using refines_trans [OF mid [OF that(1)], of "fst s" "snd s"] by simp
  qed
  have judged: "refines p2 (case ce_audio cell of Gap muted \<Rightarrow> gap_cell stop muted q
      | Present _ _ _ _ \<Rightarrow> if \<not> after then (collect_seed cell q, [])
                       else if cls = CommandSpeech then command_cell fl cell q else (q, []))"
    if "tp_reply_gap_end p2 = None"
  proof (cases "ce_audio cell")
    case (Gap m)
    then show ?thesis using judge_cell_keeps(2) [OF q Gap] q_quiet gap_cell_refines by simp
  next
    case (Present e m v z)
    show ?thesis
    proof (cases "after \<and> cls = CommandSpeech")
      case True
      then show ?thesis
        using command_cell_refines [OF p2(1,2) that _ _ _ r(3)] r(1,2) p2(3) Present by (simp add: after_def stop_def)
    next
      case False
      then show ?thesis
        using q_quiet [of "(collect_seed cell q, [])"] q_quiet [of "(q, [])"] collect_seed_keeps refines_keeps Present by auto
    qed
  qed
  have cell: "on_cell fl cell p =
      (if start < sample_round_down (ts_start (tp_spec p1)) CELL_SAMPLES then (p1, [])
       else case tp_reply_gap_end p1 of
         Some gap_end \<Rightarrow> (case ce_audio cell of Gap _ \<Rightarrow> (p1\<lparr>tp_reply_gap_end := Some stop\<rparr>, []) | Present _ _ _ _ \<Rightarrow> reopen gap_end p1)
       | None \<Rightarrow> (case ce_audio cell of Gap muted \<Rightarrow> gap_cell stop muted q
           | Present _ _ _ _ \<Rightarrow> if \<not> after then (collect_seed cell q, [])
                       else if cls = CommandSpeech then command_cell fl cell q else (q, [])))"
    unfolding on_cell_def Let_def start_def [symmetric] stop_def [symmetric] p1_def [symmetric] after_def [symmetric]
      p2_def [symmetric] q prod.case by (rule refl)
  have in_gap: "refines p1 (p1\<lparr>tp_reply_gap_end := Some stop\<rparr>, [])" if "tp_reply_gap_end p1 = Some g" for g
    using p1(1) that by (auto simp: refines_def protocol_of_def turn_inv_def)
  have "refines p1 (on_cell fl cell p)"
  proof (cases "tp_reply_gap_end p1")
    case None
    then have "tp_reply_gap_end p2 = None" using k2 by (simp add: keeps_def)
    from refines_via [OF p1(1) k2 judged [OF this]] show ?thesis
      unfolding cell using None refines_keeps [OF p1(1) keeps_refl] by simp
  next
    case (Some g)
    then show ?thesis
      unfolding cell using refines_keeps [OF p1(1) keeps_refl] in_gap [OF Some] reopen_refines [OF p1]
      by (simp split: cell_audio.splits)
  qed
  then show ?thesis using refines_via [OF assms(1) k1] by blast
qed

subsection \<open>Blocks and runs\<close>

lemma ask_refines:
  assumes "turn_inv p" "\<not> tp_finished p" "tx_prefix (tp_text p) \<notin> ak_text ` set (tp_asked p)"
  shows "refines p (ask_matcher through now p)"
proof -
  have "turn_inv (fst (ask_matcher through now p))"
    using assms(1) by (auto simp: ask_matcher_def set_recognizer_def Let_def turn_inv_def list_all_iff)
  then show ?thesis
    using assms(2,3) by (auto simp: refines_def ask_matcher_def set_recognizer_def Let_def protocol_run_one)
      (auto simp: protocol_of_def)
qed

lemma evaluate_keeps_text:
  "tp_text (fst (evaluate f t p)) = tp_text p" "tp_asked (fst (evaluate f t p)) = tp_asked p"
  by (auto simp: evaluate_def Let_def close_def note_event_def evaluate_pending_def commit_end_def evaluate_no_progress_def
      split: option.splits text_class.splits)

lemma on_block_parts:
  obtains p3 ask where "keeps p p3" "ask \<longrightarrow> tx_prefix (tp_text p3) \<notin> ak_text ` set (tp_asked p3)"
    "on_block uc grammar obs now p = matched ask (ao_through obs) now (evaluated (ao_through obs) p3)"
proof -
  obtain stood changed p1 where b: "take_block uc obs now p = (stood, changed, p1)" using prod_cases3 by blast
  define n where "n = note_judged (ao_through obs) (ao_kind obs = AsrFinalized) stood p1"
  obtain ask p2 where j: "judge_text grammar (ao_through obs) changed n = (ask, p2)" by fastforce
  define p3 where "p3 = p2\<lparr>tp_trace := (tp_trace p2)\<lparr>ut_streaming_text := tx_streaming_text (tp_text p2), ut_heard := heard_text (tp_text p2)\<rparr>\<rparr>"
  have "keeps p p1" by (rule take_block_keeps [OF b])
  also have "keeps p1 n" unfolding n_def by (rule note_judged_keeps)
  also have "keeps n p2" by (rule judge_text_keeps [OF j])
  also have "keeps p2 p3" by (simp add: p3_def keeps_def)
  finally have k: "keeps p p3" .
  have fresh: "ask \<longrightarrow> tx_prefix (tp_text p3) \<notin> ak_text ` set (tp_asked p3)"
    using j by (auto simp: judge_text_def Let_def p3_def list_ex_iff refresh_class_def split: if_splits)
  have "on_block uc grammar obs now p = (case evaluated (ao_through obs) p3 of (p4, ds) \<Rightarrow> (case (if ask \<and> \<not> tp_finished p4
      then ask_matcher (ao_through obs) now p4 else (p4, [])) of (p5, es) \<Rightarrow> (p5, ds @ es)))"
    unfolding on_block_def Let_def b prod.case n_def [symmetric] j p3_def [symmetric] by (simp add: evaluated_def)
  then have "on_block uc grammar obs now p = matched ask (ao_through obs) now (evaluated (ao_through obs) p3)"
    by (simp add: case_prod_beta Let_def matched_def)
  with k fresh show thesis by (rule that)
qed

lemma on_block_refines:
  assumes "turn_inv p" "\<not> tp_finished p"
  shows "refines p (on_block uc grammar obs now p)"
proof -
  obtain p3 ask where k: "keeps p p3" and fresh: "ask \<longrightarrow> tx_prefix (tp_text p3) \<notin> ak_text ` set (tp_asked p3)"
    and res: "on_block uc grammar obs now p = matched ask (ao_through obs) now (evaluated (ao_through obs) p3)"
    by (rule on_block_parts [of p uc grammar obs now])
  define e where "e = evaluated (ao_through obs) p3"
  have p3: "turn_inv p3" "\<not> tp_finished p3" using keeps_inv [OF k assms(1)] assms(2) k by (simp_all add: keeps_def)
  have e: "refines p3 e" "tp_text (fst e) = tp_text p3" "tp_asked (fst e) = tp_asked p3"
    using evaluate_refines [OF p3] refines_keeps [OF p3(1) keeps_refl] evaluate_keeps_text
    by (auto simp: e_def evaluated_def split: option.splits)
  then have inv: "turn_inv (fst e)" by (simp add: refines_def)
  have "refines p3 (matched ask (ao_through obs) now e)"
  proof (cases "ask \<and> \<not> tp_finished (fst e)")
    case True
    then have "refines (fst e) (ask_matcher (ao_through obs) now (fst e))"
      using ask_refines [OF inv] fresh e(2,3) by simp
    then show ?thesis
      using True e(1) refines_trans [of p3 "fst e" "snd e"] by (simp add: matched_def Let_def)
  next
    case False
    then show ?thesis using e(1) by (auto simp: matched_def)
  qed
  then have "refines p3 (on_block uc grammar obs now p)" by (simp add: res e_def)
  then show ?thesis using refines_via [OF assms(1) k] by blast
qed

lemma on_released_refines:
  assumes "refines p s" "turn_inv p"
  shows "refines p (on_released uc fl grammar now item s)"
proof (cases "tp_finished (fst s)")
  case True
  then show ?thesis using assms(1) by (simp add: on_released_def case_prod_beta)
next
  case False
  let ?q = "fst s"
  have inv: "turn_inv ?q" using assms(1) by (simp add: refines_def)
  let ?q1 = "?q\<lparr>tp_last_progress := now\<rparr>"
  have q1: "turn_inv ?q1" "protocol_of ?q1 = protocol_of ?q" using inv by (auto simp: turn_inv_def protocol_of_def)
  have "refines ?q (case item of ReleasedCell cell \<Rightarrow> on_cell fl cell ?q | ReleasedBlock obs \<Rightarrow> on_block uc grammar obs now ?q1)"
    using on_cell_refines [OF inv False] on_block_refines [OF q1(1)] False q1(2)
    by (auto simp: refines_def split: released.splits)
  from refines_steps [OF assms(1) this]
  show ?thesis using False by (simp add: on_released_def case_prod_beta Let_def)
qed

lemma advance_refines:
  assumes "turn_inv p"
  shows "refines p (advance_turn uc fl grammar now p)"
proof -
  let ?r = "release_evidence ([], tp_evidence p)"
  let ?p1 = "p\<lparr>tp_evidence := snd ?r\<rparr>"
  have p1: "turn_inv ?p1" "refines p (?p1, [])"
    using assms by (auto simp: turn_inv_def refines_def protocol_of_def)
  have "refines p (fold (on_released uc fl grammar now) items s)" if "refines p s" for items s
    using that by (induction items arbitrary: s) (simp_all add: on_released_refines [OF _ assms])
  from this [OF p1(2), of "fst ?r"] show ?thesis
    using refines_keeps [OF assms keeps_refl] by (simp add: advance_turn_def case_prod_beta)
qed

lemma timer_refines: "turn_inv p \<Longrightarrow> refines p (on_timer now p)"
  using close_refines [of p] refines_keeps [of p p] by (simp add: on_timer_def)

lemma turn_op_refines:
  assumes "turn_inv p"
  shows "refines p (turn_op_step uc fl grammar op p)"
proof (cases op)
  case (Feed e)
  then show ?thesis using assms
    by (auto simp: feed_evidence_def refines_def protocol_of_def turn_inv_def split: sum.splits)
next
  case (Advance now)
  then show ?thesis using advance_refines [OF assms] by simp
next
  case (RecognizerAnswered answer now)
  have "keeps p (recognizer_answer_in answer now p)" by (simp add: recognizer_answer_in_def keeps_def)
  then show ?thesis using RecognizerAnswered refines_keeps [OF assms] by simp
next
  case (ServerAsked pause now)
  have "keeps p (pause_server_asked pause now p)" by (simp add: pause_server_asked_def keeps_def)
  then show ?thesis using ServerAsked refines_keeps [OF assms] by simp
next
  case (ServerAnswered answer now)
  have "keeps p (pause_server_answer_in answer now p)" by (simp add: pause_server_answer_in_def keeps_def Let_def)
  then show ?thesis using ServerAnswered refines_keeps [OF assms] by simp
next
  case (Timer now)
  then show ?thesis using timer_refines [OF assms] by simp
qed (simp_all add: turn_mute_def turn_session_lost_def turn_audio_overrun_def turn_worker_error_def turn_discontinuity_def
    close_refines [OF assms])

lemma turn_step_ok: "turn_run_ok s \<Longrightarrow> turn_run_ok (turn_step uc fl grammar op s)"
  using turn_op_refines [of "fst s" uc fl grammar op]
  by (auto simp: turn_run_ok_def turn_step_def refines_def case_prod_beta protocol_run_append)

interpretation turn_machine: invariant_machine "turn_step uc fl grammar" turn_run_ok for uc fl grammar
  by unfold_locales (rule turn_step_ok)

lemma turn_new_ok: "turn_policy_new config spec now = Inr p \<Longrightarrow> turn_run_ok (p, []) \<and> tp_config p = config \<and> tp_spec p = spec"
  by (auto simp: turn_policy_new_def turn_run_ok_def turn_inv_def protocol_of_def protocol_init_def command_end_cells_def Let_def
      split: sum.splits)

lemma turn_step_config: "turn_run_ok s \<Longrightarrow> tp_config (fst (turn_step uc fl grammar op s)) = tp_config (fst s)
    \<and> tp_spec (fst (turn_step uc fl grammar op s)) = tp_spec (fst s)"
  using turn_op_refines [of "fst s" uc fl grammar op]
  by (simp add: turn_run_ok_def turn_step_def refines_def case_prod_beta)

lemma turn_run_config:
  "turn_run_ok s \<Longrightarrow> tp_config (fst (fold (turn_step uc fl grammar) ops s)) = tp_config (fst s)
    \<and> tp_spec (fst (fold (turn_step uc fl grammar) ops s)) = tp_spec (fst s)"
  by (induction ops arbitrary: s) (simp_all add: turn_step_ok turn_step_config)

lemma protocol_done: "ps_done s \<Longrightarrow> protocol_step la d s = None"
  by (cases d) (auto split: option.splits)

lemma protocol_step_done: "protocol_step la d s = Some t \<Longrightarrow> ps_done t \<longleftrightarrow> terminal d"
  by (cases d) (auto split: option.splits if_splits prod.splits)

lemma protocol_ends_once:
  "protocol_run la ds protocol_init = Some s \<Longrightarrow>
     (ps_done s \<longleftrightarrow> ds \<noteq> [] \<and> terminal (last ds)) \<and> list_all (\<lambda>d. \<not> terminal d) (butlast ds)"
proof (induction ds arbitrary: s rule: rev_induct)
  case Nil
  then show ?case by (auto simp: protocol_run_def protocol_init_def)
next
  case (snoc d ds)
  obtain t where t: "protocol_run la ds protocol_init = Some t" "protocol_step la d t = Some s"
    using snoc.prems by (auto simp: protocol_run_append protocol_run_one split: option.splits)
  then have "\<not> ps_done t" using protocol_done by fastforce
  with snoc.IH [OF t(1)] have "list_all (\<lambda>d. \<not> terminal d) ds"
    by (cases ds rule: rev_cases) (auto simp: list_all_iff)
  then show ?case using protocol_step_done [OF t(2)] by simp
qed

lemma witness_turn_new: "turn_policy_new witness_turn_config witness_turn_spec 0 = Inr witness_policy"
  by (simp add: witness_policy_def turn_policy_new_def witness_turn_config_def witness_turn_spec_def evidence_plan_of_def
     assembler_new_def sample_cell_def Let_def)

lemma witness_turn_run:
  "\<exists>p. fold (turn_step witness_unicode witness_rounding no_grammar) witness_turn_ops (witness_policy, [])
     = (p, [Close Muted None])"
  by (simp add: witness_turn_ops_def witness_policy_def witness_turn_config_def witness_turn_spec_def witness_result_def
     evidence_plan_of_def turn_policy_new_def turn_step_def feed_evidence_def evidence_eval advance_turn_def on_timer_def close_def
     turn_mute_def turn_session_lost_def reply_of_def note_event_def command_start_any_def mono_since_def millis_def
     endpoint_default_def)

section \<open>Properties\<close>

text \<open>
  (C4) The policy refines the decision protocol: whatever evidence, answers, timers and failures reach
  a turn, in whatever order, and whatever the grammar says, its decisions so far are a run of the
  protocol that ends in the state the policy is in.
\<close>

theorem turn_refines_protocol:
  assumes "turn_policy_new config spec now = Inr p0" "fold (turn_step uc fl grammar) ops (p0, []) = (p, out)"
  shows "protocol_run (np_lookahead (tc_endpoint config)) out protocol_init = Some (protocol_of p)"
proof -
  have "turn_run_ok (p, out)" using turn_machine.run_inv [of "(p0, [])" uc fl grammar ops] turn_new_ok [OF assms(1)] assms(2) by simp
  moreover have "tp_config p = config"
    using turn_run_config [of "(p0, [])" uc fl grammar ops] turn_new_ok [OF assms(1)] assms(2) by simp
  ultimately show ?thesis by (simp add: turn_run_ok_def)
qed

theorem turn_refines_protocol_witness:
  "\<exists>p. protocol_run 512 [Close Muted None] protocol_init = Some (protocol_of p)"
  using witness_turn_run turn_refines_protocol [OF witness_turn_new]
  by (fastforce simp: witness_turn_config_def)

text \<open>
  (C5) A turn ends exactly once: a commit, a close or a reopening is only ever the last decision, and
  the policy has ended exactly when that decision was made, so nothing is dispatched twice and
  nothing follows the end.
\<close>

theorem turn_ends_exactly_once:
  assumes "turn_policy_new config spec now = Inr p0" "fold (turn_step uc fl grammar) ops (p0, []) = (p, out)"
  shows "(tp_finished p \<longleftrightarrow> out \<noteq> [] \<and> terminal (last out)) \<and> list_all (\<lambda>d. \<not> terminal d) (butlast out)"
proof -
  have "turn_run_ok (p, out)" using turn_machine.run_inv [of "(p0, [])" uc fl grammar ops] turn_new_ok [OF assms(1)] assms(2) by simp
  then have "protocol_run (np_lookahead (policy_values p)) out protocol_init = Some (protocol_of p)"
    by (simp add: turn_run_ok_def)
  from protocol_ends_once [OF this] show ?thesis by (simp add: protocol_of_def)
qed

theorem turn_ends_exactly_once_witness:
  "\<exists>p. fold (turn_step witness_unicode witness_rounding no_grammar) witness_turn_ops (witness_policy, [])
     = (p, [Close Muted None]) \<and> tp_finished p"
  using witness_turn_run turn_ends_exactly_once [OF witness_turn_new] by fastforce

end
