(* ===== verification/Turn_Commits.thy ===== *)
theory Turn_Commits
  imports Turn_Protocol
begin

text \<open>
  What a commit promises, when a turn is over, and when its timer ends it
  (\<open>crates/turn/src/endpoint.rs\<close>): laws of the policy beside the order of its decisions.
\<close>

section \<open>Specification\<close>

text \<open>
  A sound commit: its boundary is the end of a command-speech cell after the trigger, its span starts in
  the turn and ends by the audio heard, and without a normal pause its text is a complete sentence
  and is to be checked again.
\<close>

definition commit_sound :: "turn_policy \<Rightarrow> commit \<Rightarrow> bool" where
  "commit_sound p c \<longleftrightarrow>
     (\<exists>r \<in> set (tp_cells p). cr_class r = CommandSpeech \<and> ts_trigger (tp_spec p) < cr_end r \<and> cr_end r = co_boundary c)
     \<and> tp_frontier p = Some (co_at c)
     \<and> ts_start (tp_spec p) \<le> ss_start (co_span c)
     \<and> ss_start (co_span c) \<le> ss_end (co_span c)
     \<and> ss_end (co_span c) \<le> max (ss_start (co_span c)) (co_at c)
     \<and> (co_route c \<in> {RouteB, RouteFallback} \<longrightarrow> co_class c = Some Complete)
     \<and> (co_recheck c \<longleftrightarrow> co_route c \<in> {RouteB, RouteFallback})"

definition commits_sound :: "step \<Rightarrow> bool" where
  "commits_sound s \<longleftrightarrow> (\<forall>c. Commit c \<in> set (snd s) \<longrightarrow> tp_finished (fst s) \<and> commit_sound (fst s) c)"

definition commit_run_ok :: "step \<Rightarrow> bool" where
  "commit_run_ok s \<longleftrightarrow> turn_run_ok s \<and> commits_sound s"

text \<open>The limits of a turn that still listens after a block.\<close>

definition within_limits :: "turn_policy \<Rightarrow> bool" where
  "within_limits p \<longleftrightarrow>
     (\<forall>t. tp_frontier p = Some t \<longrightarrow>
        (command_start_any p = None \<longrightarrow> t < no_input_limit p)
        \<and> (\<forall>f. long_from p = Some f \<longrightarrow> sample_since t f < max_length p))"

text \<open>A reply turn with one cell of speech that is committed at the second block.\<close>

definition commit_config :: turn_config where
  "commit_config = witness_turn_config\<lparr>tc_endpoint := endpoint_default\<lparr>np_lookahead := 0, np_ha_reply_pause := 0\<rparr>\<rparr>"

definition commit_cell :: cell_evidence where
  "commit_cell = \<lparr>ce_cell = 0, ce_audio = Present None None (VadProbability 1) ECHO_SILENT_REFERENCE\<rparr>"

definition commit_policy :: turn_policy where
  "commit_policy = (case turn_policy_new commit_config witness_turn_spec 0 of Inr p \<Rightarrow> p)"

definition commit_evidence_ops :: "evidence_op list" where
  "commit_evidence_ops =
     [PushDevice 9 0 [DeviceUnknown], PushEcho 9 0 [ECHO_SILENT_REFERENCE], PushVad 9 0 [VadProbability 1],
      PushAsr 9 (witness_result 512), PushAsr 9 (witness_result 600)]"

definition commit_ops :: "turn_op list" where
  "commit_ops = map Feed commit_evidence_ops @ [Advance 5]"

section \<open>Lemmas\<close>

lemma commit_sound_frame [simp]:
  "commit_sound (note_event e p) = commit_sound p" "commit_sound (p\<lparr>tp_finished := b\<rparr>) = commit_sound p"
  "commit_sound (p\<lparr>tp_pending := x\<rparr>) = commit_sound p" "commit_sound (p\<lparr>tp_evidence := y\<rparr>) = commit_sound p"
  by (auto simp: fun_eq_iff commit_sound_def note_event_def)

lemma commit_of_sound:
  assumes "turn_inv p" "boundary \<in> set (tp_command_ends p)" "tp_frontier p = Some frontier"
    "route = RouteB \<or> route = RouteFallback \<Longrightarrow> ju_class j = Some Complete"
  shows "commit_sound p (commit_of route boundary e frontier j p)"
proof -
  have "\<exists>r \<in> set (tp_cells p). cr_class r = CommandSpeech \<and> ts_trigger (tp_spec p) < cr_end r \<and> cr_end r = boundary"
    using assms(1,2) by (auto simp: turn_inv_def command_end_cells_def)
  then show ?thesis
    using assms(3,4) by (auto simp: commit_sound_def commit_of_def Let_def sample_span_new_def split: option.splits)
qed

lemma commit_of_pending [simp]:
  "commit_of route boundary e frontier j (p\<lparr>tp_pending := x\<rparr>) = commit_of route boundary e frontier j p"
  by (simp add: commit_of_def Let_def split: option.splits)

lemma commit_end_sound:
  assumes "commit_sound p (commit_of route boundary e frontier j p)"
  shows "commits_sound (commit_end route boundary e frontier j p)"
  using assms by (simp add: commits_sound_def commit_end_def Let_def)

lemma close_sound [simp]: "commits_sound (close reason cause p)"
  by (simp add: commits_sound_def close_def)

lemma none_sound [simp]: "commits_sound (p, [])"
  by (simp add: commits_sound_def)

lemma evaluate_pending_sound:
  assumes "turn_inv p" "tp_pending p = Some pd" "tp_frontier p = Some frontier"
  shows "commits_sound (evaluate_pending frontier pd p)"
proof -
  have "pe_boundary pd \<in> set (tp_command_ends p)"
    "pe_route pd = RouteB \<or> pe_route pd = RouteFallback \<Longrightarrow> ju_class (pe_judged pd) = Some Complete"
    using assms(1,2) by (auto simp: turn_inv_def)
  then have "commit_sound p (commit_of (pe_route pd) (pe_boundary pd) e frontier (pe_judged pd) p)" for e
    by (intro commit_of_sound [OF assms(1) _ assms(3)])
  then have "commits_sound (commit_end (pe_route pd) (pe_boundary pd) e frontier (pe_judged pd) (p\<lparr>tp_pending := None\<rparr>))" for e
    by (intro commit_end_sound) simp
  moreover have "commits_sound (q, [EndRevoked b t])" for q b t by (simp add: commits_sound_def)
  ultimately show ?thesis by (simp add: evaluate_pending_def Let_def)
qed

lemma evaluate_no_progress_sound:
  assumes "turn_inv p" "tp_frontier p = Some frontier"
  shows "commits_sound (evaluate_no_progress frontier start p)"
proof -
  have "commits_sound (commit_end RouteFallback b e frontier (judged_now p) p)"
    if "tp_class p = Some Complete" "last_command_end_by t p = Some b" for b e t
    using last_command_end_mem [OF that(2)] that(1)
    by (intro commit_end_sound commit_of_sound [OF assms(1) _ assms(2)]) (simp_all add: judged_now_def)
  then show ?thesis by (auto simp: evaluate_no_progress_def Let_def split: option.splits text_class.splits)
qed

lemma evaluated_sound:
  assumes "turn_inv p"
  shows "commits_sound (evaluated through p)"
proof -
  have "commits_sound (q, [EndPending r b t])" for q r b t by (simp add: commits_sound_def)
  then show ?thesis
    using evaluate_pending_sound [OF assms] evaluate_no_progress_sound [OF assms]
    by (auto simp: evaluated_def evaluate_def Let_def split: option.splits)
qed

lemma matched_sound:
  assumes "commits_sound e"
  shows "commits_sound (matched ask through now e)"
  using assms by (auto simp: commits_sound_def matched_def ask_matcher_def set_recognizer_def Let_def)

lemma on_block_sound:
  assumes "turn_inv p"
  shows "commits_sound (on_block uc grammar obs now p)"
proof -
  obtain p3 ask where "keeps p p3"
    and res: "on_block uc grammar obs now p = matched ask (ao_through obs) now (evaluated (ao_through obs) p3)"
    by (rule on_block_parts [of p uc grammar obs now])
  then show ?thesis using keeps_inv assms by (auto intro: matched_sound evaluated_sound)
qed

lemma on_cell_commits_nothing: "Commit c \<notin> set (snd (on_cell fl cell p))"
  by (auto simp: on_cell_def Let_def gap_cell_def close_def command_cell_def reopen_def split: option.splits cell_audio.splits prod.splits)

lemma on_released_sound:
  assumes "turn_inv (fst s)" "commits_sound s"
  shows "commits_sound (on_released uc fl grammar now item s)"
proof (cases "tp_finished (fst s)")
  case True
  then show ?thesis using assms(2) by (simp add: on_released_def case_prod_beta)
next
  case False
  then have old: "Commit c \<notin> set (snd s)" for c using assms(2) by (auto simp: commits_sound_def)
  let ?q = "fst s\<lparr>tp_last_progress := now\<rparr>"
  have "turn_inv ?q" using assms(1) by (auto simp: turn_inv_def)
  then have "commits_sound (on_block uc grammar obs now ?q)" for obs by (rule on_block_sound)
  then show ?thesis
    using False old on_cell_commits_nothing
    by (auto simp: on_released_def commits_sound_def case_prod_beta split: released.splits)
qed

lemma advance_sound:
  assumes "turn_inv p"
  shows "commits_sound (advance_turn uc fl grammar now p)"
proof (cases "tp_finished p")
  case False
  let ?f = "on_released uc fl grammar now"
  have "turn_inv (fst s) \<and> commits_sound s \<Longrightarrow> turn_inv (fst (fold ?f items s)) \<and> commits_sound (fold ?f items s)" for items s
  proof (induction items arbitrary: s)
    case (Cons x xs)
    then have "refines (fst s) (fst s, [])" using refines_keeps keeps_refl by blast
    moreover have "fst (?f x s) = fst (?f x (fst s, []))" by (simp add: on_released_def case_prod_beta split: released.splits)
    ultimately have "turn_inv (fst (?f x s))"
      using on_released_refines [of "fst s" "(fst s, [])" uc fl grammar now x] Cons.prems by (simp add: refines_def)
    then show ?case using Cons.IH [of "?f x s"] on_released_sound Cons.prems by simp
  qed simp
  moreover have "turn_inv (p\<lparr>tp_evidence := a\<rparr>)" for a using assms by (auto simp: turn_inv_def)
  ultimately show ?thesis using False by (simp add: advance_turn_def case_prod_beta)
qed (simp add: advance_turn_def)

lemma turn_op_sound:
  assumes "turn_inv p"
  shows "commits_sound (turn_op_step uc fl grammar op p)"
  by (cases op) (simp_all add: advance_sound [OF assms] on_timer_def turn_mute_def turn_session_lost_def turn_audio_overrun_def
      turn_worker_error_def turn_discontinuity_def)

text \<open>A turn that is over takes in evidence and does nothing else.\<close>

lemma finished_idle:
  assumes "tp_finished p"
  shows "\<exists>a. turn_op_step uc fl grammar op p = (p\<lparr>tp_evidence := a\<rparr>, [])"
proof -
  have "\<exists>a. p = p\<lparr>tp_evidence := a\<rparr>" by (rule exI [of _ "tp_evidence p"]) simp
  then show ?thesis
    using assms by (cases op) (auto simp: feed_evidence_def advance_turn_def recognizer_answer_in_def pause_server_asked_def
      pause_server_answer_in_def on_timer_def close_def turn_mute_def turn_session_lost_def turn_audio_overrun_def
      turn_worker_error_def turn_discontinuity_def split: sum.splits)
qed

lemma commit_step_ok:
  assumes "commit_run_ok s"
  shows "commit_run_ok (turn_step uc fl grammar op s)"
proof -
  have ok: "turn_run_ok (turn_step uc fl grammar op s)" "turn_inv (fst s)" "commits_sound s"
    using assms turn_step_ok by (auto simp: commit_run_ok_def turn_run_ok_def)
  have "commits_sound (turn_step uc fl grammar op s)"
  proof (cases "tp_finished (fst s)")
    case True
    then obtain a where "turn_op_step uc fl grammar op (fst s) = ((fst s)\<lparr>tp_evidence := a\<rparr>, [])"
      using finished_idle by blast
    then show ?thesis using ok(3) by (simp add: turn_step_def commits_sound_def)
  next
    case False
    then show ?thesis using turn_op_sound [OF ok(2), of uc fl grammar op] ok(3)
      by (auto simp: turn_step_def commits_sound_def case_prod_beta)
  qed
  with ok(1) show ?thesis by (simp add: commit_run_ok_def)
qed

interpretation commit_machine: invariant_machine "turn_step uc fl grammar" commit_run_ok for uc fl grammar
  by unfold_locales (rule commit_step_ok)

lemma evaluate_frame:
  "tp_frontier (fst (evaluate t u p)) = tp_frontier p" "tp_spec (fst (evaluate t u p)) = tp_spec p"
  "tp_config (fst (evaluate t u p)) = tp_config p" "tp_command_cells (fst (evaluate t u p)) = tp_command_cells p"
  "tp_command_start (fst (evaluate t u p)) = tp_command_start p"
  by (auto simp: evaluate_def Let_def close_def note_event_def evaluate_pending_def commit_end_def evaluate_no_progress_def
      split: option.splits prod.splits text_class.splits)

lemma limits_frame:
  assumes "tp_frontier q = tp_frontier p" "tp_spec q = tp_spec p" "tp_config q = tp_config p"
    "tp_command_cells q = tp_command_cells p" "tp_command_start q = tp_command_start p"
  shows "within_limits q \<longleftrightarrow> within_limits p"
  unfolding within_limits_def command_start_any_def no_input_limit_def long_from_def max_length_def is_reply_def reply_of_def
    assms by (rule refl)

lemma close_finishes [simp]: "tp_finished (fst (close reason cause p))"
  by (simp add: close_def note_event_def)

lemma evaluated_within_limits:
  assumes "tp_reply_gap_end p = None" "\<not> tp_finished (fst (evaluated through p))"
  shows "within_limits (fst (evaluated through p))"
proof (cases "tp_frontier p")
  case None
  then show ?thesis using assms(1) by (simp add: evaluated_def within_limits_def)
next
  case (Some t)
  then have e: "evaluated through p = evaluate t through p" using assms(1) by (simp add: evaluated_def)
  have "within_limits p"
    using assms(2) Some unfolding e within_limits_def
    by (auto simp: evaluate_def Let_def not_le split: if_splits)
  then show ?thesis unfolding e using limits_frame [of "fst (evaluate t through p)" p] by (simp add: evaluate_frame)
qed

subsection \<open>A turn that commits\<close>

lemma commit_fields:
  "tp_config commit_policy = commit_config" "tp_spec commit_policy = witness_turn_spec"
  "tp_background commit_policy = \<lparr>bg_window = [], bg_speech_vad = 1 / 4\<rparr>"
  "tp_foreground commit_policy = foreground_new" "tp_seed commit_policy = Some []"
  "tp_classifier commit_policy = classifier_new (tc_attribution commit_config) 0 (Some \<lparr>ra_guard_until = None\<rparr>)"
  "tp_reply_gap_end commit_policy = None" "tp_command_cells commit_policy = 0" "tp_command_ends commit_policy = []"
  "tp_command_start commit_policy = None" "tp_cells commit_policy = []" "tp_run_start commit_policy = None"
  "tp_text commit_policy = tracker_new 0 None" "tp_class commit_policy = None" "tp_grammar_class commit_policy = None"
  "tp_arrived commit_policy = []" "tp_server_arrived commit_policy = []" "tp_kroko_texts commit_policy = []"
  "tp_server_texts commit_policy = []" "tp_pending commit_policy = None" "\<not> tp_finished commit_policy"
  "ut_segments (tp_trace commit_policy) = []" "tp_dated_back_cells commit_policy = 0"
  "tp_evidence commit_policy = \<lparr>as_plan = \<lparr>ep_epoch = 9, ep_cells_from = 0, ep_vad_from = 0, ep_analysis_from = 0\<rparr>, as_next = 0,
    as_slots = [], as_blocks = [], as_last_through = None, as_asr_closed = False\<rparr>"
  by (simp_all add: commit_policy_def commit_config_def turn_policy_new_def witness_turn_config_def witness_turn_spec_def evidence_plan_of_def
     assembler_new_def sample_cell_def Let_def background_new_def)

lemma seed_frame:
  "tp_text (seed_at_trigger b p) = tp_text p" "tp_class (seed_at_trigger b p) = tp_class p"
  "tp_grammar_class (seed_at_trigger b p) = tp_grammar_class p" "tp_arrived (seed_at_trigger b p) = tp_arrived p"
  "tp_server_arrived (seed_at_trigger b p) = tp_server_arrived p" "tp_classifier (seed_at_trigger b p) = tp_classifier p"
  by (simp_all add: seed_at_trigger_def Let_def split: option.splits)

lemma judge_frame:
  "tp_text (snd (judge_cell fl c b p)) = tp_text p" "tp_class (snd (judge_cell fl c b p)) = tp_class p"
  "tp_grammar_class (snd (judge_cell fl c b p)) = tp_grammar_class p" "tp_arrived (snd (judge_cell fl c b p)) = tp_arrived p"
  "tp_server_arrived (snd (judge_cell fl c b p)) = tp_server_arrived p"
  "fst (judge_cell fl c b p) = cd_class (fst (classify_cell fl c b (foreground_db fl (tp_foreground p)) (tp_classifier p)))"
  by (simp_all add: judge_cell_def Let_def case_prod_beta)

lemma command_frame:
  "tp_text (fst (command_cell fl c p)) = tp_text p" "tp_class (fst (command_cell fl c p)) = tp_class p"
  "tp_grammar_class (fst (command_cell fl c p)) = tp_grammar_class p" "tp_arrived (fst (command_cell fl c p)) = tp_arrived p"
  "tp_server_arrived (fst (command_cell fl c p)) = tp_server_arrived p" "tp_frontier (fst (command_cell fl c p)) = tp_frontier p"
  "tp_command_cells (fst (command_cell fl c p)) = tp_command_cells p + 1"
  "tp_command_ends (fst (command_cell fl c p)) = tp_command_ends p @ [cell_end (ce_cell c)]"
  "tp_pending (fst (command_cell fl c p)) = tp_pending p" "tp_reply_gap_end (fst (command_cell fl c p)) = tp_reply_gap_end p"
  "tp_config (fst (command_cell fl c p)) = tp_config p" "tp_spec (fst (command_cell fl c p)) = tp_spec p"
  "tp_finished (fst (command_cell fl c p)) = tp_finished p"
  "tp_cells (fst (command_cell fl c p)) = tp_cells p"
  by (simp_all add: command_cell_def Let_def)

lemma commit_opens: "cd_class (fst (classify_cell witness_rounding commit_cell b f (tp_classifier commit_policy))) = CommandSpeech"
  by (simp add: classify_cell_def commit_cell_def commit_fields commit_config_def witness_turn_config_def Let_def classifier_new_def
    classify_voiced_def track_voiced_def test_under_way_def level_ratio_def energy_db_def run_start_of_def cell_start_def cell_end_def
    cell_next_def CELL_SAMPLES_def sample_since_def ECHO_SILENT_REFERENCE_def wrap64_def)

lemma commit_cell_step:
  obtains q where "on_cell witness_rounding commit_cell (commit_policy\<lparr>tp_evidence := a\<rparr>) = (q, [CommandStarted 0])"
    "tp_text q = tracker_new 0 None" "tp_class q = None" "tp_grammar_class q = None" "tp_arrived q = []" "tp_server_arrived q = []"
    "tp_frontier q = Some 512" "tp_command_cells q = 1" "tp_command_ends q = [512]" "tp_pending q = None"
    "tp_reply_gap_end q = None" "tp_config q = commit_config" "tp_spec q = witness_turn_spec" "\<not> tp_finished q"
    "list_all (\<lambda>c. cr_end c = 512) (tp_cells q)"
proof -
  let ?p = "commit_policy\<lparr>tp_evidence := a\<rparr>"
  define b where "b = background_db witness_rounding (tp_background ?p)"
  define s where "s = seed_at_trigger True (?p\<lparr>tp_background := background_push (ce_audio commit_cell) (tp_background ?p)\<rparr>)"
  define j where "j = judge_cell witness_rounding commit_cell b s"
  obtain r where r: "cr_end r = cell_end (ce_cell commit_cell)"
    "keeps (s\<lparr>tp_cells := tp_cells s @ [r], tp_frontier := Some (cell_end (ce_cell commit_cell))\<rparr>) (snd j)"
    using judge_cell_keeps(1) [of witness_rounding commit_cell b s "fst j" "snd j"] by (auto simp: j_def)
  have e: "cell_end (ce_cell commit_cell) = 512" "cell_start (ce_cell commit_cell) = 0"
    by (simp_all add: commit_cell_def cell_end_def cell_start_def cell_next_def CELL_SAMPLES_def wrap64_def)
  have k: "keeps (?p\<lparr>tp_background := background_push (ce_audio commit_cell) (tp_background ?p)\<rparr>) s"
    unfolding s_def by (rule seed_keeps)
  have c: "fst j = CommandSpeech" unfolding j_def judge_frame s_def seed_frame using commit_opens by simp
  have "on_cell witness_rounding commit_cell ?p = command_cell witness_rounding commit_cell (snd j)"
    using c commit_fields e unfolding j_def s_def b_def
    by (simp add: on_cell_def Let_def case_prod_beta commit_cell_def witness_turn_spec_def sample_round_down_def)
  moreover have "snd (command_cell witness_rounding commit_cell (snd j)) = [CommandStarted 0]"
    using r(2) k e commit_fields by (simp add: command_cell_def Let_def keeps_def)
  ultimately show thesis
    using r k e commit_fields
    by (intro that [of "fst (command_cell witness_rounding commit_cell (snd j))"])
      (simp_all add: command_frame judge_frame seed_frame keeps_def j_def s_def prod_eq_iff)
qed

lemma quiet_block:
  assumes "tp_text p = tracker_new 0 None" "tp_class p = None" "tp_grammar_class p = None" "tp_arrived p = []" "tp_server_arrived p = []"
  shows "\<exists>tr. on_block uc g (witness_result t) now p = evaluated t (p\<lparr>tp_trace := tr\<rparr>)"
proof -
  have same: "p\<lparr>tp_arrived := []\<rparr> = p" "p\<lparr>tp_server_arrived := []\<rparr> = p" "p\<lparr>tp_text := tracker_new 0 None\<rparr> = p"
    "p\<lparr>tp_class := None\<rparr> = p"
    using assms by (simp_all flip: assms)
  have t: "take_result (witness_result t) (tp_text p) = (False, tp_text p)" "settle_text uc t (tp_text p) = (False, tp_text p)"
    using assms(1) by (simp_all add: take_result_def witness_result_def tracker_new_def set_tokens_def settle_text_def)
  have "apply_answers t p = p" using assms same by (simp add: apply_answers_def refresh_class_def)
  moreover have "take_server_answers uc t p = (False, p)" using assms same by (simp add: take_server_answers_def)
  ultimately have "take_block uc (witness_result t) now p = (False, False, p)"
    using t by (simp add: take_block_def witness_result_def assms(1) same Let_def)
  moreover have "note_judged t False False p = p" by (simp add: note_judged_def Let_def split: option.splits)
  ultimately have "on_block uc g (witness_result t) now p
      = evaluated t (p\<lparr>tp_trace := (tp_trace p)\<lparr>ut_streaming_text := tx_streaming_text (tp_text p), ut_heard := heard_text (tp_text p)\<rparr>\<rparr>)"
    by (cases "tp_reply_gap_end p"; cases "tp_frontier p")
      (simp_all add: on_block_def judge_text_def evaluated_def Let_def witness_result_def case_prod_beta)
  then show ?thesis by blast
qed

lemmas commit_evaluation = evaluated_def evaluate_def command_start_any_def long_from_def max_length_def is_reply_def reply_of_def
  no_input_limit_def witness_turn_spec_def commit_config_def witness_turn_config_def endpoint_default_def choose_route_def is_ha_reply_def
  route_r_def note_event_def Let_def sample_since_def samples_from_ms_def SAMPLE_RATE_def wrap64_def

lemma far [simp]: "\<not> (240000::nat) \<le> 512 - a" by arith

lemma commit_block1:
  assumes "tp_frontier p = Some 512" "tp_command_cells p = 1" "tp_command_ends p = [512]" "tp_pending p = None"
    "tp_reply_gap_end p = None" "tp_config p = commit_config" "tp_spec p = witness_turn_spec"
  shows "\<exists>tr pd. evaluated 512 p = (p\<lparr>tp_pending := Some pd, tp_trace := tr\<rparr>, [EndPending RouteR 512 512]) \<and> pe_since pd = 512"
proof -
  let ?pd = "\<lparr>pe_route = RouteR, pe_boundary = 512, pe_since = 512, pe_judged = judged_now p\<rparr>"
  let ?e = "EventPending RouteR 512 512 (route_evidence_of 0 0 p)"
  have "evaluated 512 p = (p\<lparr>tp_pending := Some ?pd, tp_trace := (tp_trace p)\<lparr>ut_endpoint := ut_endpoint (tp_trace p) @ [?e]\<rparr>\<rparr>,
      [EndPending RouteR 512 512])"
    using assms by (cases "tp_command_start p") (simp_all add: commit_evaluation)
  then show ?thesis by (intro exI [of _ ?pd] exI conjI) simp_all
qed

lemma commit_block2:
  assumes "tp_frontier p = Some 512" "tp_command_cells p = 1" "tp_pending p = Some pd" "pe_since pd = 512"
    "tp_reply_gap_end p = None" "tp_config p = commit_config" "tp_spec p = witness_turn_spec"
    "list_all (\<lambda>c. cr_end c = 512) (tp_cells p)"
  shows "\<exists>q c. evaluated t p = (q, [Commit c])"
proof -
  have "takeWhile (\<lambda>c. 512 < cr_end c) (rev (tp_cells p)) = []"
    using assms(8) by (cases "rev (tp_cells p)") (auto simp: list_all_iff simp flip: set_rev [of "tp_cells p"])
  then have none: "command_cells_since (pe_since pd) p = 0" using assms(4) by (simp add: command_cells_since_def)
  have v: "np_lookahead (policy_values p) = 0" "np_revoke_command_cells (policy_values p) = 4"
    using assms(6) by (simp_all add: commit_config_def endpoint_default_def)
  have "evaluated t p = evaluate_pending 512 pd p"
    using assms(1,2,3,5,6,7) by (cases "tp_command_start p") (simp_all add: commit_evaluation)
  then show ?thesis using none v by (simp add: evaluate_pending_def commit_end_def Let_def)
qed

lemma feed_run:
  assumes "ReleaseReady \<notin> set ops"
  shows "fold (turn_step uc fl g) (map Feed ops) (p, out) = (p\<lparr>tp_evidence := snd (fold evidence_step ops (xs, tp_evidence p))\<rparr>, out)"
  using assms
proof (induction ops arbitrary: p)
  case (Cons op ops)
  have "turn_step uc fl g (Feed op) (p, out) = (p\<lparr>tp_evidence := snd (evidence_step op (xs, tp_evidence p))\<rparr>, out)"
    "evidence_step op (xs, tp_evidence p) = (xs, snd (evidence_step op (xs, tp_evidence p)))"
    using Cons.prems by (auto simp: turn_step_def feed_evidence_def evidence_step_def split: sum.splits)
  then show ?case using Cons by (simp del: fold.simps add: fold_simps)
qed simp

lemma commit_turn_new: "turn_policy_new commit_config witness_turn_spec 0 = Inr commit_policy"
  by (simp add: commit_policy_def turn_policy_new_def witness_turn_spec_def evidence_plan_of_def assembler_new_def sample_cell_def Let_def)

lemma commit_evidence:
  "\<exists>a. fold (turn_step uc fl g) (map Feed commit_evidence_ops) (commit_policy, []) = (commit_policy\<lparr>tp_evidence := a\<rparr>, [])
     \<and> fst (release_evidence ([], a)) = [ReleasedCell commit_cell, ReleasedBlock (witness_result 512), ReleasedBlock (witness_result 600)]"
proof -
  have "fst (release_evidence ([], snd (fold evidence_step commit_evidence_ops ([], tp_evidence commit_policy))))
    = [ReleasedCell commit_cell, ReleasedBlock (witness_result 512), ReleasedBlock (witness_result 600)]"
    unfolding commit_fields by (simp add: commit_evidence_ops_def evidence_eval witness_result_def commit_cell_def)
  moreover have "ReleaseReady \<notin> set commit_evidence_ops" by (simp add: commit_evidence_ops_def)
  ultimately show ?thesis using feed_run by blast
qed

lemma commit_turn_run:
  "\<exists>p c. fold (turn_step witness_unicode witness_rounding no_grammar) commit_ops (commit_policy, [])
     = (p, [CommandStarted 0, EndPending RouteR 512 512, Commit c])"
proof -
  let ?step = "turn_step witness_unicode witness_rounding no_grammar"
  let ?block = "\<lambda>t. on_block witness_unicode no_grammar (witness_result t) 5"
  obtain a where a: "fold ?step (map Feed commit_evidence_ops) (commit_policy, []) = (commit_policy\<lparr>tp_evidence := a\<rparr>, [])"
    "fst (release_evidence ([], a)) = [ReleasedCell commit_cell, ReleasedBlock (witness_result 512), ReleasedBlock (witness_result 600)]"
    using commit_evidence by blast
  obtain q where q: "on_cell witness_rounding commit_cell (commit_policy\<lparr>tp_evidence := snd (release_evidence ([], a))\<rparr>) = (q, [CommandStarted 0])"
    "tp_text q = tracker_new 0 None" "tp_class q = None" "tp_grammar_class q = None" "tp_arrived q = []" "tp_server_arrived q = []"
    "tp_frontier q = Some 512" "tp_command_cells q = 1" "tp_command_ends q = [512]" "tp_pending q = None"
    "tp_reply_gap_end q = None" "tp_config q = commit_config" "tp_spec q = witness_turn_spec" "\<not> tp_finished q"
    "list_all (\<lambda>c. cr_end c = 512) (tp_cells q)"
    by (rule commit_cell_step)
  let ?q = "q\<lparr>tp_last_progress := 5\<rparr>"
  have "\<exists>tr. ?block 512 ?q = evaluated 512 (?q\<lparr>tp_trace := tr\<rparr>)" using q by (intro quiet_block) simp_all
  then obtain tr where tr: "?block 512 ?q = evaluated 512 (?q\<lparr>tp_trace := tr\<rparr>)" by blast
  obtain tr1 pd where b1: "?block 512 ?q = (?q\<lparr>tp_trace := tr, tp_pending := Some pd, tp_trace := tr1\<rparr>, [EndPending RouteR 512 512])"
    "pe_since pd = 512"
    using commit_block1 [of "?q\<lparr>tp_trace := tr\<rparr>"] q unfolding tr by auto
  let ?r = "?q\<lparr>tp_trace := tr, tp_pending := Some pd, tp_trace := tr1\<rparr>"
  let ?s = "?r\<lparr>tp_last_progress := 5\<rparr>"
  have "\<exists>tr. ?block 600 ?s = evaluated 600 (?s\<lparr>tp_trace := tr\<rparr>)" using q by (intro quiet_block) simp_all
  then obtain tr2 where tr2: "?block 600 ?s = evaluated 600 (?s\<lparr>tp_trace := tr2\<rparr>)" by blast
  have "\<exists>p c. evaluated 600 (?s\<lparr>tp_trace := tr2\<rparr>) = (p, [Commit c])"
    using q b1(2) by (intro commit_block2 [of _ pd]) simp_all
  then obtain p c where b2: "?block 600 ?s = (p, [Commit c])" unfolding tr2 by blast
  have "\<not> tp_finished commit_policy" using commit_fields by simp
  then have "?step (Advance 5) (commit_policy\<lparr>tp_evidence := a\<rparr>, []) = (p, [CommandStarted 0, EndPending RouteR 512 512, Commit c])"
    using a(2) q(1,14) b1(1) b2 by (simp add: turn_step_def advance_turn_def case_prod_beta on_released_def)
  then show ?thesis using a(1) by (auto simp: commit_ops_def)
qed

section \<open>Properties\<close>

text \<open>
  (C22) Whatever reached a turn, what it commits is sound: the boundary is the end of a cell of command
  speech after the trigger, the span starts in the turn and ends by the audio heard, and a commit
  without a normal pause has a complete sentence and, only then, is to be checked again.
\<close>

theorem commits_are_sound:
  assumes "turn_policy_new config spec now = Inr p0" "fold (turn_step uc fl grammar) ops (p0, []) = (p, out)" "Commit c \<in> set out"
  shows "commit_sound p c"
proof -
  have "commit_run_ok (p0, [])" using turn_new_ok [OF assms(1)] by (simp add: commit_run_ok_def)
  from commit_machine.run_inv [OF this, of uc fl grammar ops] assms(2,3) show ?thesis
    by (simp add: commit_run_ok_def commits_sound_def)
qed

theorem commits_are_sound_witness:
  "\<exists>p c. fold (turn_step witness_unicode witness_rounding no_grammar) commit_ops (commit_policy, [])
     = (p, [CommandStarted 0, EndPending RouteR 512 512, Commit c]) \<and> commit_sound p c"
  using commit_turn_run commits_are_sound [OF commit_turn_new] by (metis list.set_intros)

text \<open>
  A block that leaves the turn open leaves it within its limits: without command speech the audio is
  short of the no-input limit, and the utterance is shorter than the longest allowed.
\<close>

theorem blocks_enforce_limits:
  assumes "tp_reply_gap_end p = None" "\<not> tp_finished (fst (on_block uc grammar obs now p))"
  shows "within_limits (fst (on_block uc grammar obs now p))"
proof -
  obtain p3 ask where k: "keeps p p3"
    and res: "on_block uc grammar obs now p = matched ask (ao_through obs) now (evaluated (ao_through obs) p3)"
    by (rule on_block_parts [of p uc grammar obs now])
  let ?e = "evaluated (ao_through obs) p3"
  have "within_limits (fst (ask_matcher t now q)) = within_limits q" for t q
    by (rule limits_frame) (simp_all add: ask_matcher_def set_recognizer_def Let_def)
  then have "tp_finished (fst (matched ask (ao_through obs) now ?e)) = tp_finished (fst ?e)"
    and "within_limits (fst (matched ask (ao_through obs) now ?e)) = within_limits (fst ?e)"
    by (simp_all add: matched_def Let_def) (simp add: ask_matcher_def set_recognizer_def Let_def)
  then show ?thesis using evaluated_within_limits [of p3] assms k unfolding res by (simp add: keeps_def)
qed

theorem blocks_enforce_limits_witness:
  "\<exists>q. tp_frontier q = Some 512 \<and> within_limits (fst (on_block witness_unicode no_grammar (witness_result 512) 5 q))"
proof -
  obtain q where q: "tp_text q = tracker_new 0 None" "tp_class q = None" "tp_grammar_class q = None" "tp_arrived q = []" "tp_server_arrived q = []"
    "tp_frontier q = Some 512" "tp_command_cells q = 1" "tp_command_ends q = [512]" "tp_pending q = None"
    "tp_reply_gap_end q = None" "tp_config q = commit_config" "tp_spec q = witness_turn_spec" "\<not> tp_finished q"
    "on_cell witness_rounding commit_cell (commit_policy\<lparr>tp_evidence := tp_evidence commit_policy\<rparr>) = (q, [CommandStarted 0])"
    by (rule commit_cell_step [of "tp_evidence commit_policy"])
  have "\<exists>tr. on_block witness_unicode no_grammar (witness_result 512) 5 q = evaluated 512 (q\<lparr>tp_trace := tr\<rparr>)"
    using q by (intro quiet_block) simp_all
  then obtain tr where tr: "on_block witness_unicode no_grammar (witness_result 512) 5 q = evaluated 512 (q\<lparr>tp_trace := tr\<rparr>)" by blast
  have "\<exists>tr' pd. evaluated 512 (q\<lparr>tp_trace := tr\<rparr>) = (q\<lparr>tp_trace := tr, tp_pending := Some pd, tp_trace := tr'\<rparr>, [EndPending RouteR 512 512])
      \<and> pe_since pd = 512"
    using q by (intro commit_block1) simp_all
  then have "\<not> tp_finished (fst (on_block witness_unicode no_grammar (witness_result 512) 5 q))" using q(13) tr by auto
  from blocks_enforce_limits [OF q(10) this] q(6) show ?thesis by blast
qed

text \<open>
  (C23) The timer is exact: with a clock that does not run back and a stall limit that fits it, the turn
  is closed by a timer exactly when the deadline it announced has come, with one close decision.
\<close>

theorem timer_is_exact:
  assumes "\<not> tp_finished p" "tp_last_progress p \<le> now"
    "tp_last_progress p + millis (np_evidence_stall_ms (policy_values p)) \<le> u64_max"
  shows "if \<exists>d. turn_deadline p = Some d \<and> d \<le> now
    then tp_finished (fst (on_timer now p)) \<and> (\<exists>r. r \<in> {NoInput, Interrupted} \<and> snd (on_timer now p) = [Close r (tp_frontier p)])
    else on_timer now p = (p, [])"
proof -
  define stall where "stall = mono_after (tp_last_progress p) (millis (np_evidence_stall_ms (policy_values p)))"
  have stall: "stall \<le> now \<longleftrightarrow> millis (np_evidence_stall_ms (policy_values p)) \<le> mono_since now (tp_last_progress p)"
    using assms(2,3) by (auto simp: stall_def mono_after_def mono_since_def sat_add_def)
  have "tp_finished (fst (close r c p)) \<and> snd (close r c p) = [Close r (tp_frontier p)]" for r c
    using assms(1) by (simp add: close_def)
  then show ?thesis
    using assms(1) stall by (auto simp: turn_deadline_def on_timer_def Let_def stall_def [symmetric] split: option.splits)
qed

theorem timer_is_exact_witness:
  "tp_finished (fst (on_timer 3000000000 commit_policy)) \<and> on_timer 2999999999 commit_policy = (commit_policy, [])"
proof -
  have p: "\<not> tp_finished commit_policy" "tp_last_progress commit_policy = 0" "np_evidence_stall_ms (policy_values commit_policy) = 3000"
    by (simp_all add: commit_policy_def turn_policy_new_def commit_config_def witness_turn_config_def witness_turn_spec_def
        evidence_plan_of_def assembler_new_def sample_cell_def endpoint_default_def Let_def)
  have "turn_deadline commit_policy = Some 3000000000"
    using p commit_fields(2) by (simp add: turn_deadline_def reply_of_def witness_turn_spec_def millis_def mono_after_def sat_add_def u64_max_def Let_def)
  then show ?thesis
    using timer_is_exact [of commit_policy 3000000000] timer_is_exact [of commit_policy 2999999999] p
    by (simp add: millis_def u64_max_def)
qed

end
