(* ===== verification/Wake_Decision.thy ===== *)
theory Wake_Decision
  imports Turn_Levels Turn_Text
begin

text \<open>
  The wake decision (\<open>crates/turn/src/wake.rs\<close>): a candidate the device reports is refused, accepted at once when
  the device was quiet, or decided from the reference scorer, the echo comparison and the
  verifier's transcript within a budget. Probabilities and distances are real numbers; the rounding of
  the distance is the argument \<open>fl\<close>, the Unicode tables the argument \<open>uc\<close>.
\<close>

section \<open>Candidates\<close>

datatype wake_profile = ProfileIdle | ProfilePlayback

record wake_hop =
  wh_end :: sample
  wh_raw :: "real option"
  wh_smoothed :: "real option"

record wake_policy =
  wp_decision_budget_ms :: nat
  wp_verify_core :: utext
  wp_verify_pass_max :: real
  wp_verification_lead :: samples
  wp_verification_lookahead :: samples

definition wake_policy_default :: "rounding \<Rightarrow> wake_policy" where
  "wake_policy_default fl =
     \<lparr>wp_decision_budget_ms = 700, wp_verify_core = map of_char ''ophel'', wp_verify_pass_max = fl64 fl (40 / 100),
      wp_verification_lead = samples_from_ms 300, wp_verification_lookahead = samples_from_ms 480\<rparr>"

record wake_candidate =
  wk_candidate_id :: utext
  wk_profile :: wake_profile
  wk_threshold :: real
  wk_producing_sound :: bool
  wk_first_crossing_end :: sample
  wk_support_start :: sample
  wk_hops :: "wake_hop list"

definition wake_open :: "wake_candidate \<Rightarrow> sample option" where
  "wake_open c = (if wk_hops c = [] then None else Some (wh_end (last (wk_hops c))))"

definition wake_trigger :: "wake_candidate \<Rightarrow> sample option" where
  "wake_trigger c =
     map_option wh_end
       (List.find (\<lambda>h. case wh_raw h of Some r \<Rightarrow> r \<ge> wk_threshold c | None \<Rightarrow> False) (rev (wk_hops c)))"

definition verification_window :: "wake_policy \<Rightarrow> wake_candidate \<Rightarrow> sample_span option" where
  "verification_window policy c =
     map_option (\<lambda>opening. sample_span_new (sample_sub (wk_support_start c) (wp_verification_lead policy))
                          (sample_add opening (wp_verification_lookahead policy))) (wake_open c)"

definition malformed_candidate :: "wake_candidate \<Rightarrow> string option" where
  "malformed_candidate c =
     (case wake_open c of
        None \<Rightarrow> Some ''no hops''
      | Some opening \<Rightarrow>
          let ordered = list_all (\<lambda>(a, b). wh_end a < wh_end b) (zip (wk_hops c) (tl (wk_hops c)))
          in if wk_candidate_id c = [] then Some ''empty candidate id''
             else if \<not> (wk_threshold c > 0 \<and> wk_threshold c \<le> 1) then Some ''threshold outside (0, 1]''
             else if \<not> ordered then Some ''hops out of order''
             else if wk_support_start c > wk_first_crossing_end c \<or> wk_first_crossing_end c > opening
               then Some ''support, first crossing and open out of order''
             else if wake_trigger c = None then Some ''no hop reaches the threshold''
             else None)"

record arrival_conditions =
  ac_diagnostic_recording :: bool
  ac_speech_unavailable :: bool
  ac_muted :: bool
  ac_candidate_pending :: bool

section \<open>Decisions\<close>

datatype wake_refusal =
    RefusedMalformed | RefusedDiagnosticRecording | RefusedSpeechUnavailable | RefusedMuted | RefusedCandidatePending
  | RefusedSelfOutput | RefusedEchoOnly | RefusedUnverifiedWake | RefusedVerifierTimeout

datatype wake_outcome = WakeAccepted | WakeRefused wake_refusal

datatype wake_rule =
    WakeArrival | WakeIdle | WakeReference | WakeEcho | WakeVerified | WakeVerifierFailed | WakeVerifierError | WakeDeadline

datatype reference_score = NoOverlap | Overlap | ReferenceUnavailable

datatype candidate_echo = CandidateEchoOnly | CandidateNearEnd | CandidateEchoUnknown

datatype verifier_result = VerifierText utext | VerifierError

record verification_record =
  vr_text :: "utext option"
  vr_distance :: "real option"
  vr_passes :: bool
  vr_at_ms :: nat
  vr_late :: bool

record wake_trace =
  wt_candidate :: wake_candidate
  wt_verification_window :: "sample_span option"
  wt_deadline_ms :: nat
  wt_malformed :: "string option"
  wt_reference :: "(reference_score \<times> nat) option"
  wt_echo :: "(candidate_echo \<times> nat) option"
  wt_verification :: "verification_record option"
  wt_outcome :: "wake_outcome option"
  wt_rule :: "wake_rule option"
  wt_decided_ms :: "nat option"

record wake_decision =
  wn_outcome :: wake_outcome
  wn_rule :: wake_rule

record wake_decider =
  wd_policy :: wake_policy
  wd_received_at :: mono_instant
  wd_deadline :: mono_instant
  wd_verdict :: "(unit, bool) result option"
  wd_decision :: "wake_decision option"
  wd_trace :: wake_trace

definition wake_ms :: "mono_instant \<Rightarrow> wake_decider \<Rightarrow> nat" where
  "wake_ms now d = mono_since now (wd_received_at d) div 1000000"

text \<open>An operation returns the decision it made, if any, and the decider.\<close>

type_synonym wake_step = "wake_decision option \<times> wake_decider"

definition decide_wake :: "wake_outcome \<Rightarrow> wake_rule \<Rightarrow> mono_instant \<Rightarrow> wake_decider \<Rightarrow> wake_step" where
  "decide_wake outcome rule now d =
     (let n = \<lparr>wn_outcome = outcome, wn_rule = rule\<rparr>
      in (Some n, d\<lparr>wd_decision := Some n,
                    wd_trace := (wd_trace d)\<lparr>wt_outcome := Some outcome, wt_rule := Some rule,
                                             wt_decided_ms := Some (wake_ms now d)\<rparr>\<rparr>))"

definition arrival_refusal :: "wake_candidate \<Rightarrow> arrival_conditions \<Rightarrow> wake_refusal option" where
  "arrival_refusal candidate conditions =
     (if malformed_candidate candidate \<noteq> None then Some RefusedMalformed
      else if ac_diagnostic_recording conditions then Some RefusedDiagnosticRecording
      else if ac_speech_unavailable conditions then Some RefusedSpeechUnavailable
      else if ac_muted conditions then Some RefusedMuted
      else if ac_candidate_pending conditions then Some RefusedCandidatePending
      else None)"

definition wake_arrive :: "wake_candidate \<Rightarrow> arrival_conditions \<Rightarrow> wake_policy \<Rightarrow> mono_instant \<Rightarrow> wake_decider" where
  "wake_arrive candidate conditions policy now =
     (let malformed = malformed_candidate candidate;
          d = \<lparr>wd_policy = policy, wd_received_at = now,
               wd_deadline = mono_after now (wp_decision_budget_ms policy * 1000000),
               wd_verdict = None, wd_decision = None,
               wd_trace = \<lparr>wt_candidate = candidate,
                 wt_verification_window =
                   (if wk_producing_sound candidate \<and> malformed = None then verification_window policy candidate else None),
                 wt_deadline_ms = wp_decision_budget_ms policy, wt_malformed = malformed, wt_reference = None, wt_echo = None,
                 wt_verification = None, wt_outcome = None, wt_rule = None, wt_decided_ms = None\<rparr>\<rparr>
      in case arrival_refusal candidate conditions of
           Some r \<Rightarrow> snd (decide_wake (WakeRefused r) WakeArrival now d)
         | None \<Rightarrow> if \<not> wk_producing_sound candidate then snd (decide_wake WakeAccepted WakeIdle now d) else d)"

definition wake_next_deadline :: "wake_decider \<Rightarrow> mono_instant option" where
  "wake_next_deadline d = (if wd_decision d = None then Some (wd_deadline d) else None)"

definition evaluate_wake :: "mono_instant \<Rightarrow> bool \<Rightarrow> wake_decider \<Rightarrow> wake_step" where
  "evaluate_wake now deadline d =
     (if wd_decision d \<noteq> None then (None, d)
      else
        let reference = map_option fst (wt_reference (wd_trace d));
            echo = map_option fst (wt_echo (wd_trace d));
            verify =
              (if echo = Some CandidateEchoOnly then decide_wake (WakeRefused RefusedEchoOnly) WakeEcho now d
               else if echo = None \<and> \<not> deadline then (None, d)
               else (case wd_verdict d of
                       Some (Inr True) \<Rightarrow> decide_wake WakeAccepted WakeVerified now d
                     | Some (Inr False) \<Rightarrow> decide_wake (WakeRefused RefusedUnverifiedWake) WakeVerifierFailed now d
                     | Some (Inl _) \<Rightarrow> decide_wake (WakeRefused RefusedUnverifiedWake) WakeVerifierError now d
                     | None \<Rightarrow>
                         if \<not> deadline then (None, d)
                         else decide_wake (WakeRefused RefusedVerifierTimeout) WakeDeadline now d))
        in (case reference of
              None \<Rightarrow> if \<not> deadline then (None, d) else verify
            | Some Overlap \<Rightarrow>
                (case echo of
                   Some CandidateNearEnd \<Rightarrow> verify
                 | None \<Rightarrow> if \<not> deadline then (None, d)
                            else decide_wake (WakeRefused RefusedSelfOutput) WakeReference now d
                 | Some _ \<Rightarrow> decide_wake (WakeRefused RefusedSelfOutput) WakeReference now d)
            | Some _ \<Rightarrow> verify))"

definition expire_wake :: "mono_instant \<Rightarrow> wake_decider \<Rightarrow> wake_step" where
  "expire_wake now d = (if now \<ge> wd_deadline d then evaluate_wake now True d else (None, d))"

text \<open>The decision already made by the deadline, or else that of the new evidence.\<close>

definition or_evaluate :: "mono_instant \<Rightarrow> wake_step \<Rightarrow> wake_step" where
  "or_evaluate now s = (case fst s of Some n \<Rightarrow> s | None \<Rightarrow> evaluate_wake now False (snd s))"

definition reference_scored :: "reference_score \<Rightarrow> mono_instant \<Rightarrow> wake_decider \<Rightarrow> wake_step" where
  "reference_scored score now d0 =
     (let (expired, d) = expire_wake now d0;
          e = (if wt_reference (wd_trace d) = None
               then d\<lparr>wd_trace := (wd_trace d)\<lparr>wt_reference := Some (score, wake_ms now d)\<rparr>\<rparr> else d)
      in or_evaluate now (expired, e))"

definition echo_compared :: "candidate_echo \<Rightarrow> mono_instant \<Rightarrow> wake_decider \<Rightarrow> wake_step" where
  "echo_compared echo now d0 =
     (let (expired, d) = expire_wake now d0;
          e = (if wt_echo (wd_trace d) = None
               then d\<lparr>wd_trace := (wd_trace d)\<lparr>wt_echo := Some (echo, wake_ms now d)\<rparr>\<rparr> else d)
      in or_evaluate now (expired, e))"

text \<open>The recorded text and distance of a verifier's result, and its verdict.\<close>

definition verdict_of ::
    "unicode \<Rightarrow> rounding \<Rightarrow> wake_policy \<Rightarrow> verifier_result \<Rightarrow> utext option \<times> real option \<times> (unit, bool) result" where
  "verdict_of uc fl policy r =
     (case r of
        VerifierText t \<Rightarrow>
          let distance = map_option (\<lambda>(d, n). fl64 fl (real d / real n)) (verification_distance uc t (wp_verify_core policy))
          in (Some t, distance, Inr (case distance of Some x \<Rightarrow> x \<le> wp_verify_pass_max policy | None \<Rightarrow> False))
      | VerifierError \<Rightarrow> (None, None, Inl ()))"

definition wake_verified :: "unicode \<Rightarrow> rounding \<Rightarrow> verifier_result \<Rightarrow> mono_instant \<Rightarrow> wake_decider \<Rightarrow> wake_step" where
  "wake_verified uc fl r now d0 =
     (let (expired, d) = expire_wake now d0 in
      if wt_verification (wd_trace d) \<noteq> None then (expired, d)
      else
        let (t, distance, verdict) = verdict_of uc fl (wd_policy d) r;
            e = d\<lparr>wd_trace := (wd_trace d)\<lparr>wt_verification := Some \<lparr>vr_text = t, vr_distance = distance,
                   vr_passes = (verdict = Inr True), vr_at_ms = wake_ms now d, vr_late = (wd_decision d \<noteq> None)\<rparr>\<rparr>\<rparr>
        in if wd_decision d \<noteq> None then (expired, e)
           else evaluate_wake now False (e\<lparr>wd_verdict := Some verdict\<rparr>))"

definition wake_on_timer :: "mono_instant \<Rightarrow> wake_decider \<Rightarrow> wake_step" where
  "wake_on_timer now d = expire_wake now d"

section \<open>Specification\<close>

text \<open>Everything that can reach an undecided candidate, with the reading of the clock.\<close>

datatype wake_event = ReferenceScored reference_score | EchoCompared candidate_echo | VerifierAnswered verifier_result | BudgetTimer

fun wake_event_step :: "unicode \<Rightarrow> rounding \<Rightarrow> wake_event \<times> mono_instant \<Rightarrow> wake_decider \<Rightarrow> wake_decider" where
  "wake_event_step uc fl (ReferenceScored s, t) d = snd (reference_scored s t d)"
| "wake_event_step uc fl (EchoCompared e, t) d = snd (echo_compared e t d)"
| "wake_event_step uc fl (VerifierAnswered r, t) d = snd (wake_verified uc fl r t d)"
| "wake_event_step uc fl (BudgetTimer, t) d = snd (wake_on_timer t d)"

definition wake_run :: "unicode \<Rightarrow> rounding \<Rightarrow> (wake_event \<times> mono_instant) list \<Rightarrow> wake_decider \<Rightarrow> wake_decider" where
  "wake_run uc fl evs d = fold (wake_event_step uc fl) evs d"

text \<open>The first evidence of a kind that came before the deadline.\<close>

definition first_timely :: "mono_instant \<Rightarrow> (wake_event \<Rightarrow> 'a option) \<Rightarrow> (wake_event \<times> mono_instant) list \<Rightarrow> 'a option" where
  "first_timely deadline f evs =
     (case List.map_filter (\<lambda>(e, t). if t < deadline then f e else None) evs of [] \<Rightarrow> None | x # _ \<Rightarrow> Some x)"

fun reference_in :: "wake_event \<Rightarrow> reference_score option" where
  "reference_in (ReferenceScored s) = Some s"
| "reference_in _ = None"

fun echo_in :: "wake_event \<Rightarrow> candidate_echo option" where
  "echo_in (EchoCompared e) = Some e"
| "echo_in _ = None"

fun verdict_in :: "unicode \<Rightarrow> rounding \<Rightarrow> wake_policy \<Rightarrow> wake_event \<Rightarrow> (unit, bool) result option" where
  "verdict_in uc fl policy (VerifierAnswered r) = Some (snd (snd (verdict_of uc fl policy r)))"
| "verdict_in uc fl policy _ = None"

text \<open>The decision the evidence deserves, whatever order it came in.\<close>

definition wake_verdict ::
    "reference_score option \<Rightarrow> candidate_echo option \<Rightarrow> (unit, bool) result option \<Rightarrow> wake_decision" where
  "wake_verdict reference echo verdict =
     (if reference = Some Overlap \<and> echo \<noteq> Some CandidateNearEnd
      then \<lparr>wn_outcome = WakeRefused RefusedSelfOutput, wn_rule = WakeReference\<rparr>
      else if echo = Some CandidateEchoOnly then \<lparr>wn_outcome = WakeRefused RefusedEchoOnly, wn_rule = WakeEcho\<rparr>
      else if verdict = Some (Inr True) then \<lparr>wn_outcome = WakeAccepted, wn_rule = WakeVerified\<rparr>
      else if verdict = Some (Inr False) then \<lparr>wn_outcome = WakeRefused RefusedUnverifiedWake, wn_rule = WakeVerifierFailed\<rparr>
      else if verdict = None then \<lparr>wn_outcome = WakeRefused RefusedVerifierTimeout, wn_rule = WakeDeadline\<rparr>
      else \<lparr>wn_outcome = WakeRefused RefusedUnverifiedWake, wn_rule = WakeVerifierError\<rparr>)"

definition evidence_verdict ::
    "unicode \<Rightarrow> rounding \<Rightarrow> wake_policy \<Rightarrow> mono_instant \<Rightarrow> (wake_event \<times> mono_instant) list \<Rightarrow> wake_decision" where
  "evidence_verdict uc fl policy deadline evs =
     wake_verdict (first_timely deadline reference_in evs) (first_timely deadline echo_in evs)
       (first_timely deadline (verdict_in uc fl policy) evs)"

text \<open>The evidence that decides without waiting for the deadline.\<close>

definition verdict_ready :: "reference_score option \<Rightarrow> candidate_echo option \<Rightarrow> (unit, bool) result option \<Rightarrow> bool" where
  "verdict_ready reference echo verdict \<longleftrightarrow>
     reference \<noteq> None \<and> echo \<noteq> None
     \<and> (reference = Some Overlap \<and> echo \<noteq> Some CandidateNearEnd \<or> echo = Some CandidateEchoOnly \<or> verdict \<noteq> None)"

text \<open>What an undecided decider remembers, and the first of a kind.\<close>

definition holds_evidence ::
    "reference_score option \<Rightarrow> candidate_echo option \<Rightarrow> (unit, bool) result option \<Rightarrow> wake_decider \<Rightarrow> bool" where
  "holds_evidence r e v d \<longleftrightarrow>
     map_option fst (wt_reference (wd_trace d)) = r \<and> map_option fst (wt_echo (wd_trace d)) = e \<and> wd_verdict d = v
     \<and> (wt_verification (wd_trace d) = None \<longleftrightarrow> v = None)"

definition first_of :: "'a option \<Rightarrow> 'a option \<Rightarrow> 'a option" where
  "first_of old new = (case old of Some x \<Rightarrow> Some x | None \<Rightarrow> new)"

definition wake_inv ::
    "unicode \<Rightarrow> rounding \<Rightarrow> wake_policy \<Rightarrow> mono_instant \<Rightarrow> (wake_event \<times> mono_instant) list \<Rightarrow> wake_decider \<Rightarrow> bool" where
  "wake_inv uc fl policy deadline evs d \<longleftrightarrow>
     wd_policy d = policy \<and> wd_deadline d = deadline
     \<and> (let r = first_timely deadline reference_in evs; e = first_timely deadline echo_in evs;
            v = first_timely deadline (verdict_in uc fl policy) evs;
            late = (\<exists>(x, t) \<in> set evs. deadline \<le> t)
        in if verdict_ready r e v \<or> late then wd_decision d = Some (wake_verdict r e v)
           else wd_decision d = None \<and> holds_evidence r e v d)"

text \<open>A candidate whose verifier hears a wake word of one letter.\<close>

definition example_candidate :: wake_candidate where
  "example_candidate =
     \<lparr>wk_candidate_id = [99], wk_profile = ProfilePlayback, wk_threshold = 1 / 2, wk_producing_sound = True,
      wk_first_crossing_end = 30720, wk_support_start = 8320,
      wk_hops = [\<lparr>wh_end = 28160, wh_raw = None, wh_smoothed = None\<rparr>, \<lparr>wh_end = 30720, wh_raw = Some 1, wh_smoothed = None\<rparr>]\<rparr>"

definition example_wake_policy :: wake_policy where
  "example_wake_policy = (wake_policy_default witness_rounding)\<lparr>wp_verify_core := [97], wp_verify_pass_max := 2 / 5\<rparr>"

definition example_conditions :: arrival_conditions where
  "example_conditions = \<lparr>ac_diagnostic_recording = False, ac_speech_unavailable = False, ac_muted = False, ac_candidate_pending = False\<rparr>"

definition example_unicode :: unicode where
  "example_unicode = \<lparr>uc_alphabetic = (\<lambda>c. 97 \<le> c \<and> c \<le> 122), uc_numeric = (\<lambda>c. 48 \<le> c \<and> c \<le> 57),
     uc_whitespace = (\<lambda>c. c = 32), uc_lower = (\<lambda>c. [c])\<rparr>"

definition example_wake_events :: "(wake_event \<times> mono_instant) list" where
  "example_wake_events = [(VerifierAnswered (VerifierText [97]), 400), (ReferenceScored NoOverlap, 500),
     (EchoCompared CandidateEchoUnknown, 600), (BudgetTimer, 700000000)]"

section \<open>Lemmas\<close>

lemma first_timely_simps [simp]:
  "first_timely deadline f [] = None"
  "first_timely deadline f ((e, t) # evs) =
     (case if t < deadline then f e else None of Some x \<Rightarrow> Some x | None \<Rightarrow> first_timely deadline f evs)"
  by (simp_all add: first_timely_def map_filter_simps split: option.splits)

lemma first_timely_snoc:
  "first_timely deadline f (evs @ [(e, t)]) = first_of (first_timely deadline f evs) (if t < deadline then f e else None)"
  by (induction evs) (auto simp: first_of_def split: option.splits if_splits)

lemma first_timely_mem:
  "first_timely deadline f evs = Some x \<Longrightarrow> \<exists>e t. (e, t) \<in> set evs \<and> t < deadline \<and> f e = Some x"
proof (induction evs)
  case (Cons a evs)
  then show ?case by (cases a) (fastforce split: option.splits if_splits)
qed simp

lemma first_of_none [simp]: "first_of x None = x"
  by (simp add: first_of_def split: option.splits)

text \<open>Once the verdict is ready, further evidence does not change it.\<close>

lemma verdict_stable:
  assumes "verdict_ready r e v"
  shows "verdict_ready (first_of r x) (first_of e y) (first_of v z)
    \<and> wake_verdict (first_of r x) (first_of e y) (first_of v z) = wake_verdict r e v"
  using assms by (auto simp: verdict_ready_def wake_verdict_def first_of_def split: option.splits)

lemma decide_wake_simps [simp]:
  "wd_decision (snd (decide_wake outcome rule now d)) = Some \<lparr>wn_outcome = outcome, wn_rule = rule\<rparr>"
  "wd_policy (snd (decide_wake outcome rule now d)) = wd_policy d"
  "wd_deadline (snd (decide_wake outcome rule now d)) = wd_deadline d"
  "fst (decide_wake outcome rule now d) = Some \<lparr>wn_outcome = outcome, wn_rule = rule\<rparr>"
  by (simp_all add: decide_wake_def Let_def)

lemma evaluate_wake_decides:
  assumes "wd_decision d = None" "map_option fst (wt_reference (wd_trace d)) = r" "map_option fst (wt_echo (wd_trace d)) = e"
    "wd_verdict d = v"
  shows "if deadline \<or> verdict_ready r e v
     then \<exists>d'. evaluate_wake now deadline d = (Some (wake_verdict r e v), d') \<and> wd_decision d' = Some (wake_verdict r e v)
        \<and> wd_policy d' = wd_policy d \<and> wd_deadline d' = wd_deadline d
     else evaluate_wake now deadline d = (None, d)"
proof -
  have "\<exists>d'. decide_wake outcome rule now d = (Some \<lparr>wn_outcome = outcome, wn_rule = rule\<rparr>, d')
      \<and> wd_decision d' = Some \<lparr>wn_outcome = outcome, wn_rule = rule\<rparr> \<and> wd_policy d' = wd_policy d \<and> wd_deadline d' = wd_deadline d"
    for outcome rule by (simp add: decide_wake_def Let_def)
  then show ?thesis
    using assms by (auto simp: evaluate_wake_def Let_def wake_verdict_def verdict_ready_def
        split: option.splits reference_score.splits candidate_echo.splits sum.splits bool.splits)
qed

lemma evaluate_decided [simp]: "wd_decision d = Some n \<Longrightarrow> evaluate_wake now deadline d = (None, d)"
  by (simp add: evaluate_wake_def)

lemma expire_keeps:
  "wd_policy (snd (expire_wake t d)) = wd_policy d" "wd_deadline (snd (expire_wake t d)) = wd_deadline d"
  by (auto simp: expire_wake_def evaluate_wake_def Let_def split: option.splits reference_score.splits candidate_echo.splits
      sum.splits bool.splits)

text \<open>A decided candidate stays decided, whatever comes.\<close>

lemma step_decided:
  assumes "wd_decision d = Some n"
  shows "wd_decision (wake_event_step uc fl (ev, t) d) = Some n \<and> wd_policy (wake_event_step uc fl (ev, t) d) = wd_policy d
    \<and> wd_deadline (wake_event_step uc fl (ev, t) d) = wd_deadline d"
proof -
  have "expire_wake t d = (None, d)" using assms by (simp add: expire_wake_def)
  then show ?thesis
    using assms by (cases ev) (auto simp: reference_scored_def echo_compared_def wake_verified_def wake_on_timer_def or_evaluate_def
        evaluate_wake_def Let_def split: prod.splits)
qed

text \<open>At the deadline the evidence in hand decides before anything new is recorded.\<close>

lemma step_late:
  assumes "wd_decision d = None" "wd_deadline d \<le> t" "map_option fst (wt_reference (wd_trace d)) = r"
    "map_option fst (wt_echo (wd_trace d)) = e" "wd_verdict d = v"
  shows "wd_decision (wake_event_step uc fl (ev, t) d) = Some (wake_verdict r e v)
    \<and> wd_policy (wake_event_step uc fl (ev, t) d) = wd_policy d \<and> wd_deadline (wake_event_step uc fl (ev, t) d) = wd_deadline d"
proof -
  obtain d' where d': "expire_wake t d = (Some (wake_verdict r e v), d')" "wd_decision d' = Some (wake_verdict r e v)"
    "wd_policy d' = wd_policy d" "wd_deadline d' = wd_deadline d"
    using evaluate_wake_decides [OF assms(1,3,4,5), of True t] assms(2) by (auto simp: expire_wake_def)
  then show ?thesis
    by (cases ev) (auto simp: reference_scored_def echo_compared_def wake_verified_def wake_on_timer_def or_evaluate_def Let_def
        split: prod.splits)
qed

text \<open>Before it, the first evidence of a kind is recorded and decides if it completes what is needed.\<close>

lemma step_timely:
  assumes "wd_decision d = None" "t < wd_deadline d" "holds_evidence r e v d" "\<not> verdict_ready r e v"
    and r': "r' = first_of r (reference_in ev)" and e': "e' = first_of e (echo_in ev)"
    and v': "v' = first_of v (verdict_in uc fl (wd_policy d) ev)"
  shows "let q = wake_event_step uc fl (ev, t) d in
     wd_policy q = wd_policy d \<and> wd_deadline q = wd_deadline d
     \<and> (if verdict_ready r' e' v' then wd_decision q = Some (wake_verdict r' e' v')
        else wd_decision q = None \<and> holds_evidence r' e' v' q)"
proof -
  have now: "expire_wake t d = (None, d)" using assms(2) by (simp add: expire_wake_def)
  have eval: "if verdict_ready r' e' v'
      then \<exists>q'. evaluate_wake t False q = (Some (wake_verdict r' e' v'), q') \<and> wd_decision q' = Some (wake_verdict r' e' v')
         \<and> wd_policy q' = wd_policy q \<and> wd_deadline q' = wd_deadline q
      else evaluate_wake t False q = (None, q)" if "wd_decision q = None" "holds_evidence r' e' v' q" for q
    using evaluate_wake_decides [of q r' e' v' False t] that by (simp add: holds_evidence_def)
  show ?thesis
  proof (cases ev)
    case (ReferenceScored s)
    define q where "q = (if wt_reference (wd_trace d) = None
      then d\<lparr>wd_trace := (wd_trace d)\<lparr>wt_reference := Some (s, wake_ms t d)\<rparr>\<rparr> else d)"
    have q: "wd_decision q = None" "holds_evidence r' e' v' q" "wd_policy q = wd_policy d" "wd_deadline q = wd_deadline d"
      using assms(1,3) r' e' v' ReferenceScored
      by (auto simp: q_def holds_evidence_def first_of_def split: option.splits)
    have "wake_event_step uc fl (ev, t) d = snd (evaluate_wake t False q)"
      using now by (simp add: ReferenceScored reference_scored_def or_evaluate_def q_def Let_def)
    then show ?thesis using eval [OF q(1,2)] q by (auto simp: Let_def split: if_splits)
  next
    case (EchoCompared s)
    define q where "q = (if wt_echo (wd_trace d) = None
      then d\<lparr>wd_trace := (wd_trace d)\<lparr>wt_echo := Some (s, wake_ms t d)\<rparr>\<rparr> else d)"
    have q: "wd_decision q = None" "holds_evidence r' e' v' q" "wd_policy q = wd_policy d" "wd_deadline q = wd_deadline d"
      using assms(1,3) r' e' v' EchoCompared
      by (auto simp: q_def holds_evidence_def first_of_def split: option.splits)
    have "wake_event_step uc fl (ev, t) d = snd (evaluate_wake t False q)"
      using now by (simp add: EchoCompared echo_compared_def or_evaluate_def q_def Let_def)
    then show ?thesis using eval [OF q(1,2)] q by (auto simp: Let_def split: if_splits)
  next
    case (VerifierAnswered s)
    show ?thesis
    proof (cases v)
      case None
      obtain x y w where w: "verdict_of uc fl (wd_policy d) s = (x, y, w)" by (cases "verdict_of uc fl (wd_policy d) s") auto
      define q where "q = d\<lparr>wd_trace := (wd_trace d)\<lparr>wt_verification := Some \<lparr>vr_text = x, vr_distance = y,
        vr_passes = (w = Inr True), vr_at_ms = wake_ms t d, vr_late = False\<rparr>\<rparr>, wd_verdict := Some w\<rparr>"
      have q: "wd_decision q = None" "holds_evidence r' e' v' q" "wd_policy q = wd_policy d" "wd_deadline q = wd_deadline d"
        using assms(1,3) r' e' v' VerifierAnswered None w by (auto simp: q_def holds_evidence_def first_of_def split: option.splits)
      have "wake_event_step uc fl (ev, t) d = snd (evaluate_wake t False q)"
        using now assms(1,3) None by (simp add: VerifierAnswered wake_verified_def q_def w Let_def holds_evidence_def)
      then show ?thesis using eval [OF q(1,2)] q by (auto simp: Let_def split: if_splits)
    next
      case (Some u)
      then have "wake_event_step uc fl (ev, t) d = d" "r' = r" "e' = e" "v' = v"
        using now assms(3) r' e' v' VerifierAnswered
        by (auto simp: wake_verified_def Let_def holds_evidence_def first_of_def split: option.splits)
      then show ?thesis using assms(1,3,4) by (simp add: Let_def)
    qed
  next
    case BudgetTimer
    then have "wake_event_step uc fl (ev, t) d = d" "r' = r" "e' = e" "v' = v"
      using now r' e' v' by (auto simp: wake_on_timer_def first_of_def split: option.splits)
    then show ?thesis using assms(1,3,4) by (simp add: Let_def)
  qed
qed

lemma wake_inv_step:
  assumes "wake_inv uc fl policy deadline evs d" "\<forall>(x, u) \<in> set evs. u \<le> t"
  shows "wake_inv uc fl policy deadline (evs @ [(ev, t)]) (wake_event_step uc fl (ev, t) d)"
proof -
  define r where "r = first_timely deadline reference_in evs"
  define e where "e = first_timely deadline echo_in evs"
  define v where "v = first_timely deadline (verdict_in uc fl policy) evs"
  define late where "late \<longleftrightarrow> (\<exists>(x, u) \<in> set evs. deadline \<le> u)"
  have d: "wd_policy d = policy" "wd_deadline d = deadline"
    "if verdict_ready r e v \<or> late then wd_decision d = Some (wake_verdict r e v) else wd_decision d = None \<and> holds_evidence r e v d"
    using assms(1) by (simp_all add: wake_inv_def Let_def r_def e_def v_def late_def)
  have late': "late \<Longrightarrow> deadline \<le> t" using assms(2) by (auto simp: late_def intro: order_trans)
  have later: "(\<exists>(x, u) \<in> set (evs @ [(ev, t)]). deadline \<le> u) \<longleftrightarrow> late \<or> deadline \<le> t" by (auto simp: late_def)
  have goal: "wake_inv uc fl policy deadline (evs @ [(ev, t)]) q \<longleftrightarrow>
      wd_policy q = policy \<and> wd_deadline q = deadline
      \<and> (let r' = first_of r (if t < deadline then reference_in ev else None);
             e' = first_of e (if t < deadline then echo_in ev else None);
             v' = first_of v (if t < deadline then verdict_in uc fl policy ev else None)
         in if verdict_ready r' e' v' \<or> late \<or> deadline \<le> t then wd_decision q = Some (wake_verdict r' e' v')
            else wd_decision q = None \<and> holds_evidence r' e' v' q)" for q
    unfolding wake_inv_def Let_def later first_timely_snoc r_def e_def v_def by (rule refl)
  show ?thesis
  proof (cases "verdict_ready r e v \<or> late")
    case True
    then have dec: "wd_decision d = Some (wake_verdict r e v)" using d(3) by simp
    show ?thesis
    proof (cases "t < deadline")
      case True
      then have "verdict_ready r e v" using \<open>verdict_ready r e v \<or> late\<close> late' by auto
      from verdict_stable [OF this] show ?thesis using step_decided [OF dec, of uc fl ev t] d True by (simp add: goal Let_def)
    next
      case False
      then show ?thesis using step_decided [OF dec, of uc fl ev t] d by (simp add: goal)
    qed
  next
    case False
    then have dec: "wd_decision d = None" "holds_evidence r e v d" "\<not> verdict_ready r e v" "\<not> late" using d(3) by auto
    show ?thesis
    proof (cases "t < deadline")
      case True
      then show ?thesis
        using step_timely [where t = t and ev = ev and uc = uc and fl = fl, OF dec(1) _ dec(2,3) refl refl refl] d dec(4)
        by (auto simp: goal Let_def split: if_splits)
    next
      case False
      then show ?thesis
        using step_late [of d t r e v uc fl ev] dec d by (simp add: goal holds_evidence_def)
    qed
  qed
qed

lemma wake_run_inv:
  assumes "wake_inv uc fl policy deadline [] d" "sorted (map snd evs)"
  shows "wake_inv uc fl policy deadline evs (wake_run uc fl evs d)"
  using assms(2)
proof (induction evs rule: rev_induct)
  case Nil
  then show ?case using assms(1) by (simp add: wake_run_def)
next
  case (snoc x evs)
  obtain ev t where x: "x = (ev, t)" by (cases x)
  have "wake_inv uc fl policy deadline evs (wake_run uc fl evs d)" "\<forall>(y, u) \<in> set evs. u \<le> t"
    using snoc x by (auto simp: sorted_append)
  from wake_inv_step [OF this, of ev] show ?case by (simp add: wake_run_def x)
qed

lemma wake_run_decided: "wd_decision d = Some n \<Longrightarrow> wd_decision (wake_run uc fl evs d) = Some n"
proof (induction evs arbitrary: d)
  case (Cons x evs)
  then show ?case using step_decided [of d n uc fl "fst x" "snd x"] by (simp add: wake_run_def)
qed (simp add: wake_run_def)

lemma wake_arrive_decision:
  "wd_decision (wake_arrive candidate conditions policy now) =
     (case arrival_refusal candidate conditions of
        Some r \<Rightarrow> Some \<lparr>wn_outcome = WakeRefused r, wn_rule = WakeArrival\<rparr>
      | None \<Rightarrow> if wk_producing_sound candidate then None else Some \<lparr>wn_outcome = WakeAccepted, wn_rule = WakeIdle\<rparr>)"
  by (simp add: wake_arrive_def Let_def split: option.splits)

lemma wake_arrive_inv:
  assumes "arrival_refusal candidate conditions = None" "wk_producing_sound candidate"
  shows "wake_inv uc fl policy (mono_after now (wp_decision_budget_ms policy * 1000000)) [] (wake_arrive candidate conditions policy now)"
  using assms by (simp add: wake_arrive_def wake_inv_def first_timely_def verdict_ready_def holds_evidence_def Let_def map_filter_simps)

lemma arrival_refusal_none:
  "arrival_refusal candidate conditions = None \<longleftrightarrow> malformed_candidate candidate = None
     \<and> \<not> ac_diagnostic_recording conditions \<and> \<not> ac_speech_unavailable conditions \<and> \<not> ac_muted conditions
     \<and> \<not> ac_candidate_pending conditions"
  by (simp add: arrival_refusal_def)

section \<open>Properties\<close>

text \<open>
  (C24) The decision depends on the evidence and not on its order: a candidate with sound, not refused at
  arrival, is decided as soon as the first score, comparison and transcript that came before the
  deadline settle it, or at the deadline, and always as those deserve; evidence at or after the
  deadline changes nothing.
\<close>

theorem wake_decision_determined:
  assumes "arrival_refusal candidate conditions = None" "wk_producing_sound candidate" "sorted (map snd evs)"
    "deadline = mono_after now (wp_decision_budget_ms policy * 1000000)"
  shows "wd_decision (wake_run uc fl evs (wake_arrive candidate conditions policy now)) =
    (if verdict_ready (first_timely deadline reference_in evs) (first_timely deadline echo_in evs)
          (first_timely deadline (verdict_in uc fl policy) evs) \<or> (\<exists>(x, t) \<in> set evs. deadline \<le> t)
     then Some (evidence_verdict uc fl policy deadline evs) else None)"
  using wake_run_inv [OF wake_arrive_inv [OF assms(1,2)] assms(3), of uc fl policy now]
  by (auto simp: wake_inv_def Let_def evidence_verdict_def assms(4))

lemma example_arrives: "arrival_refusal example_candidate example_conditions = None" "wk_producing_sound example_candidate"
  by (simp_all add: arrival_refusal_def malformed_candidate_def wake_open_def wake_trigger_def example_candidate_def
      example_conditions_def Let_def)

lemma example_timely: "sorted (map snd example_wake_events)"
  "mono_after 0 (wp_decision_budget_ms example_wake_policy * 1000000) = 700000000"
  by (simp_all add: example_wake_events_def example_wake_policy_def wake_policy_default_def mono_after_def sat_add_def u64_max_def)

lemma example_hears: "verification_distance example_unicode [97] (wp_verify_core example_wake_policy) = Some (0, 1)"
proof -
  have "letters_of example_unicode [97] = [97]" by (simp add: letters_of_def lowercase_def example_unicode_def)
  moreover have "candidate_distances [97] [97] = [0]"
    by (simp add: candidate_distances_def windows_def levenshtein_def upt_rec [of 1 3] upt_rec [of 2 3] Let_def numeral_3_eq_3)
  ultimately show ?thesis by (simp add: verification_distance_def example_wake_policy_def)
qed

lemma example_evidence:
  "first_timely 700000000 (verdict_in example_unicode witness_rounding example_wake_policy) example_wake_events = Some (Inr True)"
  "first_timely 700000000 reference_in example_wake_events = Some NoOverlap"
  "first_timely 700000000 echo_in example_wake_events = Some CandidateEchoUnknown"
  using example_hears by (simp_all add: example_wake_events_def verdict_of_def witness_rounding_def example_wake_policy_def)

lemma example_wake_decided:
  "wd_decision (wake_run example_unicode witness_rounding example_wake_events
      (wake_arrive example_candidate example_conditions example_wake_policy 0)) = Some \<lparr>wn_outcome = WakeAccepted, wn_rule = WakeVerified\<rparr>"
  using wake_run_inv [OF wake_arrive_inv [OF example_arrives] example_timely(1), of example_unicode witness_rounding example_wake_policy 0]
    example_evidence
  by (simp add: wake_inv_def example_timely(2) verdict_ready_def wake_verdict_def Let_def)

theorem wake_decision_determined_witness:
  "wd_decision (wake_run example_unicode witness_rounding example_wake_events
      (wake_arrive example_candidate example_conditions example_wake_policy 0)) = Some \<lparr>wn_outcome = WakeAccepted, wn_rule = WakeVerified\<rparr>"
  using wake_decision_determined [OF example_arrives example_timely(1) example_timely(2) [symmetric], of example_unicode witness_rounding]
    example_evidence
  by (simp add: verdict_ready_def evidence_verdict_def wake_verdict_def)

text \<open>
  (C25) A wake is never accepted unverified: an accepted candidate was well-formed and met no refusal at
  arrival, and unless the device was quiet, the verifier's text came before the deadline and its
  distance to the wake word's core is within the policy's bound, the device rendered nothing
  wake-like (or the speaker was heard beside it), and the microphone did not hold the device's own
  output only.
\<close>

theorem wake_never_unverified:
  assumes "wd_decision (wake_run uc fl evs (wake_arrive candidate conditions policy now)) = Some n" "wn_outcome n = WakeAccepted"
    "sorted (map snd evs)" "deadline = mono_after now (wp_decision_budget_ms policy * 1000000)"
  shows "malformed_candidate candidate = None \<and> \<not> ac_muted conditions \<and> \<not> ac_diagnostic_recording conditions
    \<and> \<not> ac_speech_unavailable conditions \<and> \<not> ac_candidate_pending conditions
    \<and> (if wk_producing_sound candidate
       then (\<exists>text t d k. (VerifierAnswered (VerifierText text), t) \<in> set evs \<and> t < deadline
              \<and> verification_distance uc text (wp_verify_core policy) = Some (d, k) \<and> fl64 fl (real d / real k) \<le> wp_verify_pass_max policy)
          \<and> (first_timely deadline reference_in evs = Some Overlap \<longrightarrow> first_timely deadline echo_in evs = Some CandidateNearEnd)
          \<and> first_timely deadline echo_in evs \<noteq> Some CandidateEchoOnly
       else wn_rule n = WakeIdle)"
proof -
  have arrived: "arrival_refusal candidate conditions = None"
  proof (rule ccontr)
    assume "arrival_refusal candidate conditions \<noteq> None"
    then obtain r where "wd_decision (wake_arrive candidate conditions policy now) = Some \<lparr>wn_outcome = WakeRefused r, wn_rule = WakeArrival\<rparr>"
      by (auto simp: wake_arrive_decision)
    from wake_run_decided [OF this, of uc fl evs] assms(1,2) show False by auto
  qed
  show ?thesis
  proof (cases "wk_producing_sound candidate")
    case True
    have "n = evidence_verdict uc fl policy deadline evs"
      using wake_run_inv [OF wake_arrive_inv [OF arrived True] assms(3), of uc fl policy now] assms(1)
      by (auto simp: wake_inv_def Let_def evidence_verdict_def assms(4) split: if_splits)
    then have v: "first_timely deadline (verdict_in uc fl policy) evs = Some (Inr True)"
      "first_timely deadline reference_in evs = Some Overlap \<longrightarrow> first_timely deadline echo_in evs = Some CandidateNearEnd"
      "first_timely deadline echo_in evs \<noteq> Some CandidateEchoOnly"
      using assms(2) by (auto simp: evidence_verdict_def wake_verdict_def split: if_splits)
    obtain ev t where ev: "(ev, t) \<in> set evs" "t < deadline" "verdict_in uc fl policy ev = Some (Inr True)"
      using first_timely_mem [OF v(1)] by blast
    have "\<exists>text d k. ev = VerifierAnswered (VerifierText text) \<and> verification_distance uc text (wp_verify_core policy) = Some (d, k)
        \<and> fl64 fl (real d / real k) \<le> wp_verify_pass_max policy"
      using ev(3) by (cases ev) (auto simp: verdict_of_def Let_def split: verifier_result.splits option.splits)
    with ev(1,2) v(2,3) True arrived show ?thesis by (auto simp: arrival_refusal_none)
  next
    case False
    then have "wd_decision (wake_arrive candidate conditions policy now) = Some \<lparr>wn_outcome = WakeAccepted, wn_rule = WakeIdle\<rparr>"
      using arrived by (simp add: wake_arrive_decision)
    from wake_run_decided [OF this, of uc fl evs] assms(1) False arrived show ?thesis by (auto simp: arrival_refusal_none)
  qed
qed

theorem wake_never_unverified_witness:
  "malformed_candidate example_candidate = None
     \<and> (\<exists>text t d k. (VerifierAnswered (VerifierText text), t) \<in> set example_wake_events \<and> t < 700000000
          \<and> verification_distance example_unicode text [97] = Some (d, k))"
  using wake_never_unverified [OF example_wake_decided _ example_timely(1) example_timely(2) [symmetric]] example_arrives(2)
  by (auto simp: example_wake_policy_def)

end
