(* ===== verification/Wake_Arbiter.thy ===== *)
theory Wake_Arbiter
  imports Sample_Time
begin

text \<open>
  Arbitration between devices that hear one wake (\<open>crates/voice/src/arbiter.rs\<close>), with the identities of
  \<open>crates/core/src/types.rs\<close>. A cancellation token belongs to a library; a scope names its token, and which tokens
  are cancelled at a call is an argument of the call. Instants and durations are in nanoseconds.
  The lock serialises the calls, so a run is a sequence of them.
\<close>

section \<open>Identities\<close>

record work_identity =
  wi_device :: string
  wi_runtime :: nat
  wi_session :: nat
  wi_turn :: "nat option"

record work_scope =
  ws_identity :: work_identity
  ws_token :: nat

abbreviation scope_device :: "work_scope \<Rightarrow> string" where
  "scope_device s \<equiv> wi_device (ws_identity s)"

datatype runtime_error =
    InvalidLimits | Closed | Cancelled | Overloaded | Expired | Overdue | DuplicateDevice | UnknownDevice | WorkerPanicked
  | ShutdownTimeout | ThreadStart string

section \<open>The arbiter\<close>

type_synonym grant_id = nat

record wake_grant =
  wg_id :: grant_id
  wg_claimed_at :: mono_instant

datatype claim_decision = Won wake_grant | Lost string

datatype release_outcome = Released | Superseded

record held_claim =
  hc_id :: grant_id
  hc_scope :: work_scope
  hc_claimed_at :: mono_instant

record arbiter_state =
  ar_next_grant :: nat
  ar_held :: "held_claim option"

definition arbiter_new :: arbiter_state where
  "arbiter_new = \<lparr>ar_next_grant = 0, ar_held = None\<rparr>"

text \<open>A live claim of another device within the window.\<close>

definition suppresses :: "(nat \<Rightarrow> bool) \<Rightarrow> work_scope \<Rightarrow> duration_ns \<Rightarrow> mono_instant \<Rightarrow> held_claim \<Rightarrow> bool" where
  "suppresses cancelled scope window now held \<longleftrightarrow>
     scope_device (hc_scope held) \<noteq> scope_device scope \<and> \<not> cancelled (ws_token (hc_scope held))
     \<and> mono_since now (hc_claimed_at held) < window"

definition arbiter_claim ::
    "(nat \<Rightarrow> bool) \<Rightarrow> work_scope \<Rightarrow> duration_ns \<Rightarrow> mono_instant \<Rightarrow> arbiter_state
      \<Rightarrow> (runtime_error, claim_decision) result \<times> arbiter_state" where
  "arbiter_claim cancelled scope window now st =
     (let win = (case checked_add (ar_next_grant st) 1 of
            None \<Rightarrow> (Inl Closed, st)
          | Some n \<Rightarrow>
              (Inr (Won \<lparr>wg_id = n, wg_claimed_at = now\<rparr>),
               st\<lparr>ar_next_grant := n, ar_held := Some \<lparr>hc_id = n, hc_scope = scope, hc_claimed_at = now\<rparr>\<rparr>))
      in if cancelled (ws_token scope) then (Inl Cancelled, st)
         else (case ar_held st of
             Some held \<Rightarrow>
               if suppresses cancelled scope window now held then (Inr (Lost (scope_device (hc_scope held))), st) else win
           | None \<Rightarrow> win))"

definition arbiter_release :: "wake_grant \<Rightarrow> arbiter_state \<Rightarrow> release_outcome \<times> arbiter_state" where
  "arbiter_release grant st =
     (case ar_held st of
        Some held \<Rightarrow> if hc_id held = wg_id grant then (Released, st\<lparr>ar_held := None\<rparr>) else (Superseded, st)
      | None \<Rightarrow> (Superseded, st))"

definition arbiter_holder :: "arbiter_state \<Rightarrow> work_identity option" where
  "arbiter_holder st = map_option (\<lambda>h. ws_identity (hc_scope h)) (ar_held st)"

section \<open>Specification\<close>

text \<open>A history: the claims won and the grants handed back, in order.\<close>

datatype arbiter_op = Claim "nat \<Rightarrow> bool" work_scope duration_ns mono_instant | Release wake_grant

datatype arbiter_event = Win wake_grant work_scope | Return wake_grant

fun arbiter_step :: "arbiter_op \<Rightarrow> arbiter_state \<times> arbiter_event list \<Rightarrow> arbiter_state \<times> arbiter_event list" where
  "arbiter_step (Claim cancelled scope window now) (st, log) =
     (case arbiter_claim cancelled scope window now st of
        (Inr (Won g), st') \<Rightarrow> (st', log @ [Win g scope])
      | (_, st') \<Rightarrow> (st', log))"
| "arbiter_step (Release g) (st, log) = (snd (arbiter_release g st), log @ [Return g])"

definition arbiter_run :: "arbiter_op list \<Rightarrow> arbiter_state \<times> arbiter_event list" where
  "arbiter_run ops = fold arbiter_step ops (arbiter_new, [])"

fun is_win :: "arbiter_event \<Rightarrow> bool" where
  "is_win (Win g s) = True"
| "is_win (Return g) = False"

text \<open>The last claim won, while its grant has not been handed back.\<close>

definition standing_claim :: "arbiter_event list \<Rightarrow> wake_grant \<Rightarrow> work_scope \<Rightarrow> bool" where
  "standing_claim log g s \<longleftrightarrow>
     (\<exists>before after. log = before @ Win g s # after \<and> list_all (\<lambda>e. \<not> is_win e) after
        \<and> list_all (\<lambda>e. \<forall>h. e = Return h \<longrightarrow> wg_id h \<noteq> wg_id g) after)"

definition grant_ids :: "arbiter_event list \<Rightarrow> grant_id list" where
  "grant_ids log = concat (map (\<lambda>e. case e of Win g s \<Rightarrow> [wg_id g] | Return g \<Rightarrow> []) log)"

text \<open>The outcomes of one claim after another.\<close>

fun claim_all ::
    "(nat \<Rightarrow> bool) \<Rightarrow> (work_scope \<times> duration_ns \<times> mono_instant) list \<Rightarrow> arbiter_state
      \<Rightarrow> (runtime_error, claim_decision) result list" where
  "claim_all cancelled [] st = []"
| "claim_all cancelled ((scope, window, now) # claims) st =
     (let (r, st') = arbiter_claim cancelled scope window now st in r # claim_all cancelled claims st')"

definition room :: "string \<Rightarrow> nat \<Rightarrow> work_scope" where
  "room device session = \<lparr>ws_identity = \<lparr>wi_device = device, wi_runtime = 1, wi_session = session, wi_turn = None\<rparr>, ws_token = session\<rparr>"

definition room_ops :: "arbiter_op list" where
  "room_ops = [Claim (\<lambda>_. False) (room ''office'' 1) 700 100, Claim (\<lambda>_. False) (room ''lounge'' 2) 700 190]"

definition arbiter_inv :: "arbiter_state \<times> arbiter_event list \<Rightarrow> bool" where
  "arbiter_inv s \<longleftrightarrow>
     (let (st, log) = s in
      (\<forall>g scope. standing_claim log g scope \<longleftrightarrow>
         ar_held st = Some \<lparr>hc_id = wg_id g, hc_scope = scope, hc_claimed_at = wg_claimed_at g\<rparr>)
      \<and> grant_ids log = [1..<ar_next_grant st + 1] \<and> ar_next_grant st \<le> u64_max)"

section \<open>Lemmas\<close>

lemma standing_nil [simp]: "\<not> standing_claim [] g s"
  by (simp add: standing_claim_def)

lemma standing_win [simp]: "standing_claim (log @ [Win h t]) g s \<longleftrightarrow> g = h \<and> s = t"
proof
  assume "standing_claim (log @ [Win h t]) g s"
  then obtain before after where *: "log @ [Win h t] = before @ Win g s # after" "list_all (\<lambda>e. \<not> is_win e) after"
    by (auto simp: standing_claim_def)
  then show "g = h \<and> s = t" by (cases after rule: rev_cases) auto
next
  assume "g = h \<and> s = t"
  then show "standing_claim (log @ [Win h t]) g s"
    unfolding standing_claim_def by (intro exI [of _ log] exI [of _ "[]"]) simp
qed

lemma standing_return [simp]:
  "standing_claim (log @ [Return h]) g s \<longleftrightarrow> standing_claim log g s \<and> wg_id h \<noteq> wg_id g"
proof
  assume "standing_claim (log @ [Return h]) g s"
  then obtain before after where *: "log @ [Return h] = before @ Win g s # after" "list_all (\<lambda>e. \<not> is_win e) after"
    "list_all (\<lambda>e. \<forall>h. e = Return h \<longrightarrow> wg_id h \<noteq> wg_id g) after"
    by (auto simp: standing_claim_def)
  then obtain after' where "after = after' @ [Return h]" "log = before @ Win g s # after'"
    by (cases after rule: rev_cases) auto
  with * show "standing_claim log g s \<and> wg_id h \<noteq> wg_id g" by (auto simp: standing_claim_def)
next
  assume "standing_claim log g s \<and> wg_id h \<noteq> wg_id g"
  then obtain before after where "log = before @ Win g s # after" "list_all (\<lambda>e. \<not> is_win e) after"
    "list_all (\<lambda>e. \<forall>h. e = Return h \<longrightarrow> wg_id h \<noteq> wg_id g) after" "wg_id h \<noteq> wg_id g"
    by (auto simp: standing_claim_def)
  then show "standing_claim (log @ [Return h]) g s"
    unfolding standing_claim_def by (intro exI [of _ before] exI [of _ "after @ [Return h]"]) simp
qed

lemma grant_ids_snoc [simp]:
  "grant_ids (log @ [Win g s]) = grant_ids log @ [wg_id g]" "grant_ids (log @ [Return g]) = grant_ids log"
  by (simp_all add: grant_ids_def)

lemma arbiter_claim_cases:
  obtains (cancelled) "cancelled (ws_token scope)" "arbiter_claim cancelled scope window now st = (Inl Cancelled, st)"
  | (lost) held where "\<not> cancelled (ws_token scope)" "ar_held st = Some held" "suppresses cancelled scope window now held"
      "arbiter_claim cancelled scope window now st = (Inr (Lost (scope_device (hc_scope held))), st)"
  | (exhausted) "\<not> cancelled (ws_token scope)" "ar_next_grant st + 1 > u64_max"
      "arbiter_claim cancelled scope window now st = (Inl Closed, st)"
      "\<forall>held. ar_held st = Some held \<longrightarrow> \<not> suppresses cancelled scope window now held"
  | (won) "\<not> cancelled (ws_token scope)" "ar_next_grant st + 1 \<le> u64_max"
      "arbiter_claim cancelled scope window now st =
         (Inr (Won \<lparr>wg_id = ar_next_grant st + 1, wg_claimed_at = now\<rparr>),
          st\<lparr>ar_next_grant := ar_next_grant st + 1,
            ar_held := Some \<lparr>hc_id = ar_next_grant st + 1, hc_scope = scope, hc_claimed_at = now\<rparr>\<rparr>)"
      "\<forall>held. ar_held st = Some held \<longrightarrow> \<not> suppresses cancelled scope window now held"
proof (cases "cancelled (ws_token scope)")
  case False
  show thesis
  proof (cases "\<exists>held. ar_held st = Some held \<and> suppresses cancelled scope window now held")
    case True
    then show thesis using False lost by (auto simp: arbiter_claim_def Let_def)
  next
    case none: False
    then show thesis using False exhausted won
      by (cases "ar_next_grant st + 1 \<le> u64_max") (auto simp: arbiter_claim_def Let_def checked_add_def split: option.splits)
  qed
qed (use cancelled in \<open>simp add: arbiter_claim_def Let_def\<close>)

lemma arbiter_step_inv:
  assumes "arbiter_inv s"
  shows "arbiter_inv (arbiter_step op s)"
proof -
  obtain st log where s: "s = (st, log)" by (cases s)
  show ?thesis
  proof (cases op)
    case (Claim cancelled scope window now)
    show ?thesis
      using assms by (cases rule: arbiter_claim_cases [of cancelled scope window now st]) (auto simp: Claim s arbiter_inv_def wake_grant.splits)
  next
    case (Release g)
    then show ?thesis using assms
      by (auto simp: s arbiter_inv_def arbiter_release_def split: option.splits if_splits)
  qed
qed

interpretation arbiter_machine: invariant_machine arbiter_step arbiter_inv
  by unfold_locales (rule arbiter_step_inv)

lemma arbiter_run_inv: "arbiter_inv (arbiter_run ops)"
  unfolding arbiter_run_def
  by (rule arbiter_machine.run_inv) (simp add: arbiter_inv_def arbiter_new_def grant_ids_def u64_max_def)

lemma claim_lost_iff:
  "fst (arbiter_claim cancelled scope window now st) = Inr (Lost winner) \<longleftrightarrow>
     \<not> cancelled (ws_token scope)
     \<and> (\<exists>held. ar_held st = Some held \<and> suppresses cancelled scope window now held \<and> scope_device (hc_scope held) = winner)"
  by (cases rule: arbiter_claim_cases [of cancelled scope window now st]) auto

lemma claims_lost:
  assumes "ar_held st = Some held" "\<not> cancelled (ws_token (hc_scope held))"
    "\<forall>(s, w, t) \<in> set claims. \<not> cancelled (ws_token s) \<and> scope_device s \<noteq> scope_device (hc_scope held) \<and> t - hc_claimed_at held < w"
  shows "claim_all cancelled claims st = map (\<lambda>_. Inr (Lost (scope_device (hc_scope held)))) claims"
  using assms(3)
proof (induction claims)
  case (Cons c claims)
  obtain s w t where c: "c = (s, w, t)" by (cases c)
  have "suppresses cancelled s w t held" using Cons.prems assms(2) c by (auto simp: suppresses_def mono_since_def)
  then have "arbiter_claim cancelled s w t st = (Inr (Lost (scope_device (hc_scope held))), st)"
    using Cons.prems c assms(1) by (auto simp: arbiter_claim_def Let_def)
  then show ?case using Cons c by simp
qed simp

section \<open>Properties\<close>

text \<open>
  (C26) The history decides a claim: after any claims and releases, a live claim loses exactly when the last
  claim won, whose grant has not been handed back, is another device's, was not cancelled and is
  younger than the claimer's window, and it loses to that device; and a release takes effect
  exactly when its grant is that claim's, so a late release never clears a newer claim.
\<close>

theorem claim_decided_by_history:
  assumes "arbiter_run ops = (st, log)"
  shows "(fst (arbiter_claim cancelled scope window now st) = Inr (Lost winner) \<longleftrightarrow>
       \<not> cancelled (ws_token scope)
       \<and> (\<exists>g s. standing_claim log g s \<and> scope_device s = winner \<and> winner \<noteq> scope_device scope
            \<and> \<not> cancelled (ws_token s) \<and> now - wg_claimed_at g < window))
    \<and> (fst (arbiter_release grant st) = Released \<longleftrightarrow> (\<exists>g s. standing_claim log g s \<and> wg_id g = wg_id grant))
    \<and> (fst (arbiter_release grant st) = Superseded \<longrightarrow> snd (arbiter_release grant st) = st)"
proof -
  have inv: "standing_claim log g s \<longleftrightarrow> ar_held st = Some \<lparr>hc_id = wg_id g, hc_scope = s, hc_claimed_at = wg_claimed_at g\<rparr>" for g s
    using arbiter_run_inv [of ops] assms by (simp add: arbiter_inv_def)
  have held: "(\<exists>held. ar_held st = Some held \<and> P held) \<longleftrightarrow>
      (\<exists>g s. standing_claim log g s \<and> P \<lparr>hc_id = wg_id g, hc_scope = s, hc_claimed_at = wg_claimed_at g\<rparr>)" for P
  proof
    assume "\<exists>held. ar_held st = Some held \<and> P held"
    then obtain h where "ar_held st = Some h" "P h" by blast
    then have "ar_held st = Some \<lparr>hc_id = wg_id \<lparr>wg_id = hc_id h, wg_claimed_at = hc_claimed_at h\<rparr>, hc_scope = hc_scope h,
        hc_claimed_at = wg_claimed_at \<lparr>wg_id = hc_id h, wg_claimed_at = hc_claimed_at h\<rparr>\<rparr>
      \<and> P \<lparr>hc_id = wg_id \<lparr>wg_id = hc_id h, wg_claimed_at = hc_claimed_at h\<rparr>, hc_scope = hc_scope h,
        hc_claimed_at = wg_claimed_at \<lparr>wg_id = hc_id h, wg_claimed_at = hc_claimed_at h\<rparr>\<rparr>" by (cases h) simp
    then show "\<exists>g s. standing_claim log g s \<and> P \<lparr>hc_id = wg_id g, hc_scope = s, hc_claimed_at = wg_claimed_at g\<rparr>"
      unfolding inv by blast
  qed (use inv in blast)
  have lost: "fst (arbiter_claim cancelled scope window now st) = Inr (Lost winner) \<longleftrightarrow>
       \<not> cancelled (ws_token scope)
       \<and> (\<exists>g s. standing_claim log g s \<and> scope_device s = winner \<and> winner \<noteq> scope_device scope
            \<and> \<not> cancelled (ws_token s) \<and> now - wg_claimed_at g < window)"
    unfolding claim_lost_iff held by (auto simp: suppresses_def mono_since_def)
  have "fst (arbiter_release grant st) = Released \<longleftrightarrow> (\<exists>held. ar_held st = Some held \<and> hc_id held = wg_id grant)"
    by (auto simp: arbiter_release_def split: option.splits)
  with lost show ?thesis unfolding held by (auto simp: arbiter_release_def split: option.splits if_splits)
qed

theorem claim_decided_by_history_witness:
  "fst (arbiter_claim (\<lambda>_. False) (room ''kitchen'' 3) 700 284 (fst (arbiter_run room_ops))) = Inr (Lost ''office'')"
proof -
  have run: "arbiter_run room_ops =
      (fst (arbiter_run room_ops), [Win \<lparr>wg_id = 1, wg_claimed_at = 100\<rparr> (room ''office'' 1)])"
    by (simp add: arbiter_run_def room_ops_def arbiter_claim_def arbiter_new_def checked_add_def u64_max_def suppresses_def
        room_def mono_since_def Let_def)
  have "standing_claim ([] @ [Win \<lparr>wg_id = 1, wg_claimed_at = 100\<rparr> (room ''office'' 1)]) \<lparr>wg_id = 1, wg_claimed_at = 100\<rparr> (room ''office'' 1)"
    by (simp only: standing_win)
  then have "\<exists>g s. standing_claim [Win \<lparr>wg_id = 1, wg_claimed_at = 100\<rparr> (room ''office'' 1)] g s \<and> scope_device s = ''office''
      \<and> ''office'' \<noteq> scope_device (room ''kitchen'' 3) \<and> \<not> False \<and> 284 - wg_claimed_at g < 700"
    by (intro exI [of _ "\<lparr>wg_id = 1, wg_claimed_at = 100\<rparr>"] exI [of _ "room ''office'' 1"]) (simp add: room_def)
  then show ?thesis using claim_decided_by_history [OF run, of "\<lambda>_. False" "room ''kitchen'' 3" 700 284 "''office''"] by blast
qed

text \<open>
  (C27) One wake has one winner: when nothing is claimed, of any number of live claims of different devices,
  each within its window of the first, the first wins and every other loses to its device.
\<close>

theorem one_winner_per_wake:
  assumes "ar_held st = None" "ar_next_grant st < u64_max" "\<not> cancelled (ws_token s0)"
    "\<forall>(s, w, t) \<in> set claims. \<not> cancelled (ws_token s) \<and> scope_device s \<noteq> scope_device s0 \<and> t - t0 < w"
  shows "claim_all cancelled ((s0, w0, t0) # claims) st =
    Inr (Won \<lparr>wg_id = ar_next_grant st + 1, wg_claimed_at = t0\<rparr>) # map (\<lambda>_. Inr (Lost (scope_device s0))) claims"
  using assms claims_lost [of "st\<lparr>ar_next_grant := ar_next_grant st + 1,
      ar_held := Some \<lparr>hc_id = ar_next_grant st + 1, hc_scope = s0, hc_claimed_at = t0\<rparr>\<rparr>" "\<lparr>hc_id = ar_next_grant st + 1, hc_scope = s0, hc_claimed_at = t0\<rparr>" cancelled claims]
  by (simp add: arbiter_claim_def checked_add_def)

theorem one_winner_per_wake_witness:
  "claim_all (\<lambda>_. False) [(room ''office'' 1, 700, 100), (room ''lounge'' 2, 700, 190), (room ''kitchen'' 3, 700, 284)] arbiter_new =
     [Inr (Won \<lparr>wg_id = 1, wg_claimed_at = 100\<rparr>), Inr (Lost ''office''), Inr (Lost ''office'')]"
  using one_winner_per_wake [of arbiter_new "\<lambda>_. False" "room ''office'' 1" "[(room ''lounge'' 2, 700, 190), (room ''kitchen'' 3, 700, 284)]" 100 700]
  by (simp add: arbiter_new_def u64_max_def room_def)

end
