(* ===== verification/Focus_Lease.thy ===== *)
theory Focus_Lease
  imports Sample_Time
begin

text \<open>
  Dialog focus leases (\<open>crates/playback/src/focus.rs\<close>, with the vocabulary and commands of
  \<open>crates/playback/src/wire.rs\<close>): the controller holds a lease on the device while a turn listens or speaks and
  renews it. What the link answers to a request is an argument of the operation that sends it, and so is the
  random lease id; an operation also returns the command it queued. Instants are in nanoseconds.
\<close>

section \<open>Vocabulary\<close>

datatype focus_kind = DialogInput | DialogOutput

datatype focus_rejection = FocusInvalid | StaleGeneration | UnknownLease

fun focus_rejection_from_wire :: "string \<Rightarrow> focus_rejection option" where
  "focus_rejection_from_wire t =
     (if t = ''invalid'' then Some FocusInvalid
      else if t = ''stale_generation'' then Some StaleGeneration
      else if t = ''unknown_lease'' then Some UnknownLease
      else None)"

definition reported_of :: "string \<Rightarrow> (string \<Rightarrow> 'a option) \<Rightarrow> 'a reported" where
  "reported_of t parse = (case parse t of Some v \<Rightarrow> Known v | None \<Rightarrow> Unrecognized t)"

datatype ack_failure = AckTimedOut | AckSessionEnded

datatype ack_outcome = AckAccepted | AckRejected "string option" | AckFailed ack_failure

record focus_acquire_body =
  fa_lease_id :: string
  fa_owner :: string
  fa_focus :: focus_kind
  fa_ttl_ms :: nat

record focus_renew_body =
  fn_lease_id :: string
  fn_ttl_ms :: nat

record focus_release_body =
  fr_lease_id :: string

datatype focus_command =
    CommandAcquire focus_acquire_body
  | CommandRenew focus_renew_body
  | CommandRelease focus_release_body

datatype focus_event = LeaseExpired | LeaseRejected "focus_rejection reported option" | LeaseLinkClosed | LeaseReleased

datatype generation_error = LowerGeneration nat nat | LeaseNotHeld | GenerationLinkClosed

section \<open>The lease\<close>

type_synonym message_id = string

text \<open>The answer of the link to a request: the message's id, or that the session has ended.\<close>

type_synonym link_reply = "(unit, message_id) result"

definition FOCUS_TTL :: duration_ns where "FOCUS_TTL = 3000000000"
definition FOCUS_RENEW_INTERVAL :: duration_ns where "FOCUS_RENEW_INTERVAL = 1000000000"

datatype lease_state = LeaseHeld | LeaseReleasing | LeaseEnded

datatype lease_op = KeepLease | GiveUpLease

record focus_lease =
  fl_id :: string
  fl_generation :: nat
  fl_state :: lease_state
  fl_next_renewal :: mono_instant
  fl_held_until :: mono_instant
  fl_pending :: "(message_id \<times> lease_op \<times> mono_instant) list"

definition lease_acquire ::
    "string \<Rightarrow> focus_kind \<Rightarrow> string \<Rightarrow> nat \<Rightarrow> mono_instant \<Rightarrow> link_reply \<Rightarrow> (unit, focus_lease) result \<times> (focus_command \<times> nat) option" where
  "lease_acquire lease kind owner generation now reply =
     (case reply of
        Inl _ \<Rightarrow> (Inl (), None)
      | Inr message \<Rightarrow>
          (Inr \<lparr>fl_id = lease, fl_generation = generation, fl_state = LeaseHeld,
                fl_next_renewal = now + FOCUS_RENEW_INTERVAL, fl_held_until = now + FOCUS_TTL,
                fl_pending = [(message, KeepLease, now)]\<rparr>,
           Some (CommandAcquire \<lparr>fa_lease_id = lease, fa_owner = owner, fa_focus = kind,
                                  fa_ttl_ms = FOCUS_TTL div 1000000\<rparr>, generation)))"

definition lease_is_held :: "focus_lease \<Rightarrow> bool" where
  "lease_is_held l \<longleftrightarrow> fl_state l = LeaseHeld"

definition lease_renew ::
    "mono_instant \<Rightarrow> link_reply \<Rightarrow> focus_lease \<Rightarrow> (unit, unit) result \<times> (focus_command \<times> nat) option \<times> focus_lease" where
  "lease_renew now reply l =
     (case reply of
        Inl _ \<Rightarrow> (Inl (), None, l)
      | Inr message \<Rightarrow>
          (Inr (), Some (CommandRenew \<lparr>fn_lease_id = fl_id l, fn_ttl_ms = FOCUS_TTL div 1000000\<rparr>, fl_generation l),
           l\<lparr>fl_pending := fl_pending l @ [(message, KeepLease, now)],
             fl_next_renewal := max (fl_next_renewal l + FOCUS_RENEW_INTERVAL) (now + FOCUS_RENEW_INTERVAL div 2)\<rparr>))"

definition lease_set_generation ::
    "mono_instant \<Rightarrow> nat \<Rightarrow> link_reply \<Rightarrow> focus_lease
      \<Rightarrow> (generation_error, unit) result \<times> (focus_command \<times> nat) option \<times> focus_lease" where
  "lease_set_generation now generation reply l =
     (if fl_state l \<noteq> LeaseHeld then (Inl LeaseNotHeld, None, l)
      else if generation < fl_generation l then (Inl (LowerGeneration (fl_generation l) generation), None, l)
      else (case lease_renew now reply (l\<lparr>fl_generation := generation\<rparr>) of
              (Inr _, sent, m) \<Rightarrow> (Inr (), sent, m)
            | (Inl _, sent, m) \<Rightarrow> (Inl GenerationLinkClosed, sent, m\<lparr>fl_state := LeaseEnded\<rparr>)))"

definition lease_release ::
    "mono_instant \<Rightarrow> link_reply \<Rightarrow> focus_lease \<Rightarrow> (unit, unit) result \<times> (focus_command \<times> nat) option \<times> focus_lease" where
  "lease_release now reply l =
     (if fl_state l \<noteq> LeaseHeld then (Inr (), None, l)
      else (case reply of
              Inr message \<Rightarrow>
                (Inr (), Some (CommandRelease \<lparr>fr_lease_id = fl_id l\<rparr>, fl_generation l),
                 l\<lparr>fl_pending := fl_pending l @ [(message, GiveUpLease, now)], fl_state := LeaseReleasing\<rparr>)
            | Inl _ \<Rightarrow> (Inl (), None, l\<lparr>fl_state := LeaseEnded\<rparr>)))"

definition lease_poll ::
    "mono_instant \<Rightarrow> link_reply \<Rightarrow> focus_lease \<Rightarrow> focus_event option \<times> (focus_command \<times> nat) option \<times> focus_lease" where
  "lease_poll now reply l =
     (case fl_state l of
        LeaseEnded \<Rightarrow> (None, None, l)
      | LeaseReleasing \<Rightarrow>
          if now \<ge> fl_held_until l then (Some LeaseReleased, None, l\<lparr>fl_state := LeaseEnded\<rparr>) else (None, None, l)
      | LeaseHeld \<Rightarrow>
          if now \<ge> fl_held_until l then (Some LeaseExpired, None, l\<lparr>fl_state := LeaseEnded\<rparr>)
          else if now \<ge> fl_next_renewal l
            then (case lease_renew now reply l of
                    (Inl _, sent, m) \<Rightarrow> (Some LeaseLinkClosed, sent, m\<lparr>fl_state := LeaseEnded\<rparr>)
                  | (Inr _, sent, m) \<Rightarrow> (None, sent, m))
            else (None, None, l))"

definition lease_next_deadline :: "focus_lease \<Rightarrow> mono_instant option" where
  "lease_next_deadline l =
     (case fl_state l of
        LeaseHeld \<Rightarrow> Some (min (fl_next_renewal l) (fl_held_until l))
      | LeaseReleasing \<Rightarrow> Some (fl_held_until l)
      | LeaseEnded \<Rightarrow> None)"

text \<open>Takes the first command with the id out of those waiting.\<close>

fun take_pending ::
    "message_id \<Rightarrow> (message_id \<times> lease_op \<times> mono_instant) list
      \<Rightarrow> ((lease_op \<times> mono_instant) \<times> (message_id \<times> lease_op \<times> mono_instant) list) option" where
  "take_pending m [] = None"
| "take_pending m (p # ps) =
     (if fst p = m then Some (snd p, ps) else map_option (\<lambda>(q, rest). (q, p # rest)) (take_pending m ps))"

definition lease_on_ack :: "message_id \<Rightarrow> ack_outcome \<Rightarrow> focus_lease \<Rightarrow> (unit, focus_event option) result \<times> focus_lease" where
  "lease_on_ack message outcome l =
     (case take_pending message (fl_pending l) of
        None \<Rightarrow> (Inl (), l)
      | Some ((operation, sent), rest) \<Rightarrow>
          let l1 = l\<lparr>fl_pending := rest\<rparr>; over = l1\<lparr>fl_state := LeaseEnded\<rparr> in
          if fl_state l = LeaseEnded then (Inr None, l1)
          else (case outcome of
                  AckAccepted \<Rightarrow>
                    (case operation of
                       KeepLease \<Rightarrow> (Inr None, l1\<lparr>fl_held_until := max (fl_held_until l1) (sent + FOCUS_TTL)\<rparr>)
                     | GiveUpLease \<Rightarrow> (Inr (Some LeaseReleased), over))
                | AckRejected code \<Rightarrow>
                    (Inr (Some (LeaseRejected (map_option (\<lambda>t. reported_of t focus_rejection_from_wire) code))), over)
                | AckFailed AckSessionEnded \<Rightarrow> (Inr (Some LeaseLinkClosed), over)
                | AckFailed AckTimedOut \<Rightarrow> (Inr None, l1)))"

section \<open>Specification\<close>

datatype focus_op =
    SetGeneration mono_instant nat link_reply
  | ReleaseLease mono_instant link_reply
  | PollLease mono_instant link_reply
  | AckLease message_id ack_outcome

text \<open>What happened to a lease: the keeping commands sent, the acknowledgements, and the events.\<close>

record lease_history =
  lh_sent :: "(message_id \<times> mono_instant) list"
  lh_acked :: "message_id set"
  lh_events :: "focus_event list"

definition note_sent :: "mono_instant \<Rightarrow> link_reply \<Rightarrow> (focus_command \<times> nat) option \<Rightarrow> lease_history \<Rightarrow> lease_history" where
  "note_sent now reply sent h =
     (case (reply, sent) of (Inr m, Some _) \<Rightarrow> h\<lparr>lh_sent := lh_sent h @ [(m, now)]\<rparr> | _ \<Rightarrow> h)"

definition note_event_of :: "focus_event option \<Rightarrow> lease_history \<Rightarrow> lease_history" where
  "note_event_of e h = (case e of Some x \<Rightarrow> h\<lparr>lh_events := lh_events h @ [x]\<rparr> | None \<Rightarrow> h)"

fun focus_step :: "focus_op \<Rightarrow> focus_lease \<times> lease_history \<Rightarrow> focus_lease \<times> lease_history" where
  "focus_step (SetGeneration now generation reply) (l, h) =
     (let (_, sent, m) = lease_set_generation now generation reply l in (m, note_sent now reply sent h))"
| "focus_step (ReleaseLease now reply) (l, h) =
     (let (_, _, m) = lease_release now reply l in (m, h))"
| "focus_step (PollLease now reply) (l, h) =
     (let (e, sent, m) = lease_poll now reply l in (m, note_event_of e (note_sent now reply sent h)))"
| "focus_step (AckLease message outcome) (l, h) =
     (let (r, m) = lease_on_ack message outcome l;
          h1 = (if outcome = AckAccepted then h\<lparr>lh_acked := insert message (lh_acked h)\<rparr> else h)
      in (m, note_event_of (case r of Inr e \<Rightarrow> e | Inl _ \<Rightarrow> None) h1))"

definition lease_inv :: "mono_instant \<Rightarrow> focus_lease \<times> lease_history \<Rightarrow> bool" where
  "lease_inv t0 s \<longleftrightarrow>
     (let (l, h) = s in
      (\<forall>m t. (m, KeepLease, t) \<in> set (fl_pending l) \<longrightarrow> (m, t) \<in> set (lh_sent h))
      \<and> (fl_held_until l = t0 + FOCUS_TTL
         \<or> (\<exists>m t. (m, t) \<in> set (lh_sent h) \<and> m \<in> lh_acked h \<and> fl_held_until l = t + FOCUS_TTL))
      \<and> length (lh_events h) \<le> 1 \<and> (lh_events h \<noteq> [] \<longrightarrow> fl_state l = LeaseEnded))"

definition lease_start :: "mono_instant \<Rightarrow> message_id \<Rightarrow> focus_lease \<Rightarrow> focus_lease \<times> lease_history" where
  "lease_start now message l = (l, \<lparr>lh_sent = [(message, now)], lh_acked = {}, lh_events = []\<rparr>)"

definition example_lease :: focus_lease where
  "example_lease = (case fst (lease_acquire ''l'' DialogOutput ''t'' 4 0 (Inr ''a'')) of Inr l \<Rightarrow> l)"

definition example_focus_ops :: "focus_op list" where
  "example_focus_ops = [AckLease ''a'' AckAccepted, PollLease 1000000000 (Inr ''b''), AckLease ''b'' AckAccepted,
     PollLease 2000000000 (Inr ''c'')]"

section \<open>Lemmas\<close>

lemma take_pending_mem:
  "take_pending m ps = Some ((k, t), rest) \<Longrightarrow> (m, k, t) \<in> set ps \<and> set rest \<subseteq> set ps"
  by (induction ps arbitrary: rest) (auto split: if_splits)

lemma history_simps [simp]:
  "lh_acked (note_sent now reply sent h) = lh_acked h" "lh_events (note_sent now reply sent h) = lh_events h"
  "set (lh_sent h) \<subseteq> set (lh_sent (note_sent now reply sent h))"
  "lh_acked (note_event_of e h) = lh_acked h" "lh_sent (note_event_of e h) = lh_sent h"
  by (auto simp: note_sent_def note_event_of_def split: sum.splits option.splits)

lemma focus_step_inv:
  assumes "lease_inv t0 s"
  shows "lease_inv t0 (focus_step op s)"
proof -
  obtain l h where s: "s = (l, h)" by (cases s)
  show ?thesis
  proof (cases op)
    case (SetGeneration now g reply)
    then show ?thesis using assms unfolding s
      by (auto simp: lease_inv_def lease_set_generation_def lease_renew_def note_sent_def split: sum.splits)
  next
    case (ReleaseLease now reply)
    then show ?thesis using assms unfolding s
      by (auto simp: lease_inv_def lease_release_def note_sent_def split: sum.splits)
  next
    case (PollLease now reply)
    then show ?thesis using assms unfolding s
      by (auto simp: lease_inv_def lease_poll_def lease_renew_def note_sent_def note_event_of_def
          split: sum.splits lease_state.splits)
  next
    case (AckLease message outcome)
    then show ?thesis
    proof (cases "take_pending message (fl_pending l)")
      case None
      then show ?thesis using assms AckLease unfolding s
        by (auto simp: lease_inv_def lease_on_ack_def note_event_of_def)
    next
      case (Some p)
      obtain k t rest where p: "p = ((k, t), rest)" by (metis prod.collapse)
      have m: "(message, k, t) \<in> set (fl_pending l)" "set rest \<subseteq> set (fl_pending l)"
        using take_pending_mem [of message "fl_pending l" k t rest] Some p by auto
      then show ?thesis using assms AckLease Some p unfolding s
        by (auto simp: lease_inv_def lease_on_ack_def note_event_of_def Let_def max_def
            split: ack_outcome.splits ack_failure.splits lease_op.splits)
    qed
  qed
qed

interpretation focus_machine: invariant_machine focus_step "lease_inv t0" for t0
  by unfold_locales (rule focus_step_inv)

lemma lease_start_inv:
  assumes "lease_acquire lease kind owner generation t0 (Inr message) = (Inr l, sent)"
  shows "lease_inv t0 (lease_start t0 message l)"
  using assms by (auto simp: lease_acquire_def lease_start_def lease_inv_def)

lemma poll_held:
  assumes "lease_is_held (snd (snd (lease_poll now reply l)))"
  shows "now < fl_held_until l" "fl_held_until (snd (snd (lease_poll now reply l))) = fl_held_until l"
  using assms by (auto simp: lease_poll_def lease_renew_def lease_is_held_def split: lease_state.splits if_splits sum.splits)

lemma example_lease_run:
  "\<exists>h. fold focus_step example_focus_ops (lease_start 0 ''a'' example_lease) =
     (\<lparr>fl_id = ''l'', fl_generation = 4, fl_state = LeaseHeld, fl_next_renewal = 3000000000, fl_held_until = 4000000000,
       fl_pending = [(''c'', KeepLease, 2000000000)]\<rparr>, h) \<and> lh_sent h = [(''a'', 0), (''b'', 1000000000), (''c'', 2000000000)]"
  by (simp add: example_focus_ops_def example_lease_def lease_start_def lease_acquire_def lease_on_ack_def lease_poll_def
      lease_renew_def FOCUS_TTL_def FOCUS_RENEW_INTERVAL_def note_sent_def note_event_of_def Let_def)

section \<open>Properties\<close>

text \<open>
  (C28) A lease reported held is held: whatever was sent, acknowledged, lost or refused, a lease that is still
  held after a poll is one the device keeps at that moment, since it keeps one for its time to live
  from the receipt of an acknowledged command, and receives a command no earlier than it was sent;
  only before the acquire's own time to live is over may nothing be acknowledged yet.
\<close>

theorem lease_known_held:
  assumes "lease_acquire lease kind owner generation t0 (Inr message) = (Inr l0, sent)"
    "fold focus_step ops (lease_start t0 message l0) = (l, h)"
    "lease_is_held (snd (snd (lease_poll now reply l)))"
    "\<forall>(m, t) \<in> set (lh_sent h). t \<le> receipt m t"
  shows "now < t0 + FOCUS_TTL \<or> (\<exists>m t. (m, t) \<in> set (lh_sent h) \<and> m \<in> lh_acked h \<and> now < receipt m t + FOCUS_TTL)"
proof -
  have "lease_inv t0 (l, h)" using focus_machine.run_inv [OF lease_start_inv [OF assms(1)], of ops] assms(2) by simp
  moreover have "now < fl_held_until l" by (rule poll_held(1) [OF assms(3)])
  ultimately show ?thesis using assms(4) by (fastforce simp: lease_inv_def)
qed

theorem lease_known_held_witness:
  "\<exists>h :: lease_history. \<exists>m t. (m, t) \<in> set (lh_sent h) \<and> m \<in> lh_acked h \<and> 3500000000 < t + FOCUS_TTL"
proof -
  have a: "lease_acquire ''l'' DialogOutput ''t'' 4 0 (Inr ''a'') =
      (Inr example_lease, snd (lease_acquire ''l'' DialogOutput ''t'' 4 0 (Inr ''a'')))"
    by (simp add: lease_acquire_def example_lease_def)
  obtain h where h: "fold focus_step example_focus_ops (lease_start 0 ''a'' example_lease) =
     (\<lparr>fl_id = ''l'', fl_generation = 4, fl_state = LeaseHeld, fl_next_renewal = 3000000000, fl_held_until = 4000000000,
       fl_pending = [(''c'', KeepLease, 2000000000)]\<rparr>, h)" "lh_sent h = [(''a'', 0), (''b'', 1000000000), (''c'', 2000000000)]"
    using example_lease_run by blast
  let ?l = "\<lparr>fl_id = ''l'', fl_generation = 4, fl_state = LeaseHeld, fl_next_renewal = 3000000000, fl_held_until = 4000000000,
       fl_pending = [(''c'', KeepLease, 2000000000)]\<rparr>"
  have "lease_is_held (snd (snd (lease_poll 3500000000 (Inr ''d'') ?l)))"
    by (simp add: lease_poll_def lease_is_held_def lease_renew_def)
  from lease_known_held [OF a h(1) this, of "\<lambda>m t. t"]
  have "3500000000 < 0 + FOCUS_TTL \<or> (\<exists>m t. (m, t) \<in> set (lh_sent h) \<and> m \<in> lh_acked h \<and> 3500000000 < t + FOCUS_TTL)" by simp
  then show ?thesis by (auto simp: FOCUS_TTL_def)
qed

text \<open>
  (C29) A lease ends once and its polls leave nothing due: over its life at most one event is reported, the lease
  has ended when it is, and after a poll the next deadline is in the future, or there is none and
  the lease has ended.
\<close>

theorem lease_ends_once:
  assumes "lease_acquire lease kind owner generation t0 (Inr message) = (Inr l0, sent)"
    "fold focus_step ops (lease_start t0 message l0) = (l, h)"
  shows "length (lh_events h) \<le> 1 \<and> (lh_events h \<noteq> [] \<longrightarrow> fl_state l = LeaseEnded)
    \<and> (case lease_next_deadline (snd (snd (lease_poll now reply l))) of
         Some d \<Rightarrow> now < d | None \<Rightarrow> fl_state (snd (snd (lease_poll now reply l))) = LeaseEnded)"
proof -
  have "lease_inv t0 (l, h)" using focus_machine.run_inv [OF lease_start_inv [OF assms(1)], of ops] assms(2) by simp
  moreover have "case lease_next_deadline (snd (snd (lease_poll now reply l))) of
         Some d \<Rightarrow> now < d | None \<Rightarrow> fl_state (snd (snd (lease_poll now reply l))) = LeaseEnded"
    by (auto simp: lease_poll_def lease_renew_def lease_next_deadline_def FOCUS_RENEW_INTERVAL_def split: lease_state.splits sum.splits)
  ultimately show ?thesis by (simp add: lease_inv_def)
qed

theorem lease_ends_once_witness:
  "\<exists>l h. fold focus_step (example_focus_ops @ [PollLease 4000000000 (Inr ''d'')]) (lease_start 0 ''a'' example_lease) = (l, h)
     \<and> length (lh_events h) \<le> 1 \<and> (lh_events h \<noteq> [] \<longrightarrow> fl_state l = LeaseEnded)"
proof -
  have a: "lease_acquire ''l'' DialogOutput ''t'' 4 0 (Inr ''a'') =
      (Inr example_lease, snd (lease_acquire ''l'' DialogOutput ''t'' 4 0 (Inr ''a'')))"
    by (simp add: lease_acquire_def example_lease_def)
  from lease_ends_once [OF a] show ?thesis by (metis prod.collapse)
qed

end
