(* ===== verification/Button_Policy.thy ===== *)
theory Button_Policy
  imports Sample_Time
begin

text \<open>
  The action button's gesture policy (\<open>crates/presentation/src/button.rs\<close>): each release of the button is a tap or
  a hold, taps are grouped, and a tap cancels or starts a turn. Device clocks are \<open>i64\<close>, here integers with the
  saturation written out; the controller's instants are in nanoseconds. Decoding the JSON body is left
  out.
\<close>

section \<open>Messages\<close>

definition HOLD_MS :: nat where "HOLD_MS = 750"
definition PREROLL_MS :: nat where "PREROLL_MS = 300"
definition SAMPLES_PER_MS :: nat where "SAMPLES_PER_MS = 16"

datatype click_type = ClickDot | ClickVolumeUp | ClickVolumeDown | ClickMute | ClickOther nat

definition click_from_code :: "nat \<Rightarrow> click_type" where
  "click_from_code code =
     (if code = 138 then ClickDot else if code = 115 then ClickVolumeUp else if code = 114 then ClickVolumeDown
      else if code = 113 then ClickMute else ClickOther code)"

datatype button_handled = AlertStopped | HandledUnrecognized string

record capture_position =
  cp_epoch :: nat
  cp_sample :: nat

record button_action =
  bt_click :: click_type
  bt_button :: string
  bt_down :: bool
  bt_held_ms :: nat
  bt_muted :: bool
  bt_mono_ns :: int
  bt_capture :: "capture_position option"
  bt_physical_seq :: nat
  bt_occurrence_id :: "string option"
  bt_handled :: "button_handled option"

datatype turn_activity = ActivityIdle | ActivityTurn | ActivityReplyWindow

record button_context =
  bx_activity :: turn_activity
  bx_recording :: bool
  bx_speech_available :: bool

datatype button_refusal = ButtonMuted | ButtonRecording | ButtonSpeechUnavailable | ButtonNoCapture

record button_turn =
  bu_epoch :: nat
  bu_press_sample :: nat
  bu_audio_from :: nat
  bu_keeps_reply :: bool

datatype button_event = EventLong | EventSingle | EventDouble | EventTriple

datatype button_output =
    FireEvent button_event
  | CancelTurn
  | StartTurn button_turn
  | RefuseTap button_refusal

datatype button_ignored = IgnoredDuplicate | IgnoredLocalButton | IgnoredPress | IgnoredHandledByDevice

datatype button_decision = Ignore button_ignored | Act "button_output list"

section \<open>The policy\<close>

record button_settings =
  bs_single_tap_event :: bool
  bs_multi_tap_ms :: nat

record tap_group =
  tg_taps :: nat
  tg_last_release_ns :: int
  tg_closes_at :: mono_instant

record button_policy =
  bp_hold_capable :: bool
  bp_settings :: button_settings
  bp_last_seq :: "nat option"
  bp_group :: "tap_group option"

definition button_policy_new :: "bool \<Rightarrow> button_settings \<Rightarrow> button_policy" where
  "button_policy_new hold_capable settings =
     \<lparr>bp_hold_capable = hold_capable, bp_settings = settings, bp_last_seq = None, bp_group = None\<rparr>"

definition button_set_settings :: "button_settings \<Rightarrow> button_policy \<Rightarrow> button_policy" where
  "button_set_settings settings p = p\<lparr>bp_settings := settings\<rparr>"

definition accept_physical_seq :: "nat \<Rightarrow> button_policy \<Rightarrow> bool \<times> button_policy" where
  "accept_physical_seq seq p =
     (if (case bp_last_seq p of Some latest \<Rightarrow> seq \<le> latest | None \<Rightarrow> False) then (False, p)
      else (True, p\<lparr>bp_last_seq := Some seq\<rparr>))"

definition tap_events :: "button_policy \<Rightarrow> bool" where
  "tap_events p \<longleftrightarrow> bp_hold_capable p \<and> bs_single_tap_event (bp_settings p)"

definition tap_event :: "nat \<Rightarrow> button_event" where
  "tap_event taps = (if taps \<le> 1 then EventSingle else if taps = 2 then EventDouble else EventTriple)"

definition i64_saturating_sub :: "int \<Rightarrow> int \<Rightarrow> int" where
  "i64_saturating_sub a b = max (- (2 ^ 63)) (min (2 ^ 63 - 1) (a - b))"

definition button_flush :: "button_policy \<Rightarrow> button_output list \<times> button_policy" where
  "button_flush p =
     (case bp_group p of
        Some g \<Rightarrow> ([FireEvent (tap_event (tg_taps g))], p\<lparr>bp_group := None\<rparr>)
      | None \<Rightarrow> ([], p))"

definition button_tap :: "int \<Rightarrow> mono_instant \<Rightarrow> button_policy \<Rightarrow> button_output list \<times> button_policy" where
  "button_tap release_ns now p =
     (let window_ms = bs_multi_tap_ms (bp_settings p) in
      if window_ms = 0 then ([FireEvent EventSingle], p)
      else
        let window_ns = int window_ms * 1000000;
            (out, q, taps) = (case bp_group p of
                Some g \<Rightarrow>
                  let gap = i64_saturating_sub release_ns (tg_last_release_ns g) in
                  if 0 \<le> gap \<and> gap \<le> window_ns then ([], p, tg_taps g + 1)
                  else (let (o1, p1) = button_flush p in (o1, p1, 1))
              | None \<Rightarrow> ([], p, 1))
        in if taps \<ge> 3 then (out @ [FireEvent EventTriple], q\<lparr>bp_group := None\<rparr>)
           else (out, q\<lparr>bp_group := Some \<lparr>tg_taps = taps, tg_last_release_ns = release_ns,
                                           tg_closes_at = now + window_ms * 1000000\<rparr>\<rparr>))"

definition start_of_tap :: "button_action \<Rightarrow> button_context \<Rightarrow> button_output" where
  "start_of_tap action ctx =
     (if bx_recording ctx then RefuseTap ButtonRecording
      else if \<not> bx_speech_available ctx then RefuseTap ButtonSpeechUnavailable
      else (case bt_capture action of
              Some pos \<Rightarrow>
                StartTurn \<lparr>bu_epoch = cp_epoch pos, bu_press_sample = cp_sample pos,
                           bu_audio_from = cp_sample pos - PREROLL_MS * SAMPLES_PER_MS,
                           bu_keeps_reply = (bx_activity ctx = ActivityReplyWindow)\<rparr>
            | None \<Rightarrow> RefuseTap ButtonNoCapture))"

definition button_on_action ::
    "button_action \<Rightarrow> button_context \<Rightarrow> mono_instant \<Rightarrow> button_policy \<Rightarrow> button_decision \<times> button_policy" where
  "button_on_action action ctx now p0 =
     (let (fresh, p) = accept_physical_seq (bt_physical_seq action) p0 in
      if \<not> fresh then (Ignore IgnoredDuplicate, p)
      else if bt_click action \<noteq> ClickDot then (Ignore IgnoredLocalButton, p)
      else if bt_down action then (Ignore IgnoredPress, p)
      else if bt_handled action \<noteq> None then (Ignore IgnoredHandledByDevice, p)
      else if bp_hold_capable p \<and> bt_held_ms action \<ge> HOLD_MS
        then (let (out, q) = button_flush p in (Act (out @ [FireEvent EventLong]), q))
      else if bt_muted action
        then (let (out, q) = button_flush p in (Act (out @ [RefuseTap ButtonMuted]), q))
      else
        let events = tap_events p;
            cancels = (case bx_activity ctx of ActivityTurn \<Rightarrow> True | ActivityReplyWindow \<Rightarrow> events | ActivityIdle \<Rightarrow> False)
        in if cancels then (let (out, q) = button_flush p in (Act (out @ [CancelTurn]), q))
           else if events then (let (out, q) = button_tap (bt_mono_ns action) now p in (Act out, q))
           else (Act [start_of_tap action ctx], p))"

definition button_next_deadline :: "button_policy \<Rightarrow> mono_instant option" where
  "button_next_deadline p = map_option tg_closes_at (bp_group p)"

definition button_on_timer :: "mono_instant \<Rightarrow> button_policy \<Rightarrow> button_output option \<times> button_policy" where
  "button_on_timer now p =
     (case bp_group p of
        Some g \<Rightarrow> if now \<ge> tg_closes_at g then (Some (FireEvent (tap_event (tg_taps g))), p\<lparr>bp_group := None\<rparr>) else (None, p)
      | None \<Rightarrow> (None, p))"

section \<open>Specification\<close>

datatype button_input =
    ButtonPress button_action button_context mono_instant
  | PrivacySeq nat
  | ButtonTimer mono_instant
  | NewSettings button_settings

text \<open>The outputs of an input, and whether it was a tap for the events.\<close>

fun outputs_of :: "button_decision \<Rightarrow> button_output list" where
  "outputs_of (Ignore i) = []"
| "outputs_of (Act out) = out"

fun button_step :: "button_input \<Rightarrow> button_policy \<Rightarrow> button_output list \<times> button_policy" where
  "button_step (ButtonPress action ctx now) p =
     (let (d, q) = button_on_action action ctx now p in (outputs_of d, q))"
| "button_step (PrivacySeq seq) p = ([], snd (accept_physical_seq seq p))"
| "button_step (ButtonTimer now) p =
     (let (out, q) = button_on_timer now p in (case out of Some x \<Rightarrow> [x] | None \<Rightarrow> [], q))"
| "button_step (NewSettings s) p = ([], button_set_settings s p)"

text \<open>A new release of the action button that is neither a hold, nor refused, nor cancels: a tap for the events.\<close>

fun event_tap :: "button_policy \<Rightarrow> button_input \<Rightarrow> bool" where
  "event_tap p (ButtonPress action ctx now) \<longleftrightarrow>
     fst (accept_physical_seq (bt_physical_seq action) p) \<and> bt_click action = ClickDot \<and> \<not> bt_down action
     \<and> bt_handled action = None \<and> \<not> (bp_hold_capable p \<and> bt_held_ms action \<ge> HOLD_MS) \<and> \<not> bt_muted action
     \<and> bx_activity ctx = ActivityIdle \<and> tap_events p"
| "event_tap p _ \<longleftrightarrow> False"

fun taps_in :: "button_output \<Rightarrow> nat" where
  "taps_in (FireEvent EventSingle) = 1"
| "taps_in (FireEvent EventDouble) = 2"
| "taps_in (FireEvent EventTriple) = 3"
| "taps_in _ = 0"

definition pending_taps :: "button_policy \<Rightarrow> nat" where
  "pending_taps p = (case bp_group p of Some g \<Rightarrow> tg_taps g | None \<Rightarrow> 0)"

fun button_run :: "button_input list \<Rightarrow> button_policy \<Rightarrow> nat \<times> button_output list \<times> button_policy" where
  "button_run [] p = (0, [], p)"
| "button_run (i # rest) p =
     (let (out, q) = button_step i p; (n, outs, r) = button_run rest q
      in ((if event_tap p i then 1 else 0) + n, out @ outs, r))"

definition group_ok :: "button_policy \<Rightarrow> bool" where
  "group_ok p \<longleftrightarrow> (\<forall>g. bp_group p = Some g \<longrightarrow> tg_taps g = 1 \<or> tg_taps g = 2)"

section \<open>Lemmas\<close>

lemma tap_event_taps: "n = 1 \<or> n = 2 \<Longrightarrow> taps_in (FireEvent (tap_event n)) = n"
  by (auto simp: tap_event_def)

lemma accept_seq_simps [simp]:
  "bp_group (snd (accept_physical_seq seq p)) = bp_group p" "bp_hold_capable (snd (accept_physical_seq seq p)) = bp_hold_capable p"
  "bp_settings (snd (accept_physical_seq seq p)) = bp_settings p"
  by (simp_all add: accept_physical_seq_def)

lemma flush_accounts:
  assumes "group_ok p"
  shows "sum_list (map taps_in (fst (button_flush p))) = pending_taps p" "bp_group (snd (button_flush p)) = None"
  using assms by (auto simp: button_flush_def pending_taps_def group_ok_def tap_event_def split: option.splits)

lemma tap_accounts:
  assumes "group_ok p"
  shows "sum_list (map taps_in (fst (button_tap release now p))) + pending_taps (snd (button_tap release now p)) = pending_taps p + 1
    \<and> group_ok (snd (button_tap release now p))"
  using assms by (auto simp: button_tap_def button_flush_def pending_taps_def group_ok_def tap_event_def Let_def split: option.splits)

lemma button_step_accounts:
  assumes "group_ok p" "button_step i p = (out, q)"
  shows "sum_list (map taps_in out) + pending_taps q = pending_taps p + (if event_tap p i then 1 else 0) \<and> group_ok q"
proof (cases i)
  case (ButtonPress action ctx now)
  define p1 where "p1 = snd (accept_physical_seq (bt_physical_seq action) p)"
  have p1: "group_ok p1" "pending_taps p1 = pending_taps p" "tap_events p1 = tap_events p" "bp_hold_capable p1 = bp_hold_capable p"
    using assms(1) by (simp_all add: p1_def group_ok_def pending_taps_def tap_events_def)
  have start: "taps_in (start_of_tap action ctx) = 0"
    by (simp add: start_of_tap_def split: option.splits)
  show ?thesis
    using assms(2) flush_accounts [OF p1(1)] tap_accounts [OF p1(1), of "bt_mono_ns action" now] p1 start ButtonPress
    by (auto simp: button_on_action_def Let_def case_prod_beta p1_def [symmetric] pending_taps_def [of q] group_ok_def [of q]
        split: turn_activity.splits if_splits)
next
  case (ButtonTimer now)
  then show ?thesis using assms
    by (auto simp: button_on_timer_def pending_taps_def group_ok_def tap_event_def split: option.splits if_splits)
qed (use assms in \<open>auto simp: group_ok_def pending_taps_def button_set_settings_def\<close>)

lemma button_run_accounts:
  "group_ok p \<Longrightarrow> button_run inputs p = (n, out, q) \<Longrightarrow>
     sum_list (map taps_in out) + pending_taps q = pending_taps p + n \<and> group_ok q"
proof (induction inputs arbitrary: p n out)
  case (Cons i inputs)
  obtain o1 p1 where s1: "button_step i p = (o1, p1)" by fastforce
  obtain m o2 where s2: "button_run inputs p1 = (m, o2, q)" using Cons.prems(2) by (auto simp: s1 case_prod_beta prod_eq_iff)
  have "out = o1 @ o2" "n = (if event_tap p i then 1 else 0) + m" using Cons.prems(2) by (auto simp: s1 s2)
  with button_step_accounts [OF Cons.prems(1) s1] Cons.IH [OF _ s2] show ?case by auto
qed simp

section \<open>Properties\<close>

text \<open>
  (C30) Every tap is reported once: over any messages, timers, mutes and settings, in any order, the taps counted
  by the events fired (one, two or three each) and those still waiting in the open group, at most
  two, are exactly the taps that came for the events: new releases of the action button that were
  no hold, not used by the device, not refused while muted and cancelled nothing.
\<close>

theorem taps_reported_once:
  "let (n, out, p) = button_run inputs (button_policy_new hold_capable settings) in
     sum_list (map taps_in out) + pending_taps p = n \<and> pending_taps p \<le> 2"
proof -
  let ?p = "button_policy_new hold_capable settings"
  obtain n out p where r: "button_run inputs ?p = (n, out, p)" by (rule prod_cases3)
  have start: "group_ok ?p" "pending_taps ?p = 0" by (simp_all add: group_ok_def pending_taps_def button_policy_new_def)
  have acc: "sum_list (map taps_in out) + pending_taps p = n" "group_ok p"
    using button_run_accounts [OF start(1) r] start(2) by simp_all
  have "pending_taps p \<le> 2" using acc(2) by (cases "bp_group p") (auto simp: group_ok_def pending_taps_def)
  then show ?thesis unfolding r using acc(1) by simp
qed

end
