(* ===== verification/Frame_Codec.thy ===== *)
theory Frame_Codec
  imports Prelude
begin

text \<open>
  Plaintext framing of the ESPHome API (\<open>crates/esphome/src/frame.rs\<close>): an indicator byte, the payload length and
  the message type as varints, then the payload; and the decoder that reassembles frames from whatever pieces
  the socket returned. The encoder of varints belongs to a library: it is the argument \<open>ev\<close>. Encoding
  a typed message is the library's; \<open>encode_raw\<close> frames its bytes.
\<close>

section \<open>Frames\<close>

definition PLAINTEXT_INDICATOR :: byte where "PLAINTEXT_INDICATOR = 0"
definition MAX_FRAME_LEN :: nat where "MAX_FRAME_LEN = 65535"
definition MAX_VARINT_LEN :: nat where "MAX_VARINT_LEN = 5"

record frame =
  fm_message_type :: nat
  fm_payload :: "byte list"

datatype framing_error = BadIndicator byte | TooLarge nat | VarintTooLong | TypeOutOfRange nat

definition frame_header :: "(nat \<Rightarrow> byte list) \<Rightarrow> nat \<Rightarrow> nat \<Rightarrow> (nat, byte list) result" where
  "frame_header ev message_type len =
     (if len > MAX_FRAME_LEN then Inl len else Inr (PLAINTEXT_INDICATOR # ev len @ ev message_type))"

definition encode_raw :: "(nat \<Rightarrow> byte list) \<Rightarrow> nat \<Rightarrow> byte list \<Rightarrow> (nat, byte list) result" where
  "encode_raw ev message_type payload =
     (case frame_header ev message_type (length payload) of Inl e \<Rightarrow> Inl e | Inr out \<Rightarrow> Inr (out @ payload))"

section \<open>The decoder\<close>

datatype varint = VarintComplete nat nat | VarintIncomplete

text \<open>The loop of \<open>read_varint\<close> over the bytes with their index.\<close>

fun varint_loop :: "nat \<Rightarrow> nat \<Rightarrow> byte list \<Rightarrow> varint" where
  "varint_loop index acc [] = VarintIncomplete"
| "varint_loop index acc (b # bs) =
     (let acc' = acc + unat (b AND 0x7f) * 2 ^ (7 * index)
      in if b AND 0x80 = 0 then VarintComplete acc' (index + 1) else varint_loop (index + 1) acc' bs)"

definition read_varint :: "byte list \<Rightarrow> (framing_error, varint) result" where
  "read_varint bytes =
     (case varint_loop 0 0 (take MAX_VARINT_LEN bytes) of
        VarintComplete n k \<Rightarrow> Inr (VarintComplete n k)
      | VarintIncomplete \<Rightarrow> if length bytes \<ge> MAX_VARINT_LEN then Inl VarintTooLong else Inr VarintIncomplete)"

text \<open>The next complete frame and the bytes left in the buffer.\<close>

definition next_frame :: "byte list \<Rightarrow> (framing_error, frame option) result \<times> byte list" where
  "next_frame buffer =
     (case buffer of
        [] \<Rightarrow> (Inr None, buffer)
      | indicator # body \<Rightarrow>
          if indicator \<noteq> PLAINTEXT_INDICATOR then (Inl (BadIndicator indicator), buffer)
          else (case read_varint body of
              Inl e \<Rightarrow> (Inl e, buffer)
            | Inr VarintIncomplete \<Rightarrow> (Inr None, buffer)
            | Inr (VarintComplete len len_size) \<Rightarrow>
                if len > MAX_FRAME_LEN then (Inl (TooLarge len), buffer)
                else (case read_varint (drop (1 + len_size) buffer) of
                    Inl e \<Rightarrow> (Inl e, buffer)
                  | Inr VarintIncomplete \<Rightarrow> (Inr None, buffer)
                  | Inr (VarintComplete message_type type_size) \<Rightarrow>
                      if message_type > 65535 then (Inl (TypeOutOfRange message_type), buffer)
                      else
                        let header = 1 + len_size + type_size in
                        if length buffer < header + len then (Inr None, buffer)
                        else (Inr (Some \<lparr>fm_message_type = message_type, fm_payload = take len (drop header buffer)\<rparr>),
                              drop (header + len) buffer))))"

section \<open>Specification\<close>

text \<open>The encoding of varints the protocol documents: seven bits to a byte, the lowest first, the high bit set on all
  but the last byte, and no byte to spare.\<close>

fun varint_value :: "byte list \<Rightarrow> nat" where
  "varint_value [] = 0"
| "varint_value (b # bs) = unat (b AND 0x7f) + 128 * varint_value bs"

definition is_varint :: "nat \<Rightarrow> byte list \<Rightarrow> bool" where
  "is_varint n bs \<longleftrightarrow>
     bs \<noteq> [] \<and> varint_value bs = n \<and> list_all (\<lambda>b. b AND 0x80 \<noteq> 0) (butlast bs) \<and> last bs AND 0x80 = 0
     \<and> (length bs > 1 \<longrightarrow> last bs \<noteq> 0)"

fun leb128 :: "nat \<Rightarrow> byte list" where
  "leb128 n = (if n < 128 then [of_nat n] else of_nat (128 + n mod 128) # leb128 (n div 128))"

declare leb128.simps [simp del]

text \<open>Taking frames until more bytes are needed or the bytes are bad.\<close>

function take_frames :: "byte list \<Rightarrow> frame list \<times> framing_error option \<times> byte list" where
  "take_frames buffer =
     (case next_frame buffer of
        (Inl e, rest) \<Rightarrow> ([], Some e, rest)
      | (Inr None, rest) \<Rightarrow> ([], None, rest)
      | (Inr (Some f), rest) \<Rightarrow> (let (fs, e, left) = take_frames rest in (f # fs, e, left)))"
  by auto

text \<open>The connection reads piece after piece and takes the frames each completes, until the bytes are bad.\<close>

fun receive :: "byte list list \<Rightarrow> frame list \<times> framing_error option \<times> byte list \<Rightarrow> frame list \<times> framing_error option \<times> byte list" where
  "receive [] s = s"
| "receive (piece # pieces) (fs, Some e, buffer) = (fs, Some e, buffer)"
| "receive (piece # pieces) (fs, None, buffer) =
     (let (gs, e, left) = take_frames (buffer @ piece) in receive pieces (fs @ gs, e, left))"

section \<open>Lemmas\<close>

lemma next_frame_shrinks:
  assumes "next_frame buffer = (Inr (Some f), rest)"
  shows "length rest < length buffer"
  using assms by (auto simp: next_frame_def Let_def split: list.splits if_splits sum.splits varint.splits)

termination take_frames
  by (relation "measure length") (auto dest!: next_frame_shrinks [OF sym])

declare take_frames.simps [simp del]

lemma varint_loop_append:
  "varint_loop i acc bs = VarintComplete n k \<Longrightarrow> varint_loop i acc (bs @ xs) = VarintComplete n k"
  by (induction i acc bs rule: varint_loop.induct) (auto simp: Let_def split: if_splits)

lemma varint_loop_size: "varint_loop i acc bs = VarintComplete n k \<Longrightarrow> i < k \<and> k \<le> i + length bs"
  by (induction i acc bs rule: varint_loop.induct) (auto simp: Let_def split: if_splits)

lemma read_varint_append:
  assumes "read_varint bs \<noteq> Inr VarintIncomplete"
  shows "read_varint (bs @ xs) = read_varint bs"
proof (cases "length bs \<ge> MAX_VARINT_LEN")
  case True
  then show ?thesis by (simp add: read_varint_def)
next
  case False
  then obtain n k where "varint_loop 0 0 bs = VarintComplete n k"
    using assms by (auto simp: read_varint_def split: varint.splits)
  moreover have "take MAX_VARINT_LEN (bs @ xs) = bs @ take (MAX_VARINT_LEN - length bs) xs" "take MAX_VARINT_LEN bs = bs"
    using False by simp_all
  ultimately show ?thesis using varint_loop_append [of 0 0 bs n k] by (simp add: read_varint_def)
qed

lemma read_varint_size: "read_varint bs = Inr (VarintComplete n k) \<Longrightarrow> 0 < k \<and> k \<le> length bs"
  using varint_loop_size [of 0 0 "take MAX_VARINT_LEN bs"] by (auto simp: read_varint_def split: varint.splits if_splits)

lemma next_frame_append_Cons:
  assumes "next_frame (i # body) = (r, rest)" "r \<noteq> Inr None"
  shows "next_frame (i # body @ xs) = (r, rest @ xs)"
proof -
  show ?thesis
  proof (cases "i \<noteq> PLAINTEXT_INDICATOR")
    case True
    then show ?thesis using assms by (auto simp: next_frame_def)
  next
    case False
    then have v: "read_varint body \<noteq> Inr VarintIncomplete" using assms by (auto simp: next_frame_def)
    note app = read_varint_append [OF v, of xs]
    show ?thesis
    proof (cases "read_varint body")
      case (Inl e)
      then show ?thesis using assms False app by (auto simp: next_frame_def)
    next
      case (Inr v1)
      then obtain len k where len: "v1 = VarintComplete len k" using v by (cases v1) auto
      have k: "k \<le> length body" using read_varint_size [of body len k] Inr len by simp
      show ?thesis
      proof (cases "len > MAX_FRAME_LEN")
        case True
        then show ?thesis using assms False app Inr len by (auto simp: next_frame_def)
      next
        case small: False
        then have v2: "read_varint (drop k body) \<noteq> Inr VarintIncomplete"
          using assms False Inr len by (auto simp: next_frame_def)
        have d: "drop k (body @ xs) = drop k body @ xs" using k by simp
        note app2 = read_varint_append [OF v2, of xs]
        show ?thesis
        proof (cases "read_varint (drop k body)")
          case (Inl e)
          then show ?thesis using assms False app \<open>read_varint body = Inr v1\<close> len small app2 d by (auto simp: next_frame_def)
        next
          case (Inr v3)
          then obtain ty m where ty: "v3 = VarintComplete ty m" using v2 by (cases v3) auto
          show ?thesis
            using assms False app \<open>read_varint body = Inr v1\<close> len small app2 d Inr ty
            by (auto simp: next_frame_def Let_def split: if_splits)
        qed
      qed
    qed
  qed
qed

lemma next_frame_append:
  "next_frame buffer = (r, rest) \<Longrightarrow> r \<noteq> Inr None \<Longrightarrow> next_frame (buffer @ xs) = (r, rest @ xs)"
  by (cases buffer) (auto simp: next_frame_append_Cons, auto simp: next_frame_def)

lemma take_frames_append:
  "take_frames buffer = (fs, e, left) \<Longrightarrow>
     take_frames (buffer @ xs) =
       (case e of Some x \<Rightarrow> (fs, Some x, left @ xs)
        | None \<Rightarrow> (let (gs, e', left') = take_frames (left @ xs) in (fs @ gs, e', left')))"
proof (induction "length buffer" arbitrary: buffer fs rule: less_induct)
  case less
  obtain r rest where n: "next_frame buffer = (r, rest)" by fastforce
  consider (bad) x where "r = Inl x" | (more) "r = Inr None" | (frame) f where "r = Inr (Some f)"
    by (metis sum.exhaust option.exhaust)
  then show ?case
  proof cases
    case bad
    then show ?thesis
      using less.prems n next_frame_append [OF n, of xs] by (auto simp: take_frames.simps [of buffer] take_frames.simps [of "buffer @ xs"])
  next
    case more
    then have "rest = buffer" using n by (auto simp: next_frame_def Let_def split: list.splits if_splits sum.splits varint.splits)
    then have "fs = []" "e = None" "left = buffer" using less.prems n more by (auto simp: take_frames.simps [of buffer])
    then show ?thesis by simp
  next
    case frame
    obtain gs e' left' where rec: "take_frames rest = (gs, e', left')" by (rule prod_cases3)
    then have p: "fs = f # gs" "e = e'" "left = left'" using less.prems n frame by (auto simp: take_frames.simps [of buffer])
    have "take_frames (rest @ xs) = (case e of Some x \<Rightarrow> (gs, Some x, left @ xs)
        | None \<Rightarrow> (let (hs, e', left') = take_frames (left @ xs) in (gs @ hs, e', left')))"
      using less.hyps [OF next_frame_shrinks, of f rest gs] n frame rec p by simp
    moreover have "next_frame (buffer @ xs) = (r, rest @ xs)" using next_frame_append [OF n] frame by simp
    ultimately show ?thesis using frame p
      by (auto simp: take_frames.simps [of "buffer @ xs"] Let_def case_prod_beta split: option.splits)
  qed
qed

lemma receive_bad: "receive pieces (fs, Some e, buffer) = (fs, Some e, buffer)"
  by (cases pieces) simp_all

lemma receive_concat:
  assumes "take_frames buffer = (fs, None, left)"
  shows "\<exists>rest. take_frames (buffer @ concat pieces) =
    (fst (receive pieces (fs, None, left)), fst (snd (receive pieces (fs, None, left))), rest)"
  using assms
proof (induction pieces arbitrary: buffer fs left)
  case (Cons piece pieces)
  obtain gs e left' where step: "take_frames (left @ piece) = (gs, e, left')" by (rule prod_cases3)
  have joined: "take_frames (buffer @ piece) = (fs @ gs, e, left')"
    using take_frames_append [OF Cons.prems, of piece] step by simp
  show ?case
  proof (cases e)
    case None
    with Cons.IH [of "buffer @ piece" "fs @ gs" left'] joined step show ?thesis by simp
  next
    case (Some x)
    with take_frames_append [OF joined, of "concat pieces"] step show ?thesis by (simp add: receive_bad)
  qed
qed simp

lemma varint_loop_value:
  assumes "bs \<noteq> []" "list_all (\<lambda>b. b AND 0x80 \<noteq> 0) (butlast bs)" "last bs AND 0x80 = 0"
  shows "varint_loop i acc (bs @ xs) = VarintComplete (acc + varint_value bs * 2 ^ (7 * i)) (i + length bs)"
  using assms
proof (induction bs arbitrary: i acc)
  case (Cons b bs)
  show ?case
  proof (cases bs)
    case Nil
    then show ?thesis using Cons.prems by (simp add: Let_def)
  next
    case (Cons c cs)
    then have "b AND 0x80 \<noteq> 0" "list_all (\<lambda>b. b AND 0x80 \<noteq> 0) (butlast bs)" "last bs AND 0x80 = 0" "bs \<noteq> []"
      using Cons.prems by auto
    then show ?thesis
      using Cons.IH [of "Suc i" "acc + unat (b AND 0x7f) * 2 ^ (7 * i)"]
      by (simp add: Let_def algebra_simps power_add)
  qed
qed simp

lemma byte_split: "b = (b AND 0x7f) OR (b AND (0x80 :: byte))"
proof -
  have "b AND (0x7f OR 0x80) = (b AND 0x7f) OR (b AND 0x80)" by (rule bit.conj_disj_distrib)
  moreover have "(0x7f OR 0x80 :: byte) = - 1" by simp
  ultimately show ?thesis by (metis and.right_neutral)
qed

lemma varint_value_bound: "bs \<noteq> [] \<Longrightarrow> last bs AND 0x80 = 0 \<Longrightarrow> last bs \<noteq> 0 \<Longrightarrow> 128 ^ (length bs - 1) \<le> varint_value bs"
proof (induction bs)
  case (Cons b bs)
  show ?case
  proof (cases bs)
    case Nil
    then have "b AND 0x80 = 0" "b \<noteq> 0" using Cons.prems by simp_all
    then have "0 < unat (b AND 0x7f)" using byte_split [of b] by (metis or.right_neutral unat_gt_0)
    then show ?thesis using Nil by simp
  next
    case (Cons c cs)
    then show ?thesis using Cons.IH Cons.prems by simp
  qed
qed simp

lemma read_varint_of:
  assumes "is_varint n bs" "n \<le> 65535"
  shows "read_varint (bs @ xs) = Inr (VarintComplete n (length bs))"
proof -
  have "length bs \<le> MAX_VARINT_LEN"
  proof (rule ccontr)
    assume "\<not> length bs \<le> MAX_VARINT_LEN"
    then have "128 ^ (length bs - 1) \<le> n" "5 \<le> length bs - 1"
      using varint_value_bound [of bs] assms(1) by (auto simp: is_varint_def MAX_VARINT_LEN_def)
    then have "(128 :: nat) ^ 5 \<le> n" using power_increasing [of 5 "length bs - 1" "128 :: nat"] by simp
    then show False using assms(2) by simp
  qed
  then have "take MAX_VARINT_LEN (bs @ xs) = bs @ take (MAX_VARINT_LEN - length bs) xs" by simp
  then show ?thesis
    using varint_loop_value [of bs 0 0 "take (MAX_VARINT_LEN - length bs) xs"] assms(1) by (simp add: read_varint_def is_varint_def)
qed

lemma low_bits: "unat ((of_nat m :: byte) AND 0x7f) = m mod 128"
proof -
  have "unat ((of_nat m :: byte) AND 0x7f) = take_bit 8 m AND mask 7"
    by (simp only: unsigned_and_eq unsigned_of_nat) (simp add: mask_eq_exp_minus_1)
  also have "\<dots> = m mod 128" by (simp add: take_bit_eq_mod mod_mod_cancel flip: take_bit_eq_mask)
  finally show ?thesis .
qed

lemma high_bit: "(of_nat m :: byte) AND 0x80 = 0 \<longleftrightarrow> even (m div 128)"
proof -
  have "(of_nat m :: byte) AND 0x80 = 0 \<longleftrightarrow> \<not> bit (of_nat m :: byte) 7"
    using and_exp_eq_0_iff_not_bit [of "of_nat m :: byte" 7] by simp
  also have "\<dots> \<longleftrightarrow> \<not> bit m 7" by (simp add: bit_simps)
  also have "\<dots> \<longleftrightarrow> even (m div 128)" by (simp add: bit_iff_odd)
  finally show ?thesis .
qed

lemma leb128_is_varint: "is_varint n (leb128 n)"
proof (induction n rule: leb128.induct)
  case (1 n)
  show ?case
  proof (cases "n < 128")
    case True
    then show ?thesis by (simp add: leb128.simps [of n] is_varint_def high_bit low_bits)
  next
    case False
    have IH: "is_varint (n div 128) (leb128 (n div 128))" using 1 False by simp
    have "last (leb128 (n div 128)) \<noteq> 0"
    proof (cases "n div 128 < 128")
      case True
      then have "leb128 (n div 128) = [of_nat (n div 128)]" "0 < n div 128" using False by (simp_all add: leb128.simps [of "n div 128"])
      moreover have "unat ((of_nat (n div 128) :: byte) AND 0x7f) = n div 128" using True low_bits [of "n div 128"] by simp
      ultimately show ?thesis by (metis and_zero_eq last_ConsL less_numeral_extra(3) unat_0 and.commute)
    next
      case ge: False
      then have "length (leb128 (n div 128)) > 1"
        by (simp add: leb128.simps [of "n div 128"]) (simp add: leb128.simps [of "n div 128 div 128"])
      then show ?thesis using IH by (simp add: is_varint_def)
    qed
    moreover have "(128 + n mod 128) div 128 = 1" "(128 + n mod 128) mod 128 = n mod 128" by simp_all
    then have "(of_nat (128 + n mod 128) :: byte) AND 0x80 \<noteq> 0" "unat ((of_nat (128 + n mod 128) :: byte) AND 0x7f) = n mod 128"
      using high_bit [of "128 + n mod 128"] low_bits [of "128 + n mod 128"] by (simp_all only: odd_one not_False_eq_True)
    ultimately show ?thesis using IH False by (simp add: leb128.simps [of n] is_varint_def del: of_nat_add)
  qed
qed

section \<open>Properties\<close>

text \<open>
  (C31) What is framed is received: with the documented encoding of varints, a frame of any 16-bit type and any
  payload the encoder accepts is the next frame the decoder takes from a buffer that begins with it, and
  the bytes after it are left; a larger payload is refused.
\<close>

theorem frame_round_trip:
  assumes "\<forall>n \<le> 65535. is_varint n (ev n)" "message_type \<le> 65535"
  shows "case encode_raw ev message_type payload of
      Inr bytes \<Rightarrow> next_frame (bytes @ rest) = (Inr (Some \<lparr>fm_message_type = message_type, fm_payload = payload\<rparr>), rest)
    | Inl n \<Rightarrow> n = length payload \<and> n > MAX_FRAME_LEN"
proof (cases "length payload > MAX_FRAME_LEN")
  case True
  then show ?thesis by (simp add: encode_raw_def frame_header_def)
next
  case False
  let ?l = "ev (length payload)" and ?t = "ev message_type"
  have l: "read_varint (?l @ ?t @ payload @ rest) = Inr (VarintComplete (length payload) (length ?l))"
    using read_varint_of [of "length payload" ?l] assms(1) False by (simp add: MAX_FRAME_LEN_def)
  have t: "read_varint (?t @ payload @ rest) = Inr (VarintComplete message_type (length ?t))"
    using read_varint_of [of message_type ?t] assms by simp
  show ?thesis using False l t assms(2) by (simp add: encode_raw_def frame_header_def next_frame_def Let_def)
qed

theorem frame_round_trip_witness:
  "next_frame ([0, 2, 7, 1, 2] @ [0]) = (Inr (Some \<lparr>fm_message_type = 7, fm_payload = [1, 2]\<rparr>), [0])"
proof -
  have "leb128 (length [1, 2 :: byte]) = [2]" "leb128 7 = [7]" by (simp_all add: leb128.simps)
  then have "encode_raw leb128 7 [1, 2] = Inr [0, 2, 7, 1, 2]"
    by (simp add: encode_raw_def frame_header_def MAX_FRAME_LEN_def PLAINTEXT_INDICATOR_def)
  then show ?thesis using frame_round_trip [of leb128 7 "[1, 2]" "[0]"] leb128_is_varint by simp
qed

text \<open>
  (C32) How the bytes were cut does not matter: pieces received one after another, frames being taken as they
  complete, give the frames and the outcome of the whole stream taken at once, good or bad.
\<close>

theorem pieces_do_not_matter:
  "(let (fs, e, left) = receive pieces ([], None, []) in (fs, e)) = (let (fs, e, left) = take_frames (concat pieces) in (fs, e))"
proof -
  have "take_frames [] = ([], None, [])" by (simp add: take_frames.simps [of "[]"] next_frame_def)
  from receive_concat [OF this, of pieces] show ?thesis by (auto simp: case_prod_beta)
qed

end
