(* ===== verification/Render_Client.thy ===== *)
theory Render_Client
  imports Focus_Lease Capabilities Complex_Main
begin

text \<open>
  The render client of a device session (\<open>crates/playback/src/render.rs\<close>, with the vocabulary and bodies of
  \<open>crates/playback/src/wire.rs\<close> and the frames of \<open>crates/playback/src/link.rs\<close>): it starts playbacks, sends their audio
  in packets within the window the device reports, cancels and limits them, and queues what became of
  them. The link, a trait object passed to every call, is the record \<open>render_link\<close>: what it answers, as a
  function of the calls made on it so far, which the client's last field keeps. The random playback id
  and the random epochs drawn are arguments. An operation that sends audio returns \<open>None\<close> where the
  code would panic. Instants are in nanoseconds; a gain is passed on and never computed with.
\<close>

section \<open>Vocabulary and bodies\<close>

datatype source_class = ClassContent | ClassDialogOutput | ClassEarcon | ClassAlertPreview

fun class_slot :: "source_class \<Rightarrow> nat" where
  "class_slot ClassContent = 0"
| "class_slot ClassDialogOutput = 1"
| "class_slot ClassEarcon = 2"
| "class_slot ClassAlertPreview = 3"

datatype network_class = NetworkContent | NetworkDialogOutput

fun class_of_network :: "network_class \<Rightarrow> source_class" where
  "class_of_network NetworkContent = ClassContent"
| "class_of_network NetworkDialogOutput = ClassDialogOutput"

datatype finish_reason = FinishDrained | FinishCancelled | FinishFailed | FinishUnderrun

datatype progress_event =
  EventProgress | EventStart | EventFlush | EventSeek | EventPause | EventResume | EventUnderrun | EventGain

datatype timing_quality = TimingEstimated

datatype render_coverage = CoverageFull | CoveragePartial

datatype render_rejection =
  RejectInvalid | RejectInvalidClass | RejectUnknownAsset | RejectStaleGeneration | RejectUnknownPlayback

fun render_rejection_from_wire :: "string \<Rightarrow> render_rejection option" where
  "render_rejection_from_wire t =
     (if t = ''invalid'' then Some RejectInvalid
      else if t = ''invalid_class'' then Some RejectInvalidClass
      else if t = ''unknown_asset'' then Some RejectUnknownAsset
      else if t = ''stale_generation'' then Some RejectStaleGeneration
      else if t = ''unknown_playback'' then Some RejectUnknownPlayback
      else None)"

datatype cancel_reason =
  CancelStopped | CancelSuperseded | CancelInterrupted | CancelResponseTimeout | CancelSourceFailed | CancelUnconfirmed

type_synonym playback_id = string

datatype earcon = WakeChime | NoInputChime | AnnouncementChime

fun earcon_asset :: "earcon \<Rightarrow> string" where
  "earcon_asset WakeChime = ''builtin:wake_chime''"
| "earcon_asset NoInputChime = ''builtin:no_input_chime''"
| "earcon_asset AnnouncementChime = ''builtin:announcement_chime''"

datatype alert_sound = FallbackSound | SoundAsset string

datatype local_source = EarconSource earcon | AlertPreviewSource alert_sound

fun local_class :: "local_source \<Rightarrow> source_class" where
  "local_class (EarconSource e) = ClassEarcon"
| "local_class (AlertPreviewSource s) = ClassAlertPreview"

fun local_asset :: "local_source \<Rightarrow> string" where
  "local_asset (EarconSource e) = earcon_asset e"
| "local_asset (AlertPreviewSource FallbackSound) = ''builtin:fallback''"
| "local_asset (AlertPreviewSource (SoundAsset hash)) = hash"

definition FORMAT_PCM16 :: nat where "FORMAT_PCM16 = 1"

record render_start_body =
  rs_playback_id :: playback_id
  rs_source_class :: source_class
  rs_epoch :: "u64 option"
  rs_gain_db :: real
  rs_format :: nat
  rs_local_asset :: "string option"
  rs_announcement :: bool

record render_end_body =
  re_playback_id :: playback_id
  re_end_frame :: nat

record render_cancel_body =
  rx_playback_id :: playback_id
  rx_reason :: cancel_reason

datatype render_command =
    CommandStart render_start_body
  | CommandEnd render_end_body
  | CommandCancel render_cancel_body

record render_progress =
  rp_playback_id :: playback_id
  rp_event :: "progress_event reported"
  rp_submitted_frames :: nat
  rp_completed_frames :: nat
  rp_mono_ns :: int
  rp_uncertainty_us :: nat
  rp_timing_quality :: "timing_quality reported"
  rp_reference_coverage :: "render_coverage reported"
  rp_seek_frame :: "nat option"
  rp_missing_from :: "nat option"
  rp_missing_to :: "nat option"
  rp_gain_db :: "real option"

record render_finished =
  rd_playback_id :: playback_id
  rd_last_completed_frame :: nat
  rd_reason :: "finish_reason reported"
  rd_timing_quality :: "timing_quality reported"

datatype render_report = ProgressReport render_progress | FinishedReport render_finished

fun report_playback_id :: "render_report \<Rightarrow> playback_id" where
  "report_playback_id (ProgressReport p) = rp_playback_id p"
| "report_playback_id (FinishedReport f) = rd_playback_id f"

section \<open>The link\<close>

text \<open>A frame names the token that cancels it by its playback, which has one.\<close>

record render_frame =
  rf_bytes :: "byte list"
  rf_playback :: playback_id
  rf_sequence :: nat
  rf_first_frame :: nat
  rf_frames :: nat

datatype queue_answer = FrameQueued | FrameFull | FrameClosed

text \<open>A call on the link with its answer, or the cancelling of a token the link's frames carry.\<close>

datatype link_call =
    AskedLink render_command u32 link_reply
  | OfferedFrame render_frame queue_answer
  | CancelledToken playback_id

record render_link =
  lk_request :: "link_call list \<Rightarrow> render_command \<Rightarrow> u32 \<Rightarrow> link_reply"
  lk_queue_frame :: "link_call list \<Rightarrow> render_frame \<Rightarrow> queue_answer"

section \<open>The client\<close>

definition PACKET_FRAMES :: nat where "PACKET_FRAMES = 3840"
definition MAX_FRAMES_AHEAD :: nat where "MAX_FRAMES_AHEAD = 258304"
definition PREFETCH_FRAMES :: nat where "PREFETCH_FRAMES = 12 * PACKET_FRAMES"
definition FRAME_RETRY :: duration_ns where "FRAME_RETRY = 20000000"
definition ANSWER_START_LIMIT :: duration_ns where "ANSWER_START_LIMIT = 10000000000"
definition STALL_LIMIT :: duration_ns where "STALL_LIMIT = 2000000000"
definition ANSWER_LENGTH_LIMIT :: duration_ns where "ANSWER_LENGTH_LIMIT = 120000000000"

record response_limits =
  rl_start_deadline :: mono_instant

definition limits_from_answer_ready :: "mono_instant \<Rightarrow> response_limits" where
  "limits_from_answer_ready answer_ready = \<lparr>rl_start_deadline = answer_ready + ANSWER_START_LIMIT\<rparr>"

datatype response_limit = LimitStart | LimitStall | LimitLength

record playback_ref =
  pr_id :: playback_id
  pr_class :: source_class
  pr_generation :: u32

record network_start =
  ns_class :: network_class
  ns_gain_db :: real
  ns_announcement :: bool
  ns_limits :: "response_limits option"

datatype local_start_error = LocalUnsupported capability | LocalLinkClosed

datatype audio_refused = NotAccepting | SourceEnded

datatype playback_end =
    PlaybackFinished "finish_reason reported" nat
  | PlaybackRejected "render_rejection reported option"
  | PlaybackUnconfirmed
  | PlaybackLinkClosed

datatype render_event =
    RenderAccepted playback_ref
  | RenderStarted playback_ref
  | RenderProgressed playback_ref render_progress
  | RenderCancelled playback_ref cancel_reason
  | RenderLimitExceeded playback_ref response_limit
  | RenderEnded playback_ref playback_end

datatype render_phase = AwaitingAck | RenderRunning | RenderCancelling

datatype command_kind = KindStart | KindEnd | KindCancel

record render_network =
  nt_epoch :: u64
  nt_pending :: "i16 list"
  nt_blocked :: "render_frame option"
  nt_retry_at :: "mono_instant option"
  nt_next_frame :: nat
  nt_next_sequence :: nat
  nt_completed :: nat
  nt_source_done :: bool
  nt_end_sent :: bool

record limit_clock =
  lc_start_deadline :: mono_instant
  lc_started_at :: "mono_instant option"
  lc_last_advance :: "mono_instant option"

definition limit_deadline :: "limit_clock \<Rightarrow> mono_instant \<times> response_limit" where
  "limit_deadline c =
     (case (lc_started_at c, lc_last_advance c) of
        (Some started, Some advanced) \<Rightarrow>
          let stall = advanced + STALL_LIMIT; length_end = started + ANSWER_LENGTH_LIMIT in
          if stall \<le> length_end then (stall, LimitStall) else (length_end, LimitLength)
      | _ \<Rightarrow> (lc_start_deadline c, LimitStart))"

record render_entry =
  en_playback :: playback_ref
  en_phase :: render_phase
  en_network :: "render_network option"
  en_limits :: "limit_clock option"

record render_client =
  rc_no_input_chime :: bool
  rc_announcement_chime :: bool
  rc_generations :: "u32 list"
  rc_entries :: "render_entry list"
  rc_commands :: "message_id \<Rightarrow> (playback_id \<times> command_kind) option"
  rc_events :: "render_event list"
  rc_calls :: "link_call list"

abbreviation entry_id :: "render_entry \<Rightarrow> playback_id" where
  "entry_id e \<equiv> pr_id (en_playback e)"

definition render_new :: "capabilities \<Rightarrow> render_client" where
  "render_new caps =
     \<lparr>rc_no_input_chime = capabilities_contains CapNoInputChime caps,
      rc_announcement_chime = capabilities_contains CapAnnouncementChime caps,
      rc_generations = replicate 4 0, rc_entries = [], rc_commands = (\<lambda>_. None), rc_events = [], rc_calls = []\<rparr>"

definition render_supports :: "local_source \<Rightarrow> render_client \<Rightarrow> (capability, unit) result" where
  "render_supports source rc =
     (if source = EarconSource NoInputChime \<and> \<not> rc_no_input_chime rc then Inl CapNoInputChime
      else if source = EarconSource AnnouncementChime \<and> \<not> rc_announcement_chime rc then Inl CapAnnouncementChime
      else Inr ())"

definition request_link :: "render_link \<Rightarrow> render_command \<Rightarrow> u32 \<Rightarrow> render_client \<Rightarrow> link_reply \<times> render_client" where
  "request_link link command generation rc =
     (let reply = lk_request link (rc_calls rc) command generation
      in (reply, rc\<lparr>rc_calls := rc_calls rc @ [AskedLink command generation reply]\<rparr>))"

definition cancel_token :: "render_entry \<Rightarrow> link_call list \<Rightarrow> link_call list" where
  "cancel_token e calls = (case en_network e of Some _ \<Rightarrow> calls @ [CancelledToken (entry_id e)] | None \<Rightarrow> calls)"

definition end_at :: "nat \<Rightarrow> playback_end \<Rightarrow> render_client \<Rightarrow> render_client" where
  "end_at index how rc =
     (let e = rc_entries rc ! index in
      rc\<lparr>rc_entries := remove_nth index (rc_entries rc), rc_calls := cancel_token e (rc_calls rc),
         rc_events := rc_events rc @ [RenderEnded (en_playback e) how]\<rparr>)"

definition cancel_at :: "render_link \<Rightarrow> nat \<Rightarrow> cancel_reason \<Rightarrow> render_client \<Rightarrow> render_client" where
  "cancel_at link index reason rc =
     (let e = rc_entries rc ! index;
          net = map_option (\<lambda>n. n\<lparr>nt_pending := [], nt_blocked := None, nt_retry_at := None\<rparr>) (en_network e);
          e1 = e\<lparr>en_phase := RenderCancelling, en_limits := None, en_network := net\<rparr>;
          rc1 = rc\<lparr>rc_entries := (rc_entries rc)[index := e1], rc_calls := cancel_token e (rc_calls rc),
                   rc_events := rc_events rc @ [RenderCancelled (en_playback e) reason]\<rparr>;
          body = \<lparr>rx_playback_id = entry_id e, rx_reason = reason\<rparr>
      in case request_link link (CommandCancel body) (pr_generation (en_playback e)) rc1 of
           (Inr message, rc2) \<Rightarrow> rc2\<lparr>rc_commands := (rc_commands rc2)(message \<mapsto> (entry_id e, KindCancel))\<rparr>
         | (Inl _, rc2) \<Rightarrow> end_at index PlaybackLinkClosed rc2)"

definition live_of_class :: "source_class \<Rightarrow> render_entry \<Rightarrow> bool" where
  "live_of_class c e \<longleftrightarrow> pr_class (en_playback e) = c \<and> en_phase e \<noteq> RenderCancelling"

function supersede :: "render_link \<Rightarrow> source_class \<Rightarrow> render_client \<Rightarrow> render_client" where
  "supersede link c rc =
     (case position (live_of_class c) (rc_entries rc) of
        Some index \<Rightarrow> supersede link c (cancel_at link index CancelSuperseded rc)
      | None \<Rightarrow> rc)"
  by auto

definition next_playback :: "source_class \<Rightarrow> playback_id \<Rightarrow> render_client \<Rightarrow> playback_ref \<times> render_client" where
  "next_playback c playback rc =
     (let generation = rc_generations rc ! class_slot c + 1
      in (\<lparr>pr_id = playback, pr_class = c, pr_generation = generation\<rparr>,
          rc\<lparr>rc_generations := (rc_generations rc)[class_slot c := generation]\<rparr>))"

text \<open>The first epoch drawn that is not zero and no playback's; \<open>None\<close> when none of the draws is.\<close>

definition fresh_epoch :: "u64 list \<Rightarrow> render_client \<Rightarrow> u64 option" where
  "fresh_epoch draws rc =
     find (\<lambda>epoch. epoch \<noteq> 0 \<and> \<not> list_ex (\<lambda>e. map_option nt_epoch (en_network e) = Some epoch) (rc_entries rc)) draws"

definition start_network ::
    "render_link \<Rightarrow> network_start \<Rightarrow> playback_id \<Rightarrow> u64 list \<Rightarrow> render_client
      \<Rightarrow> ((unit, playback_ref) result \<times> render_client) option" where
  "start_network link start playback draws rc =
     (let c = class_of_network (ns_class start); rc1 = supersede link c rc in
      case fresh_epoch draws rc1 of
        None \<Rightarrow> None
      | Some epoch \<Rightarrow>
          (let (p, rc2) = next_playback c playback rc1;
               body = \<lparr>rs_playback_id = pr_id p, rs_source_class = c, rs_epoch = Some epoch, rs_gain_db = ns_gain_db start,
                       rs_format = FORMAT_PCM16, rs_local_asset = None, rs_announcement = ns_announcement start\<rparr>
           in case request_link link (CommandStart body) (pr_generation p) rc2 of
                (Inl _, rc3) \<Rightarrow> Some (Inl (), rc3)
              | (Inr message, rc3) \<Rightarrow>
                  Some (Inr p,
                    rc3\<lparr>rc_commands := (rc_commands rc3)(message \<mapsto> (pr_id p, KindStart)),
                        rc_entries := rc_entries rc3 @
                          [\<lparr>en_playback = p, en_phase = AwaitingAck,
                            en_network = Some \<lparr>nt_epoch = epoch, nt_pending = [], nt_blocked = None, nt_retry_at = None,
                              nt_next_frame = 0, nt_next_sequence = 0, nt_completed = 0, nt_source_done = False,
                              nt_end_sent = False\<rparr>,
                            en_limits = map_option (\<lambda>l. \<lparr>lc_start_deadline = rl_start_deadline l,
                              lc_started_at = None, lc_last_advance = None\<rparr>) (ns_limits start)\<rparr>]\<rparr>)))"

definition start_local ::
    "render_link \<Rightarrow> local_source \<Rightarrow> real \<Rightarrow> bool \<Rightarrow> playback_id \<Rightarrow> render_client
      \<Rightarrow> (local_start_error, playback_ref) result \<times> render_client" where
  "start_local link source gain announcement playback rc =
     (case render_supports source rc of
        Inl capability \<Rightarrow> (Inl (LocalUnsupported capability), rc)
      | Inr _ \<Rightarrow>
          (let c = local_class source;
               (p, rc1) = next_playback c playback (supersede link c rc);
               body = \<lparr>rs_playback_id = pr_id p, rs_source_class = c, rs_epoch = None, rs_gain_db = gain,
                       rs_format = FORMAT_PCM16, rs_local_asset = Some (local_asset source), rs_announcement = announcement\<rparr>
           in case request_link link (CommandStart body) (pr_generation p) rc1 of
                (Inl _, rc2) \<Rightarrow> (Inl LocalLinkClosed, rc2)
              | (Inr message, rc2) \<Rightarrow>
                  (Inr p,
                   rc2\<lparr>rc_commands := (rc_commands rc2)(message \<mapsto> (pr_id p, KindStart)),
                       rc_entries := rc_entries rc2 @
                         [\<lparr>en_playback = p, en_phase = AwaitingAck, en_network = None, en_limits = None\<rparr>]\<rparr>)))"

section \<open>Sending audio\<close>

text \<open>How many frames the next packet takes; \<open>None\<close> while there is no whole packet and more may come.\<close>

definition packet_size :: "render_network \<Rightarrow> nat option" where
  "packet_size net =
     (if length (nt_pending net) \<ge> PACKET_FRAMES then Some PACKET_FRAMES
      else if nt_source_done net \<and> nt_pending net \<noteq> [] then Some (length (nt_pending net))
      else None)"

text \<open>One past the last frame the device has room for. The addition of the source wraps.\<close>

definition window_end :: "render_network \<Rightarrow> nat" where
  "window_end net = (nt_completed net + MAX_FRAMES_AHEAD) mod 2 ^ 64"

text \<open>
  The frame to offer next, the refused one first, and the state without it: \<open>Some None\<close> when there is none
  to offer, \<open>None\<close> when the packet does not encode.
\<close>

definition take_packet ::
    "playback_id \<Rightarrow> u32 \<Rightarrow> render_network \<Rightarrow> (render_frame \<times> render_network) option option" where
  "take_packet playback generation net =
     (case nt_blocked net of
        Some frame \<Rightarrow> Some (Some (frame, net\<lparr>nt_blocked := None\<rparr>))
      | None \<Rightarrow>
          (case packet_size net of
             None \<Rightarrow> Some None
           | Some frames \<Rightarrow>
               if nt_next_frame net + frames > window_end net then Some None
               else (case encode_render (nt_epoch net) (word_of_nat (nt_next_sequence net)) (word_of_nat (nt_next_frame net))
                            generation 0 (take frames (nt_pending net)) of
                       Inl _ \<Rightarrow> None
                     | Inr bytes \<Rightarrow>
                         Some (Some (\<lparr>rf_bytes = bytes, rf_playback = playback, rf_sequence = nt_next_sequence net,
                                      rf_first_frame = nt_next_frame net, rf_frames = frames\<rparr>,
                                     net\<lparr>nt_pending := drop frames (nt_pending net), nt_next_frame := nt_next_frame net + frames,
                                         nt_next_sequence := nt_next_sequence net + 1\<rparr>)))))"

function pump_loop ::
    "render_link \<Rightarrow> mono_instant \<Rightarrow> playback_id \<Rightarrow> u32 \<Rightarrow> render_network \<Rightarrow> link_call list
      \<Rightarrow> (bool \<times> render_network \<times> link_call list) option" where
  "pump_loop link now playback generation net calls =
     (case take_packet playback generation net of
        None \<Rightarrow> None
      | Some None \<Rightarrow> Some (False, net, calls)
      | Some (Some (frame, net1)) \<Rightarrow>
          (case lk_queue_frame link calls frame of
             FrameQueued \<Rightarrow>
               pump_loop link now playback generation (net1\<lparr>nt_retry_at := None\<rparr>) (calls @ [OfferedFrame frame FrameQueued])
           | FrameFull \<Rightarrow>
               Some (False, net1\<lparr>nt_blocked := Some frame, nt_retry_at := Some (now + FRAME_RETRY)\<rparr>,
                     calls @ [OfferedFrame frame FrameFull])
           | FrameClosed \<Rightarrow> Some (True, net1, calls @ [OfferedFrame frame FrameClosed])))"
  by auto

text \<open>The end of the source, once everything has been handed over.\<close>

definition send_end :: "render_link \<Rightarrow> nat \<Rightarrow> render_entry \<Rightarrow> render_network \<Rightarrow> render_client \<Rightarrow> render_client" where
  "send_end link index e net rc =
     (case request_link link (CommandEnd \<lparr>re_playback_id = entry_id e, re_end_frame = nt_next_frame net\<rparr>)
             (pr_generation (en_playback e)) rc of
        (Inr message, rc1) \<Rightarrow>
          rc1\<lparr>rc_entries := (rc_entries rc1)[index := e\<lparr>en_network := Some (net\<lparr>nt_end_sent := True\<rparr>)\<rparr>],
              rc_commands := (rc_commands rc1)(message \<mapsto> (entry_id e, KindEnd))\<rparr>
      | (Inl _, rc1) \<Rightarrow> end_at index PlaybackLinkClosed rc1)"

definition pump :: "render_link \<Rightarrow> mono_instant \<Rightarrow> nat \<Rightarrow> render_client \<Rightarrow> render_client option" where
  "pump link now index rc =
     (let e = rc_entries rc ! index in
      if en_phase e \<noteq> RenderRunning then Some rc
      else (case en_network e of
              None \<Rightarrow> Some rc
            | Some net0 \<Rightarrow>
                (case pump_loop link now (entry_id e) (pr_generation (en_playback e)) net0 (rc_calls rc) of
                   None \<Rightarrow> None
                 | Some (gone, net, calls) \<Rightarrow>
                     let e1 = e\<lparr>en_network := Some net\<rparr>;
                         rc1 = rc\<lparr>rc_entries := (rc_entries rc)[index := e1], rc_calls := calls\<rparr> in
                     Some (if \<not> gone \<and> nt_source_done net \<and> \<not> nt_end_sent net \<and> nt_pending net = [] \<and> nt_blocked net = None
                           then send_end link index e1 net rc1
                           else if gone then end_at index PlaybackLinkClosed rc1
                           else rc1))))"

definition playback_index :: "playback_ref \<Rightarrow> render_client \<Rightarrow> nat option" where
  "playback_index p rc = position (\<lambda>e. en_playback e = p) (rc_entries rc)"

definition wants_audio :: "playback_ref \<Rightarrow> render_client \<Rightarrow> bool" where
  "wants_audio p rc =
     (case playback_index p rc of
        None \<Rightarrow> False
      | Some index \<Rightarrow>
          let e = rc_entries rc ! index in
          en_phase e \<noteq> RenderCancelling
          \<and> (case en_network e of None \<Rightarrow> False
             | Some net \<Rightarrow> \<not> nt_source_done net \<and> length (nt_pending net) < PREFETCH_FRAMES))"

text \<open>The checks \<open>push_audio\<close> and \<open>finish_audio\<close> make: the playback's index, entry and stream, or the refusal.\<close>

definition accepting_audio :: "playback_ref \<Rightarrow> render_client \<Rightarrow> (audio_refused, nat \<times> render_entry \<times> render_network) result" where
  "accepting_audio p rc =
     (case playback_index p rc of
        None \<Rightarrow> Inl NotAccepting
      | Some index \<Rightarrow>
          let e = rc_entries rc ! index in
          if en_phase e = RenderCancelling then Inl NotAccepting
          else (case en_network e of
                  None \<Rightarrow> Inl NotAccepting
                | Some net \<Rightarrow> if nt_source_done net then Inl SourceEnded else Inr (index, e, net)))"

definition push_audio ::
    "render_link \<Rightarrow> mono_instant \<Rightarrow> playback_ref \<Rightarrow> i16 list \<Rightarrow> render_client
      \<Rightarrow> ((audio_refused, unit) result \<times> render_client) option" where
  "push_audio link now p pcm rc =
     (case accepting_audio p rc of
        Inl refused \<Rightarrow> Some (Inl refused, rc)
      | Inr (index, e, net) \<Rightarrow>
          map_option (Pair (Inr ()))
            (pump link now index
               (rc\<lparr>rc_entries := (rc_entries rc)[index := e\<lparr>en_network := Some (net\<lparr>nt_pending := nt_pending net @ pcm\<rparr>)\<rparr>]\<rparr>)))"

definition finish_audio ::
    "render_link \<Rightarrow> mono_instant \<Rightarrow> playback_ref \<Rightarrow> render_client
      \<Rightarrow> ((audio_refused, unit) result \<times> render_client) option" where
  "finish_audio link now p rc =
     (case accepting_audio p rc of
        Inl refused \<Rightarrow> Some (Inl refused, rc)
      | Inr (index, e, net) \<Rightarrow>
          map_option (Pair (Inr ()))
            (pump link now index
               (rc\<lparr>rc_entries := (rc_entries rc)[index := e\<lparr>en_network := Some (net\<lparr>nt_source_done := True\<rparr>)\<rparr>]\<rparr>)))"

definition cancel_playback ::
    "render_link \<Rightarrow> playback_ref \<Rightarrow> cancel_reason \<Rightarrow> render_client \<Rightarrow> (unit, unit) result \<times> render_client" where
  "cancel_playback link p reason rc =
     (case playback_index p rc of
        None \<Rightarrow> (Inl (), rc)
      | Some index \<Rightarrow>
          if en_phase (rc_entries rc ! index) = RenderCancelling then (Inr (), rc)
          else (Inr (), cancel_at link index reason rc))"

section \<open>Answers, reports and time\<close>

definition start_accepted :: "render_link \<Rightarrow> mono_instant \<Rightarrow> nat \<Rightarrow> render_client \<Rightarrow> render_client option" where
  "start_accepted link now index rc =
     (let e = rc_entries rc ! index in
      if en_phase e = AwaitingAck
      then pump link now index
             (rc\<lparr>rc_entries := (rc_entries rc)[index := e\<lparr>en_phase := RenderRunning\<rparr>],
                 rc_events := rc_events rc @ [RenderAccepted (en_playback e)]\<rparr>)
      else Some rc)"

definition start_unconfirmed :: "render_link \<Rightarrow> playback_id \<Rightarrow> nat \<Rightarrow> render_client \<Rightarrow> render_client" where
  "start_unconfirmed link playback index rc =
     (let rc1 = (if en_phase (rc_entries rc ! index) \<noteq> RenderCancelling then cancel_at link index CancelUnconfirmed rc else rc)
      in case position (\<lambda>e. entry_id e = playback) (rc_entries rc1) of
           Some i \<Rightarrow> end_at i PlaybackUnconfirmed rc1
         | None \<Rightarrow> rc1)"

fun ack_playback ::
    "render_link \<Rightarrow> mono_instant \<Rightarrow> playback_id \<Rightarrow> nat \<Rightarrow> command_kind \<Rightarrow> ack_outcome \<Rightarrow> render_client \<Rightarrow> render_client option" where
  "ack_playback link now playback index KindStart AckAccepted rc = start_accepted link now index rc"
| "ack_playback link now playback index KindStart (AckRejected code) rc =
     Some (end_at index (PlaybackRejected (map_option (\<lambda>t. reported_of t render_rejection_from_wire) code)) rc)"
| "ack_playback link now playback index KindStart (AckFailed AckTimedOut) rc = Some (start_unconfirmed link playback index rc)"
| "ack_playback link now playback index kind (AckFailed AckSessionEnded) rc = Some (end_at index PlaybackLinkClosed rc)"
| "ack_playback link now playback index kind outcome rc = Some rc"

definition render_on_ack ::
    "render_link \<Rightarrow> mono_instant \<Rightarrow> message_id \<Rightarrow> ack_outcome \<Rightarrow> render_client \<Rightarrow> (bool \<times> render_client) option" where
  "render_on_ack link now message outcome rc =
     (case rc_commands rc message of
        None \<Rightarrow> Some (False, rc)
      | Some (playback, kind) \<Rightarrow>
          let rc1 = rc\<lparr>rc_commands := (rc_commands rc)(message := None)\<rparr> in
          (case position (\<lambda>e. entry_id e = playback) (rc_entries rc1) of
             None \<Rightarrow> Some (True, rc1)
           | Some index \<Rightarrow> map_option (Pair True) (ack_playback link now playback index kind outcome rc1)))"

definition note_progress :: "bool \<Rightarrow> bool \<Rightarrow> mono_instant \<Rightarrow> limit_clock \<Rightarrow> limit_clock" where
  "note_progress start advanced now c =
     (let c1 = (if (start \<or> advanced) \<and> lc_started_at c = None
                then c\<lparr>lc_started_at := Some now, lc_last_advance := Some now\<rparr> else c)
      in if advanced then c1\<lparr>lc_last_advance := Some now\<rparr> else c1)"

definition progress_at :: "render_link \<Rightarrow> mono_instant \<Rightarrow> nat \<Rightarrow> render_progress \<Rightarrow> render_client \<Rightarrow> render_client option" where
  "progress_at link now index progress rc =
     (let e = rc_entries rc ! index;
          advanced = (case en_network e of Some net \<Rightarrow> rp_completed_frames progress > nt_completed net | None \<Rightarrow> False);
          net = (if advanced then map_option (\<lambda>n. n\<lparr>nt_completed := rp_completed_frames progress\<rparr>) (en_network e) else en_network e);
          start = (rp_event progress = Known EventStart);
          e1 = e\<lparr>en_network := net, en_limits := map_option (note_progress start advanced now) (en_limits e)\<rparr>
      in pump link now index
           (rc\<lparr>rc_entries := (rc_entries rc)[index := e1],
               rc_events := rc_events rc @ (if start then [RenderStarted (en_playback e)] else [])
                              @ [RenderProgressed (en_playback e) progress]\<rparr>))"

definition render_on_report ::
    "render_link \<Rightarrow> mono_instant \<Rightarrow> u32 \<Rightarrow> render_report \<Rightarrow> render_client \<Rightarrow> (bool \<times> render_client) option" where
  "render_on_report link now generation report rc =
     (case position (\<lambda>e. entry_id e = report_playback_id report \<and> pr_generation (en_playback e) = generation) (rc_entries rc) of
        None \<Rightarrow> Some (False, rc)
      | Some index \<Rightarrow>
          map_option (Pair True)
            (case report of
               ProgressReport progress \<Rightarrow> progress_at link now index progress rc
             | FinishedReport finished \<Rightarrow>
                 Some (end_at index (PlaybackFinished (rd_reason finished) (rd_last_completed_frame finished)) rc)))"

definition retry_due :: "mono_instant \<Rightarrow> render_entry \<Rightarrow> bool" where
  "retry_due now e = (case en_network e of
     Some net \<Rightarrow> (case nt_retry_at net of Some t \<Rightarrow> t \<le> now | None \<Rightarrow> False) | None \<Rightarrow> False)"

definition enforce_limit :: "render_link \<Rightarrow> mono_instant \<Rightarrow> nat \<Rightarrow> render_client \<Rightarrow> render_client" where
  "enforce_limit link now index rc =
     (let e = rc_entries rc ! index in
      if en_phase e = RenderCancelling then rc
      else (case map_option limit_deadline (en_limits e) of
              None \<Rightarrow> rc
            | Some (deadline, limit) \<Rightarrow>
                if deadline \<le> now
                then cancel_at link index CancelResponseTimeout
                       (rc\<lparr>rc_events := rc_events rc @ [RenderLimitExceeded (en_playback e) limit]\<rparr>)
                else rc))"

definition poll_playback :: "render_link \<Rightarrow> mono_instant \<Rightarrow> playback_id \<Rightarrow> render_client \<Rightarrow> render_client option" where
  "poll_playback link now playback rc =
     (case position (\<lambda>e. entry_id e = playback) (rc_entries rc) of
        None \<Rightarrow> Some rc
      | Some index \<Rightarrow>
          (case (if retry_due now (rc_entries rc ! index) then pump link now index rc else Some rc) of
             None \<Rightarrow> None
           | Some rc1 \<Rightarrow>
               (case position (\<lambda>e. entry_id e = playback) (rc_entries rc1) of
                  None \<Rightarrow> Some rc1
                | Some i \<Rightarrow> Some (enforce_limit link now i rc1))))"

fun poll_playbacks :: "render_link \<Rightarrow> mono_instant \<Rightarrow> playback_id list \<Rightarrow> render_client \<Rightarrow> render_client option" where
  "poll_playbacks link now [] rc = Some rc"
| "poll_playbacks link now (p # ps) rc =
     (case poll_playback link now p rc of None \<Rightarrow> None | Some rc1 \<Rightarrow> poll_playbacks link now ps rc1)"

definition render_poll :: "render_link \<Rightarrow> mono_instant \<Rightarrow> render_client \<Rightarrow> render_client option" where
  "render_poll link now rc = poll_playbacks link now (map entry_id (rc_entries rc)) rc"

definition entry_deadlines :: "render_entry \<Rightarrow> mono_instant list" where
  "entry_deadlines e =
     (case en_network e of None \<Rightarrow> [] | Some net \<Rightarrow> (case nt_retry_at net of None \<Rightarrow> [] | Some t \<Rightarrow> [t]))
     @ (if en_phase e = RenderCancelling then []
        else (case en_limits e of None \<Rightarrow> [] | Some l \<Rightarrow> [fst (limit_deadline l)]))"

definition render_next_deadline :: "render_client \<Rightarrow> mono_instant option" where
  "render_next_deadline rc =
     (case concat (map entry_deadlines (rc_entries rc)) of [] \<Rightarrow> None | d # ds \<Rightarrow> Some (fold min ds d))"

fun drain_entries :: "render_entry list \<Rightarrow> render_client \<Rightarrow> render_client" where
  "drain_entries [] rc = rc"
| "drain_entries (e # es) rc =
     drain_entries es (rc\<lparr>rc_calls := cancel_token e (rc_calls rc),
                          rc_events := rc_events rc @ [RenderEnded (en_playback e) PlaybackLinkClosed]\<rparr>)"

definition render_session_ended :: "render_client \<Rightarrow> render_client" where
  "render_session_ended rc =
     (drain_entries (rc_entries rc) (rc\<lparr>rc_entries := []\<rparr>))\<lparr>rc_commands := (\<lambda>_. None)\<rparr>"

definition next_render_event :: "render_client \<Rightarrow> render_event option \<times> render_client" where
  "next_render_event rc =
     (case rc_events rc of [] \<Rightarrow> (None, rc) | e # es \<Rightarrow> (Some e, rc\<lparr>rc_events := es\<rparr>))"

section \<open>Specification\<close>

text \<open>What the calls on a link say of a playback: the frames queued, the ends announced, the token.\<close>

fun call_frames :: "playback_id \<Rightarrow> link_call \<Rightarrow> render_frame list" where
  "call_frames p (OfferedFrame f FrameQueued) = (if rf_playback f = p then [f] else [])"
| "call_frames p c = []"

fun call_ends :: "playback_id \<Rightarrow> link_call \<Rightarrow> nat list" where
  "call_ends p (AskedLink (CommandEnd b) g (Inr message)) = (if re_playback_id b = p then [re_end_frame b] else [])"
| "call_ends p c = []"

definition frames_of :: "playback_id \<Rightarrow> link_call list \<Rightarrow> render_frame list" where
  "frames_of p calls = concat (map (call_frames p) calls)"

definition ends_of :: "playback_id \<Rightarrow> link_call list \<Rightarrow> nat list" where
  "ends_of p calls = concat (map (call_ends p) calls)"

definition token_cancelled :: "playback_id \<Rightarrow> link_call list \<Rightarrow> bool" where
  "token_cancelled p calls \<longleftrightarrow> CancelledToken p \<in> set calls"

text \<open>
  The frames that carry the chunks of audio of a playback: numbered from a sequence number on, each
  encoded at the frame it begins at.
\<close>

fun sends :: "playback_id \<Rightarrow> u64 \<Rightarrow> u32 \<Rightarrow> nat \<Rightarrow> nat \<Rightarrow> i16 list list \<Rightarrow> render_frame list \<Rightarrow> bool" where
  "sends p epoch generation sequence first [] fs \<longleftrightarrow> fs = []"
| "sends p epoch generation sequence first (c # cs) [] \<longleftrightarrow> False"
| "sends p epoch generation sequence first (c # cs) (f # fs) \<longleftrightarrow>
     encode_render epoch (word_of_nat sequence) (word_of_nat first) generation 0 c = Inr (rf_bytes f)
     \<and> rf_playback f = p \<and> rf_sequence f = sequence \<and> rf_first_frame f = first \<and> rf_frames f = length c
     \<and> sends p epoch generation (Suc sequence) (first + length c) cs fs"

datatype render_op =
    StartNetwork network_start playback_id "u64 list"
  | StartLocal local_source real bool playback_id
  | PushAudio mono_instant playback_ref "i16 list"
  | FinishAudio mono_instant playback_ref
  | CancelPlayback playback_ref cancel_reason
  | AckRender mono_instant message_id ack_outcome
  | ReportRender mono_instant u32 render_report
  | PollRender mono_instant
  | EndRenderSession
  | NextRenderEvent

text \<open>
  What happened so far: the playbacks started and those with a stream, the audio accepted for each, the most
  the device reported completed of each, and the events handed over.
\<close>

record render_history =
  rh_started :: "playback_ref list"
  rh_streams :: "playback_id set"
  rh_pushed :: "playback_id \<Rightarrow> i16 list"
  rh_total :: nat
  rh_reported :: "playback_ref \<Rightarrow> nat"
  rh_events :: "render_event list"

definition history_new :: render_history where
  "history_new = \<lparr>rh_started = [], rh_streams = {}, rh_pushed = (\<lambda>_. []), rh_total = 0, rh_reported = (\<lambda>_. 0), rh_events = []\<rparr>"

fun note_report :: "u32 \<Rightarrow> render_report \<Rightarrow> render_history \<Rightarrow> render_history" where
  "note_report generation (ProgressReport p) h =
     h\<lparr>rh_reported := (\<lambda>r. if pr_id r = rp_playback_id p \<and> pr_generation r = generation
                            then max (rh_reported h r) (rp_completed_frames p) else rh_reported h r)\<rparr>"
| "note_report generation (FinishedReport f) h = h"

text \<open>
  One operation of the runtime. A playback id is drawn fresh, draws of an epoch go on until one is taken,
  and the audio of a session stays below two to the 64 frames: an operation that would break this is
  left out.
\<close>

fun render_step :: "render_link \<Rightarrow> render_op \<Rightarrow> render_client \<times> render_history \<Rightarrow> (render_client \<times> render_history) option" where
  "render_step link (StartNetwork start p draws) (rc, h) =
     (if p \<in> pr_id ` set (rh_started h) then Some (rc, h)
      else (case start_network link start p draws rc of
              None \<Rightarrow> Some (rc, h)
            | Some (Inl _, rc1) \<Rightarrow> Some (rc1, h)
            | Some (Inr r, rc1) \<Rightarrow> Some (rc1, h\<lparr>rh_started := rh_started h @ [r], rh_streams := insert p (rh_streams h)\<rparr>)))"
| "render_step link (StartLocal source gain announcement p) (rc, h) =
     (if p \<in> pr_id ` set (rh_started h) then Some (rc, h)
      else (case start_local link source gain announcement p rc of
              (Inl _, rc1) \<Rightarrow> Some (rc1, h)
            | (Inr r, rc1) \<Rightarrow> Some (rc1, h\<lparr>rh_started := rh_started h @ [r]\<rparr>)))"
| "render_step link (PushAudio now r pcm) (rc, h) =
     (if rh_total h + length pcm > u64_max then Some (rc, h)
      else (case push_audio link now r pcm rc of
              None \<Rightarrow> None
            | Some (Inl _, rc1) \<Rightarrow> Some (rc1, h)
            | Some (Inr _, rc1) \<Rightarrow>
                Some (rc1, h\<lparr>rh_pushed := (rh_pushed h)(pr_id r := rh_pushed h (pr_id r) @ pcm),
                             rh_total := rh_total h + length pcm\<rparr>)))"
| "render_step link (FinishAudio now r) (rc, h) = map_option (\<lambda>(_, rc1). (rc1, h)) (finish_audio link now r rc)"
| "render_step link (CancelPlayback r reason) (rc, h) = Some (snd (cancel_playback link r reason rc), h)"
| "render_step link (AckRender now message outcome) (rc, h) =
     map_option (\<lambda>(_, rc1). (rc1, h)) (render_on_ack link now message outcome rc)"
| "render_step link (ReportRender now generation report) (rc, h) =
     map_option (\<lambda>(_, rc1). (rc1, note_report generation report h)) (render_on_report link now generation report rc)"
| "render_step link (PollRender now) (rc, h) = map_option (\<lambda>rc1. (rc1, h)) (render_poll link now rc)"
| "render_step link EndRenderSession (rc, h) = Some (render_session_ended rc, h)"
| "render_step link NextRenderEvent (rc, h) =
     (let (e, rc1) = next_render_event rc in Some (rc1, h\<lparr>rh_events := rh_events h @ (case e of Some x \<Rightarrow> [x] | None \<Rightarrow> [])\<rparr>))"

definition render_run :: "render_link \<Rightarrow> capabilities \<Rightarrow> render_op list \<Rightarrow> (render_client \<times> render_history) option" where
  "render_run link caps ops = run_steps (render_step link) ops (render_new caps, history_new)"

fun event_ends :: "render_event \<Rightarrow> playback_id list" where
  "event_ends (RenderEnded r how) = [pr_id r]"
| "event_ends e = []"

definition ended_playbacks :: "render_event list \<Rightarrow> playback_id list" where
  "ended_playbacks es = concat (map event_ends es)"

text \<open>The audio of a playback as it was handed to the link.\<close>

definition stream_done :: "link_call list \<Rightarrow> i16 list \<Rightarrow> playback_ref \<Rightarrow> bool" where
  "stream_done calls pushed r \<longleftrightarrow>
     (\<exists>epoch chunks. sends (pr_id r) epoch (pr_generation r) 0 0 chunks (frames_of (pr_id r) calls)
        \<and> (\<exists>rest. concat chunks @ rest = pushed \<and> (ends_of (pr_id r) calls = [] \<or> ends_of (pr_id r) calls = [length pushed] \<and> rest = [])))"

text \<open>A stream with its state: what was queued or is to be offered again, and what is pending, is what was accepted.\<close>

definition stream_live :: "link_call list \<Rightarrow> i16 list \<Rightarrow> playback_ref \<Rightarrow> render_network \<Rightarrow> bool" where
  "stream_live calls pushed r net \<longleftrightarrow>
     (\<exists>chunks. sends (pr_id r) (nt_epoch net) (pr_generation r) 0 0 chunks
           (frames_of (pr_id r) calls @ (case nt_blocked net of Some f \<Rightarrow> [f] | None \<Rightarrow> []))
        \<and> concat chunks @ nt_pending net = pushed \<and> nt_next_frame net = length (concat chunks) \<and> nt_next_sequence net = length chunks)
     \<and> nt_epoch net \<noteq> 0 \<and> nt_next_frame net \<le> nt_completed net + MAX_FRAMES_AHEAD
     \<and> (nt_blocked net = None \<longrightarrow> nt_retry_at net = None)"

definition stream_ended_ok :: "link_call list \<Rightarrow> i16 list \<Rightarrow> playback_ref \<Rightarrow> render_network \<Rightarrow> bool" where
  "stream_ended_ok calls pushed r net \<longleftrightarrow>
     (if nt_end_sent net
      then nt_source_done net \<and> nt_pending net = [] \<and> nt_blocked net = None \<and> ends_of (pr_id r) calls = [length pushed]
      else ends_of (pr_id r) calls = [])"

definition entry_ok :: "render_history \<Rightarrow> link_call list \<Rightarrow> render_event list \<Rightarrow> render_entry \<Rightarrow> bool" where
  "entry_ok h calls events e \<longleftrightarrow>
     (en_phase e = RenderCancelling \<longrightarrow> en_limits e = None)
     \<and> (en_phase e = RenderRunning \<longrightarrow> RenderAccepted (en_playback e) \<in> set events)
     \<and> (case en_network e of None \<Rightarrow> True
        | Some net \<Rightarrow>
            nt_completed net \<le> rh_reported h (en_playback e)
            \<and> (if en_phase e = RenderCancelling
               then nt_retry_at net = None \<and> token_cancelled (entry_id e) calls
               else stream_live calls (rh_pushed h (entry_id e)) (en_playback e) net
                    \<and> stream_ended_ok calls (rh_pushed h (entry_id e)) (en_playback e) net
                    \<and> (en_phase e = AwaitingAck \<longrightarrow> nt_retry_at net = None)))"

definition stream_ok :: "render_history \<Rightarrow> link_call list \<Rightarrow> render_event list \<Rightarrow> playback_ref \<Rightarrow> bool" where
  "stream_ok h calls events r \<longleftrightarrow>
     stream_done calls (rh_pushed h (pr_id r)) r
     \<and> (\<forall>f \<in> set (frames_of (pr_id r) calls). rf_first_frame f + rf_frames f \<le> rh_reported h r + MAX_FRAMES_AHEAD)
     \<and> (frames_of (pr_id r) calls \<noteq> [] \<longrightarrow> RenderAccepted r \<in> set events)"

definition streams_over :: "render_history \<Rightarrow> link_call list \<Rightarrow> render_entry list \<Rightarrow> bool" where
  "streams_over h calls es \<longleftrightarrow>
     (\<forall>p \<in> rh_streams h. token_cancelled p calls \<or> (\<exists>e \<in> set es. entry_id e = p \<and> en_phase e \<noteq> RenderCancelling \<and> en_network e \<noteq> None))"

definition client_ok :: "render_history \<Rightarrow> render_client \<Rightarrow> bool" where
  "client_ok h rc \<longleftrightarrow>
     distinct (map entry_id (rc_entries rc)) \<and> length (rc_generations rc) = 4 \<and> distinct (map pr_id (rh_started h))
     \<and> (\<forall>e \<in> set (rc_entries rc). en_playback e \<in> set (rh_started h) \<and> entry_ok h (rc_calls rc) (rh_events h @ rc_events rc) e)
     \<and> (\<forall>r \<in> set (rh_started h). stream_ok h (rc_calls rc) (rh_events h @ rc_events rc) r)
     \<and> (\<forall>p. p \<notin> pr_id ` set (rh_started h) \<longrightarrow> frames_of p (rc_calls rc) = [] \<and> ends_of p (rc_calls rc) = [] \<and> rh_pushed h p = [])
     \<and> streams_over h (rc_calls rc) (rc_entries rc)
     \<and> mset (ended_playbacks (rh_events h @ rc_events rc)) + mset (map entry_id (rc_entries rc)) = mset (map pr_id (rh_started h))
     \<and> (\<forall>p. length (rh_pushed h p) \<le> rh_total h) \<and> rh_total h \<le> u64_max"

section \<open>Lemmas\<close>

subsection \<open>Termination\<close>

lemma take_packet_smaller:
  "take_packet p g net = Some (Some (f, net1)) \<Longrightarrow>
     length (nt_pending net1) + (if nt_blocked net1 = None then 0 else 1) < length (nt_pending net) + (if nt_blocked net = None then 0 else 1)"
  by (auto simp: take_packet_def packet_size_def PACKET_FRAMES_def split: option.splits if_splits sum.splits)

termination pump_loop
  by (relation "measure (\<lambda>(link, now, p, g, net, calls). length (nt_pending net) + (if nt_blocked net = None then 0 else 1))")
    (auto dest!: take_packet_smaller split: if_splits)

declare pump_loop.simps [simp del]

lemma cancel_at_entries:
  assumes "i < length (rc_entries rc)"
  shows "rc_entries (cancel_at link i reason rc) = remove_nth i (rc_entries rc) \<or>
    (\<exists>e. rc_entries (cancel_at link i reason rc) = (rc_entries rc)[i := e] \<and> en_phase e = RenderCancelling)"
  by (auto simp: cancel_at_def end_at_def request_link_def Let_def remove_nth_update split: sum.splits)

lemma filter_at:
  assumes "i < length xs" "P (xs ! i)"
  shows "length (filter P (remove_nth i xs)) < length (filter P xs)"
    and "\<not> P x \<Longrightarrow> length (filter P (xs[i := x])) < length (filter P xs)"
proof -
  have s: "xs = take i xs @ xs ! i # drop (Suc i) xs" using assms(1) by (rule id_take_nth_drop)
  have "length (filter P (take i xs @ xs ! i # drop (Suc i) xs)) = length (filter P xs)" using s by simp
  then show "length (filter P (remove_nth i xs)) < length (filter P xs)"
    and "\<not> P x \<Longrightarrow> length (filter P (xs[i := x])) < length (filter P xs)"
    using assms by (auto simp: remove_nth_def upd_conv_take_nth_drop)
qed

termination supersede
proof (relation "measure (\<lambda>(link, c, rc). length (filter (\<lambda>e. en_phase e \<noteq> RenderCancelling) (rc_entries rc)))", goal_cases)
  case (2 link c rc i)
  then have i: "i < length (rc_entries rc)" "en_phase (rc_entries rc ! i) \<noteq> RenderCancelling"
    using position_less [of "live_of_class c" "rc_entries rc" i] by (simp_all add: live_of_class_def)
  from cancel_at_entries [OF i(1), of link CancelSuperseded] show ?case
    using filter_at [of i "rc_entries rc" "\<lambda>e. en_phase e \<noteq> RenderCancelling"] i by auto
qed simp

declare supersede.simps [simp del]

subsection \<open>What the calls say\<close>

lemma calls_append [simp]:
  "frames_of p (xs @ ys) = frames_of p xs @ frames_of p ys" "ends_of p (xs @ ys) = ends_of p xs @ ends_of p ys"
  "token_cancelled p (xs @ ys) \<longleftrightarrow> token_cancelled p xs \<or> token_cancelled p ys"
  "frames_of p [c] = call_frames p c" "ends_of p [c] = call_ends p c" "token_cancelled p [c] \<longleftrightarrow> c = CancelledToken p"
  "frames_of p [] = []" "ends_of p [] = []" "\<not> token_cancelled p []"
  by (auto simp: frames_of_def ends_of_def token_cancelled_def)

text \<open>Calls that concern one playback only.\<close>

definition changes_only :: "playback_id \<Rightarrow> link_call list \<Rightarrow> link_call list \<Rightarrow> bool" where
  "changes_only p calls calls1 \<longleftrightarrow>
     (\<forall>q. q \<noteq> p \<longrightarrow> frames_of q calls1 = frames_of q calls \<and> ends_of q calls1 = ends_of q calls)
     \<and> (\<forall>q. token_cancelled q calls \<longrightarrow> token_cancelled q calls1)"

lemma changes_only_refl [simp]: "changes_only p calls calls"
  by (simp add: changes_only_def)

lemma changes_only_trans: "changes_only p a b \<Longrightarrow> changes_only p b c \<Longrightarrow> changes_only p a c"
  by (auto simp: changes_only_def)

lemma changes_only_token [simp]: "changes_only p calls (cancel_token e calls)"
  by (simp add: changes_only_def cancel_token_def split: option.split)

lemma cancel_token_views [simp]:
  "frames_of p (cancel_token e calls) = frames_of p calls" "ends_of p (cancel_token e calls) = ends_of p calls"
  "token_cancelled p (cancel_token e calls) \<longleftrightarrow> token_cancelled p calls \<or> en_network e \<noteq> None \<and> entry_id e = p"
  by (auto simp: cancel_token_def split: option.split)

lemma sends_length: "sends p e g s a cs fs \<Longrightarrow> length cs = length fs"
  by (induction p e g s a cs fs rule: sends.induct) simp_all

lemma sends_snoc:
  "sends p e g s a (cs @ [c]) (fs @ [f]) \<longleftrightarrow>
     sends p e g s a cs fs
     \<and> encode_render e (word_of_nat (s + length cs)) (word_of_nat (a + length (concat cs))) g 0 c = Inr (rf_bytes f)
     \<and> rf_playback f = p \<and> rf_sequence f = s + length cs \<and> rf_first_frame f = a + length (concat cs) \<and> rf_frames f = length c"
proof (induction p e g s a cs fs rule: sends.induct)
  case (1 p e g s a fs)
  then show ?case by (cases fs) (use sends_length [of p e g _ _ "[]"] in auto)
next
  case (2 p e g s a c' cs)
  then show ?case by (auto dest: sends_length)
next
  case (3 p e g s a c' cs f' fs)
  then show ?case by (simp add: algebra_simps del: of_nat_add of_nat_Suc)
qed

lemma sends_snocE:
  assumes "sends p e g s a cs (fs @ [f])"
  obtains ds c where "cs = ds @ [c]" "sends p e g s a ds fs"
proof -
  have "cs \<noteq> []" using sends_length [OF assms] by auto
  then obtain ds c where "cs = ds @ [c]" by (metis rev_exhaust)
  with assms that show ?thesis by (auto simp: sends_snoc)
qed

lemma sends_bound:
  "sends p e g s a cs fs \<Longrightarrow> f \<in> set fs \<Longrightarrow> rf_first_frame f + rf_frames f \<le> a + length (concat cs)"
  by (induction p e g s a cs fs rule: sends.induct) fastforce+

lemma sends_playback: "sends p e g s a cs fs \<Longrightarrow> f \<in> set fs \<Longrightarrow> rf_playback f = p"
  by (induction p e g s a cs fs rule: sends.induct) auto

subsection \<open>One stream\<close>

text \<open>What was handed to the link, whatever becomes of the rest.\<close>

definition stream_sent :: "link_call list \<Rightarrow> i16 list \<Rightarrow> playback_ref \<Rightarrow> nat \<Rightarrow> bool" where
  "stream_sent calls pushed r completed \<longleftrightarrow>
     (\<exists>epoch chunks rest. sends (pr_id r) epoch (pr_generation r) 0 0 chunks (frames_of (pr_id r) calls) \<and> concat chunks @ rest = pushed)
     \<and> (\<forall>f \<in> set (frames_of (pr_id r) calls). rf_first_frame f + rf_frames f \<le> completed + MAX_FRAMES_AHEAD)"

lemma stream_live_sent:
  assumes "stream_live calls pushed r net"
  shows "stream_sent calls pushed r (nt_completed net)"
proof -
  obtain chunks where c: "sends (pr_id r) (nt_epoch net) (pr_generation r) 0 0 chunks
        (frames_of (pr_id r) calls @ (case nt_blocked net of Some f \<Rightarrow> [f] | None \<Rightarrow> []))"
      "concat chunks @ nt_pending net = pushed" "nt_next_frame net = length (concat chunks)"
    and w: "nt_next_frame net \<le> nt_completed net + MAX_FRAMES_AHEAD"
    using assms by (auto simp: stream_live_def)
  have "\<forall>f \<in> set (frames_of (pr_id r) calls). rf_first_frame f + rf_frames f \<le> nt_completed net + MAX_FRAMES_AHEAD"
    using sends_bound [OF c(1)] c(3) w by force
  moreover have "\<exists>ds rest. sends (pr_id r) (nt_epoch net) (pr_generation r) 0 0 ds (frames_of (pr_id r) calls) \<and> concat ds @ rest = pushed"
  proof (cases "nt_blocked net")
    case None
    then show ?thesis using c by auto
  next
    case (Some f)
    then show ?thesis using c(1,2) by (auto elim!: sends_snocE)
  qed
  ultimately show ?thesis unfolding stream_sent_def by blast
qed

lemma stream_live_done:
  assumes "stream_live calls pushed r net" "stream_ended_ok calls pushed r net"
  shows "stream_done calls pushed r"
proof (cases "nt_end_sent net")
  case True
  then obtain chunks where "sends (pr_id r) (nt_epoch net) (pr_generation r) 0 0 chunks (frames_of (pr_id r) calls)" "concat chunks = pushed"
    using assms by (auto simp: stream_live_def stream_ended_ok_def)
  moreover have "ends_of (pr_id r) calls = [length pushed]" using True assms(2) by (simp add: stream_ended_ok_def)
  ultimately show ?thesis unfolding stream_done_def by fastforce
next
  case False
  then show ?thesis using stream_live_sent [OF assms(1)] assms(2) by (auto simp: stream_sent_def stream_done_def stream_ended_ok_def)
qed

lemma stream_sent_done: "stream_sent calls pushed r n \<Longrightarrow> ends_of (pr_id r) calls = [] \<Longrightarrow> stream_done calls pushed r"
  by (auto simp: stream_sent_def stream_done_def)

lemma packet_size_bounds: "packet_size net = Some n \<Longrightarrow> 0 < n \<and> n \<le> 3840 \<and> n \<le> length (nt_pending net)"
  by (auto simp: packet_size_def PACKET_FRAMES_def split: if_splits)

lemma unat_word_of_nat_le: "unat (word_of_nat n :: u64) \<le> n"
  by (simp add: unat_of_nat)

lemma packet_encodes:
  assumes "packet_size net = Some n" "nt_epoch net \<noteq> 0" "nt_next_frame net + n \<le> u64_max"
  shows "\<exists>bytes. encode_render (nt_epoch net) sequence (word_of_nat (nt_next_frame net)) g 0 (take n (nt_pending net)) = Inr bytes"
proof -
  have n: "0 < n" "n \<le> 3840" "n \<le> length (nt_pending net)" using packet_size_bounds [OF assms(1)] by simp_all
  then have "render_ok (nt_epoch net) (word_of_nat (nt_next_frame net)) 0 (take n (nt_pending net))"
    using assms(2,3) unat_word_of_nat_le [of "nt_next_frame net"]
    by (auto simp: render_ok_def contains_flags_def DIGITAL_SILENCE_def)
  then show ?thesis by (simp add: encode_render_Inr_iff)
qed

lemma take_packet_live:
  assumes "stream_live calls pushed r net" "length pushed \<le> u64_max"
  shows "take_packet (pr_id r) (pr_generation r) net = Some None
    \<or> (\<exists>f net1. take_packet (pr_id r) (pr_generation r) net = Some (Some (f, net1)) \<and> rf_playback f = pr_id r
         \<and> stream_live calls pushed r (net1\<lparr>nt_blocked := Some f\<rparr>) \<and> nt_blocked net1 = None
         \<and> nt_completed net1 = nt_completed net \<and> nt_source_done net1 = nt_source_done net \<and> nt_end_sent net1 = nt_end_sent net)"
proof (cases "nt_blocked net")
  case (Some f)
  have "stream_live calls pushed r (net\<lparr>nt_blocked := Some f\<rparr>)" using assms(1) Some by (simp add: stream_live_def)
  moreover have "rf_playback f = pr_id r" using assms(1) Some by (auto simp: stream_live_def dest: sends_playback)
  ultimately show ?thesis using assms Some by (simp add: take_packet_def)
next
  case None
  show ?thesis
  proof (cases "packet_size net")
    case size: (Some n)
    show ?thesis
    proof (cases "nt_next_frame net + n > window_end net")
      case False
      obtain chunks where c: "sends (pr_id r) (nt_epoch net) (pr_generation r) 0 0 chunks (frames_of (pr_id r) calls)"
          "concat chunks @ nt_pending net = pushed" "nt_next_frame net = length (concat chunks)" "nt_next_sequence net = length chunks"
        and e: "nt_epoch net \<noteq> 0"
        using assms(1) None by (auto simp: stream_live_def)
      have n: "n \<le> length (nt_pending net)" using packet_size_bounds [OF size] by simp
      then have "nt_next_frame net + n \<le> u64_max" using c(2,3) assms(2) by auto
      then obtain bytes where b: "encode_render (nt_epoch net) (word_of_nat (nt_next_sequence net)) (word_of_nat (nt_next_frame net))
          (pr_generation r) 0 (take n (nt_pending net)) = Inr bytes"
        using packet_encodes [OF size e] by blast
      let ?f = "\<lparr>rf_bytes = bytes, rf_playback = pr_id r, rf_sequence = nt_next_sequence net, rf_first_frame = nt_next_frame net, rf_frames = n\<rparr>"
      let ?net = "net\<lparr>nt_pending := drop n (nt_pending net), nt_next_frame := nt_next_frame net + n,
          nt_next_sequence := nt_next_sequence net + 1\<rparr>"
      have "sends (pr_id r) (nt_epoch net) (pr_generation r) 0 0 (chunks @ [take n (nt_pending net)]) (frames_of (pr_id r) calls @ [?f])"
        using c b n by (simp add: sends_snoc del: of_nat_add)
      moreover have "nt_next_frame net + n \<le> nt_completed net + MAX_FRAMES_AHEAD"
        using False mod_less_eq_dividend [of "nt_completed net + MAX_FRAMES_AHEAD" "2 ^ 64"] by (simp add: window_end_def del: mod_less_eq_dividend)
      ultimately have "stream_live calls pushed r (?net\<lparr>nt_blocked := Some ?f\<rparr>)"
        using c e n unfolding stream_live_def by (intro conjI exI [of _ "chunks @ [take n (nt_pending net)]"]) simp_all
      moreover have "take_packet (pr_id r) (pr_generation r) net = Some (Some (?f, ?net))"
        using None size False b by (simp add: take_packet_def)
      ultimately show ?thesis using None by simp
    qed (simp add: take_packet_def None size)
  qed (simp add: take_packet_def None)
qed

lemma stream_live_queued:
  assumes "stream_live calls pushed r (net\<lparr>nt_blocked := Some f\<rparr>)" "nt_blocked net = None" "rf_playback f = pr_id r"
  shows "stream_live (calls @ [OfferedFrame f FrameQueued]) pushed r (net\<lparr>nt_retry_at := None\<rparr>)"
  using assms by (auto simp: stream_live_def)

lemma stream_live_full:
  assumes "stream_live calls pushed r (net\<lparr>nt_blocked := Some f\<rparr>)"
  shows "stream_live (calls @ [OfferedFrame f FrameFull]) pushed r (net\<lparr>nt_blocked := Some f, nt_retry_at := t\<rparr>)"
  using assms by (auto simp: stream_live_def)

lemma pump_loop_live:
  assumes "stream_live calls pushed r net" "length pushed \<le> u64_max"
  shows "\<exists>gone net1 calls1. pump_loop link now (pr_id r) (pr_generation r) net calls = Some (gone, net1, calls1)
    \<and> nt_completed net1 = nt_completed net \<and> nt_source_done net1 = nt_source_done net \<and> nt_end_sent net1 = nt_end_sent net
    \<and> (\<not> gone \<longrightarrow> stream_live calls1 pushed r net1 \<and> nt_retry_at net1 \<in> {None, Some (now + FRAME_RETRY)})
    \<and> stream_sent calls1 pushed r (nt_completed net)
    \<and> changes_only (pr_id r) calls calls1 \<and> ends_of (pr_id r) calls1 = ends_of (pr_id r) calls"
  using assms(1)
proof (induction link now "pr_id r" "pr_generation r" net calls rule: pump_loop.induct)
  case (1 link now net calls)
  from take_packet_live [OF "1.prems" assms(2)] show ?case
  proof (elim disjE exE conjE)
    assume n: "take_packet (pr_id r) (pr_generation r) net = Some None"
    then have "nt_blocked net = None" by (auto simp: take_packet_def split: option.splits)
    then have "nt_retry_at net = None" using "1.prems" by (simp add: stream_live_def)
    then show ?thesis using n "1.prems" stream_live_sent [OF "1.prems"]
      by (intro exI [of _ False] exI [of _ net] exI [of _ calls]) (simp add: pump_loop.simps)
  next
    fix f net1
    assume t: "take_packet (pr_id r) (pr_generation r) net = Some (Some (f, net1))" and f: "rf_playback f = pr_id r"
      and live: "stream_live calls pushed r (net1\<lparr>nt_blocked := Some f\<rparr>)" and b: "nt_blocked net1 = None"
      and same: "nt_completed net1 = nt_completed net" "nt_source_done net1 = nt_source_done net" "nt_end_sent net1 = nt_end_sent net"
    show ?thesis
    proof (cases "lk_queue_frame link calls f")
      case FrameQueued
      let ?calls = "calls @ [OfferedFrame f FrameQueued]"
      have "changes_only (pr_id r) calls ?calls" using f by (simp add: changes_only_def)
      moreover have "ends_of (pr_id r) ?calls = ends_of (pr_id r) calls" by simp
      moreover note "1.hyps" [OF t refl refl FrameQueued stream_live_queued [OF live b f]]
      ultimately show ?thesis using t FrameQueued same by (auto simp: pump_loop.simps intro: changes_only_trans)
    next
      case FrameFull
      have l: "stream_live (calls @ [OfferedFrame f FrameFull]) pushed r (net1\<lparr>nt_blocked := Some f, nt_retry_at := Some (now + FRAME_RETRY)\<rparr>)"
        using live by (rule stream_live_full)
      then show ?thesis using t FrameFull same stream_live_sent [OF l]
        by (auto simp: pump_loop.simps changes_only_def intro!: exI [of _ False])
    next
      case FrameClosed
      have "stream_sent (calls @ [OfferedFrame f FrameClosed]) pushed r (nt_completed net)"
        using stream_live_sent [OF live] same by (simp add: stream_sent_def)
      then show ?thesis using t FrameClosed same by (auto simp: pump_loop.simps changes_only_def intro!: exI [of _ True])
    qed
  qed
qed

subsection \<open>The whole client\<close>

lemma ended_playbacks_simps [simp]:
  "ended_playbacks [] = []" "ended_playbacks (e # es) = event_ends e @ ended_playbacks es"
  "ended_playbacks (es @ fs) = ended_playbacks es @ ended_playbacks fs"
  by (simp_all add: ended_playbacks_def)

lemma client_ok_commands [simp]: "client_ok h (rc\<lparr>rc_commands := m\<rparr>) = client_ok h rc"
  by (simp add: client_ok_def)

lemma client_ok_cong:
  "rc_entries a = rc_entries b \<Longrightarrow> rc_calls a = rc_calls b \<Longrightarrow> rc_events a = rc_events b
   \<Longrightarrow> rc_generations a = rc_generations b \<Longrightarrow> client_ok h a \<Longrightarrow> client_ok h b"
  by (simp add: client_ok_def)

lemma stream_done_frame:
  "frames_of (pr_id r) calls1 = frames_of (pr_id r) calls \<Longrightarrow> ends_of (pr_id r) calls1 = ends_of (pr_id r) calls
   \<Longrightarrow> stream_done calls1 pushed r = stream_done calls pushed r"
  by (simp add: stream_done_def)

lemma stream_ok_frame:
  assumes "stream_ok h calls events r" "changes_only p calls calls1" "pr_id r \<noteq> p" "set events \<subseteq> set events1"
  shows "stream_ok h calls1 events1 r"
  using assms by (auto simp: stream_ok_def changes_only_def stream_done_frame [of r calls1 calls])

lemma entry_ok_frame:
  assumes "entry_ok h calls events e" "changes_only p calls calls1" "entry_id e \<noteq> p" "set events \<subseteq> set events1"
  shows "entry_ok h calls1 events1 e"
proof -
  have v: "frames_of (entry_id e) calls1 = frames_of (entry_id e) calls" "ends_of (entry_id e) calls1 = ends_of (entry_id e) calls"
    using assms(2,3) by (simp_all add: changes_only_def)
  then have "stream_live calls1 pushed (en_playback e) net = stream_live calls pushed (en_playback e) net"
    and "stream_ended_ok calls1 pushed (en_playback e) net = stream_ended_ok calls pushed (en_playback e) net" for pushed net
    by (simp_all add: stream_live_def stream_ended_ok_def)
  moreover have "token_cancelled (entry_id e) calls \<Longrightarrow> token_cancelled (entry_id e) calls1"
    using assms(2) by (simp add: changes_only_def)
  ultimately show ?thesis using assms(1,4) unfolding entry_ok_def by (cases "en_network e") auto
qed

lemma client_ok_entry:
  assumes "client_ok h rc" "i < length (rc_entries rc)"
  shows "en_playback (rc_entries rc ! i) \<in> set (rh_started h)"
    and "entry_ok h (rc_calls rc) (rh_events h @ rc_events rc) (rc_entries rc ! i)"
    and "stream_ok h (rc_calls rc) (rh_events h @ rc_events rc) (en_playback (rc_entries rc ! i))"
  using assms by (auto simp: client_ok_def)

lemma client_ok_pushed: "client_ok h rc \<Longrightarrow> length (rh_pushed h p) \<le> u64_max"
  by (auto simp: client_ok_def intro: order.trans)

lemma client_ok_stream_over:
  assumes "client_ok h rc" "i < length (rc_entries rc)" "entry_id (rc_entries rc ! i) \<in> rh_streams h"
  shows "token_cancelled (entry_id (rc_entries rc ! i)) (rc_calls rc) \<or> en_network (rc_entries rc ! i) \<noteq> None"
proof -
  have "distinct (map entry_id (rc_entries rc))" using assms(1) by (simp add: client_ok_def)
  then have "e = rc_entries rc ! i" if "e \<in> set (rc_entries rc)" "entry_id e = entry_id (rc_entries rc ! i)" for e
    using that assms(2) by (metis (no_types, lifting) distinct_conv_nth in_set_conv_nth length_map nth_map)
  then show ?thesis using assms(1,3) unfolding client_ok_def streams_over_def by metis
qed

text \<open>What is kept when one playback's entry and calls change, or its entry goes.\<close>

lemma kept_others:
  assumes ok: "client_ok h rc" and p: "p = entry_id (rc_entries rc ! i)" and i: "i < length (rc_entries rc)"
    and calls: "changes_only p (rc_calls rc) calls"
    and s: "stream_ok h calls (rh_events h @ rc_events rc @ evs) (en_playback (rc_entries rc ! i))"
  shows "e \<in> set (rc_entries rc) \<Longrightarrow> entry_id e \<noteq> p \<Longrightarrow> entry_ok h calls (rh_events h @ rc_events rc @ evs) e"
    and "r \<in> set (rh_started h) \<Longrightarrow> stream_ok h calls (rh_events h @ rc_events rc @ evs) r"
    and "q \<notin> pr_id ` set (rh_started h) \<Longrightarrow> frames_of q calls = [] \<and> ends_of q calls = [] \<and> rh_pushed h q = []"
proof -
  show "entry_ok h calls (rh_events h @ rc_events rc @ evs) e" if "e \<in> set (rc_entries rc)" "entry_id e \<noteq> p"
    using ok that by (intro entry_ok_frame [OF _ calls]) (auto simp: client_ok_def)
  have started: "en_playback (rc_entries rc ! i) \<in> set (rh_started h)" by (rule client_ok_entry(1) [OF ok i])
  show "stream_ok h calls (rh_events h @ rc_events rc @ evs) r" if r: "r \<in> set (rh_started h)"
  proof (cases "pr_id r = p")
    case True
    moreover have "inj_on pr_id (set (rh_started h))" using ok by (simp add: client_ok_def distinct_map)
    ultimately have "r = en_playback (rc_entries rc ! i)" using r started p by (auto dest: inj_onD)
    then show ?thesis using s by simp
  next
    case False
    then show ?thesis using ok r by (intro stream_ok_frame [OF _ calls]) (auto simp: client_ok_def)
  qed
  show "frames_of q calls = [] \<and> ends_of q calls = [] \<and> rh_pushed h q = []" if "q \<notin> pr_id ` set (rh_started h)"
  proof -
    have "q \<noteq> p" using that started p by auto
    then show ?thesis using calls ok that by (simp add: changes_only_def client_ok_def)
  qed
qed

lemma client_ok_replace:
  assumes ok: "client_ok h rc" and i: "i < length (rc_entries rc)" and same: "en_playback e = en_playback (rc_entries rc ! i)"
    and calls: "changes_only (entry_id e) (rc_calls rc) calls" and evs: "ended_playbacks evs = []"
    and e: "entry_ok h calls (rh_events h @ rc_events rc @ evs) e"
    and s: "stream_ok h calls (rh_events h @ rc_events rc @ evs) (en_playback e)"
    and over: "en_phase e = RenderCancelling \<Longrightarrow> en_network e \<noteq> None \<Longrightarrow> token_cancelled (entry_id e) calls"
    and net: "en_network e = None \<longleftrightarrow> en_network (rc_entries rc ! i) = None"
  shows "client_ok h (rc\<lparr>rc_entries := (rc_entries rc)[i := e], rc_calls := calls, rc_events := rc_events rc @ evs\<rparr>)"
proof -
  let ?es = "(rc_entries rc)[i := e]" and ?p = "entry_id (rc_entries rc ! i)"
  have calls1: "changes_only ?p (rc_calls rc) calls" using calls same by simp
  note kept = kept_others [OF ok refl i calls1 s [unfolded same]]
  have d: "distinct (map entry_id (rc_entries rc))" using ok by (simp add: client_ok_def)
  have ids: "map entry_id ?es = map entry_id (rc_entries rc)"
    using i same by (simp add: map_update list_update_same_conv)
  have others: "x = e \<or> x \<in> set (rc_entries rc) \<and> entry_id x \<noteq> ?p" if "x \<in> set ?es" for x
    using update_others [OF d i that] .
  have "streams_over h calls ?es"
    unfolding streams_over_def
  proof
    fix q assume q: "q \<in> rh_streams h"
    show "token_cancelled q calls \<or> (\<exists>x \<in> set ?es. entry_id x = q \<and> en_phase x \<noteq> RenderCancelling \<and> en_network x \<noteq> None)"
    proof (cases "q = ?p")
      case True
      have "token_cancelled q calls" if "token_cancelled q (rc_calls rc)" using that calls by (simp add: changes_only_def)
      moreover have "e \<in> set ?es" using i by (simp add: set_update_memI)
      ultimately show ?thesis
        using client_ok_stream_over [OF ok i] q True over same net by (cases "en_phase e = RenderCancelling") force+
    next
      case False
      consider "token_cancelled q (rc_calls rc)" | x where "x \<in> set (rc_entries rc)" "entry_id x = q" "en_phase x \<noteq> RenderCancelling" "en_network x \<noteq> None"
        using ok q unfolding client_ok_def streams_over_def by blast
      then show ?thesis
      proof cases
        case 1
        then show ?thesis using calls by (simp add: changes_only_def)
      next
        case (2 x)
        then obtain j where "j < length (rc_entries rc)" "x = rc_entries rc ! j" by (auto simp: in_set_conv_nth)
        moreover from this have "j \<noteq> i" using 2 False by auto
        ultimately have "x \<in> set ?es" by (metis length_list_update nth_list_update_neq nth_mem)
        then show ?thesis using 2 by blast
      qed
    qed
  qed
  moreover have "en_playback x \<in> set (rh_started h) \<and> entry_ok h calls (rh_events h @ rc_events rc @ evs) x" if "x \<in> set ?es" for x
    using others [OF that]
  proof
    assume "x = e"
    then show ?thesis using e client_ok_entry(1) [OF ok i] same by simp
  next
    assume "x \<in> set (rc_entries rc) \<and> entry_id x \<noteq> ?p"
    then show ?thesis using kept(1) ok by (simp add: client_ok_def)
  qed
  ultimately show ?thesis using ok ids kept(2,3) evs d by (simp add: client_ok_def)
qed

lemma client_ok_remove:
  assumes ok: "client_ok h rc" and i: "i < length (rc_entries rc)" and p: "p = entry_id (rc_entries rc ! i)"
    and calls: "changes_only p (rc_calls rc) calls" and evs: "ended_playbacks evs = [p]"
    and s: "stream_ok h calls (rh_events h @ rc_events rc @ evs) (en_playback (rc_entries rc ! i))"
    and over: "en_network (rc_entries rc ! i) \<noteq> None \<Longrightarrow> token_cancelled p calls"
  shows "client_ok h (rc\<lparr>rc_entries := remove_nth i (rc_entries rc), rc_calls := calls, rc_events := rc_events rc @ evs\<rparr>)"
proof -
  let ?es = "remove_nth i (rc_entries rc)"
  note kept = kept_others [OF ok p i calls s]
  have d: "distinct (map entry_id (rc_entries rc))" using ok by (simp add: client_ok_def)
  have others: "x \<in> set (rc_entries rc) \<and> entry_id x \<noteq> p" if "x \<in> set ?es" for x
    using remove_others [OF d i that] p by simp
  have cut: "rc_entries rc = take i (rc_entries rc) @ rc_entries rc ! i # drop (Suc i) (rc_entries rc)"
    using i by (rule id_take_nth_drop)
  have stays: "x \<in> set ?es" if "x \<in> set (rc_entries rc)" "entry_id x \<noteq> p" for x
    using that p by (subst (asm) cut) (auto simp: remove_nth_def)
  have "streams_over h calls ?es"
    unfolding streams_over_def
  proof
    fix q assume q: "q \<in> rh_streams h"
    have mono: "token_cancelled q calls" if "token_cancelled q (rc_calls rc)" using that calls by (simp add: changes_only_def)
    show "token_cancelled q calls \<or> (\<exists>x \<in> set ?es. entry_id x = q \<and> en_phase x \<noteq> RenderCancelling \<and> en_network x \<noteq> None)"
    proof (cases "q = p")
      case True
      then show ?thesis using client_ok_stream_over [OF ok i] q over p mono by auto
    next
      case False
      then show ?thesis using ok q mono stays unfolding client_ok_def streams_over_def by metis
    qed
  qed
  moreover have "\<forall>x \<in> set ?es. en_playback x \<in> set (rh_started h) \<and> entry_ok h calls (rh_events h @ rc_events rc @ evs) x"
    using others kept(1) ok by (auto simp: client_ok_def)
  moreover have "mset (map entry_id (rc_entries rc)) = add_mset p (mset (map entry_id ?es))"
    using mset_remove_nth [OF i, of entry_id] p by simp
  ultimately show ?thesis using ok kept(2,3) evs distinct_remove_nth [OF d] by (auto simp: client_ok_def)
qed

text \<open>A call that is neither a frame nor the end of a stream.\<close>

lemma client_ok_asked:
  assumes "client_ok h rc" "\<And>p. call_ends p (AskedLink c g reply) = []"
  shows "client_ok h (rc\<lparr>rc_calls := rc_calls rc @ [AskedLink c g reply]\<rparr>)"
proof -
  have v: "frames_of p (rc_calls rc @ [AskedLink c g reply]) = frames_of p (rc_calls rc)"
    "ends_of p (rc_calls rc @ [AskedLink c g reply]) = ends_of p (rc_calls rc)"
    "token_cancelled p (rc_calls rc @ [AskedLink c g reply]) = token_cancelled p (rc_calls rc)" for p
    using assms(2) by simp_all
  have "stream_ok h (rc_calls rc @ [AskedLink c g reply]) events r = stream_ok h (rc_calls rc) events r" for events r
    unfolding stream_ok_def stream_done_def v ..
  moreover have "entry_ok h (rc_calls rc @ [AskedLink c g reply]) events e = entry_ok h (rc_calls rc) events e" for events e
    unfolding entry_ok_def stream_live_def stream_ended_ok_def v ..
  moreover have "streams_over h (rc_calls rc @ [AskedLink c g reply]) es = streams_over h (rc_calls rc) es" for es
    unfolding streams_over_def v ..
  ultimately show ?thesis using assms(1) v by (simp add: client_ok_def)
qed

lemma end_at_ok:
  assumes ok: "client_ok h rc" and i: "i < length (rc_entries rc)"
  shows "client_ok h (end_at i how rc)"
proof -
  have s: "stream_ok h (cancel_token (rc_entries rc ! i) (rc_calls rc))
      (rh_events h @ rc_events rc @ [RenderEnded (en_playback (rc_entries rc ! i)) how]) (en_playback (rc_entries rc ! i))"
    using client_ok_entry(3) [OF ok i] by (auto simp: stream_ok_def stream_done_def)
  show ?thesis
    using client_ok_remove [OF ok i refl changes_only_token _ s] by (simp add: end_at_def Let_def)
qed

lemma cancel_at_ok:
  assumes ok: "client_ok h rc" and i: "i < length (rc_entries rc)"
  shows "client_ok h (cancel_at link i reason rc)"
proof -
  let ?e = "rc_entries rc ! i"
  let ?net = "map_option (\<lambda>n. n\<lparr>nt_pending := [], nt_blocked := None, nt_retry_at := None\<rparr>) (en_network ?e)"
  let ?e1 = "?e\<lparr>en_phase := RenderCancelling, en_limits := None, en_network := ?net\<rparr>"
  let ?evs = "[RenderCancelled (en_playback ?e) reason]"
  let ?rc1 = "rc\<lparr>rc_entries := (rc_entries rc)[i := ?e1], rc_calls := cancel_token ?e (rc_calls rc), rc_events := rc_events rc @ ?evs\<rparr>"
  have e1: "entry_ok h (cancel_token ?e (rc_calls rc)) (rh_events h @ rc_events rc @ ?evs) ?e1"
    using client_ok_entry(2) [OF ok i] by (auto simp: entry_ok_def split: option.splits)
  have s: "stream_ok h (cancel_token ?e (rc_calls rc)) (rh_events h @ rc_events rc @ ?evs) (en_playback ?e1)"
    using client_ok_entry(3) [OF ok i] by (auto simp: stream_ok_def stream_done_def)
  have "client_ok h ?rc1"
    by (rule client_ok_replace [OF ok i _ _ _ e1 s]) (auto simp: ended_playbacks_def)
  from client_ok_asked [OF this, of "CommandCancel b" g reply for b g reply]
  have asked: "client_ok h (?rc1\<lparr>rc_calls := cancel_token ?e (rc_calls rc) @ [AskedLink (CommandCancel b) g reply]\<rparr>)" for b g reply
    by simp
  show ?thesis
  proof (cases "fst (request_link link (CommandCancel \<lparr>rx_playback_id = entry_id ?e, rx_reason = reason\<rparr>) (pr_generation (en_playback ?e)) ?rc1)")
    case (Inr m)
    then show ?thesis using asked by (simp add: cancel_at_def request_link_def Let_def)
  next
    case (Inl u)
    then show ?thesis using asked i by (auto simp: cancel_at_def request_link_def Let_def intro!: end_at_ok)
  qed
qed

text \<open>The pump: it returns, keeps the client, leaves the other entries, and the playback's own with nothing due.\<close>

definition pumped :: "mono_instant \<Rightarrow> nat \<Rightarrow> render_client \<Rightarrow> render_client \<Rightarrow> bool" where
  "pumped now i rc rc1 \<longleftrightarrow>
     (\<forall>e \<in> set (rc_entries rc1). e \<in> set (rc_entries rc) \<and> entry_id e \<noteq> entry_id (rc_entries rc ! i)
        \<or> (e = rc_entries rc ! i \<and> (en_phase e = RenderRunning \<longrightarrow> en_network e = None))
        \<or> (en_playback e = en_playback (rc_entries rc ! i) \<and> en_phase e = en_phase (rc_entries rc ! i) \<and> en_limits e = en_limits (rc_entries rc ! i)
           \<and> (\<exists>net. en_network e = Some net \<and> nt_retry_at net \<in> {None, Some (now + FRAME_RETRY)})))"

lemma stream_sent_mono: "stream_sent calls pushed r n \<Longrightarrow> n \<le> m \<Longrightarrow> f \<in> set (frames_of (pr_id r) calls)
    \<Longrightarrow> rf_first_frame f + rf_frames f \<le> m + MAX_FRAMES_AHEAD"
  by (force simp: stream_sent_def)

lemma changes_only_asked:
  "changes_only p calls calls1 \<Longrightarrow> changes_only p calls (calls1 @ [AskedLink (CommandEnd \<lparr>re_playback_id = p, re_end_frame = n\<rparr>) g reply])"
  by (cases reply) (auto simp: changes_only_def)

lemma pumped_replace:
  assumes "client_ok h rc" "i < length (rc_entries rc)" "nt_retry_at net \<in> {None, Some (now + FRAME_RETRY)}"
    "rc_entries rc1 = (rc_entries rc)[i := (rc_entries rc ! i)\<lparr>en_network := Some net\<rparr>]"
  shows "pumped now i rc rc1"
proof -
  have d: "distinct (map entry_id (rc_entries rc))" using assms(1) by (simp add: client_ok_def)
  show ?thesis
    unfolding pumped_def
  proof
    fix e assume "e \<in> set (rc_entries rc1)"
    then have "e = (rc_entries rc ! i)\<lparr>en_network := Some net\<rparr> \<or> e \<in> set (rc_entries rc) \<and> entry_id e \<noteq> entry_id (rc_entries rc ! i)"
      using update_others [OF d assms(2)] assms(4) by metis
    then show "e \<in> set (rc_entries rc) \<and> entry_id e \<noteq> entry_id (rc_entries rc ! i)
        \<or> (e = rc_entries rc ! i \<and> (en_phase e = RenderRunning \<longrightarrow> en_network e = None))
        \<or> (en_playback e = en_playback (rc_entries rc ! i) \<and> en_phase e = en_phase (rc_entries rc ! i) \<and> en_limits e = en_limits (rc_entries rc ! i)
           \<and> (\<exists>net. en_network e = Some net \<and> nt_retry_at net \<in> {None, Some (now + FRAME_RETRY)}))"
      using assms(3) by fastforce
  qed
qed

lemma pumped_remove:
  assumes "client_ok h rc" "i < length (rc_entries rc)" "rc_entries rc1 = remove_nth i (rc_entries rc)"
  shows "pumped now i rc rc1"
  using assms remove_others [of entry_id "rc_entries rc" i] by (auto simp: pumped_def client_ok_def)

lemma pumped_idle:
  assumes "client_ok h rc" "i < length (rc_entries rc)" "en_phase (rc_entries rc ! i) \<noteq> RenderRunning \<or> en_network (rc_entries rc ! i) = None"
  shows "pumped now i rc rc"
proof -
  have "distinct (map entry_id (rc_entries rc))" using assms(1) by (simp add: client_ok_def)
  then have "entry_id e \<noteq> entry_id (rc_entries rc ! i) \<or> e = rc_entries rc ! i" if "e \<in> set (rc_entries rc)" for e
    using that assms(2) by (metis (no_types, lifting) distinct_conv_nth in_set_conv_nth length_map nth_map)
  then show ?thesis using assms(3) unfolding pumped_def by blast
qed

text \<open>A running stream whose calls and state move on together.\<close>

lemma client_ok_stream:
  assumes ok: "client_ok h rc" and i: "i < length (rc_entries rc)" and e: "e = rc_entries rc ! i" "en_phase e = RenderRunning" "en_network e \<noteq> None"
    and only: "changes_only (entry_id e) (rc_calls rc) calls" and n: "nt_completed net \<le> rh_reported h (en_playback e)"
    and live: "stream_live calls (rh_pushed h (entry_id e)) (en_playback e) net"
    and ended: "stream_ended_ok calls (rh_pushed h (entry_id e)) (en_playback e) net"
  shows "client_ok h (rc\<lparr>rc_entries := (rc_entries rc)[i := e\<lparr>en_network := Some net\<rparr>], rc_calls := calls\<rparr>)"
proof -
  let ?evs = "rh_events h @ rc_events rc @ []"
  have acc: "RenderAccepted (en_playback e) \<in> set ?evs" using client_ok_entry(2) [OF ok i] e by (simp add: entry_ok_def)
  then have e1: "entry_ok h calls ?evs (e\<lparr>en_network := Some net\<rparr>)" using e(2) n live ended by (simp add: entry_ok_def)
  have "stream_ok h calls ?evs (en_playback e)"
    using acc stream_live_done [OF live ended] stream_sent_mono [OF stream_live_sent [OF live] n] by (simp add: stream_ok_def)
  from client_ok_replace [OF ok i _ _ _ e1] this e only show ?thesis by simp
qed

lemma pump_loop_idle: "nt_pending net = [] \<Longrightarrow> nt_blocked net = None \<Longrightarrow> pump_loop link now p g net calls = Some (False, net, calls)"
  by (simp add: pump_loop.simps take_packet_def packet_size_def PACKET_FRAMES_def)

lemma changes_only_trans_asked: "changes_only p a b \<Longrightarrow> changes_only p a (b @ [AskedLink (CommandEnd \<lparr>re_playback_id = p, re_end_frame = n\<rparr>) g reply])"
  by (rule changes_only_trans [OF _ changes_only_asked [OF changes_only_refl]])

lemma send_end_ok:
  assumes ok: "client_ok h rc" and i: "i < length (rc_entries rc)" and e: "e = rc_entries rc ! i" "en_phase e = RenderRunning" "en_network e \<noteq> None"
    and only: "changes_only (entry_id e) (rc_calls rc) calls" and n: "nt_completed net \<le> rh_reported h (en_playback e)"
    and live: "stream_live calls (rh_pushed h (entry_id e)) (en_playback e) net"
    and ends: "ends_of (entry_id e) calls = []" "nt_source_done net" "\<not> nt_end_sent net" "nt_pending net = []" "nt_blocked net = None"
  defines "rc1 \<equiv> rc\<lparr>rc_entries := (rc_entries rc)[i := e\<lparr>en_network := Some net\<rparr>], rc_calls := calls\<rparr>"
  shows "client_ok h (send_end link i (e\<lparr>en_network := Some net\<rparr>) net rc1) \<and> pumped now i rc (send_end link i (e\<lparr>en_network := Some net\<rparr>) net rc1)"
proof -
  let ?command = "CommandEnd \<lparr>re_playback_id = entry_id e, re_end_frame = nt_next_frame net\<rparr>" and ?g = "pr_generation (en_playback e)"
  have retry: "nt_retry_at net = None" using live ends(5) by (simp add: stream_live_def)
  have all: "nt_next_frame net = length (rh_pushed h (entry_id e))" using live ends(4) by (auto simp: stream_live_def)
  note only1 = changes_only_trans_asked [OF only, of "nt_next_frame net" ?g]
  show ?thesis
  proof (cases "lk_request link calls ?command ?g")
    case (Inr m)
    let ?calls = "calls @ [AskedLink ?command ?g (Inr m)]" and ?net = "net\<lparr>nt_end_sent := True\<rparr>"
    have "stream_live ?calls (rh_pushed h (entry_id e)) (en_playback e) ?net" using live by (simp add: stream_live_def)
    moreover have "stream_ended_ok ?calls (rh_pushed h (entry_id e)) (en_playback e) ?net"
      using ends all by (simp add: stream_ended_ok_def)
    ultimately have "client_ok h (rc\<lparr>rc_entries := (rc_entries rc)[i := e\<lparr>en_network := Some ?net\<rparr>], rc_calls := ?calls\<rparr>)"
      using client_ok_stream [OF ok i e only1] n by simp
    then have "client_ok h (send_end link i (e\<lparr>en_network := Some net\<rparr>) net rc1)"
      by (rule client_ok_cong [rotated -1]) (use Inr in \<open>simp_all add: send_end_def request_link_def rc1_def Let_def\<close>)
    moreover have "pumped now i rc (send_end link i (e\<lparr>en_network := Some net\<rparr>) net rc1)"
      using retry by (intro pumped_replace [OF ok i, of ?net]) (use Inr e in \<open>simp_all add: send_end_def request_link_def rc1_def Let_def\<close>)
    ultimately show ?thesis by simp
  next
    case (Inl u)
    let ?calls = "calls @ [AskedLink ?command ?g (Inl u)]"
    have "stream_live ?calls (rh_pushed h (entry_id e)) (en_playback e) net" using live by (simp add: stream_live_def)
    moreover have "stream_ended_ok ?calls (rh_pushed h (entry_id e)) (en_playback e) net"
      using ends by (simp add: stream_ended_ok_def)
    ultimately have "client_ok h (rc\<lparr>rc_entries := (rc_entries rc)[i := e\<lparr>en_network := Some net\<rparr>], rc_calls := ?calls\<rparr>)"
      using client_ok_stream [OF ok i e only1] n by simp
    from end_at_ok [OF this, of i PlaybackLinkClosed] i show ?thesis
      using Inl pumped_remove [OF ok i] by (simp add: send_end_def request_link_def rc1_def end_at_def Let_def remove_nth_update)
  qed
qed

lemma pump_ok:
  assumes ok: "client_ok h rc" and i: "i < length (rc_entries rc)"
  shows "\<exists>rc1. pump link now i rc = Some rc1 \<and> client_ok h rc1 \<and> pumped now i rc rc1"
proof (cases "en_phase (rc_entries rc ! i) = RenderRunning \<and> en_network (rc_entries rc ! i) \<noteq> None")
  case False
  then have "pump link now i rc = Some rc" by (auto simp: pump_def Let_def)
  then show ?thesis using ok pumped_idle [OF ok i, of now] False by blast
next
  case True
  define e where "e = rc_entries rc ! i"
  let ?p = "entry_id e" and ?r = "en_playback e"
  obtain net where e: "en_phase e = RenderRunning" "en_network e = Some net" using True e_def by auto
  then have e': "en_network e \<noteq> None" by simp
  have comp: "nt_completed net \<le> rh_reported h ?r" and live: "stream_live (rc_calls rc) (rh_pushed h ?p) ?r net"
    and ended: "stream_ended_ok (rc_calls rc) (rh_pushed h ?p) ?r net" and acc: "RenderAccepted ?r \<in> set (rh_events h @ rc_events rc)"
    using client_ok_entry(2) [OF ok i] e by (simp_all add: entry_ok_def e_def)
  obtain gone net1 calls1 where loop: "pump_loop link now ?p (pr_generation ?r) net (rc_calls rc) = Some (gone, net1, calls1)"
    and n1: "nt_completed net1 = nt_completed net" "nt_source_done net1 = nt_source_done net" "nt_end_sent net1 = nt_end_sent net"
    and on: "\<not> gone \<Longrightarrow> stream_live calls1 (rh_pushed h ?p) ?r net1 \<and> nt_retry_at net1 \<in> {None, Some (now + FRAME_RETRY)}"
    and sent: "stream_sent calls1 (rh_pushed h ?p) ?r (nt_completed net)"
    and only: "changes_only ?p (rc_calls rc) calls1" "ends_of ?p calls1 = ends_of ?p (rc_calls rc)"
    using pump_loop_live [OF live client_ok_pushed [OF ok], of link now] by blast
  have silent: "ends_of ?p calls1 = []" if "gone \<or> \<not> nt_end_sent net"
    using that ended only(2) loop pump_loop_idle [of net link now ?p "pr_generation ?r" "rc_calls rc"]
    by (auto simp: stream_ended_ok_def split: if_splits)
  have step: "pump link now i rc = Some (if \<not> gone \<and> nt_source_done net1 \<and> \<not> nt_end_sent net1 \<and> nt_pending net1 = [] \<and> nt_blocked net1 = None
       then send_end link i (e\<lparr>en_network := Some net1\<rparr>) net1 (rc\<lparr>rc_entries := (rc_entries rc)[i := e\<lparr>en_network := Some net1\<rparr>], rc_calls := calls1\<rparr>)
       else if gone then end_at i PlaybackLinkClosed (rc\<lparr>rc_entries := (rc_entries rc)[i := e\<lparr>en_network := Some net1\<rparr>], rc_calls := calls1\<rparr>)
       else rc\<lparr>rc_entries := (rc_entries rc)[i := e\<lparr>en_network := Some net1\<rparr>], rc_calls := calls1\<rparr>)"
    using e loop by (simp add: pump_def e_def Let_def)
  consider (over) "\<not> gone" "nt_source_done net1" "\<not> nt_end_sent net1" "nt_pending net1 = []" "nt_blocked net1 = None"
    | (gone) "gone" | (kept) "\<not> gone" "\<not> (nt_source_done net1 \<and> \<not> nt_end_sent net1 \<and> nt_pending net1 = [] \<and> nt_blocked net1 = None)"
    by auto
  then show ?thesis
  proof cases
    case over
    then show ?thesis
      using step send_end_ok [OF ok i e_def e(1) e' only(1), of net1 link now] comp n1 on silent by simp
  next
    case gone
    have s: "stream_ok h (calls1 @ [CancelledToken ?p]) (rh_events h @ rc_events rc @ [RenderEnded ?r PlaybackLinkClosed]) (en_playback (rc_entries rc ! i))"
      unfolding e_def [symmetric] using acc stream_sent_done [OF sent silent] stream_sent_mono [OF sent comp] gone
      by (auto simp: stream_ok_def stream_done_def)
    have "changes_only ?p (rc_calls rc) (calls1 @ [CancelledToken ?p])"
      using only(1) by (auto simp: changes_only_def)
    from client_ok_remove [OF ok i _ this _ s] i
    have "client_ok h (end_at i PlaybackLinkClosed (rc\<lparr>rc_entries := (rc_entries rc)[i := e\<lparr>en_network := Some net1\<rparr>], rc_calls := calls1\<rparr>))"
      by (simp add: end_at_def e_def cancel_token_def remove_nth_update Let_def)
    then show ?thesis
      using step gone i pumped_remove [OF ok i] by (simp add: end_at_def remove_nth_update Let_def)
  next
    case kept
    have "stream_ended_ok calls1 (rh_pushed h ?p) ?r net1"
      using ended only(2) n1 kept silent loop pump_loop_idle [of net link now ?p "pr_generation ?r" "rc_calls rc"]
      by (auto simp: stream_ended_ok_def split: if_splits)
    then show ?thesis
      using step kept client_ok_stream [OF ok i e_def e(1) e' only(1)] comp n1 on pumped_replace [OF ok i, of net1 now] by (auto simp: e_def)
  qed
qed

subsection \<open>Starting, feeding and ending\<close>

lemma supersede_ok: "client_ok h rc \<Longrightarrow> client_ok h (supersede link c rc)"
proof (induction link c rc rule: supersede.induct)
  case (1 link c rc)
  show ?case
  proof (cases "position (live_of_class c) (rc_entries rc)")
    case (Some i)
    then have "i < length (rc_entries rc)" using position_less by blast
    then show ?thesis using 1 Some cancel_at_ok by (simp add: supersede.simps [of link c rc])
  qed (use 1 in \<open>simp add: supersede.simps [of link c rc]\<close>)
qed

lemma client_ok_generations: "length gs = 4 \<Longrightarrow> client_ok h rc \<Longrightarrow> client_ok h (rc\<lparr>rc_generations := gs\<rparr>)"
  by (simp add: client_ok_def)

lemma entry_ok_history:
  "rh_pushed h1 = rh_pushed h \<Longrightarrow> rh_reported h1 = rh_reported h \<Longrightarrow> entry_ok h1 calls events e = entry_ok h calls events e"
  "rh_pushed h1 = rh_pushed h \<Longrightarrow> rh_reported h1 = rh_reported h \<Longrightarrow> stream_ok h1 calls events r = stream_ok h calls events r"
  by (simp_all only: entry_ok_def stream_ok_def)

lemma client_ok_started:
  assumes ok: "client_ok h rc" and fresh: "entry_id e \<notin> pr_id ` set (rh_started h)"
    and e: "en_phase e = AwaitingAck"
      "\<And>net. en_network e = Some net \<Longrightarrow> net = \<lparr>nt_epoch = epoch, nt_pending = [], nt_blocked = None, nt_retry_at = None,
         nt_next_frame = 0, nt_next_sequence = 0, nt_completed = 0, nt_source_done = False, nt_end_sent = False\<rparr> \<and> epoch \<noteq> 0"
    and h1: "h1 = h\<lparr>rh_started := rh_started h @ [en_playback e], rh_streams := streams\<rparr>"
      "streams = (if en_network e = None then rh_streams h else insert (entry_id e) (rh_streams h))"
  shows "client_ok h1 (rc\<lparr>rc_entries := rc_entries rc @ [e]\<rparr>)"
proof -
  have none: "frames_of (entry_id e) (rc_calls rc) = []" "ends_of (entry_id e) (rc_calls rc) = []" "rh_pushed h (entry_id e) = []"
    using ok fresh by (simp_all add: client_ok_def)
  have ids: "set (map entry_id (rc_entries rc)) \<subseteq> pr_id ` set (rh_started h)" using ok by (auto simp: client_ok_def)
  have s: "stream_done (rc_calls rc) [] (en_playback e)" using none by (auto simp: stream_done_def intro!: exI [of _ "[]"])
  have "stream_live (rc_calls rc) [] (en_playback e) net \<and> stream_ended_ok (rc_calls rc) [] (en_playback e) net
      \<and> nt_completed net = 0 \<and> nt_retry_at net = None" if "en_network e = Some net" for net
    using e(2) [OF that] none by (simp add: stream_live_def stream_ended_ok_def)
  then have "entry_ok h1 (rc_calls rc) (rh_events h @ rc_events rc) e"
    using e(1) none(3) unfolding entry_ok_def h1(1) by (cases "en_network e") simp_all
  moreover have "stream_ok h1 (rc_calls rc) (rh_events h @ rc_events rc) (en_playback e)"
    using none s by (simp add: stream_ok_def h1(1))
  moreover have "streams_over h1 (rc_calls rc) (rc_entries rc @ [e])"
    using ok e(1) by (auto simp: client_ok_def streams_over_def h1 split: if_splits)
  moreover have "entry_ok h1 calls events x = entry_ok h calls events x" "stream_ok h1 calls events r = stream_ok h calls events r" for calls events x r
    by (rule entry_ok_history; simp add: h1(1))+
  moreover have "distinct (map entry_id (rc_entries rc))" "distinct (map pr_id (rh_started h))" using ok by (simp_all add: client_ok_def)
  then have "distinct (map entry_id (rc_entries rc @ [e]))" "distinct (map pr_id (rh_started h1))"
    using fresh ids by (auto simp: h1(1))
  moreover have "rh_started h1 = rh_started h @ [en_playback e]" "rh_pushed h1 = rh_pushed h" "rh_total h1 = rh_total h" "rh_events h1 = rh_events h"
    by (simp_all add: h1(1))
  ultimately show ?thesis using ok unfolding client_ok_def by simp
qed

lemma fresh_epoch_nonzero: "fresh_epoch draws rc = Some epoch \<Longrightarrow> epoch \<noteq> 0"
  by (auto simp: fresh_epoch_def find_Some_iff)

lemma next_playback_ok:
  assumes "next_playback c p rc = (r, rc1)" "client_ok h rc"
  shows "client_ok h rc1 \<and> pr_id r = p"
  using assms client_ok_generations [of "(rc_generations rc)[class_slot c := g]" h rc for g]
  by (auto simp: next_playback_def Let_def client_ok_def)

lemma start_network_ok:
  assumes ok: "client_ok h rc" and fresh: "p \<notin> pr_id ` set (rh_started h)" and s: "start_network link start p draws rc = Some (res, rc1)"
  shows "case res of Inl _ \<Rightarrow> client_ok h rc1
    | Inr r \<Rightarrow> client_ok (h\<lparr>rh_started := rh_started h @ [r], rh_streams := insert p (rh_streams h)\<rparr>) rc1"
proof -
  let ?c = "class_of_network (ns_class start)"
  obtain epoch r rc2 where e: "fresh_epoch draws (supersede link ?c rc) = Some epoch" and n: "next_playback ?c p (supersede link ?c rc) = (r, rc2)"
    using s by (auto simp: start_network_def Let_def split: option.splits prod.splits)
  let ?body = "\<lparr>rs_playback_id = pr_id r, rs_source_class = ?c, rs_epoch = Some epoch, rs_gain_db = ns_gain_db start,
      rs_format = FORMAT_PCM16, rs_local_asset = None, rs_announcement = ns_announcement start\<rparr>"
  let ?reply = "lk_request link (rc_calls rc2) (CommandStart ?body) (pr_generation r)"
  have r: "client_ok h rc2" "pr_id r = p" using next_playback_ok [OF n supersede_ok [OF ok]] by simp_all
  from client_ok_asked [OF r(1), of "CommandStart ?body" "pr_generation r" ?reply]
  have asked: "client_ok h (rc2\<lparr>rc_calls := rc_calls rc2 @ [AskedLink (CommandStart ?body) (pr_generation r) ?reply]\<rparr>)" by simp
  show ?thesis
  proof (cases ?reply)
    case (Inl u)
    then show ?thesis using s e n asked by (auto simp: start_network_def request_link_def Let_def)
  next
    case (Inr m)
    let ?e = "\<lparr>en_playback = r, en_phase = AwaitingAck,
        en_network = Some \<lparr>nt_epoch = epoch, nt_pending = [], nt_blocked = None, nt_retry_at = None,
          nt_next_frame = 0, nt_next_sequence = 0, nt_completed = 0, nt_source_done = False, nt_end_sent = False\<rparr>,
        en_limits = map_option (\<lambda>l. \<lparr>lc_start_deadline = rl_start_deadline l, lc_started_at = None, lc_last_advance = None\<rparr>) (ns_limits start)\<rparr>"
    from client_ok_started [OF asked, of ?e epoch] fresh r(2) fresh_epoch_nonzero [OF e]
    have "client_ok (h\<lparr>rh_started := rh_started h @ [r], rh_streams := insert p (rh_streams h)\<rparr>)
      (rc2\<lparr>rc_calls := rc_calls rc2 @ [AskedLink (CommandStart ?body) (pr_generation r) ?reply], rc_entries := rc_entries rc2 @ [?e]\<rparr>)"
      by simp
    then have "client_ok (h\<lparr>rh_started := rh_started h @ [r], rh_streams := insert p (rh_streams h)\<rparr>) rc1"
      by (rule client_ok_cong [rotated -1]) (use s e n Inr in \<open>auto simp: start_network_def request_link_def Let_def\<close>)
    then show ?thesis using s e n Inr by (auto simp: start_network_def request_link_def Let_def)
  qed
qed

lemma start_local_ok:
  assumes ok: "client_ok h rc" and fresh: "p \<notin> pr_id ` set (rh_started h)" and s: "start_local link source gain ann p rc = (res, rc1)"
  shows "case res of Inl _ \<Rightarrow> client_ok h rc1 | Inr r \<Rightarrow> client_ok (h\<lparr>rh_started := rh_started h @ [r]\<rparr>) rc1"
proof (cases "render_supports source rc")
  case (Inl c)
  then show ?thesis using s ok by (auto simp: start_local_def)
next
  case supported: (Inr u)
  obtain r rc2 where n: "next_playback (local_class source) p (supersede link (local_class source) rc) = (r, rc2)" by fastforce
  let ?body = "\<lparr>rs_playback_id = pr_id r, rs_source_class = local_class source, rs_epoch = None, rs_gain_db = gain,
      rs_format = FORMAT_PCM16, rs_local_asset = Some (local_asset source), rs_announcement = ann\<rparr>"
  let ?reply = "lk_request link (rc_calls rc2) (CommandStart ?body) (pr_generation r)"
  have r: "client_ok h rc2" "pr_id r = p" using next_playback_ok [OF n supersede_ok [OF ok]] by simp_all
  from client_ok_asked [OF r(1), of "CommandStart ?body" "pr_generation r" ?reply]
  have asked: "client_ok h (rc2\<lparr>rc_calls := rc_calls rc2 @ [AskedLink (CommandStart ?body) (pr_generation r) ?reply]\<rparr>)" by simp
  show ?thesis
  proof (cases ?reply)
    case (Inl u)
    then show ?thesis using s n asked supported by (auto simp: start_local_def request_link_def Let_def)
  next
    case (Inr m)
    let ?e = "\<lparr>en_playback = r, en_phase = AwaitingAck, en_network = None, en_limits = None\<rparr> :: render_entry"
    from client_ok_started [OF asked, of ?e] fresh r(2)
    have "client_ok (h\<lparr>rh_started := rh_started h @ [r], rh_streams := rh_streams h\<rparr>)
      (rc2\<lparr>rc_calls := rc_calls rc2 @ [AskedLink (CommandStart ?body) (pr_generation r) ?reply], rc_entries := rc_entries rc2 @ [?e]\<rparr>)"
      by simp
    then have "client_ok (h\<lparr>rh_started := rh_started h @ [r], rh_streams := rh_streams h\<rparr>) rc1"
      by (rule client_ok_cong [rotated -1]) (use s n Inr supported in \<open>auto simp: start_local_def request_link_def Let_def\<close>)
    then show ?thesis using s n Inr supported by (auto simp: start_local_def request_link_def Let_def)
  qed
qed

lemma accepting_audio_Inr:
  assumes "accepting_audio r rc = Inr (i, e, net)"
  shows "i < length (rc_entries rc)" "e = rc_entries rc ! i" "en_playback e = r" "en_phase e \<noteq> RenderCancelling"
    "en_network e = Some net" "\<not> nt_source_done net"
  using assms position_less [of "\<lambda>e. en_playback e = r" "rc_entries rc" i]
  by (auto simp: accepting_audio_def playback_index_def Let_def split: option.splits if_splits)

lemma accepting_stream:
  assumes "client_ok h rc" "accepting_audio r rc = Inr (i, e, net)"
  shows "stream_live (rc_calls rc) (rh_pushed h (pr_id r)) r net" "ends_of (pr_id r) (rc_calls rc) = []" "\<not> nt_end_sent net"
    "nt_completed net \<le> rh_reported h r" "en_phase e = AwaitingAck \<Longrightarrow> nt_retry_at net = None"
    "en_phase e = RenderRunning \<Longrightarrow> RenderAccepted r \<in> set (rh_events h @ rc_events rc)"
  using client_ok_entry(2) [OF assms(1), of i] accepting_audio_Inr [OF assms(2)]
  by (auto simp: entry_ok_def stream_ended_ok_def split: if_splits)

lemma finish_audio_ok:
  assumes ok: "client_ok h rc"
  shows "\<exists>res rc1. finish_audio link now r rc = Some (res, rc1) \<and> client_ok h rc1"
proof (cases "accepting_audio r rc")
  case (Inr x)
  obtain i e net where a: "accepting_audio r rc = Inr (i, e, net)" using Inr by (cases x) auto
  note v = accepting_audio_Inr [OF a] and st = accepting_stream [OF ok a]
  let ?e = "e\<lparr>en_network := Some (net\<lparr>nt_source_done := True\<rparr>)\<rparr>"
  have "entry_ok h (rc_calls rc) (rh_events h @ rc_events rc @ []) ?e"
    using v st client_ok_entry(2) [OF ok v(1)] by (auto simp: entry_ok_def stream_live_def stream_ended_ok_def)
  moreover have "stream_ok h (rc_calls rc) (rh_events h @ rc_events rc @ []) (en_playback ?e)"
    using client_ok_entry(3) [OF ok v(1)] v(2) by simp
  ultimately have "client_ok h (rc\<lparr>rc_entries := (rc_entries rc)[i := ?e], rc_calls := rc_calls rc, rc_events := rc_events rc @ []\<rparr>)"
    using v by (intro client_ok_replace [OF ok v(1)]) simp_all
  from pump_ok [OF this, of i link now] v(1) show ?thesis using a by (auto simp: finish_audio_def)
qed (use ok in \<open>simp add: finish_audio_def\<close>)

lemma stream_live_more:
  "stream_live calls pushed r net \<Longrightarrow> stream_live calls (pushed @ pcm) r (net\<lparr>nt_pending := nt_pending net @ pcm\<rparr>)"
  by (auto simp: stream_live_def)

lemma streams_over_update:
  assumes "streams_over h calls es" "entry_id e = entry_id (es ! i)" "en_phase e \<noteq> RenderCancelling" "en_network e \<noteq> None"
    "rh_streams h1 = rh_streams h"
  shows "streams_over h1 calls (es[i := e])"
  unfolding streams_over_def
proof
  fix p assume "p \<in> rh_streams h1"
  then consider "token_cancelled p calls" | x where "x \<in> set es" "entry_id x = p" "en_phase x \<noteq> RenderCancelling" "en_network x \<noteq> None"
    using assms(1,5) unfolding streams_over_def by metis
  then show "token_cancelled p calls \<or> (\<exists>x \<in> set (es[i := e]). entry_id x = p \<and> en_phase x \<noteq> RenderCancelling \<and> en_network x \<noteq> None)"
  proof cases
    case (2 x)
    then obtain j where j: "j < length es" "es ! j = x" by (auto simp: in_set_conv_nth)
    then have "es[i := e] ! j \<in> set (es[i := e])" by simp
    moreover have "entry_id (es[i := e] ! j) = p" "en_phase (es[i := e] ! j) \<noteq> RenderCancelling" "en_network (es[i := e] ! j) \<noteq> None"
      using 2 j assms(2-4) by (cases "j = i"; simp)+
    ultimately show ?thesis by blast
  qed simp
qed

lemma client_ok_push:
  assumes ok: "client_ok h rc" and a: "accepting_audio r rc = Inr (i, e, net)" and fits: "rh_total h + length pcm \<le> u64_max"
    and h1: "h1 = h\<lparr>rh_pushed := (rh_pushed h)(pr_id r := rh_pushed h (pr_id r) @ pcm), rh_total := rh_total h + length pcm\<rparr>"
  shows "client_ok h1 (rc\<lparr>rc_entries := (rc_entries rc)[i := e\<lparr>en_network := Some (net\<lparr>nt_pending := nt_pending net @ pcm\<rparr>)\<rparr>]\<rparr>)"
proof -
  note v = accepting_audio_Inr [OF a] and st = accepting_stream [OF ok a]
  let ?e = "e\<lparr>en_network := Some (net\<lparr>nt_pending := nt_pending net @ pcm\<rparr>)\<rparr>" and ?ev = "rh_events h @ rc_events rc"
  have d: "distinct (map entry_id (rc_entries rc))" and inj: "inj_on pr_id (set (rh_started h))" using ok by (simp_all add: client_ok_def distinct_map)
  have started: "r \<in> set (rh_started h)" using client_ok_entry(1) [OF ok v(1)] v by simp
  have live1: "stream_live (rc_calls rc) (rh_pushed h1 (pr_id r)) r (net\<lparr>nt_pending := nt_pending net @ pcm\<rparr>)"
    using stream_live_more [OF st(1)] by (simp add: h1)
  have e1: "entry_ok h1 (rc_calls rc) ?ev ?e"
    using v live1 st by (auto simp: entry_ok_def stream_ended_ok_def h1)
  have "stream_ok h1 (rc_calls rc) ?ev r"
    using client_ok_entry(3) [OF ok v(1)] v stream_sent_done [OF stream_live_sent [OF live1] st(2)] by (simp add: stream_ok_def h1)
  moreover have "stream_ok h1 (rc_calls rc) ?ev q" if "q \<in> set (rh_started h)" "q \<noteq> r" for q
  proof -
    have "pr_id q \<noteq> pr_id r" using inj that started by (auto dest: inj_onD)
    moreover have "stream_ok h (rc_calls rc) ?ev q" using ok that by (simp add: client_ok_def)
    ultimately show ?thesis by (simp add: stream_ok_def h1)
  qed
  ultimately have streams: "\<forall>q \<in> set (rh_started h). stream_ok h1 (rc_calls rc) ?ev q" by metis
  have entries: "en_playback x \<in> set (rh_started h) \<and> entry_ok h1 (rc_calls rc) ?ev x" if "x \<in> set ((rc_entries rc)[i := ?e])" for x
    using update_others [OF d v(1) that]
  proof
    assume "x = ?e"
    then show ?thesis using e1 v started by simp
  next
    assume x: "x \<in> set (rc_entries rc) \<and> entry_id x \<noteq> entry_id (rc_entries rc ! i)"
    then have "entry_ok h (rc_calls rc) ?ev x" "en_playback x \<in> set (rh_started h)" using ok by (simp_all add: client_ok_def)
    then show ?thesis using x v by (auto simp: entry_ok_def h1 split: option.splits)
  qed
  have "streams_over h1 (rc_calls rc) ((rc_entries rc)[i := ?e])"
    using v ok by (intro streams_over_update [of h]) (simp_all add: client_ok_def h1)
  moreover have "map entry_id ((rc_entries rc)[i := ?e]) = map entry_id (rc_entries rc)"
    using v by (simp add: map_update list_update_same_conv)
  moreover have "length (rh_pushed h1 p) \<le> rh_total h1" for p using ok by (auto simp: client_ok_def h1 add_mono trans_le_add1)
  moreover have "p \<noteq> pr_id r" if "p \<notin> pr_id ` set (rh_started h)" for p using that started by auto
  ultimately show ?thesis using ok streams entries fits d by (auto simp: client_ok_def h1)
qed

lemma push_audio_ok:
  assumes ok: "client_ok h rc" and fits: "rh_total h + length pcm \<le> u64_max"
  shows "\<exists>res rc1. push_audio link now r pcm rc = Some (res, rc1)
    \<and> client_ok (case res of Inl _ \<Rightarrow> h
        | Inr _ \<Rightarrow> h\<lparr>rh_pushed := (rh_pushed h)(pr_id r := rh_pushed h (pr_id r) @ pcm), rh_total := rh_total h + length pcm\<rparr>) rc1"
proof (cases "accepting_audio r rc")
  case (Inr x)
  obtain i e net where a: "accepting_audio r rc = Inr (i, e, net)" using Inr by (cases x) auto
  from pump_ok [OF client_ok_push [OF ok a fits refl], of i link now] accepting_audio_Inr(1) [OF a]
  show ?thesis using a by (auto simp: push_audio_def)
qed (use ok in \<open>simp add: push_audio_def\<close>)

lemma cancel_playback_ok: "client_ok h rc \<Longrightarrow> client_ok h (snd (cancel_playback link r reason rc))"
  using position_less by (fastforce simp: cancel_playback_def playback_index_def intro!: cancel_at_ok split: option.splits)

lemma start_accepted_ok:
  assumes ok: "client_ok h rc" and i: "i < length (rc_entries rc)"
  shows "\<exists>rc1. start_accepted link now i rc = Some rc1 \<and> client_ok h rc1"
proof (cases "en_phase (rc_entries rc ! i) = AwaitingAck")
  case True
  let ?e = "(rc_entries rc ! i)\<lparr>en_phase := RenderRunning\<rparr>" and ?evs = "[RenderAccepted (en_playback (rc_entries rc ! i))]"
  have "entry_ok h (rc_calls rc) (rh_events h @ rc_events rc @ ?evs) ?e"
    using client_ok_entry(2) [OF ok i] True by (auto simp: entry_ok_def split: option.splits)
  moreover have "stream_ok h (rc_calls rc) (rh_events h @ rc_events rc @ ?evs) (en_playback ?e)"
    using client_ok_entry(3) [OF ok i] by (auto simp: stream_ok_def)
  ultimately have "client_ok h (rc\<lparr>rc_entries := (rc_entries rc)[i := ?e], rc_calls := rc_calls rc, rc_events := rc_events rc @ ?evs\<rparr>)"
    by (intro client_ok_replace [OF ok i]) simp_all
  then have "client_ok h (rc\<lparr>rc_entries := (rc_entries rc)[i := ?e], rc_events := rc_events rc @ ?evs\<rparr>)" by simp
  from pump_ok [OF this, of i link now] i True show ?thesis by (auto simp: start_accepted_def Let_def)
qed (use ok in \<open>simp add: start_accepted_def\<close>)

lemma start_unconfirmed_ok:
  assumes ok: "client_ok h rc" and i: "i < length (rc_entries rc)"
  shows "client_ok h (start_unconfirmed link p i rc)"
proof -
  define rc1 where "rc1 = (if en_phase (rc_entries rc ! i) \<noteq> RenderCancelling then cancel_at link i CancelUnconfirmed rc else rc)"
  have "client_ok h rc1" using ok cancel_at_ok [OF ok i] by (simp add: rc1_def)
  then show ?thesis
    unfolding start_unconfirmed_def rc1_def [symmetric] Let_def
    using end_at_ok [of h rc1] position_less [of "\<lambda>e. entry_id e = p" "rc_entries rc1"] by (auto split: option.split)
qed

lemma ack_playback_ok:
  assumes ok: "client_ok h rc" and i: "i < length (rc_entries rc)"
  shows "\<exists>rc1. ack_playback link now p i kind outcome rc = Some rc1 \<and> client_ok h rc1"
  using ok end_at_ok [OF ok i] start_unconfirmed_ok [OF ok i] start_accepted_ok [OF ok i]
  by (cases "(link, now, p, i, kind, outcome, rc)" rule: ack_playback.cases) simp_all

lemma render_on_ack_ok:
  assumes ok: "client_ok h rc"
  shows "\<exists>res rc1. render_on_ack link now m outcome rc = Some (res, rc1) \<and> client_ok h rc1"
proof (cases "rc_commands rc m")
  case (Some x)
  obtain p kind where x: "x = (p, kind)" by (cases x)
  let ?rc1 = "rc\<lparr>rc_commands := (rc_commands rc)(m := None)\<rparr>"
  have ok1: "client_ok h ?rc1" using ok by simp
  show ?thesis
  proof (cases "position (\<lambda>e. entry_id e = p) (rc_entries rc)")
    case pos: (Some i)
    then have "i < length (rc_entries ?rc1)" using position_less by fastforce
    from ack_playback_ok [OF ok1 this, of link now p kind outcome] show ?thesis
      using Some x pos by (auto simp: render_on_ack_def)
  qed (use Some x ok1 in \<open>auto simp: render_on_ack_def\<close>)
qed (use ok in \<open>auto simp: render_on_ack_def\<close>)

lemma client_ok_report:
  assumes "client_ok h rc"
  shows "client_ok (note_report g report h) rc"
proof (cases report)
  case (ProgressReport p)
  let ?h = "note_report g (ProgressReport p) h"
  have f: "rh_started ?h = rh_started h" "rh_streams ?h = rh_streams h" "rh_pushed ?h = rh_pushed h" "rh_total ?h = rh_total h" "rh_events ?h = rh_events h"
    and r: "rh_reported h r \<le> rh_reported ?h r" for r
    by simp_all
  have m: "n \<le> rh_reported ?h r" if "n \<le> rh_reported h r" for n r using that r order_trans by blast
  have e: "entry_ok ?h calls events e" if "entry_ok h calls events e" for calls events e
    using that unfolding entry_ok_def f(3) by (cases "en_network e") (auto intro: m simp del: note_report.simps)
  have s: "stream_ok ?h calls events q" if "stream_ok h calls events q" for calls events q
    using that r [of q] unfolding stream_ok_def f(3) by (auto simp del: note_report.simps intro: order_trans add_mono)
  show ?thesis
    using assms e s unfolding ProgressReport client_ok_def f streams_over_def by blast
qed (use assms in simp)

lemma progress_at_ok:
  assumes ok: "client_ok h rc" and i: "i < length (rc_entries rc)" and n: "rp_completed_frames progress \<le> rh_reported h (en_playback (rc_entries rc ! i))"
  shows "\<exists>rc1. progress_at link now i progress rc = Some rc1 \<and> client_ok h rc1"
proof -
  let ?e = "rc_entries rc ! i" and ?start = "rp_event progress = Known EventStart"
  define advanced where "advanced = (case en_network ?e of Some net \<Rightarrow> rp_completed_frames progress > nt_completed net | None \<Rightarrow> False)"
  define net where "net = (if advanced then map_option (\<lambda>n. n\<lparr>nt_completed := rp_completed_frames progress\<rparr>) (en_network ?e) else en_network ?e)"
  let ?e1 = "?e\<lparr>en_network := net, en_limits := map_option (note_progress ?start advanced now) (en_limits ?e)\<rparr>"
  let ?evs = "(if ?start then [RenderStarted (en_playback ?e)] else []) @ [RenderProgressed (en_playback ?e) progress]"
  have live: "stream_live calls pushed r (n\<lparr>nt_completed := m\<rparr>)" if "stream_live calls pushed r n" "nt_completed n \<le> m" for calls pushed r n m
    using that by (auto simp: stream_live_def)
  have "entry_ok h (rc_calls rc) (rh_events h @ rc_events rc @ ?evs) ?e1"
  proof (cases "en_network ?e")
    case None
    then show ?thesis using client_ok_entry(2) [OF ok i] by (auto simp: entry_ok_def net_def)
  next
    case (Some n0)
    then show ?thesis using client_ok_entry(2) [OF ok i] n live
      by (cases advanced) (auto simp: entry_ok_def net_def advanced_def stream_ended_ok_def split: if_splits)
  qed
  moreover have "stream_ok h (rc_calls rc) (rh_events h @ rc_events rc @ ?evs) (en_playback ?e1)"
    using client_ok_entry(3) [OF ok i] by (auto simp: stream_ok_def)
  moreover have "token_cancelled (entry_id ?e1) (rc_calls rc)" if "en_phase ?e1 = RenderCancelling" "en_network ?e1 \<noteq> None"
    using client_ok_entry(2) [OF ok i] that by (auto simp: entry_ok_def net_def split: if_splits)
  ultimately have "client_ok h (rc\<lparr>rc_entries := (rc_entries rc)[i := ?e1], rc_calls := rc_calls rc, rc_events := rc_events rc @ ?evs\<rparr>)"
    by (intro client_ok_replace [OF ok i]) (simp_all add: net_def)
  then have "client_ok h (rc\<lparr>rc_entries := (rc_entries rc)[i := ?e1], rc_events := rc_events rc @ ?evs\<rparr>)" by simp
  from pump_ok [OF this, of i link now] i show ?thesis by (auto simp: progress_at_def Let_def net_def advanced_def)
qed

lemma render_on_report_ok:
  assumes ok: "client_ok h rc"
  shows "\<exists>res rc1. render_on_report link now g report rc = Some (res, rc1) \<and> client_ok (note_report g report h) rc1"
proof -
  have ok1: "client_ok (note_report g report h) rc" by (rule client_ok_report [OF ok])
  let ?P = "\<lambda>e. entry_id e = report_playback_id report \<and> pr_generation (en_playback e) = g"
  show ?thesis
  proof (cases "position ?P (rc_entries rc)")
    case None
    then show ?thesis using ok1 by (auto simp: render_on_report_def)
  next
    case (Some i)
    then have i: "i < length (rc_entries rc)" "?P (rc_entries rc ! i)" using position_less [of ?P] by simp_all
    show ?thesis
    proof (cases report)
      case (ProgressReport p)
      then have "rp_completed_frames p \<le> rh_reported (note_report g report h) (en_playback (rc_entries rc ! i))" using i(2) by simp
      from progress_at_ok [OF ok1 i(1) this, of link now] show ?thesis
        using Some ProgressReport by (auto simp: render_on_report_def)
    next
      case (FinishedReport f)
      then show ?thesis using Some end_at_ok [OF ok1 i(1)] by (auto simp: render_on_report_def)
    qed
  qed
qed

subsection \<open>Time\<close>

definition quiet_entry :: "mono_instant \<Rightarrow> render_entry \<Rightarrow> bool" where
  "quiet_entry now e \<longleftrightarrow> (\<forall>t \<in> set (entry_deadlines e). now < t)"

lemma quiet_cancelled: "client_ok h rc \<Longrightarrow> e \<in> set (rc_entries rc) \<Longrightarrow> en_phase e = RenderCancelling \<Longrightarrow> quiet_entry now e"
  by (auto simp: client_ok_def entry_ok_def quiet_entry_def entry_deadlines_def split: option.splits)

lemma cancel_at_others:
  assumes "client_ok h rc" "i < length (rc_entries rc)" "e \<in> set (rc_entries (cancel_at link i reason rc))"
  shows "e \<in> set (rc_entries rc) \<and> entry_id e \<noteq> entry_id (rc_entries rc ! i)
    \<or> en_phase e = RenderCancelling \<and> entry_id e = entry_id (rc_entries rc ! i)"
proof -
  have d: "distinct (map entry_id (rc_entries rc))" using assms(1) by (simp add: client_ok_def)
  have "rc_entries (cancel_at link i reason rc) = remove_nth i (rc_entries rc) \<or>
    (\<exists>e1. rc_entries (cancel_at link i reason rc) = (rc_entries rc)[i := e1] \<and> en_phase e1 = RenderCancelling
          \<and> entry_id e1 = entry_id (rc_entries rc ! i))"
    by (auto simp: cancel_at_def end_at_def request_link_def Let_def remove_nth_update split: sum.splits)
  then show ?thesis using remove_others [OF d assms(2)] update_others [OF d assms(2)] assms(3) by metis
qed

lemma retry_due_running:
  assumes "client_ok h rc" "e \<in> set (rc_entries rc)" "retry_due now e"
  shows "en_phase e = RenderRunning"
  using assms by (cases "en_phase e") (auto simp: client_ok_def entry_ok_def retry_due_def split: option.splits)

text \<open>The first half of polling a playback: a refused frame is offered again when it is due.\<close>

lemma retried:
  assumes ok: "client_ok h rc" and i: "i < length (rc_entries rc)"
  shows "\<exists>rc1. (if retry_due now (rc_entries rc ! i) then pump link now i rc else Some rc) = Some rc1 \<and> client_ok h rc1
    \<and> (\<forall>e \<in> set (rc_entries rc1). e \<in> set (rc_entries rc) \<and> entry_id e \<noteq> entry_id (rc_entries rc ! i)
        \<or> entry_id e = entry_id (rc_entries rc ! i) \<and> \<not> retry_due now e)"
proof (cases "retry_due now (rc_entries rc ! i)")
  case True
  obtain rc1 where rc1: "pump link now i rc = Some rc1" "client_ok h rc1" "pumped now i rc rc1" using pump_ok [OF ok i] by blast
  have run: "en_phase (rc_entries rc ! i) = RenderRunning" "en_network (rc_entries rc ! i) \<noteq> None"
    using retry_due_running [OF ok nth_mem [OF i] True] True by (auto simp: retry_due_def split: option.splits)
  have "e \<in> set (rc_entries rc) \<and> entry_id e \<noteq> entry_id (rc_entries rc ! i) \<or> entry_id e = entry_id (rc_entries rc ! i) \<and> \<not> retry_due now e"
    if "e \<in> set (rc_entries rc1)" for e
    using rc1(3) that run unfolding pumped_def by (fastforce simp: retry_due_def FRAME_RETRY_def)
  then show ?thesis using True rc1 by auto
next
  case False
  have "distinct (map entry_id (rc_entries rc))" using ok by (simp add: client_ok_def)
  then have "entry_id e \<noteq> entry_id (rc_entries rc ! i) \<or> e = rc_entries rc ! i" if "e \<in> set (rc_entries rc)" for e
    using that i by (metis (no_types, lifting) distinct_conv_nth in_set_conv_nth length_map nth_map)
  then show ?thesis using False ok by auto
qed

lemma enforce_limit_ok:
  assumes ok: "client_ok h rc" and i: "i < length (rc_entries rc)"
  shows "client_ok h (enforce_limit link now i rc)"
    and "\<not> retry_due now (rc_entries rc ! i) \<Longrightarrow> e \<in> set (rc_entries (enforce_limit link now i rc)) \<Longrightarrow>
      e \<in> set (rc_entries rc) \<and> entry_id e \<noteq> entry_id (rc_entries rc ! i) \<or> entry_id e = entry_id (rc_entries rc ! i) \<and> quiet_entry now e"
proof -
  let ?e = "rc_entries rc ! i" and ?rc1 = "\<lambda>l. rc\<lparr>rc_events := rc_events rc @ [RenderLimitExceeded (en_playback (rc_entries rc ! i)) l]\<rparr>"
  have ok1: "client_ok h (?rc1 l)" for l
    using client_ok_replace [OF ok i refl changes_only_refl, of "[RenderLimitExceeded (en_playback ?e) l]"]
      client_ok_entry [OF ok i] entry_ok_frame [OF client_ok_entry(2) [OF ok i] changes_only_refl] i
    by (auto simp: stream_ok_def entry_ok_def split: option.splits)
  show "client_ok h (enforce_limit link now i rc)"
    using ok cancel_at_ok [OF ok1] i by (auto simp: enforce_limit_def Let_def split: option.split prod.split)
  assume due: "\<not> retry_due now ?e" and e: "e \<in> set (rc_entries (enforce_limit link now i rc))"
  have d: "distinct (map entry_id (rc_entries rc))" using ok by (simp add: client_ok_def)
  consider (cancelling) "en_phase ?e = RenderCancelling" "enforce_limit link now i rc = rc"
    | (exceeded) l where "enforce_limit link now i rc = cancel_at link i CancelResponseTimeout (?rc1 l)"
    | (fine) "quiet_entry now ?e" "enforce_limit link now i rc = rc"
  proof (cases "en_phase ?e = RenderCancelling")
    case True
    then show thesis using that(1) by (simp add: enforce_limit_def)
  next
    case False
    show thesis
    proof (cases "en_limits ?e")
      case None
      have "quiet_entry now ?e" using due None by (auto simp: quiet_entry_def entry_deadlines_def retry_due_def split: option.splits)
      then show thesis using that(3) None by (simp add: enforce_limit_def Let_def)
    next
      case (Some c)
      have "quiet_entry now ?e" if "\<not> fst (limit_deadline c) \<le> now"
        using due Some that by (auto simp: quiet_entry_def entry_deadlines_def retry_due_def split: option.splits)
      then show thesis using that(2,3) Some False by (cases "fst (limit_deadline c) \<le> now") (simp_all add: enforce_limit_def case_prod_beta Let_def)
    qed
  qed
  then show "e \<in> set (rc_entries rc) \<and> entry_id e \<noteq> entry_id ?e \<or> entry_id e = entry_id ?e \<and> quiet_entry now e"
  proof cases
    case (exceeded l)
    then have "client_ok h (cancel_at link i CancelResponseTimeout (?rc1 l))" using cancel_at_ok [OF ok1] i by simp
    then show ?thesis using cancel_at_others [OF ok1, of i l e link CancelResponseTimeout] e i exceeded quiet_cancelled by auto
  next
    case cancelling
    then show ?thesis
      using e d i quiet_cancelled [OF ok nth_mem [OF i]] by (metis (no_types, lifting) distinct_conv_nth in_set_conv_nth length_map nth_map)
  next
    case fine
    then show ?thesis using e d i by (metis (no_types, lifting) distinct_conv_nth in_set_conv_nth length_map nth_map)
  qed
qed

lemma poll_playback_ok:
  assumes ok: "client_ok h rc"
  shows "\<exists>rc1. poll_playback link now p rc = Some rc1 \<and> client_ok h rc1
    \<and> (\<forall>e \<in> set (rc_entries rc1). e \<in> set (rc_entries rc) \<and> entry_id e \<noteq> p \<or> entry_id e = p \<and> quiet_entry now e)"
proof (cases "position (\<lambda>e. entry_id e = p) (rc_entries rc)")
  case None
  then show ?thesis using ok position_None [of "\<lambda>e. entry_id e = p" "rc_entries rc"] by (auto simp: poll_playback_def)
next
  case (Some i)
  then have i: "i < length (rc_entries rc)" "entry_id (rc_entries rc ! i) = p" using position_less [of "\<lambda>e. entry_id e = p"] by simp_all
  obtain rc1 where r: "(if retry_due now (rc_entries rc ! i) then pump link now i rc else Some rc) = Some rc1" and ok1: "client_ok h rc1"
    and others: "\<And>e. e \<in> set (rc_entries rc1) \<Longrightarrow> e \<in> set (rc_entries rc) \<and> entry_id e \<noteq> p \<or> entry_id e = p \<and> \<not> retry_due now e"
    using retried [OF ok i(1), of now link] i(2) by metis
  show ?thesis
  proof (cases "position (\<lambda>e. entry_id e = p) (rc_entries rc1)")
    case None
    then have "poll_playback link now p rc = Some rc1" using Some r by (simp add: poll_playback_def)
    then show ?thesis using ok1 others None position_None [of "\<lambda>e. entry_id e = p" "rc_entries rc1"] by auto
  next
    case j: (Some j)
    then have jj: "j < length (rc_entries rc1)" "entry_id (rc_entries rc1 ! j) = p" using position_less [of "\<lambda>e. entry_id e = p"] by simp_all
    have "\<not> retry_due now (rc_entries rc1 ! j)" using others [OF nth_mem [OF jj(1)]] jj(2) by simp
    note quiet = enforce_limit_ok(2) [OF ok1 jj(1) this, of _ link, unfolded jj(2)]
    have "poll_playback link now p rc = Some (enforce_limit link now j rc1)" using Some r j by (simp add: poll_playback_def)
    moreover have "client_ok h (enforce_limit link now j rc1)" by (rule enforce_limit_ok(1) [OF ok1 jj(1)])
    ultimately show ?thesis using quiet others by blast
  qed
qed

lemma poll_playbacks_ok:
  assumes "client_ok h rc" "\<forall>e \<in> set (rc_entries rc). entry_id e \<in> set ps \<or> quiet_entry now e"
  shows "\<exists>rc1. poll_playbacks link now ps rc = Some rc1 \<and> client_ok h rc1 \<and> (\<forall>e \<in> set (rc_entries rc1). quiet_entry now e)"
  using assms
proof (induction ps arbitrary: rc)
  case (Cons p ps)
  obtain rc1 where rc1: "poll_playback link now p rc = Some rc1" "client_ok h rc1"
      "\<forall>e \<in> set (rc_entries rc1). e \<in> set (rc_entries rc) \<and> entry_id e \<noteq> p \<or> entry_id e = p \<and> quiet_entry now e"
    using poll_playback_ok [OF Cons.prems(1)] by blast
  then have "\<forall>e \<in> set (rc_entries rc1). entry_id e \<in> set ps \<or> quiet_entry now e" using Cons.prems(2) by fastforce
  from Cons.IH [OF rc1(2) this] show ?case using rc1(1) by simp
qed simp

lemma render_poll_ok:
  assumes "client_ok h rc"
  shows "\<exists>rc1. render_poll link now rc = Some rc1 \<and> client_ok h rc1 \<and> (\<forall>e \<in> set (rc_entries rc1). quiet_entry now e)"
  using poll_playbacks_ok [OF assms, of "map entry_id (rc_entries rc)" now link] by (simp add: render_poll_def)

lemma fold_min_mem: "fold min ds d \<in> set (d # ds)" for d :: mono_instant
  by (induction ds arbitrary: d) (fastforce simp: min_def)+

lemma quiet_deadline:
  assumes "\<forall>e \<in> set (rc_entries rc). quiet_entry now e"
  shows "case render_next_deadline rc of Some t \<Rightarrow> now < t | None \<Rightarrow> True"
proof (cases "concat (map entry_deadlines (rc_entries rc))")
  case (Cons d ds)
  have "fold min ds d \<in> set (concat (map entry_deadlines (rc_entries rc)))" unfolding Cons by (rule fold_min_mem)
  then have "now < fold min ds d" using assms unfolding quiet_entry_def set_concat set_map by blast
  then show ?thesis using Cons by (simp add: render_next_deadline_def)
next
  case Nil
  then show ?thesis by (simp only: render_next_deadline_def list.case option.case)
qed

subsection \<open>Any run\<close>

lemma drain_entries_ok: "client_ok h rc \<Longrightarrow> rc_entries rc = es \<Longrightarrow> client_ok h (drain_entries es (rc\<lparr>rc_entries := []\<rparr>))"
proof (induction es arbitrary: rc)
  case Nil
  then show ?case by (cases rc) simp
next
  case (Cons e es)
  have "client_ok h (end_at 0 PlaybackLinkClosed rc)" using Cons.prems by (intro end_at_ok) simp_all
  moreover have "rc_entries (end_at 0 PlaybackLinkClosed rc) = es" using Cons.prems by (simp add: end_at_def remove_nth_def Let_def)
  ultimately have "client_ok h (drain_entries es ((end_at 0 PlaybackLinkClosed rc)\<lparr>rc_entries := []\<rparr>))" by (rule Cons.IH)
  moreover have "(end_at 0 PlaybackLinkClosed rc)\<lparr>rc_entries := []\<rparr> =
      rc\<lparr>rc_entries := [], rc_calls := cancel_token e (rc_calls rc), rc_events := rc_events rc @ [RenderEnded (en_playback e) PlaybackLinkClosed]\<rparr>"
    using Cons.prems by (simp add: end_at_def remove_nth_def Let_def)
  ultimately show ?case by simp
qed

lemma next_event_ok:
  assumes "client_ok h rc" "next_render_event rc = (e, rc1)"
  shows "client_ok (h\<lparr>rh_events := rh_events h @ (case e of Some x \<Rightarrow> [x] | None \<Rightarrow> [])\<rparr>) rc1"
proof (cases "rc_events rc")
  case Nil
  then show ?thesis using assms by (simp add: next_render_event_def)
next
  case (Cons x es)
  let ?h = "h\<lparr>rh_events := rh_events h @ [x]\<rparr>"
  have k: "e = Some x" "rc1 = rc\<lparr>rc_events := es\<rparr>" "rh_events ?h @ es = rh_events h @ rc_events rc" using assms(2) Cons by (auto simp: next_render_event_def)
  have "entry_ok ?h calls events y = entry_ok h calls events y" "stream_ok ?h calls events r = stream_ok h calls events r" for calls events y r
    by (rule entry_ok_history; simp)+
  then show ?thesis using assms(1) k unfolding client_ok_def by (simp add: streams_over_def)
qed

lemma render_step_ok:
  assumes "case s of (rc, h) \<Rightarrow> client_ok h rc"
  shows "\<exists>s1. render_step link op s = Some s1 \<and> (case s1 of (rc, h) \<Rightarrow> client_ok h rc)"
proof -
  obtain rc h where s: "s = (rc, h)" and ok: "client_ok h rc" using assms by (cases s) simp
  show ?thesis
  proof (cases op)
    case (StartNetwork start p draws)
    show ?thesis
    proof (cases "p \<in> pr_id ` set (rh_started h) \<or> start_network link start p draws rc = None")
      case False
      then obtain res rc1 where r: "start_network link start p draws rc = Some (res, rc1)" by force
      then show ?thesis using start_network_ok [OF ok _ r] False s StartNetwork by (cases res) simp_all
    qed (use s ok StartNetwork in auto)
  next
    case (StartLocal source gain ann p)
    obtain res rc1 where r: "start_local link source gain ann p rc = (res, rc1)" by fastforce
    then show ?thesis using start_local_ok [OF ok _ r] s ok StartLocal by (cases res) simp_all
  next
    case (PushAudio now r pcm)
    show ?thesis
    proof (cases "rh_total h + length pcm > u64_max")
      case False
      then obtain res rc1 where p: "push_audio link now r pcm rc = Some (res, rc1)"
        "client_ok (case res of Inl _ \<Rightarrow> h
          | Inr _ \<Rightarrow> h\<lparr>rh_pushed := (rh_pushed h)(pr_id r := rh_pushed h (pr_id r) @ pcm), rh_total := rh_total h + length pcm\<rparr>) rc1"
        using push_audio_ok [OF ok, of pcm link now r] by auto
      then show ?thesis using False s PushAudio by (cases res) simp_all
    qed (use s ok PushAudio in simp)
  next
    case (FinishAudio now r)
    then show ?thesis using s finish_audio_ok [OF ok, of link now r] by auto
  next
    case (CancelPlayback r reason)
    then show ?thesis using s cancel_playback_ok [OF ok] by simp
  next
    case (AckRender now m outcome)
    then show ?thesis using s render_on_ack_ok [OF ok, of link now m outcome] by auto
  next
    case (ReportRender now g report)
    then show ?thesis using s render_on_report_ok [OF ok, of link now g report] by auto
  next
    case (PollRender now)
    then show ?thesis using s render_poll_ok [OF ok, of link now] by auto
  next
    case EndRenderSession
    then show ?thesis using s drain_entries_ok [OF ok refl] by (simp add: render_session_ended_def)
  next
    case NextRenderEvent
    obtain e rc1 where n: "next_render_event rc = (e, rc1)" by fastforce
    then show ?thesis using s NextRenderEvent next_event_ok [OF ok n] by simp
  qed
qed

interpretation render_machine: total_machine "render_step link" "\<lambda>(rc, h). client_ok h rc" for link
  by unfold_locales (rule render_step_ok)

lemma render_new_ok: "client_ok history_new (render_new caps)"
  by (simp add: client_ok_def render_new_def history_new_def streams_over_def)

lemma render_run_ok: "\<exists>rc h. render_run link caps ops = Some (rc, h) \<and> client_ok h rc"
  using render_machine.run_total [of "(render_new caps, history_new)" link ops] render_new_ok by (auto simp: render_run_def)

text \<open>
  A device that reports nearly all of the 64-bit range completed makes the addition of the window wrap,
  which closes the window for the rest of the playback.
\<close>

lemma reported_overflow_closes_window:
  assumes "nt_completed net = 2 ^ 64 - 1" "nt_blocked net = None" "258304 \<le> nt_next_frame net"
  shows "take_packet p g net = Some None"
  using assms packet_size_bounds [of net] by (auto simp: take_packet_def window_end_def MAX_FRAMES_AHEAD_def split: option.split)

text \<open>One playback of three frames on a link that takes everything.\<close>

definition example_link :: render_link where
  "example_link = \<lparr>lk_request = (\<lambda>calls command generation. Inr ''m''), lk_queue_frame = (\<lambda>calls frame. FrameQueued)\<rparr>"

definition example_ref :: playback_ref where
  "example_ref = \<lparr>pr_id = ''p'', pr_class = ClassContent, pr_generation = 1\<rparr>"

definition example_start :: network_start where
  "example_start = \<lparr>ns_class = NetworkContent, ns_gain_db = 0, ns_announcement = False, ns_limits = None\<rparr>"

definition example_render_ops :: "render_op list" where
  "example_render_ops = [StartNetwork example_start ''p'' [0, 7], AckRender 0 ''m'' AckAccepted, PushAudio 1 example_ref [1, 2, 3],
     FinishAudio 2 example_ref]"

lemma example_packet: "\<exists>bytes. encode_render 7 0 0 1 0 [1, 2, 3] = Inr bytes"
  by (simp add: encode_render_Inr_iff render_ok_def contains_flags_def DIGITAL_SILENCE_def u64_max_def)

lemmas render_eval =
  render_run_def render_new_def history_new_def example_link_def example_ref_def example_start_def start_network_def supersede.simps
  fresh_epoch_def next_playback_def request_link_def FORMAT_PCM16_def render_on_ack_def start_accepted_def pump_def pump_loop.simps
  take_packet_def packet_size_def PACKET_FRAMES_def push_audio_def accepting_audio_def playback_index_def finish_audio_def send_end_def
  window_end_def MAX_FRAMES_AHEAD_def u64_max_def Let_def

lemma example_render_run:
  "\<exists>rc h f. render_run example_link capabilities_default example_render_ops = Some (rc, h) \<and> rh_started h = [example_ref]
     \<and> rh_pushed h ''p'' = [1, 2, 3] \<and> ends_of ''p'' (rc_calls rc) = [3] \<and> frames_of ''p'' (rc_calls rc) = [f]
     \<and> rh_streams h = {''p''} \<and> rh_reported h example_ref = 0
     \<and> map entry_id (rc_entries rc) = [''p'']"
proof -
  obtain bytes where "encode_render 7 0 0 1 0 [1, 2, 3] = Inr bytes" using example_packet by blast
  then show ?thesis by (simp add: example_render_ops_def) (simp add: render_eval frames_of_def ends_of_def)
qed

section \<open>Properties\<close>



text \<open>
  (C34) Every playback ends once: those reported ended, handed over or not, and those still kept are exactly
  those started, each once; and the packets of a playback that is cancelled or over are never
  written after that, since its token is cancelled.
\<close>

theorem playbacks_end_once:
  "\<exists>rc h. render_run link caps ops = Some (rc, h) \<and> distinct (map pr_id (rh_started h))
    \<and> mset (ended_playbacks (rh_events h @ rc_events rc)) + mset (map entry_id (rc_entries rc)) = mset (map pr_id (rh_started h))
    \<and> (\<forall>p \<in> rh_streams h. \<not> token_cancelled p (rc_calls rc) \<longrightarrow>
         (\<exists>e \<in> set (rc_entries rc). entry_id e = p \<and> en_phase e \<noteq> RenderCancelling))"
proof -
  obtain rc h where r: "render_run link caps ops = Some (rc, h)" "client_ok h rc" using render_run_ok by blast
  then show ?thesis by (fastforce simp: client_ok_def streams_over_def)
qed

theorem playbacks_end_once_witness:
  "\<exists>rc h. render_run example_link capabilities_default example_render_ops = Some (rc, h)
    \<and> ended_playbacks (rh_events h @ rc_events rc) = [] \<and> map entry_id (rc_entries rc) = [''p'']
    \<and> (token_cancelled ''p'' (rc_calls rc) \<or> (\<exists>e \<in> set (rc_entries rc). entry_id e = ''p'' \<and> en_phase e \<noteq> RenderCancelling))"
proof -
  obtain rc h where r: "render_run example_link capabilities_default example_render_ops = Some (rc, h)" "rh_started h = [example_ref]"
      "rh_streams h = {''p''}" "map entry_id (rc_entries rc) = [''p'']"
    using example_render_run by (elim exE conjE) (rule that)
  have "mset (ended_playbacks (rh_events h @ rc_events rc)) + mset (map entry_id (rc_entries rc)) = {#''p''#}"
    and "token_cancelled ''p'' (rc_calls rc) \<or> (\<exists>e \<in> set (rc_entries rc). entry_id e = ''p'' \<and> en_phase e \<noteq> RenderCancelling)"
    using playbacks_end_once [of example_link capabilities_default example_render_ops] unfolding r(1)
    by (simp_all add: r(2,3) example_ref_def) blast
  then show ?thesis using r(1,4) by simp
qed

text \<open>
  (C35) The device's buffer is never overrun: a playback has frames on the link only once its start was
  accepted, and each ends at most 258304 frames past the most the device reported completed of it.
\<close>

theorem window_respected:
  "\<exists>rc h. render_run link caps ops = Some (rc, h)
    \<and> (\<forall>r \<in> set (rh_started h). \<forall>f \<in> set (frames_of (pr_id r) (rc_calls rc)).
         RenderAccepted r \<in> set (rh_events h @ rc_events rc)
         \<and> rf_first_frame f + rf_frames f \<le> rh_reported h r + MAX_FRAMES_AHEAD)"
proof -
  obtain rc h where r: "render_run link caps ops = Some (rc, h)" "client_ok h rc" using render_run_ok by blast
  then have "stream_ok h (rc_calls rc) (rh_events h @ rc_events rc) p" if "p \<in> set (rh_started h)" for p
    using that by (simp add: client_ok_def)
  then show ?thesis using r(1) unfolding stream_ok_def by fastforce
qed

theorem window_respected_witness:
  "\<exists>rc h f. render_run example_link capabilities_default example_render_ops = Some (rc, h) \<and> frames_of ''p'' (rc_calls rc) = [f]
    \<and> RenderAccepted example_ref \<in> set (rh_events h @ rc_events rc) \<and> rf_first_frame f + rf_frames f \<le> 258304"
proof -
  obtain rc h f where r: "render_run example_link capabilities_default example_render_ops = Some (rc, h)" "example_ref \<in> set (rh_started h)"
      "frames_of ''p'' (rc_calls rc) = [f]" "rh_reported h example_ref = 0" "pr_id example_ref = ''p''"
    using example_render_run by (auto simp: example_ref_def)
  then show ?thesis
    using window_respected [of example_link capabilities_default example_render_ops] by (force simp: MAX_FRAMES_AHEAD_def)
qed

text \<open>
  (C36) Polls leave nothing due: after any run, a poll returns and the next deadline it leaves is in the
  future, or there is none.
\<close>

theorem render_poll_leaves_nothing_due:
  "\<exists>rc h rc1. render_run link caps ops = Some (rc, h) \<and> render_poll link now rc = Some rc1
    \<and> (case render_next_deadline rc1 of Some t \<Rightarrow> now < t | None \<Rightarrow> True)"
proof -
  obtain rc h where r: "render_run link caps ops = Some (rc, h)" "client_ok h rc" using render_run_ok by blast
  then obtain rc1 where "render_poll link now rc = Some rc1" "\<forall>e \<in> set (rc_entries rc1). quiet_entry now e"
    using render_poll_ok [OF r(2), of link now] by blast
  then show ?thesis using r(1) quiet_deadline by blast
qed

end
