(* ===== verification/Media_Player.thy ===== *)
theory Media_Player
  imports Capabilities
begin

text \<open>
  The media player of a device and its announcement queue (\<open>crates/playback/src/media.rs\<close>, with the requests and
  states of \<open>crates/esphome/src\<close>): Home Assistant's commands, dialogs and the ends of content playbacks come in,
  effects for the runtime go out. A dialog defers what changes the content; announcements wait for
  dialogs and for each other. The names of satellite announcements are a type parameter, as in the code.
\<close>

section \<open>Vocabulary\<close>

datatype media_playback = PlaybackIdle | PlaybackPlaying | PlaybackPaused | PlaybackAnnouncing

type_synonym device_volume = nat

definition device_volume_new :: "nat \<Rightarrow> device_volume option" where
  "device_volume_new step = (if step \<le> 127 then Some step else None)"

datatype media_request =
  PlayUrl string bool | MediaPlay | MediaPause | MediaStop | MediaMute | MediaUnmute | SetVolume device_volume

record media_state =
  ms_playback :: media_playback
  ms_volume :: device_volume
  ms_muted :: bool

datatype seekability = StreamSeekable | StreamLive

type_synonym media_stream_id = nat
type_synonym announcement_key = nat

datatype opener = OpenerChime | OpenerSound string | OpenerNone

record 'i announcement_plan =
  ap_key :: announcement_key
  ap_media_url :: string
  ap_opener :: opener
  ap_text :: "string option"
  ap_start_conversation :: bool
  ap_satellite :: "'i option"

record player_state =
  ps_playback :: media_playback
  ps_volume :: "device_volume option"
  ps_muted :: bool

definition entity_state :: "player_state \<Rightarrow> media_state option" where
  "entity_state s = map_option (\<lambda>v. \<lparr>ms_playback = ps_playback s, ms_volume = v, ms_muted = ps_muted s\<rparr>) (ps_volume s)"

datatype 'i media_effect =
    StartContent media_stream_id string nat
  | StopContent media_stream_id
  | SetDeviceVolume device_volume
  | StartAnnouncement "'i announcement_plan"
  | FinishAnnouncement 'i bool
  | ReportState player_state

record 'i satellite_announcement =
  sa_id :: 'i
  sa_media_url :: string
  sa_text :: "string option"
  sa_preannounce_url :: "string option"
  sa_start_conversation :: bool

datatype media_unavailable = NothingPlaying | NothingToResume | NoVolumeControl

datatype command_outcome = CommandApplied | CommandDeferred | CommandUnavailable media_unavailable

datatype content_end_reason = ContentDrained | ContentStopped | ContentFailed | ContentInterrupted

record content_end =
  ce_reason :: content_end_reason
  ce_completed_frames :: "nat option"

datatype media_intent = IntentIdle | IntentPlaying | IntentPaused

datatype media_actual = ActualIdle | ActualPlaying media_stream_id | ActualPausing media_stream_id | ActualPaused media_stream_id

record media_stream =
  mt_id :: media_stream_id
  mt_url :: string
  mt_seekable :: "seekability option"
  mt_start_frame :: nat
  mt_completed :: "nat option"

record 'i media_player =
  mp_announcement_chime :: bool
  mp_next_stream :: nat
  mp_next_announcement :: nat
  mp_stream :: "media_stream option"
  mp_intent :: media_intent
  mp_actual :: media_actual
  mp_dialog :: bool
  mp_announcing :: "'i announcement_plan option"
  mp_queue :: "'i announcement_plan list"
  mp_volume :: "device_volume option"
  mp_muted :: bool
  mp_reported :: "player_state option"
  mp_effects :: "'i media_effect list"

section \<open>The player\<close>

definition media_player_new :: "capabilities \<Rightarrow> device_volume option \<Rightarrow> 'i media_player" where
  "media_player_new caps volume =
     \<lparr>mp_announcement_chime = capabilities_contains CapAnnouncementChime caps, mp_next_stream = 0, mp_next_announcement = 0,
      mp_stream = None, mp_intent = IntentIdle, mp_actual = ActualIdle, mp_dialog = False, mp_announcing = None, mp_queue = [],
      mp_volume = volume, mp_muted = False, mp_reported = None, mp_effects = []\<rparr>"

fun intent_playback :: "media_intent \<Rightarrow> media_playback" where
  "intent_playback IntentIdle = PlaybackIdle"
| "intent_playback IntentPlaying = PlaybackPlaying"
| "intent_playback IntentPaused = PlaybackPaused"

definition player_state_of :: "'i media_player \<Rightarrow> player_state" where
  "player_state_of p =
     \<lparr>ps_playback = (if mp_announcing p \<noteq> None then PlaybackAnnouncing else intent_playback (mp_intent p)),
      ps_volume = mp_volume p, ps_muted = mp_muted p\<rparr>"

definition next_media_effect :: "'i media_player \<Rightarrow> 'i media_effect option \<times> 'i media_player" where
  "next_media_effect p = (case mp_effects p of [] \<Rightarrow> (None, p) | e # es \<Rightarrow> (Some e, p\<lparr>mp_effects := es\<rparr>))"

definition emit :: "'i media_effect \<Rightarrow> 'i media_player \<Rightarrow> 'i media_player" where
  "emit e p = p\<lparr>mp_effects := mp_effects p @ [e]\<rparr>"

definition report_state :: "'i media_player \<Rightarrow> 'i media_player" where
  "report_state p =
     (let state = player_state_of p in
      if mp_reported p \<noteq> Some state then emit (ReportState state) (p\<lparr>mp_reported := Some state\<rparr>) else p)"

definition deferring :: "'i media_player \<Rightarrow> bool" where
  "deferring p \<longleftrightarrow> mp_dialog p \<or> mp_announcing p \<noteq> None"

definition start_stream :: "media_stream_id \<Rightarrow> 'i media_player \<Rightarrow> 'i media_player" where
  "start_stream sid p =
     (case mp_stream p of
        None \<Rightarrow> p
      | Some s \<Rightarrow>
          if mt_id s \<noteq> sid then p
          else (emit (StartContent sid (mt_url s) (mt_start_frame s)) (p\<lparr>mp_stream := Some (s\<lparr>mt_completed := None\<rparr>)\<rparr>))
                 \<lparr>mp_actual := ActualPlaying sid\<rparr>)"

fun reconcile_with :: "media_intent \<Rightarrow> media_stream_id option \<Rightarrow> media_actual \<Rightarrow> 'i media_player \<Rightarrow> 'i media_player" where
  "reconcile_with IntentPaused (Some current) (ActualPlaying sid) p =
     (emit (StopContent sid) p)\<lparr>mp_actual := (if sid = current then ActualPausing sid else ActualIdle)\<rparr>"
| "reconcile_with IntentPaused (Some current) (ActualPausing sid) p = (if sid \<noteq> current then p\<lparr>mp_actual := ActualIdle\<rparr> else p)"
| "reconcile_with IntentPaused (Some current) (ActualPaused sid) p = (if sid \<noteq> current then p\<lparr>mp_actual := ActualIdle\<rparr> else p)"
| "reconcile_with IntentPaused (Some current) ActualIdle p = p"
| "reconcile_with IntentPlaying (Some current) (ActualPlaying sid) p =
     (if sid = current then p else start_stream current (emit (StopContent sid) p))"
| "reconcile_with IntentPlaying (Some current) (ActualPausing sid) p = (if sid = current then p else start_stream current p)"
| "reconcile_with IntentPlaying (Some current) actual p = start_stream current p"
| "reconcile_with intent current (ActualPlaying sid) p = (emit (StopContent sid) p)\<lparr>mp_actual := ActualIdle\<rparr>"
| "reconcile_with intent current actual p = p\<lparr>mp_actual := ActualIdle\<rparr>"

definition reconcile :: "'i media_player \<Rightarrow> 'i media_player" where
  "reconcile p = reconcile_with (mp_intent p) (map_option mt_id (mp_stream p)) (mp_actual p) p"

definition start_next_announcement :: "'i media_player \<Rightarrow> 'i media_player" where
  "start_next_announcement p =
     (if deferring p then p
      else (case mp_queue p of
              [] \<Rightarrow> p
            | plan # rest \<Rightarrow> emit (StartAnnouncement plan) (p\<lparr>mp_queue := rest, mp_announcing := Some plan\<rparr>)))"

definition advance_media :: "'i media_player \<Rightarrow> 'i media_player" where
  "advance_media p = (let p1 = start_next_announcement p in if deferring p1 then p1 else reconcile p1)"

definition set_intent :: "media_intent \<Rightarrow> 'i media_player \<Rightarrow> command_outcome \<times> 'i media_player" where
  "set_intent intent p =
     (let p1 = p\<lparr>mp_intent := intent\<rparr> in
      if deferring p1 then (CommandDeferred, p1) else (CommandApplied, reconcile p1))"

definition media_set_volume :: "device_volume \<Rightarrow> 'i media_player \<Rightarrow> command_outcome \<times> 'i media_player" where
  "media_set_volume volume p =
     (if mp_volume p = None then (CommandUnavailable NoVolumeControl, p)
      else (CommandApplied, emit (SetDeviceVolume volume) (p\<lparr>mp_volume := Some volume, mp_muted := False\<rparr>)))"

definition media_mute :: "'i media_player \<Rightarrow> command_outcome \<times> 'i media_player" where
  "media_mute p =
     (if mp_volume p = None then (CommandUnavailable NoVolumeControl, p)
      else (CommandApplied, if \<not> mp_muted p then emit (SetDeviceVolume 0) (p\<lparr>mp_muted := True\<rparr>) else p))"

definition media_unmute :: "'i media_player \<Rightarrow> command_outcome \<times> 'i media_player" where
  "media_unmute p =
     (case mp_volume p of
        None \<Rightarrow> (CommandUnavailable NoVolumeControl, p)
      | Some volume \<Rightarrow>
          (CommandApplied, if mp_muted p then emit (SetDeviceVolume volume) (p\<lparr>mp_muted := False\<rparr>) else p))"

definition enqueue_announcement ::
    "string \<Rightarrow> opener \<Rightarrow> string option \<Rightarrow> bool \<Rightarrow> 'i option \<Rightarrow> 'i media_player \<Rightarrow> command_outcome \<times> 'i media_player" where
  "enqueue_announcement url how text start_conversation satellite p =
     (let key = mp_next_announcement p + 1;
          p1 = p\<lparr>mp_next_announcement := key,
                 mp_queue := mp_queue p @ [\<lparr>ap_key = key, ap_media_url = url, ap_opener = how, ap_text = text,
                   ap_start_conversation = start_conversation, ap_satellite = satellite\<rparr>]\<rparr>
      in (if deferring p1 then CommandDeferred else CommandApplied, advance_media p1))"

definition media_command :: "media_request \<Rightarrow> 'i media_player \<Rightarrow> command_outcome \<times> 'i media_player" where
  "media_command request p =
     (let (outcome, p1) =
        (case request of
           PlayUrl url announcement \<Rightarrow>
             if announcement
             then enqueue_announcement url (if mp_announcement_chime p then OpenerChime else OpenerNone) None False None p
             else set_intent IntentPlaying
                    (p\<lparr>mp_next_stream := mp_next_stream p + 1,
                       mp_stream := Some \<lparr>mt_id = mp_next_stream p + 1, mt_url = url, mt_seekable = None, mt_start_frame = 0,
                         mt_completed = None\<rparr>\<rparr>)
         | MediaPlay \<Rightarrow>
             if mp_stream p = None then (CommandUnavailable NothingToResume, p) else set_intent IntentPlaying p
         | MediaPause \<Rightarrow>
             if mp_stream p = None then (CommandUnavailable NothingPlaying, p) else set_intent IntentPaused p
         | MediaStop \<Rightarrow> set_intent IntentIdle (p\<lparr>mp_stream := None\<rparr>)
         | SetVolume volume \<Rightarrow> media_set_volume volume p
         | MediaMute \<Rightarrow> media_mute p
         | MediaUnmute \<Rightarrow> media_unmute p)
      in (outcome, report_state p1))"

definition media_announce :: "'i satellite_announcement \<Rightarrow> 'i media_player \<Rightarrow> announcement_key \<times> 'i media_player" where
  "media_announce a p =
     (let how = (case sa_preannounce_url a of
                   Some url \<Rightarrow> if mp_announcement_chime p then OpenerChime else OpenerSound url
                 | None \<Rightarrow> OpenerNone);
          (_, p1) = enqueue_announcement (sa_media_url a) how (sa_text a) (sa_start_conversation a) (Some (sa_id a)) p
      in (mp_next_announcement p1, report_state p1))"

definition dialog_started :: "'i media_player \<Rightarrow> 'i media_player" where
  "dialog_started p = p\<lparr>mp_dialog := True\<rparr>"

definition dialog_ended :: "'i media_player \<Rightarrow> 'i media_player" where
  "dialog_ended p = report_state (advance_media (p\<lparr>mp_dialog := False\<rparr>))"

definition finish_plan :: "bool \<Rightarrow> 'i announcement_plan \<Rightarrow> 'i media_player \<Rightarrow> 'i media_player" where
  "finish_plan success plan p =
     (case ap_satellite plan of Some name \<Rightarrow> emit (FinishAnnouncement name success) p | None \<Rightarrow> p)"

definition announcement_ended :: "announcement_key \<Rightarrow> bool \<Rightarrow> 'i media_player \<Rightarrow> 'i media_player" where
  "announcement_ended key success p =
     (case mp_announcing p of
        None \<Rightarrow> p
      | Some plan \<Rightarrow>
          if ap_key plan \<noteq> key then p
          else report_state (advance_media (finish_plan success plan (p\<lparr>mp_announcing := None\<rparr>))))"

definition update_stream :: "media_stream_id \<Rightarrow> (media_stream \<Rightarrow> media_stream) \<Rightarrow> 'i media_player \<Rightarrow> 'i media_player" where
  "update_stream sid f p =
     (case mp_stream p of Some s \<Rightarrow> if mt_id s = sid then p\<lparr>mp_stream := Some (f s)\<rparr> else p | None \<Rightarrow> p)"

definition content_opened :: "media_stream_id \<Rightarrow> seekability \<Rightarrow> 'i media_player \<Rightarrow> 'i media_player" where
  "content_opened sid seekable = update_stream sid (\<lambda>s. s\<lparr>mt_seekable := Some seekable\<rparr>)"

definition content_progress :: "media_stream_id \<Rightarrow> nat \<Rightarrow> 'i media_player \<Rightarrow> 'i media_player" where
  "content_progress sid completed =
     update_stream sid (\<lambda>s. s\<lparr>mt_completed := Some (max (case mt_completed s of Some n \<Rightarrow> n | None \<Rightarrow> 0) completed)\<rparr>)"

text \<open>Where the stream resumes once its playback stopped.\<close>

definition note_bookmark :: "nat option \<Rightarrow> media_stream \<Rightarrow> media_stream" where
  "note_bookmark completed s =
     (let s1 = (case completed of Some n \<Rightarrow> s\<lparr>mt_completed := Some n\<rparr> | None \<Rightarrow> s)
      in s1\<lparr>mt_start_frame :=
               (case mt_seekable s1 of
                  Some StreamSeekable \<Rightarrow> (mt_start_frame s1 + (case mt_completed s1 of Some n \<Rightarrow> n | None \<Rightarrow> 0)) mod 2 ^ 64
                | Some StreamLive \<Rightarrow> 0
                | None \<Rightarrow> mt_start_frame s1),
            mt_completed := None\<rparr>)"

definition content_ended :: "media_stream_id \<Rightarrow> content_end \<Rightarrow> 'i media_player \<Rightarrow> 'i media_player" where
  "content_ended sid ended p =
     (if mp_actual p \<noteq> ActualPlaying sid \<and> mp_actual p \<noteq> ActualPausing sid then p
      else
        let current = (map_option mt_id (mp_stream p) = Some sid);
            p1 = (if ce_reason ended \<in> {ContentDrained, ContentFailed}
                  then (if current then p\<lparr>mp_actual := ActualIdle, mp_stream := None, mp_intent := IntentIdle\<rparr>
                        else p\<lparr>mp_actual := ActualIdle\<rparr>)
                  else
                    let p0 = (update_stream sid (note_bookmark (ce_completed_frames ended)) p)\<lparr>mp_actual := ActualPaused sid\<rparr>
                    in if ce_reason ended = ContentInterrupted \<and> current \<and> mp_intent p0 = IntentPlaying
                       then p0\<lparr>mp_intent := IntentPaused\<rparr> else p0)
        in report_state (advance_media p1))"

definition device_volume_reported :: "device_volume option \<Rightarrow> 'i media_player \<Rightarrow> 'i media_player" where
  "device_volume_reported volume p =
     report_state (if volume = Some 0 \<and> mp_muted p then p else p\<lparr>mp_volume := volume, mp_muted := False\<rparr>)"

definition media_session_lost :: "'i media_player \<Rightarrow> 'i media_player" where
  "media_session_lost p =
     report_state (fold (finish_plan False) ((case mp_announcing p of Some plan \<Rightarrow> [plan] | None \<Rightarrow> []) @ mp_queue p)
       (p\<lparr>mp_dialog := False, mp_announcing := None, mp_queue := []\<rparr>))"

section \<open>Specification\<close>

text \<open>What effects say of the content the runtime plays, and whether each start found nothing playing.\<close>

fun play_effect :: "'i media_effect \<Rightarrow> media_stream_id set \<times> bool \<Rightarrow> media_stream_id set \<times> bool" where
  "play_effect (StartContent sid url skip) (playing, alone) = (insert sid playing, alone \<and> playing = {})"
| "play_effect (StopContent sid) (playing, alone) = (playing - {sid}, alone)"
| "play_effect e s = s"

fun effect_finishes :: "'i media_effect \<Rightarrow> 'i list" where
  "effect_finishes (FinishAnnouncement name success) = [name]"
| "effect_finishes e = []"

fun effect_starts :: "'i media_effect \<Rightarrow> announcement_key list" where
  "effect_starts (StartAnnouncement plan) = [ap_key plan]"
| "effect_starts e = []"

fun effect_reports :: "'i media_effect \<Rightarrow> player_state list" where
  "effect_reports (ReportState state) = [state]"
| "effect_reports e = []"

definition finished_names :: "'i media_effect list \<Rightarrow> 'i list" where
  "finished_names es = concat (map effect_finishes es)"

definition started_keys :: "'i media_effect list \<Rightarrow> announcement_key list" where
  "started_keys es = concat (map effect_starts es)"

definition reported_states :: "'i media_effect list \<Rightarrow> player_state list" where
  "reported_states es = concat (map effect_reports es)"

definition plan_names :: "'i announcement_plan list \<Rightarrow> 'i list" where
  "plan_names plans = List.map_filter ap_satellite plans"

definition waiting_names :: "'i media_player \<Rightarrow> 'i list" where
  "waiting_names p = plan_names ((case mp_announcing p of Some plan \<Rightarrow> [plan] | None \<Rightarrow> []) @ mp_queue p)"

definition queued_keys :: "'i media_player \<Rightarrow> announcement_key list" where
  "queued_keys p = map ap_key (mp_queue p)"

definition playing_of :: "'i media_player \<Rightarrow> media_stream_id set" where
  "playing_of p = (case mp_actual p of ActualPlaying sid \<Rightarrow> {sid} | _ \<Rightarrow> {})"

text \<open>The content is as intended, or on its way there.\<close>

definition as_intended :: "'i media_player \<Rightarrow> bool" where
  "as_intended p \<longleftrightarrow>
     (case (mp_intent p, map_option mt_id (mp_stream p)) of
        (IntentPlaying, Some sid) \<Rightarrow> mp_actual p \<in> {ActualPlaying sid, ActualPausing sid}
      | (IntentPaused, Some sid) \<Rightarrow> mp_actual p \<in> {ActualPausing sid, ActualPaused sid, ActualIdle}
      | _ \<Rightarrow> mp_actual p = ActualIdle)"

datatype 'i media_op =
    MediaCommand media_request
  | MediaAnnounce "'i satellite_announcement"
  | DialogStarted
  | DialogEnded
  | AnnouncementEnded announcement_key bool
  | ContentOpened media_stream_id seekability
  | ContentProgress media_stream_id nat
  | ContentEnded media_stream_id content_end
  | VolumeReported "device_volume option"
  | MediaSessionLost
  | NextMediaEffect

fun media_apply :: "'i media_op \<Rightarrow> 'i media_player \<Rightarrow> 'i media_player" where
  "media_apply (MediaCommand request) p = snd (media_command request p)"
| "media_apply (MediaAnnounce a) p = snd (media_announce a p)"
| "media_apply DialogStarted p = dialog_started p"
| "media_apply DialogEnded p = dialog_ended p"
| "media_apply (AnnouncementEnded key success) p = announcement_ended key success p"
| "media_apply (ContentOpened sid seekable) p = content_opened sid seekable p"
| "media_apply (ContentProgress sid n) p = content_progress sid n p"
| "media_apply (ContentEnded sid ended) p = content_ended sid ended p"
| "media_apply (VolumeReported volume) p = device_volume_reported volume p"
| "media_apply MediaSessionLost p = media_session_lost p"
| "media_apply NextMediaEffect p = snd (next_media_effect p)"

text \<open>
  What happened: the effects handed over, the announcements asked for, the content playing in the runtime,
  whether every start found none playing, and whether the session was lost since the last end of a dialog.
\<close>

record 'i media_history =
  mh_effects :: "'i media_effect list"
  mh_announced :: "'i list"
  mh_playing :: "media_stream_id set"
  mh_alone :: bool
  mh_lost :: bool

fun note_media_op :: "'i media_op \<Rightarrow> 'i media_player \<Rightarrow> 'i media_history \<Rightarrow> 'i media_history" where
  "note_media_op (MediaAnnounce a) p h = h\<lparr>mh_announced := mh_announced h @ [sa_id a]\<rparr>"
| "note_media_op (ContentEnded sid ended) p h = h\<lparr>mh_playing := mh_playing h - {sid}\<rparr>"
| "note_media_op MediaSessionLost p h = h\<lparr>mh_lost := True\<rparr>"
| "note_media_op DialogEnded p h = h\<lparr>mh_lost := False\<rparr>"
| "note_media_op NextMediaEffect p h = h\<lparr>mh_effects := mh_effects h @ (case mp_effects p of e # _ \<Rightarrow> [e] | [] \<Rightarrow> [])\<rparr>"
| "note_media_op op p h = h"

definition media_step :: "'i media_op \<Rightarrow> 'i media_player \<times> 'i media_history \<Rightarrow> 'i media_player \<times> 'i media_history" where
  "media_step op s =
     (let (p, h) = s; p1 = media_apply op p; h1 = note_media_op op p h;
          (playing, alone) = fold play_effect (drop (length (mp_effects p)) (mp_effects p1)) (mh_playing h1, mh_alone h1)
      in (p1, h1\<lparr>mh_playing := playing, mh_alone := alone\<rparr>))"

definition media_start :: "capabilities \<Rightarrow> device_volume option \<Rightarrow> 'i media_player \<times> 'i media_history" where
  "media_start caps volume =
     (media_player_new caps volume, \<lparr>mh_effects = [], mh_announced = [], mh_playing = {}, mh_alone = True, mh_lost = False\<rparr>)"

definition stream_intended :: "'i media_player \<Rightarrow> bool" where
  "stream_intended p \<longleftrightarrow> mp_intent p = IntentIdle \<or> mp_stream p \<noteq> None"

definition reports_ok :: "'i media_player \<Rightarrow> player_state list \<Rightarrow> bool" where
  "reports_ok p states \<longleftrightarrow>
     distinct_adj states
     \<and> (case mp_reported p of None \<Rightarrow> states = [] | Some state \<Rightarrow> states \<noteq> [] \<and> last states = state \<and> state = player_state_of p)"

definition media_inv :: "'i media_player \<times> 'i media_history \<Rightarrow> bool" where
  "media_inv s \<longleftrightarrow>
     (let (p, h) = s; es = mh_effects h @ mp_effects p in
      mh_playing h = playing_of p \<and> mh_alone h
      \<and> stream_intended p \<and> (deferring p \<or> as_intended p \<or> mh_lost h)
      \<and> mset (finished_names es) + mset (waiting_names p) = mset (mh_announced h)
      \<and> sorted_wrt (<) (started_keys es @ queued_keys p)
      \<and> (\<forall>k \<in> set (started_keys es @ queued_keys p). k \<le> mp_next_announcement p)
      \<and> reports_ok p (reported_states es))"

section \<open>Lemmas\<close>

lemma effect_lists [simp]:
  "finished_names [] = []" "finished_names (e # es) = effect_finishes e @ finished_names es" "finished_names (xs @ ys) = finished_names xs @ finished_names ys"
  "started_keys [] = []" "started_keys (e # es) = effect_starts e @ started_keys es" "started_keys (xs @ ys) = started_keys xs @ started_keys ys"
  "reported_states [] = []" "reported_states (e # es) = effect_reports e @ reported_states es"
  "reported_states (xs @ ys) = reported_states xs @ reported_states ys"
  by (simp_all add: finished_names_def started_keys_def reported_states_def)

lemma plan_names_simps [simp]:
  "plan_names [] = []" "plan_names (x # xs) = (case ap_satellite x of Some name \<Rightarrow> [name] | None \<Rightarrow> []) @ plan_names xs"
  "plan_names (xs @ ys) = plan_names xs @ plan_names ys"
  by (simp_all add: plan_names_def List.map_filter_def split: option.split)

text \<open>
  What every step inside an operation respects: the effects it adds account for what it changes, and it
  reports nothing.
\<close>

definition flows :: "'i media_player \<Rightarrow> 'i media_player \<Rightarrow> bool" where
  "flows p q \<longleftrightarrow>
     (\<exists>es. mp_effects q = mp_effects p @ es \<and> reported_states es = [] \<and> mp_reported q = mp_reported p
        \<and> (\<forall>a. fold play_effect es (playing_of p, a) = (playing_of q, a))
        \<and> mset (finished_names es) + mset (waiting_names q) = mset (waiting_names p)
        \<and> (\<exists>dropped. started_keys es @ queued_keys q @ dropped = queued_keys p)
        \<and> mp_next_announcement q = mp_next_announcement p)"

lemma flows_refl [simp]: "flows p p"
  by (auto simp: flows_def)

lemma flows_trans:
  assumes "flows p q" "flows q r"
  shows "flows p r"
proof -
  obtain es d where e: "mp_effects q = mp_effects p @ es" "reported_states es = []" "mp_reported q = mp_reported p"
    "\<forall>a. fold play_effect es (playing_of p, a) = (playing_of q, a)"
    "mset (finished_names es) + mset (waiting_names q) = mset (waiting_names p)" "started_keys es @ queued_keys q @ d = queued_keys p"
    "mp_next_announcement q = mp_next_announcement p" using assms(1) unfolding flows_def by blast
  obtain fs d1 where f: "mp_effects r = mp_effects q @ fs" "reported_states fs = []" "mp_reported r = mp_reported q"
    "\<forall>a. fold play_effect fs (playing_of q, a) = (playing_of r, a)"
    "mset (finished_names fs) + mset (waiting_names r) = mset (waiting_names q)" "started_keys fs @ queued_keys r @ d1 = queued_keys q"
    "mp_next_announcement r = mp_next_announcement q" using assms(2) unfolding flows_def by blast
  have "started_keys (es @ fs) @ queued_keys r @ (d1 @ d) = queued_keys p" using e(6) by (simp flip: f(6))
  then have "\<exists>dropped. started_keys (es @ fs) @ queued_keys r @ dropped = queued_keys p" by blast
  then show ?thesis using e f unfolding flows_def by (intro exI [of _ "es @ fs"]) (simp add: add.assoc)
qed

text \<open>A step that emits these effects and changes neither the announcements nor what was reported.\<close>

lemma flows_emits:
  assumes "mp_effects q = mp_effects p @ es" "reported_states es = []" "finished_names es = []" "started_keys es = []"
    "\<And>a. fold play_effect es (playing_of p, a) = (playing_of q, a)"
    "mp_reported q = mp_reported p" "mp_announcing q = mp_announcing p" "mp_queue q = mp_queue p"
    "mp_next_announcement q = mp_next_announcement p"
  shows "flows p q"
  using assms unfolding flows_def by (intro exI [of _ es]) (simp add: waiting_names_def queued_keys_def)

lemma start_stream_flows: "playing_of p = {} \<Longrightarrow> flows p (start_stream sid p)"
  by (rule flows_emits [of _ _ "case mp_stream p of Some s \<Rightarrow> if mt_id s = sid then [StartContent sid (mt_url s) (mt_start_frame s)] else [] | None \<Rightarrow> []"])
    (auto simp: start_stream_def emit_def playing_of_def split: option.splits)

lemma reconcile_flows: "flows p (reconcile p)"
proof -
  have stop: "flows p ((emit (StopContent sid) p)\<lparr>mp_actual := a\<rparr>)" if "mp_actual p = ActualPlaying sid" "\<And>t. a \<noteq> ActualPlaying t" for sid a
    using that by (intro flows_emits [of _ _ "[StopContent sid]"]) (auto simp: emit_def playing_of_def split: media_actual.splits)
  have idle: "flows p (p\<lparr>mp_actual := ActualIdle\<rparr>)" if "\<And>t. mp_actual p \<noteq> ActualPlaying t"
    using that by (intro flows_emits [of _ _ "[]"]) (auto simp: playing_of_def split: media_actual.splits)
  have switch: "flows p (start_stream sid (emit (StopContent old) p))"
    if "mp_actual p = ActualPlaying old" "map_option mt_id (mp_stream p) = Some sid" "old \<noteq> sid" for sid old
  proof -
    from that(2) obtain s where s: "mp_stream p = Some s" "mt_id s = sid" by auto
    show ?thesis
      using that s by (intro flows_emits [of _ _ "[StopContent old, StartContent sid (mt_url s) (mt_start_frame s)]"])
        (auto simp: start_stream_def emit_def playing_of_def)
  qed
  show ?thesis
    using stop idle switch start_stream_flows [of p] unfolding reconcile_def
    by (cases "(mp_intent p, map_option mt_id (mp_stream p), mp_actual p, p)" rule: reconcile_with.cases)
      (auto simp: playing_of_def)
qed

lemma start_stream_keeps [simp]:
  "mp_intent (start_stream sid p) = mp_intent p" "map_option mt_id (mp_stream (start_stream sid p)) = map_option mt_id (mp_stream p)"
  "mp_dialog (start_stream sid p) = mp_dialog p" "mp_announcing (start_stream sid p) = mp_announcing p"
  "mp_volume (start_stream sid p) = mp_volume p" "mp_muted (start_stream sid p) = mp_muted p"
  by (simp_all add: start_stream_def emit_def split: option.split)

lemma emit_keeps [simp]:
  "mp_intent (emit e p) = mp_intent p" "mp_stream (emit e p) = mp_stream p" "mp_actual (emit e p) = mp_actual p"
  "mp_dialog (emit e p) = mp_dialog p" "mp_announcing (emit e p) = mp_announcing p" "mp_queue (emit e p) = mp_queue p"
  "mp_volume (emit e p) = mp_volume p" "mp_muted (emit e p) = mp_muted p" "mp_reported (emit e p) = mp_reported p"
  "mp_next_announcement (emit e p) = mp_next_announcement p" "mp_effects (emit e p) = mp_effects p @ [e]"
  by (simp_all add: emit_def)

lemma reconcile_with_keeps [simp]:
  "mp_intent (reconcile_with i c a p) = mp_intent p" "map_option mt_id (mp_stream (reconcile_with i c a p)) = map_option mt_id (mp_stream p)"
  "mp_dialog (reconcile_with i c a p) = mp_dialog p" "mp_announcing (reconcile_with i c a p) = mp_announcing p"
  "mp_volume (reconcile_with i c a p) = mp_volume p" "mp_muted (reconcile_with i c a p) = mp_muted p"
  by (induction i c a p rule: reconcile_with.induct) simp_all

lemma reconcile_keeps [simp]:
  "mp_intent (reconcile p) = mp_intent p" "map_option mt_id (mp_stream (reconcile p)) = map_option mt_id (mp_stream p)"
  "mp_dialog (reconcile p) = mp_dialog p" "mp_announcing (reconcile p) = mp_announcing p"
  "mp_volume (reconcile p) = mp_volume p" "mp_muted (reconcile p) = mp_muted p"
  by (simp_all add: reconcile_def)

lemma start_stream_actual: "map_option mt_id (mp_stream p) = Some sid \<Longrightarrow> mp_actual (start_stream sid p) = ActualPlaying sid"
  by (auto simp: start_stream_def)

lemma reconcile_with_intended:
  "mp_intent p = i \<Longrightarrow> map_option mt_id (mp_stream p) = c \<Longrightarrow> mp_actual p = a \<Longrightarrow> as_intended (reconcile_with i c a p)"
  unfolding as_intended_def reconcile_with_keeps
  by (induction i c a p rule: reconcile_with.induct) (auto simp: start_stream_actual split: media_intent.split option.split)

lemma reconcile_intended: "as_intended (reconcile p)"
  by (simp add: reconcile_def reconcile_with_intended)

lemma start_next_flows: "flows p (start_next_announcement p)"
proof (cases "deferring p \<or> mp_queue p = []")
  case True
  then show ?thesis by (auto simp: start_next_announcement_def)
next
  case False
  then obtain plan rest where q: "mp_queue p = plan # rest" "mp_announcing p = None" "\<not> deferring p"
    by (cases "mp_queue p") (auto simp: deferring_def)
  then show ?thesis
    unfolding flows_def
    by (intro exI [of _ "[StartAnnouncement plan]"]) (simp add: start_next_announcement_def waiting_names_def queued_keys_def playing_of_def)
qed

lemma start_next_keeps [simp]:
  "mp_intent (start_next_announcement p) = mp_intent p" "mp_stream (start_next_announcement p) = mp_stream p"
  "mp_volume (start_next_announcement p) = mp_volume p" "mp_muted (start_next_announcement p) = mp_muted p"
  by (simp_all add: start_next_announcement_def split: list.split)

lemma advance_flows: "flows p (advance_media p)"
  using start_next_flows [of p] reconcile_flows [of "start_next_announcement p"]
  by (auto simp: advance_media_def Let_def intro: flows_trans)

lemma stream_some_iff: "map_option mt_id (mp_stream q) = map_option mt_id (mp_stream p) \<Longrightarrow> (mp_stream q = None) = (mp_stream p = None)"
  by (cases "mp_stream p"; cases "mp_stream q"; simp)

lemma reconcile_stream_intended [simp]: "stream_intended (reconcile p) = stream_intended p"
  using stream_some_iff [of "reconcile p" p] by (simp add: stream_intended_def)

lemma advance_intended: "deferring (advance_media p) \<or> as_intended (advance_media p)" "stream_intended (advance_media p) = stream_intended p"
  by (simp_all add: advance_media_def Let_def reconcile_intended) (simp_all add: stream_intended_def)

lemma set_intent_flows: "flows p (snd (set_intent i p))"
proof -
  have "flows p (p\<lparr>mp_intent := i\<rparr>)" by (rule flows_emits [of _ _ "[]"]) (simp_all add: playing_of_def)
  then show ?thesis using reconcile_flows [of "p\<lparr>mp_intent := i\<rparr>"] by (auto simp: set_intent_def Let_def intro: flows_trans)
qed

lemma set_intent_intended:
  "deferring (snd (set_intent i p)) \<or> as_intended (snd (set_intent i p))"
  "i = IntentIdle \<or> mp_stream p \<noteq> None \<Longrightarrow> stream_intended (snd (set_intent i p))"
  by (simp_all add: set_intent_def Let_def reconcile_intended) (auto simp: stream_intended_def)

subsection \<open>Operations\<close>

definition reports_run :: "'i media_player \<Rightarrow> player_state list \<Rightarrow> bool" where
  "reports_run p states \<longleftrightarrow>
     distinct_adj states \<and> (case mp_reported p of None \<Rightarrow> states = [] | Some state \<Rightarrow> states \<noteq> [] \<and> last states = state)"

text \<open>What holds inside an operation, where the state may have changed but was not yet reported.\<close>

definition media_pre :: "'i media_player \<Rightarrow> 'i media_history \<Rightarrow> bool" where
  "media_pre p h \<longleftrightarrow>
     (let es = mh_effects h @ mp_effects p in
      mh_playing h = playing_of p \<and> mh_alone h
      \<and> mset (finished_names es) + mset (waiting_names p) = mset (mh_announced h)
      \<and> sorted_wrt (<) (started_keys es @ queued_keys p)
      \<and> (\<forall>k \<in> set (started_keys es @ queued_keys p). k \<le> mp_next_announcement p)
      \<and> reports_run p (reported_states es))"

lemma media_inv_pre: "media_inv (p, h) \<Longrightarrow> media_pre p h"
  by (auto simp: media_inv_def media_pre_def reports_ok_def reports_run_def Let_def split: option.splits)

lemma report_state_keeps [simp]:
  "mp_intent (report_state p) = mp_intent p" "mp_stream (report_state p) = mp_stream p" "mp_actual (report_state p) = mp_actual p"
  "mp_dialog (report_state p) = mp_dialog p" "mp_announcing (report_state p) = mp_announcing p" "mp_queue (report_state p) = mp_queue p"
  "mp_volume (report_state p) = mp_volume p" "mp_muted (report_state p) = mp_muted p"
  "mp_next_announcement (report_state p) = mp_next_announcement p"
  by (simp_all add: report_state_def Let_def)

lemma report_state_effects:
  "mp_effects (report_state p) = mp_effects p @ (if mp_reported p = Some (player_state_of p) then [] else [ReportState (player_state_of p)])"
  "mp_reported (report_state p) = Some (player_state_of p)" "player_state_of (report_state p) = player_state_of p"
  by (simp_all add: report_state_def Let_def player_state_of_def)

lemma distinct_adj_snoc: "distinct_adj (xs @ [x]) \<longleftrightarrow> distinct_adj xs \<and> (xs = [] \<or> last xs \<noteq> x)"
  by (induction xs rule: induct_list012) auto

lemma reports_run_ok:
  assumes "reports_run p states"
  shows "reports_ok (report_state p) (states @ (if mp_reported p = Some (player_state_of p) then [] else [player_state_of p]))"
  using assms by (auto simp: reports_run_def reports_ok_def report_state_effects distinct_adj_snoc split: option.splits)

lemma reports_run_same: "mp_reported q = mp_reported p \<Longrightarrow> reports_run q = reports_run p"
  by (simp only: reports_run_def fun_eq_iff simp_thms)

lemma step_reports:
  assumes pre: "media_pre p0 h1" and e0: "mp_effects p0 = mp_effects p" and f: "flows p0 q"
    and i: "stream_intended q" "deferring q \<or> as_intended q \<or> mh_lost h1"
    and op: "media_apply op p = report_state q" "note_media_op op p h = h1"
  shows "media_inv (media_step op (p, h))"
proof -
  obtain es d where e: "mp_effects q = mp_effects p @ es" "reported_states es = []" "mp_reported q = mp_reported p0"
    "\<forall>a. fold play_effect es (playing_of p0, a) = (playing_of q, a)"
    "mset (finished_names es) + mset (waiting_names q) = mset (waiting_names p0)" "started_keys es @ queued_keys q @ d = queued_keys p0"
    "mp_next_announcement q = mp_next_announcement p0" using f e0 unfolding flows_def by auto
  let ?last = "if mp_reported q = Some (player_state_of q) then [] else [ReportState (player_state_of q)]"
  have new: "drop (length (mp_effects p)) (mp_effects (report_state q)) = es @ ?last"
    by (simp add: report_state_effects e(1))
  have fields: "playing_of (report_state q) = playing_of q" "waiting_names (report_state q) = waiting_names q"
    "queued_keys (report_state q) = queued_keys q" "as_intended (report_state q) = as_intended q"
    "deferring (report_state q) = deferring q" "stream_intended (report_state q) = stream_intended q"
    by (simp_all only: playing_of_def waiting_names_def queued_keys_def as_intended_def deferring_def stream_intended_def report_state_keeps)
  have "fold play_effect (es @ ?last) (mh_playing h1, mh_alone h1) = (playing_of q, True)"
    using pre e(4) by (simp add: media_pre_def Let_def)
  then have step: "media_step op (p, h) = (report_state q, h1\<lparr>mh_playing := playing_of q, mh_alone := True\<rparr>)"
    using op new by (simp add: media_step_def Let_def)
  have keys: "sorted_wrt (<) (started_keys (mh_effects h1 @ mp_effects p) @ started_keys es @ queued_keys q)"
    "\<forall>k \<in> set (started_keys (mh_effects h1 @ mp_effects p) @ started_keys es @ queued_keys q). k \<le> mp_next_announcement q"
    using pre e0 e(7) unfolding media_pre_def e(6) [symmetric] by (auto simp: sorted_wrt_append Let_def)
  have "reports_run q (reported_states (mh_effects h1 @ mp_effects q))"
    using pre e0 e(1,2) unfolding reports_run_same [OF e(3)] by (simp add: media_pre_def Let_def)
  from reports_run_ok [OF this] have r: "reports_ok (report_state q) (reported_states (mh_effects h1 @ mp_effects (report_state q)))"
    by (simp add: report_state_effects split: if_splits)
  have "mset (finished_names (mh_effects h1 @ mp_effects p)) + (mset (finished_names es) + mset (waiting_names q)) = mset (mh_announced h1)"
    using pre e0 e(5) by (simp add: media_pre_def Let_def)
  then show ?thesis
    using r i keys unfolding step media_inv_def Let_def prod.case fields
    by (auto simp: report_state_effects e(1) fields add.assoc)
qed

lemma reports_ok_same: "mp_reported q = mp_reported p \<Longrightarrow> player_state_of q = player_state_of p \<Longrightarrow> reports_ok q = reports_ok p"
  by (simp only: reports_ok_def fun_eq_iff simp_thms)

text \<open>An operation that adds no effect and leaves what Home Assistant sees as it was.\<close>

lemma step_silent:
  assumes inv: "media_inv (p, h)" and e: "mp_effects q = mp_effects p"
    and same: "playing_of q = playing_of p" "waiting_names q = waiting_names p" "queued_keys q = queued_keys p"
      "mp_next_announcement q = mp_next_announcement p" "mp_reported q = mp_reported p" "player_state_of q = player_state_of p"
    and i: "stream_intended q" "deferring q \<or> as_intended q \<or> mh_lost h"
    and op: "media_apply op p = q" "note_media_op op p h = h"
  shows "media_inv (media_step op (p, h))"
proof -
  have "media_step op (p, h) = (q, h)" using op e by (simp add: media_step_def Let_def)
  moreover have "reports_ok q = reports_ok p" by (rule reports_ok_same [OF same(5,6)])
  ultimately show ?thesis using inv e i same(1-4) unfolding media_inv_def Let_def by simp
qed

lemma media_inv_settled:
  assumes "media_inv (p, h)"
  shows "stream_intended p" "deferring p \<or> as_intended p \<or> mh_lost h"
  using assms by (simp_all add: media_inv_def Let_def)

lemma queue_pre:
  assumes "media_pre p h" "plan = \<lparr>ap_key = mp_next_announcement p + 1, ap_media_url = url, ap_opener = how, ap_text = text,
      ap_start_conversation = sc, ap_satellite = satellite\<rparr>"
  shows "media_pre (p\<lparr>mp_next_announcement := mp_next_announcement p + 1, mp_queue := mp_queue p @ [plan]\<rparr>)
    (h\<lparr>mh_announced := mh_announced h @ (case satellite of Some name \<Rightarrow> [name] | None \<Rightarrow> [])\<rparr>)"
proof -
  let ?q = "p\<lparr>mp_next_announcement := mp_next_announcement p + 1, mp_queue := mp_queue p @ [plan]\<rparr>"
  have f: "playing_of ?q = playing_of p" "waiting_names ?q = waiting_names p @ (case satellite of Some name \<Rightarrow> [name] | None \<Rightarrow> [])"
    "queued_keys ?q = queued_keys p @ [mp_next_announcement p + 1]"
    using assms(2) by (simp_all add: playing_of_def waiting_names_def queued_keys_def)
  have below: "\<forall>k \<in> set (started_keys (mh_effects h @ mp_effects p) @ queued_keys p). k < mp_next_announcement p + 1"
    using assms(1) by (auto simp: media_pre_def Let_def less_Suc_eq_le)
  have s: "sorted_wrt (<) (started_keys (mh_effects h @ mp_effects p) @ queued_keys p)" using assms(1) by (simp add: media_pre_def Let_def)
  have "sorted_wrt (<) ((started_keys (mh_effects h @ mp_effects p) @ queued_keys p) @ [mp_next_announcement p + 1])"
    unfolding sorted_wrt_append [of _ "started_keys _ @ _"] using s below by simp
  moreover have "\<forall>k \<in> set ((started_keys (mh_effects h @ mp_effects p) @ queued_keys p) @ [mp_next_announcement p + 1]).
      k \<le> mp_next_announcement p + 1"
    using below by (auto intro: less_imp_le)
  moreover have "reports_run ?q = reports_run p" by (rule reports_run_same) simp
  ultimately show ?thesis
    using assms(1) unfolding media_pre_def Let_def f by (simp add: add.assoc)
qed

lemma enqueue_parts:
  obtains plan where "plan = \<lparr>ap_key = mp_next_announcement p + 1, ap_media_url = url, ap_opener = how, ap_text = text,
      ap_start_conversation = sc, ap_satellite = satellite\<rparr>"
    "snd (enqueue_announcement url how text sc satellite p) =
       advance_media (p\<lparr>mp_next_announcement := mp_next_announcement p + 1, mp_queue := mp_queue p @ [plan]\<rparr>)"
  by (simp add: enqueue_announcement_def Let_def)

lemma step_enqueues:
  assumes inv: "media_inv (p, h)"
    and op: "media_apply op p = report_state (snd (enqueue_announcement url how text sc satellite p))"
      "note_media_op op p h = h\<lparr>mh_announced := mh_announced h @ (case satellite of Some name \<Rightarrow> [name] | None \<Rightarrow> [])\<rparr>"
  shows "media_inv (media_step op (p, h))"
proof -
  obtain plan where plan: "plan = \<lparr>ap_key = mp_next_announcement p + 1, ap_media_url = url, ap_opener = how, ap_text = text,
      ap_start_conversation = sc, ap_satellite = satellite\<rparr>"
    "snd (enqueue_announcement url how text sc satellite p) =
       advance_media (p\<lparr>mp_next_announcement := mp_next_announcement p + 1, mp_queue := mp_queue p @ [plan]\<rparr>)"
    by (rule enqueue_parts)
  let ?p = "p\<lparr>mp_next_announcement := mp_next_announcement p + 1, mp_queue := mp_queue p @ [plan]\<rparr>"
  have "stream_intended ?p" using media_inv_settled(1) [OF inv] by (simp add: stream_intended_def)
  then have "stream_intended (advance_media ?p)" by (simp only: advance_intended)
  then show ?thesis
    using advance_intended(1) [of ?p]
    by (intro step_reports [OF queue_pre [OF media_inv_pre [OF inv] plan(1)] _ advance_flows _ _ _ op(2)]) (auto simp: op(1) plan(2))
qed

lemma volume_flows:
  "flows p (snd (media_set_volume v p))" "flows p (snd (media_mute p))" "flows p (snd (media_unmute p))"
proof -
  have "flows p (emit (SetDeviceVolume v) (p\<lparr>mp_volume := u, mp_muted := m\<rparr>))" for v u m
    by (rule flows_emits [of _ _ "[SetDeviceVolume v]"]) (simp_all add: playing_of_def)
  moreover have "flows p (emit (SetDeviceVolume v) (p\<lparr>mp_muted := m\<rparr>))" for v m
    by (rule flows_emits [of _ _ "[SetDeviceVolume v]"]) (simp_all add: playing_of_def)
  ultimately show "flows p (snd (media_set_volume v p))" "flows p (snd (media_mute p))" "flows p (snd (media_unmute p))"
    by (simp_all add: media_set_volume_def media_mute_def media_unmute_def split: option.split)
qed

lemma intended_same:
  "mp_intent q = mp_intent p \<Longrightarrow> mp_stream q = mp_stream p \<Longrightarrow> mp_actual q = mp_actual p \<Longrightarrow> as_intended q = as_intended p"
  "mp_dialog q = mp_dialog p \<Longrightarrow> mp_announcing q = mp_announcing p \<Longrightarrow> deferring q = deferring p"
  "mp_intent q = mp_intent p \<Longrightarrow> mp_stream q = mp_stream p \<Longrightarrow> stream_intended q = stream_intended p"
  by (simp_all only: as_intended_def deferring_def stream_intended_def)

lemma volume_keeps:
  "as_intended (snd (media_set_volume v p)) = as_intended p" "deferring (snd (media_set_volume v p)) = deferring p"
  "stream_intended (snd (media_set_volume v p)) = stream_intended p"
  "as_intended (snd (media_mute p)) = as_intended p" "deferring (snd (media_mute p)) = deferring p"
  "stream_intended (snd (media_mute p)) = stream_intended p"
  "as_intended (snd (media_unmute p)) = as_intended p" "deferring (snd (media_unmute p)) = deferring p"
  "stream_intended (snd (media_unmute p)) = stream_intended p"
  by (rule intended_same; simp add: media_set_volume_def media_mute_def media_unmute_def split: option.split)+

lemma command_inv:
  assumes inv: "media_inv (p, h)"
  shows "media_inv (media_step (MediaCommand request) (p, h))"
proof -
  note pre = media_inv_pre [OF inv] and settled = media_inv_settled [OF inv]
  have noop: "note_media_op (MediaCommand request) p h = h" by simp
  have intends: "media_inv (media_step (MediaCommand request) (p, h))"
    if "media_apply (MediaCommand request) p = report_state (snd (set_intent i q))" "flows p q" "i = IntentIdle \<or> mp_stream q \<noteq> None" for i q
    using that set_intent_intended(1) [of i q]
    by (intro step_reports [OF pre refl flows_trans [OF that(2) set_intent_flows] set_intent_intended(2) [OF that(3)] _ that(1) noop]) auto
  have other: "media_inv (media_step (MediaCommand request) (p, h))"
    if "media_apply (MediaCommand request) p = report_state q" "flows p q" "stream_intended q" "deferring q \<or> as_intended q \<or> mh_lost h" for q
    by (rule step_reports [OF pre refl that(2,3,4,1) noop])
  show ?thesis
  proof (cases request)
    case (PlayUrl url announcement)
    show ?thesis
    proof (cases announcement)
      case True
      show ?thesis
        by (rule step_enqueues [OF inv, of _ url "if mp_announcement_chime p then OpenerChime else OpenerNone" None False None])
          (simp_all add: PlayUrl True media_command_def case_prod_beta)
    next
      case False
      let ?q = "p\<lparr>mp_next_stream := mp_next_stream p + 1,
          mp_stream := Some \<lparr>mt_id = mp_next_stream p + 1, mt_url = url, mt_seekable = None, mt_start_frame = 0, mt_completed = None\<rparr>\<rparr>"
      have "flows p ?q" by (rule flows_emits [of _ _ "[]"]) (simp_all add: playing_of_def)
      then show ?thesis by (intro intends [of IntentPlaying ?q]) (simp_all add: PlayUrl False media_command_def case_prod_beta)
    qed
  next
    case MediaPlay
    show ?thesis
    proof (cases "mp_stream p = None")
      case True
      show ?thesis by (rule other [of p]) (use MediaPlay True settled in \<open>simp_all add: media_command_def\<close>)
    next
      case False
      then show ?thesis by (intro intends [of IntentPlaying p]) (auto simp: MediaPlay media_command_def case_prod_beta)
    qed
  next
    case MediaPause
    show ?thesis
    proof (cases "mp_stream p = None")
      case True
      show ?thesis by (rule other [of p]) (use MediaPause True settled in \<open>simp_all add: media_command_def\<close>)
    next
      case False
      then show ?thesis by (intro intends [of IntentPaused p]) (auto simp: MediaPause media_command_def case_prod_beta)
    qed
  next
    case MediaStop
    have "flows p (p\<lparr>mp_stream := None\<rparr>)" by (rule flows_emits [of _ _ "[]"]) (simp_all add: playing_of_def)
    then show ?thesis by (intro intends [of IntentIdle "p\<lparr>mp_stream := None\<rparr>"]) (simp_all add: MediaStop media_command_def case_prod_beta)
  next
    case (SetVolume v)
    show ?thesis by (rule other [OF _ volume_flows(1) [of p v]]) (use SetVolume settled in \<open>simp_all add: media_command_def case_prod_beta volume_keeps\<close>)
  next
    case MediaMute
    show ?thesis by (rule other [OF _ volume_flows(2)]) (use MediaMute settled in \<open>simp_all add: media_command_def case_prod_beta volume_keeps\<close>)
  next
    case MediaUnmute
    show ?thesis by (rule other [OF _ volume_flows(3)]) (use MediaUnmute settled in \<open>simp_all add: media_command_def case_prod_beta volume_keeps\<close>)
  qed
qed

lemma update_stream_keeps:
  assumes "\<And>s. mt_id (f s) = mt_id s"
  shows "map_option mt_id (mp_stream (update_stream sid f p)) = map_option mt_id (mp_stream p)"
    and "mp_intent (update_stream sid f p) = mp_intent p" "mp_actual (update_stream sid f p) = mp_actual p"
    "mp_dialog (update_stream sid f p) = mp_dialog p" "mp_announcing (update_stream sid f p) = mp_announcing p"
    "mp_queue (update_stream sid f p) = mp_queue p" "mp_volume (update_stream sid f p) = mp_volume p"
    "mp_muted (update_stream sid f p) = mp_muted p" "mp_reported (update_stream sid f p) = mp_reported p"
    "mp_effects (update_stream sid f p) = mp_effects p" "mp_next_announcement (update_stream sid f p) = mp_next_announcement p"
  using assms by (simp_all add: update_stream_def split: option.split)

lemma update_stream_inv:
  assumes inv: "media_inv (p, h)" and f: "\<And>s. mt_id (f s) = mt_id s"
    and op: "media_apply op p = update_stream sid f p" "note_media_op op p h = h"
  shows "media_inv (media_step op (p, h))"
proof -
  note k = update_stream_keeps [of f, OF f]
  have n: "(mp_stream (update_stream sid f p) = None) = (mp_stream p = None)" by (rule stream_some_iff [OF k(1)])
  show ?thesis
    using media_inv_settled [OF inv]
    by (intro step_silent [OF inv _ _ _ _ _ _ _ _ _ op])
      (simp_all only: k n playing_of_def waiting_names_def queued_keys_def as_intended_def deferring_def stream_intended_def player_state_of_def)
qed

lemma finish_plan_simps [simp]:
  "mp_effects (finish_plan b plan p) = mp_effects p @ (case ap_satellite plan of Some name \<Rightarrow> [FinishAnnouncement name b] | None \<Rightarrow> [])"
  "mp_intent (finish_plan b plan p) = mp_intent p" "mp_stream (finish_plan b plan p) = mp_stream p" "mp_actual (finish_plan b plan p) = mp_actual p"
  "mp_dialog (finish_plan b plan p) = mp_dialog p" "mp_announcing (finish_plan b plan p) = mp_announcing p" "mp_queue (finish_plan b plan p) = mp_queue p"
  "mp_reported (finish_plan b plan p) = mp_reported p" "mp_next_announcement (finish_plan b plan p) = mp_next_announcement p"
  by (simp_all add: finish_plan_def split: option.split)

lemma finish_plans:
  "\<exists>es. mp_effects (fold (finish_plan b) plans p) = mp_effects p @ es \<and> reported_states es = [] \<and> started_keys es = []
     \<and> finished_names es = plan_names plans \<and> (\<forall>s. fold play_effect es s = s)"
proof (induction plans arbitrary: p)
  case (Cons plan plans)
  let ?e = "case ap_satellite plan of Some name \<Rightarrow> [FinishAnnouncement name b] | None \<Rightarrow> []"
  obtain es where "mp_effects (fold (finish_plan b) plans (finish_plan b plan p)) = mp_effects (finish_plan b plan p) @ es"
    "reported_states es = []" "started_keys es = []" "finished_names es = plan_names plans" "\<forall>s. fold play_effect es s = s"
    using Cons.IH by blast
  then show ?case by (intro exI [of _ "?e @ es"]) (simp split: option.split)
qed simp

lemma finish_plans_keep:
  "mp_intent (fold (finish_plan b) plans p) = mp_intent p" "mp_stream (fold (finish_plan b) plans p) = mp_stream p"
  "mp_actual (fold (finish_plan b) plans p) = mp_actual p" "mp_dialog (fold (finish_plan b) plans p) = mp_dialog p"
  "mp_announcing (fold (finish_plan b) plans p) = mp_announcing p" "mp_queue (fold (finish_plan b) plans p) = mp_queue p"
  "mp_reported (fold (finish_plan b) plans p) = mp_reported p" "mp_next_announcement (fold (finish_plan b) plans p) = mp_next_announcement p"
  by (induction plans arbitrary: p) simp_all

lemma announcement_ended_inv:
  assumes inv: "media_inv (p, h)"
  shows "media_inv (media_step (AnnouncementEnded key success) (p, h))"
proof (cases "\<exists>plan. mp_announcing p = Some plan \<and> ap_key plan = key")
  case False
  then have "announcement_ended key success p = p" by (auto simp: announcement_ended_def split: option.splits)
  then show ?thesis using media_inv_settled [OF inv] by (intro step_silent [OF inv]) simp_all
next
  case True
  then obtain plan where plan: "mp_announcing p = Some plan" "ap_key plan = key" by blast
  let ?q = "finish_plan success plan (p\<lparr>mp_announcing := None\<rparr>)"
  have "flows p ?q"
    using plan unfolding flows_def
    by (intro exI [of _ "case ap_satellite plan of Some name \<Rightarrow> [FinishAnnouncement name success] | None \<Rightarrow> []"])
      (simp add: playing_of_def waiting_names_def queued_keys_def split: option.split)
  then have "flows p (advance_media ?q)" using advance_flows flows_trans by blast
  moreover have "stream_intended ?q" using media_inv_settled(1) [OF inv] by (simp add: stream_intended_def)
  then have "stream_intended (advance_media ?q)" by (simp only: advance_intended)
  ultimately show ?thesis
    using advance_intended(1) [of ?q] plan
    by (intro step_reports [OF media_inv_pre [OF inv] refl, of "advance_media ?q"]) (auto simp: announcement_ended_def)
qed

lemma content_ended_inv:
  assumes inv: "media_inv (p, h)"
  shows "media_inv (media_step (ContentEnded sid ended) (p, h))"
proof (cases "mp_actual p \<noteq> ActualPlaying sid \<and> mp_actual p \<noteq> ActualPausing sid")
  case True
  then have "h\<lparr>mh_playing := mh_playing h - {sid}\<rparr> = h" using inv
    by (cases h) (auto simp: media_inv_def playing_of_def Let_def split: media_actual.splits)
  then show ?thesis using True media_inv_settled [OF inv] by (intro step_silent [OF inv]) (simp_all add: content_ended_def)
next
  case False
  let ?h = "h\<lparr>mh_playing := mh_playing h - {sid}\<rparr>"
  define current where "current \<longleftrightarrow> map_option mt_id (mp_stream p) = Some sid"
  define p1 where "p1 = (if ce_reason ended \<in> {ContentDrained, ContentFailed}
       then (if current then p\<lparr>mp_actual := ActualIdle, mp_stream := None, mp_intent := IntentIdle\<rparr> else p\<lparr>mp_actual := ActualIdle\<rparr>)
       else let p0 = (update_stream sid (note_bookmark (ce_completed_frames ended)) p)\<lparr>mp_actual := ActualPaused sid\<rparr>
            in if ce_reason ended = ContentInterrupted \<and> current \<and> mp_intent p0 = IntentPlaying then p0\<lparr>mp_intent := IntentPaused\<rparr> else p0)"
  have bookmark: "mt_id (note_bookmark n s) = mt_id s" for n s by (simp add: note_bookmark_def Let_def split: option.split)
  note k = update_stream_keeps [of "note_bookmark (ce_completed_frames ended)", OF bookmark]
  have same: "mp_effects p1 = mp_effects p" "waiting_names p1 = waiting_names p" "queued_keys p1 = queued_keys p"
    "mp_reported p1 = mp_reported p" "mp_next_announcement p1 = mp_next_announcement p" "playing_of p1 = {}"
    by (simp_all add: p1_def Let_def k waiting_names_def queued_keys_def playing_of_def)
  have gone: "mh_playing ?h = {}" using inv False by (auto simp: media_inv_def playing_of_def Let_def split: media_actual.splits)
  then have pre: "media_pre p1 ?h" using media_inv_pre [OF inv] same by (simp add: media_pre_def reports_run_def Let_def)
  have n: "(mp_stream (update_stream sid (note_bookmark (ce_completed_frames ended)) p) = None) = (mp_stream p = None)"
    by (rule stream_some_iff [OF k(1)])
  have op: "media_apply (ContentEnded sid ended) p = report_state (advance_media p1)"
    unfolding media_apply.simps content_ended_def if_not_P [OF False] Let_def p1_def current_def ..
  have "stream_intended p1" using media_inv_settled(1) [OF inv] by (auto simp: p1_def Let_def stream_intended_def k n simp del: not_None_eq)
  then have "stream_intended (advance_media p1)" by (simp only: advance_intended)
  then show ?thesis
    using advance_intended(1) [of p1] by (intro step_reports [OF pre same(1) advance_flows _ _ op]) auto
qed

lemma session_lost_inv:
  assumes inv: "media_inv (p, h)"
  shows "media_inv (media_step MediaSessionLost (p, h))"
proof -
  let ?plans = "(case mp_announcing p of Some plan \<Rightarrow> [plan] | None \<Rightarrow> []) @ mp_queue p"
  let ?p = "p\<lparr>mp_dialog := False, mp_announcing := None, mp_queue := []\<rparr>"
  let ?q = "fold (finish_plan False) ?plans ?p"
  obtain es where "mp_effects ?q = mp_effects ?p @ es" "reported_states es = []" "started_keys es = []"
     "finished_names es = plan_names ?plans" "\<forall>s. fold play_effect es s = s" using finish_plans by blast
  then have "flows p ?q"
    unfolding flows_def by (intro exI [of _ es]) (simp add: finish_plans_keep waiting_names_def queued_keys_def playing_of_def)
  moreover have "stream_intended ?q" using media_inv_settled(1) [OF inv] by (simp add: finish_plans_keep stream_intended_def)
  moreover have "media_pre p (h\<lparr>mh_lost := True\<rparr>)" using media_inv_pre [OF inv] by (simp add: media_pre_def)
  ultimately show ?thesis by (intro step_reports [of p "h\<lparr>mh_lost := True\<rparr>" p ?q]) (simp_all add: media_session_lost_def)
qed

lemma next_effect_inv:
  assumes inv: "media_inv (p, h)"
  shows "media_inv (media_step NextMediaEffect (p, h))"
proof (cases "mp_effects p")
  case Nil
  then have "media_step NextMediaEffect (p, h) = (p, h)" by (simp add: media_step_def next_media_effect_def Let_def)
  then show ?thesis using inv by simp
next
  case (Cons e es)
  let ?h = "h\<lparr>mh_effects := mh_effects h @ [e]\<rparr>" and ?q = "p\<lparr>mp_effects := es\<rparr>"
  have step: "media_step NextMediaEffect (p, h) = (?q, ?h)"
    using Cons by (simp add: media_step_def next_media_effect_def Let_def)
  have "mh_effects ?h @ mp_effects ?q = mh_effects h @ mp_effects p" using Cons by simp
  moreover have "playing_of ?q = playing_of p" "waiting_names ?q = waiting_names p" "queued_keys ?q = queued_keys p"
    by (simp_all add: playing_of_def waiting_names_def queued_keys_def)
  moreover have "as_intended ?q = as_intended p" "deferring ?q = deferring p" "stream_intended ?q = stream_intended p"
    by (rule intended_same; simp)+
  moreover have "reports_ok ?q = reports_ok p" by (rule reports_ok_same) (simp_all add: player_state_of_def)
  ultimately show ?thesis using inv unfolding step media_inv_def Let_def prod.case by simp
qed

lemma media_step_inv:
  assumes inv: "media_inv s"
  shows "media_inv (media_step op s)"
proof -
  obtain p h where s: "s = (p, h)" by (cases s)
  note i = inv [unfolded s] and settled = media_inv_settled [OF inv [unfolded s]]
  show ?thesis
    unfolding s
  proof (cases op)
    case (MediaCommand request)
    then show "media_inv (media_step op (p, h))" using command_inv [OF i] by simp
  next
    case (MediaAnnounce a)
    show "media_inv (media_step op (p, h))"
      by (rule step_enqueues [OF i, of op "sa_media_url a"
            "case sa_preannounce_url a of Some url \<Rightarrow> if mp_announcement_chime p then OpenerChime else OpenerSound url | None \<Rightarrow> OpenerNone"
            "sa_text a" "sa_start_conversation a" "Some (sa_id a)"])
        (simp_all add: MediaAnnounce media_announce_def Let_def case_prod_beta)
  next
    case DialogStarted
    then show "media_inv (media_step op (p, h))" using settled
      by (intro step_silent [OF i, of "p\<lparr>mp_dialog := True\<rparr>"])
        (simp_all add: dialog_started_def playing_of_def waiting_names_def queued_keys_def player_state_of_def deferring_def stream_intended_def)
  next
    case DialogEnded
    let ?p = "p\<lparr>mp_dialog := False\<rparr>"
    have "flows p ?p" by (rule flows_emits [of _ _ "[]"]) (simp_all add: playing_of_def)
    moreover have "stream_intended ?p" using settled(1) by (simp add: stream_intended_def)
    then have "stream_intended (advance_media ?p)" by (simp only: advance_intended)
    moreover have "media_pre p (h\<lparr>mh_lost := False\<rparr>)" using media_inv_pre [OF i] by (simp add: media_pre_def)
    ultimately show "media_inv (media_step op (p, h))" using DialogEnded advance_intended(1) [of ?p]
      by (intro step_reports [of p "h\<lparr>mh_lost := False\<rparr>", OF _ refl flows_trans [OF _ advance_flows]]) (auto simp: dialog_ended_def)
  next
    case (AnnouncementEnded key success)
    then show "media_inv (media_step op (p, h))" using announcement_ended_inv [OF i] by simp
  next
    case (ContentOpened sid seekable)
    then show "media_inv (media_step op (p, h))" by (intro update_stream_inv [OF i]) (simp_all add: content_opened_def)
  next
    case (ContentProgress sid n)
    then show "media_inv (media_step op (p, h))"
      by (intro update_stream_inv [OF i, of "\<lambda>s. s\<lparr>mt_completed := Some (max (case mt_completed s of Some n \<Rightarrow> n | None \<Rightarrow> 0) n)\<rparr>"])
        (simp_all add: content_progress_def)
  next
    case (ContentEnded sid ended)
    then show "media_inv (media_step op (p, h))" using content_ended_inv [OF i] by simp
  next
    case (VolumeReported volume)
    let ?q = "if volume = Some 0 \<and> mp_muted p then p else p\<lparr>mp_volume := volume, mp_muted := False\<rparr>"
    have "flows p ?q" by (rule flows_emits [of _ _ "[]"]) (simp_all add: playing_of_def)
    moreover have "as_intended ?q = as_intended p" "deferring ?q = deferring p" "stream_intended ?q = stream_intended p"
      by (rule intended_same; simp)+
    ultimately show "media_inv (media_step op (p, h))" using VolumeReported settled
      by (intro step_reports [OF media_inv_pre [OF i] refl, of ?q]) (simp_all add: device_volume_reported_def)
  next
    case MediaSessionLost
    then show "media_inv (media_step op (p, h))" using session_lost_inv [OF i] by simp
  next
    case NextMediaEffect
    then show "media_inv (media_step op (p, h))" using next_effect_inv [OF i] by simp
  qed
qed

interpretation media_machine: invariant_machine media_step media_inv
  by unfold_locales (rule media_step_inv)

lemma media_start_inv: "media_inv (media_start caps volume)"
  by (simp add: media_inv_def media_start_def media_player_new_def playing_of_def as_intended_def stream_intended_def waiting_names_def
      queued_keys_def reports_ok_def Let_def)

lemmas media_run_inv = media_machine.run_inv [OF media_start_inv]

text \<open>The effects on content, for the pause and the resume of a stream.\<close>

fun content_effects :: "'i media_effect list \<Rightarrow> 'i media_effect list" where
  "content_effects [] = []"
| "content_effects (StartContent sid url skip # es) = StartContent sid url skip # content_effects es"
| "content_effects (StopContent sid # es) = StopContent sid # content_effects es"
| "content_effects (e # es) = content_effects es"

lemma content_effects_append [simp]: "content_effects (xs @ ys) = content_effects xs @ content_effects ys"
  by (induction xs rule: content_effects.induct) simp_all

lemma content_effects_report: "content_effects (mp_effects (report_state p)) = content_effects (mp_effects p)"
  by (simp add: report_state_effects)

lemma report_state_deferring: "deferring (report_state p) = deferring p"
  by (simp add: deferring_def)

lemma advance_idle:
  "mp_queue p = [] \<Longrightarrow> \<not> deferring p \<Longrightarrow> advance_media p = reconcile p"
  by (simp add: advance_media_def start_next_announcement_def)

lemma paused_then_resumed:
  fixes n :: nat
  assumes s: "mp_stream p = Some s" "mt_id s = sid" "mp_actual p = ActualPlaying sid" "\<not> deferring p" "mp_queue p = []"
    and seek: "mt_seekable s = Some StreamSeekable"
  defines "q \<equiv> snd (media_command MediaPause p)"
  defines "r \<equiv> content_ended sid \<lparr>ce_reason = ContentStopped, ce_completed_frames = Some n\<rparr> q"
  shows "content_effects (mp_effects (snd (media_command MediaPlay r)))
     = content_effects (mp_effects p) @ [StopContent sid, StartContent sid (mt_url s) ((mt_start_frame s + n) mod 2 ^ 64)]"
proof -
  have set: "set_intent IntentPaused p = (CommandApplied, (emit (StopContent sid) (p\<lparr>mp_intent := IntentPaused\<rparr>))\<lparr>mp_actual := ActualPausing sid\<rparr>)"
    using s by (simp add: set_intent_def deferring_def reconcile_def)
  have q: "mp_stream q = Some s" "mp_actual q = ActualPausing sid" "mp_intent q = IntentPaused" "mp_queue q = []"
     "mp_dialog q = False" "mp_announcing q = None" "content_effects (mp_effects q) = content_effects (mp_effects p) @ [StopContent sid]"
    using s by (simp_all add: q_def media_command_def set case_prod_beta content_effects_report deferring_def)
  let ?s = "s\<lparr>mt_completed := None, mt_start_frame := (mt_start_frame s + n) mod 2 ^ 64\<rparr>"
  let ?q = "q\<lparr>mp_stream := Some ?s, mp_actual := ActualPaused sid\<rparr>"
  have note_frame: "note_bookmark (Some n) s = ?s" using seek by (simp add: note_bookmark_def Let_def)
  have "r = report_state (advance_media ?q)"
    using q s(2) by (simp add: r_def content_ended_def update_stream_def note_frame Let_def)
  also have "advance_media ?q = ?q" using q s(2) by (subst advance_idle) (simp_all add: deferring_def reconcile_def)
  finally have r: "r = report_state ?q" .
  then have "mp_stream r = Some ?s" "mp_actual r = ActualPaused sid" "mp_dialog r = False" "mp_announcing r = None"
    "content_effects (mp_effects r) = content_effects (mp_effects p) @ [StopContent sid]"
    using q by (simp_all add: content_effects_report)
  then show ?thesis
    using s(2) by (simp add: media_command_def set_intent_def case_prod_beta deferring_def reconcile_def start_stream_def content_effects_report)
qed

section \<open>Properties\<close>

text \<open>
  (C37) The player has one stream: whatever commands, dialogs, announcements and ends come in, each content playback is
  asked for only while none plays, the content the runtime plays is the one the player accounts for, and the
  player intends to play or pause only when it has a stream. Outside dialogs and announcements the content
  is as intended, or stopping towards it, unless the session was lost after the last end of a dialog.
\<close>

theorem one_stream_at_a_time:
  "case fold media_step ops (media_start caps volume) of
     (p, h) \<Rightarrow> mh_alone h \<and> mh_playing h = playing_of p \<and> stream_intended p
       \<and> (deferring p \<or> as_intended p \<or> mh_lost h)"
  using media_run_inv [of ops caps volume]
  by (cases "fold media_step ops (media_start caps volume)") (simp add: media_inv_def Let_def)

text \<open>
  (C38) Every satellite announcement Home Assistant asked for is finished exactly once or still waiting, the
  announcements start in the order they were asked for, and none starts twice.
\<close>

theorem announcements_end_once:
  "case fold media_step ops (media_start caps volume) of
     (p, h) \<Rightarrow> mset (finished_names (mh_effects h @ mp_effects p)) + mset (waiting_names p) = mset (mh_announced h)
       \<and> sorted_wrt (<) (started_keys (mh_effects h @ mp_effects p) @ queued_keys p)"
  using media_run_inv [of ops caps volume]
  by (cases "fold media_step ops (media_start caps volume)") (simp add: media_inv_def Let_def)

text \<open>
  (C39) Home Assistant is told the state as it is: once anything was reported, the last state reported is the
  one the player has, through every command a dialog defers and every announcement; no report repeats the
  one before it.
\<close>

theorem state_always_reported:
  "case fold media_step ops (media_start caps volume) of
     (p, h) \<Rightarrow> let states = reported_states (mh_effects h @ mp_effects p) in
       distinct_adj states \<and> (case mp_reported p of None \<Rightarrow> states = [] | Some state \<Rightarrow> states \<noteq> [] \<and> last states = player_state_of p)"
  using media_run_inv [of ops caps volume]
  by (cases "fold media_step ops (media_start caps volume)")
    (auto simp add: media_inv_def Let_def reports_ok_def simp del: effect_lists split: option.splits)

text \<open>
  (C40) Pausing keeps the place: a seekable stream that plays from frame f, is paused, ends its playback after n
  frames and is resumed starts again at frame f + n, with one stop and one start of the content.
\<close>

theorem resume_continues:
  assumes "mp_stream p = Some s" "mp_actual p = ActualPlaying (mt_id s)" "\<not> deferring p" "mp_queue p = []"
    "mt_seekable s = Some StreamSeekable" "mt_start_frame s + n < 2 ^ 64"
  shows "content_effects (mp_effects (snd (media_command MediaPlay
           (content_ended (mt_id s) \<lparr>ce_reason = ContentStopped, ce_completed_frames = Some n\<rparr> (snd (media_command MediaPause p))))))
     = content_effects (mp_effects p) @ [StopContent (mt_id s), StartContent (mt_id s) (mt_url s) (mt_start_frame s + n)]"
  using paused_then_resumed [OF assms(1) refl assms(2-5), of n] assms(6) by simp

lemma resume_continues_witness:
  "content_effects (mp_effects (snd (media_command MediaPlay
           (content_ended 1 \<lparr>ce_reason = ContentStopped, ce_completed_frames = Some 500\<rparr> (snd (media_command MediaPause
             (content_opened 1 StreamSeekable (snd (media_command (PlayUrl ''u'' False)
               (media_player_new capabilities_default (Some 40) :: nat media_player))))))))))
     = [StartContent 1 ''u'' 0, StopContent 1, StartContent 1 ''u'' 500]"
proof -
  let ?p = "content_opened 1 StreamSeekable (snd (media_command (PlayUrl ''u'' False) (media_player_new capabilities_default (Some 40) :: nat media_player)))"
  let ?s = "\<lparr>mt_id = 1, mt_url = ''u'', mt_seekable = Some StreamSeekable, mt_start_frame = 0, mt_completed = None\<rparr>"
  have "mp_stream ?p = Some ?s" "mp_actual ?p = ActualPlaying (mt_id ?s)" "\<not> deferring ?p" "mp_queue ?p = []"
    "content_effects (mp_effects ?p) = [StartContent 1 ''u'' 0]" by code_simp+
  then show ?thesis using resume_continues [of ?p ?s 500] by simp
qed

end
