(* ===== verification/Spec2Isabelle.thy ===== *)
theory Spec2Isabelle
  imports Capabilities Stream_Registry Uplink_Sessions Uplink_Deadlines Turn_Text Turn_Evidence_Order Turn_Commits Wake_Decision
    Wake_Arbiter Focus_Lease Button_Policy Frame_Codec Render_Client Media_Player
begin

text \<open>
  A verification library for the core logic of the EchoMuse controller, the Rust program under
  \<open>src/controller-rs\<close>. A device (an Echo Dot) streams microphone audio, the reference of what it
  plays, energy cells and front-end records to the controller as binary EMA packets. The controller
  parses and orders them, keeps a bounded timeline of each stream epoch, and serves subscriptions
  (wake candidates, turns, replies, diagnostics, near misses) from it, under a privacy mute. A turn
  then decides, from the evidence of its cells and its streaming text, when the speaker has finished.
  Before a turn, a wake candidate is verified and one device of a scope is let answer; after it, the
  answer, announcements and media are played back to the device within its buffer, under a lease of the
  playback focus. Taps of the device's button and the ESPHome frames of Home Assistant come in beside them.

  \<^bold>\<open>Theories and the code they model\<close> (paths under \<open>src/controller-rs/crates\<close>)

  \<^item> \<open>Prelude\<close>: fixed-width integers, saturating and checked arithmetic of Rust, little-endian words,
    chunked byte lists; the interfaces \<open>wire_record\<close> (a record with a fixed-width wire form),
    \<open>invariant_machine\<close> (operations that keep an invariant) and \<open>total_machine\<close> (operations that may
    panic but never do where the invariant holds).
  \<^item> \<open>Ema\<close>: \<open>protocol/src/ema.rs\<close>, the packet header, its checks, packet parsing, cell and AFE
    records, content, \<open>encode\<close> and \<open>encode_render\<close>; and \<open>StreamId\<close> of \<open>protocol/src/vocab.rs\<close>.
  \<^item> \<open>Sample_Time\<close>: \<open>turn/src/time.rs\<close>, the start formulas of \<open>turn/src/endpoint.rs\<close> and
    \<open>uplink/src/starts.rs\<close>.
  \<^item> \<open>Block_Index\<close> and \<open>Epoch_Buffer\<close>: \<open>uplink/src/buffer.rs\<close> (and \<open>Pcm\<close>, \<open>ChunkData\<close> of
    \<open>uplink/src/chunk.rs\<close>), the index of known stretches and the ring of records.
  \<^item> \<open>Capabilities\<close>: the capability vocabulary of \<open>protocol/src/vocab.rs\<close>.
  \<^item> \<open>Stream_Registry\<close>: \<open>protocol/src/streams.rs\<close>, which epochs are open and which packets are in order.
  \<^item> \<open>Uplink_Types\<close>: \<open>uplink/src/config.rs\<close>, \<open>uplink/src/wire.rs\<close> and the rest of \<open>uplink/src/chunk.rs\<close>.
  \<^item> \<open>Timeline\<close>: \<open>uplink/src/timeline.rs\<close>, the retained epochs, reads by range, claims and runs.
  \<^item> \<open>Outbox\<close>, \<open>Release\<close> and \<open>Uplink\<close>: \<open>uplink/src/uplink.rs\<close>, the delivery queue with its accounts,
    the cursor of one subscription on one stream epoch, and the session with every operation.
  \<^item> \<open>Uplink_Laws\<close>, \<open>Uplink_Sessions\<close>, \<open>Uplink_Deadlines\<close>: what the operations of \<open>Uplink\<close> respect,
    alone, over any sequence of operations, and in time.
  \<^item> \<open>Turn_Text\<close>: \<open>turn/src/text.rs\<close>, words, wake verification by edit distance, and cutting the wake phrase.
  \<^item> \<open>Turn_Evidence\<close> and \<open>Turn_Evidence_Order\<close>: \<open>turn/src/evidence.rs\<close>, the assembler that puts the evidence
    of one utterance back into sample order.
  \<^item> \<open>Turn_Levels\<close>: \<open>turn/src/level.rs\<close>, \<open>turn/src/classify.rs\<close> and \<open>turn/src/reply.rs\<close>, levels, cell classes and
    early answers.
  \<^item> \<open>Turn_Asr\<close>: \<open>turn/src/asr.rs\<close>, \<open>turn/src/completeness.rs\<close> and \<open>turn/src/pause.rs\<close>, the judged text.
  \<^item> \<open>Turn_Policy\<close>, \<open>Turn_Endpoint\<close> and \<open>Turn_Protocol\<close>: \<open>turn/src/endpoint.rs\<close> and \<open>turn/src/trace.rs\<close>, the data
    of a turn, every operation of its policy, and the decision protocol it refines.
  \<^item> \<open>Turn_Commits\<close>: what every commit and every limit of a turn rests on, over any run of its policy.
  \<^item> \<open>Wake_Decision\<close>: \<open>turn/src/wake.rs\<close>, the reducer of one wake candidate; \<open>Wake_Arbiter\<close>:
    \<open>voice/src/arbiter.rs\<close>, which device of a scope claims a wake.
  \<^item> \<open>Focus_Lease\<close>: \<open>playback/src/focus.rs\<close>, the lease of the playback focus and its renewals.
  \<^item> \<open>Render_Client\<close>: \<open>playback/src/render.rs\<close> with the bodies of \<open>playback/src/wire.rs\<close>, the playbacks of a
    device session: start, audio packets within the device's window, cancel, response limits, end.
  \<^item> \<open>Media_Player\<close>: \<open>playback/src/media.rs\<close>, the media player of a device and its announcement queue.
  \<^item> \<open>Button_Policy\<close>: \<open>presentation/src/button.rs\<close>, taps, holds and the turns a button starts.
  \<^item> \<open>Frame_Codec\<close>: \<open>esphome/src/frame.rs\<close>, plaintext frames and the incremental decoder.

  \<^bold>\<open>How the model corresponds to the code.\<close> A struct is a record, an enum a datatype, each method a
  function on the record that returns the changed record, with \<open>Inl\<close> for \<open>Err\<close>. Wire fields are words
  of their width; sample positions and clock readings, \<open>u64\<close> in the code, are natural numbers with
  every saturation written out. Where the code would panic (an index out of range, an underflow)
  the model returns \<open>None\<close>, and it is proved that this never happens. Loops over positions
  (\<open>segments_from\<close>, \<open>release_loop\<close>, \<open>settle_from\<close>) are total functions with a measure, so no fuel is
  used anywhere. A random subscription ID is an argument of the operation that draws it, the Unicode
  tables are an argument of the text rules (record \<open>unicode\<close>), the rounding of floating point an
  argument of the levels and the attribution (record \<open>rounding\<close>; values are real numbers), and the
  local grammar, a trait object in the code, an argument of the policy. The command link of a device, a trait
  object too, is what it answers: arguments of the focus lease, and the record \<open>render_link\<close>, a function of
  the calls made on it so far, for the render client. The tokens that cancel a wake grant are a predicate
  of the arbiter, and the epochs drawn at random a list of draws.

  \<^bold>\<open>What is proved.\<close> The wire format is canonical and parsed packets are sound. The buffer refines a
  partial map in which the first copy of a position wins; reads tile and tell the truth. The
  registry rejects without effect and accepts in order. A release delivers in order, without hole
  or overlap, exactly the held records. A whole session never panics, accounts for every
  subscription exactly once, holds nothing while muted, keeps erased epochs erased, and its polls
  leave nothing due. Evidence is released once and in sample order whatever order it arrives in; the
  judged text is always the one worked out afresh; a class is given exactly on its evidence; and
  whatever reaches a turn, its decisions are a run of a small protocol (command speech starts once,
  each text is asked about once, a provisional end is revoked or committed after the lookahead)
  that ends exactly once; its commits are sound. A wake is decided as its first evidence before the deadline
  deserves, never unverified, and won by one device. A focus lease counted as held is held by the device and ends
  once. Playbacks carry the audio accepted for them, in order and within the device's window, whatever the
  link answers, and end once; a poll leaves nothing due. The media player has one stream, resumes where it
  paused, finishes every announcement once and always reports the state it has. Every tap is reported
  once. Frames round trip, however the bytes are cut into pieces.

  \<^bold>\<open>Not modelled.\<close> JSON control messages and their serialisation, Debug and Display texts, and the
  crates and tasks around these parts (sessions and sockets, the recorder, settings and the database, speech
  models, echo estimation, grammar and correction, the dashboard): they are asynchronous I/O, bindings,
  tables, SQL or floating-point signal processing.
\<close>

end
